(* ===== verification/SimPrelude.thy ===== *)
theory SimPrelude
  imports Complex_Main "HOL-Library.AList" "HOL-Library.Multiset"
begin

text \<open>
  Shared vocabulary of the development.
  \<^item> \<open>time\<close>: the virtual clock. Python's finite floats are rationals, so a rational holds every
    value the clock can take; the rounding of \<open>+\<close> and \<open>-\<close> is not modelled.
  \<^item> \<open>exn\<close>: the exceptions the modelled code raises or passes on. Messages are not modelled,
    except for \<open>UserExc\<close>, whose type name and message the shrinker compares.
  \<^item> \<open>outcome\<close>: a call that changes state and either returns or raises. Python keeps every
    mutation made before the raise, so the state is carried by both constructors.
  \<^item> \<open>dict_set\<close>, \<open>dict_get\<close>, \<open>dict_pop\<close>: insertion-ordered dictionaries as association
    lists. \<open>AList.update\<close> overwrites in place and appends a new key at the end, which is the
    order Python's \<open>dict\<close> keeps.
\<close>

named_theorems sim_simps \<open>unfolding rules the component proofs share\<close>
named_theorems inv_intros \<open>introduction rules for component invariants\<close>

type_synonym time = rat
type_synonym hostname = string
type_synonym label = string
type_synonym bytes = string

datatype exn =
    ValueError | TypeError | RuntimeError | OSError | GaiError | KeyError | IndexError
  | AssertionError | FenceError | DeadlockError | RecursionError
  | ConnectionRefusedError | ConnectionResetError | CancelledError | InvalidStateError | AttributeError
  | SystemExit | KeyboardInterrupt
  | UserExc string string

datatype 's outcome = Ret (result_state: 's) | Exc exn (result_state: 's)

fun andthen :: "'s outcome \<Rightarrow> ('s \<Rightarrow> 's outcome) \<Rightarrow> 's outcome" where
  "andthen (Ret s) f = f s"
| "andthen (Exc e s) f = Exc e s"

fun finally_do :: "'s outcome \<Rightarrow> ('s \<Rightarrow> 's) \<Rightarrow> 's outcome" where
  "finally_do (Ret s) f = Ret (f s)"
| "finally_do (Exc e s) f = Exc e (f s)"

lemma andthen_cong [fundef_cong]:
  "r = r' \<Longrightarrow> (\<And>s. r' = Ret s \<Longrightarrow> f s = f' s) \<Longrightarrow> andthen r f = andthen r' f'"
  by (cases r') auto

lemma andthen_Ret_right [simp]: "andthen r Ret = r"
  by (cases r) auto

lemma andthen_assoc: "andthen (andthen r f) g = andthen r (\<lambda>s. andthen (f s) g)"
  by (cases r) auto

lemma result_state_finally [simp]: "result_state (finally_do r f) = f (result_state r)"
  by (cases r) auto

lemma andthen_state_induct:
  assumes "P (result_state r)" and "\<And>s. r = Ret s \<Longrightarrow> P (result_state (f s))"
  shows "P (result_state (andthen r f))"
  using assms by (cases r) auto

subsection \<open>Insertion-ordered dictionaries\<close>

type_synonym ('k, 'v) dict = "('k \<times> 'v) list"

abbreviation dict_get :: "('k, 'v) dict \<Rightarrow> 'k \<Rightarrow> 'v option" where
  "dict_get d k \<equiv> map_of d k"

abbreviation dict_set :: "'k \<Rightarrow> 'v \<Rightarrow> ('k, 'v) dict \<Rightarrow> ('k, 'v) dict" where
  "dict_set k v d \<equiv> AList.update k v d"

abbreviation dict_pop :: "'k \<Rightarrow> ('k, 'v) dict \<Rightarrow> ('k, 'v) dict" where
  "dict_pop k d \<equiv> AList.delete k d"

lemma dict_get_set [simp]: "dict_get (dict_set k v d) k' = (if k' = k then Some v else dict_get d k')"
  by (simp add: update_conv')

lemma dict_get_pop [simp]: "dict_get (dict_pop k d) k' = (if k' = k then None else dict_get d k')"
  by (simp add: delete_conv')

lemma dict_set_new: "k \<notin> fst ` set d \<Longrightarrow> dict_set k v d = d @ [(k, v)]"
  by (induction d) auto

lemma dict_get_None_iff: "dict_get d k = None \<longleftrightarrow> k \<notin> fst ` set d"
  by (rule map_of_eq_None_iff)

lemma fst_set_dict_set: "fst ` set (dict_set k v d) = insert k (fst ` set d)"
  by (induction d) auto

lemma fst_set_dict_pop: "fst ` set (dict_pop k d) = fst ` set d - {k}"
  by (induction d) auto

lemma map_fst_dict_set_old: "k \<in> fst ` set d \<Longrightarrow> map fst (dict_set k v d) = map fst d"
  by (induction d) auto

subsection \<open>Lists\<close>

definition remove_nth :: "nat \<Rightarrow> 'a list \<Rightarrow> 'a list" where
  \<comment> \<open>what \<open>list.pop(index)\<close> leaves behind\<close>
  "remove_nth i xs = take i xs @ drop (Suc i) xs"

lemma length_remove_nth: "i < length xs \<Longrightarrow> length (remove_nth i xs) = length xs - 1"
  by (simp add: remove_nth_def)

lemma mset_remove_nth: "i < length xs \<Longrightarrow> mset xs = add_mset (xs ! i) (mset (remove_nth i xs))"
  by (simp add: remove_nth_def id_take_nth_drop [of i xs, symmetric]
      flip: mset_append add_mset_add_single)
    (metis id_take_nth_drop mset.simps(2) mset_append union_mset_add_mset_right)

lemma set_remove_nth_subset: "set (remove_nth i xs) \<subseteq> set xs"
  using set_take_subset [of i xs] set_drop_subset [of "Suc i" xs] by (auto simp: remove_nth_def)

lemma distinct_remove_nth:
  assumes "distinct xs" and "i < length xs"
  shows "distinct (remove_nth i xs) \<and> xs ! i \<notin> set (remove_nth i xs)"
proof -
  have "mset xs = mset (xs ! i # remove_nth i xs)"
    using mset_remove_nth [OF assms(2)] by simp
  then have "distinct (xs ! i # remove_nth i xs)"
    using assms(1) mset_eq_imp_distinct_iff by blast
  then show ?thesis by simp
qed

lemma remove_nth_0 [simp]: "remove_nth 0 xs = tl xs"
  by (cases xs) (auto simp: remove_nth_def)

fun index_where :: "('a \<Rightarrow> bool) \<Rightarrow> 'a list \<Rightarrow> nat option" where
  "index_where P [] = None"
| "index_where P (x # xs) = (if P x then Some 0 else map_option Suc (index_where P xs))"

lemma index_where_Some:
  "index_where P xs = Some i \<longleftrightarrow> i < length xs \<and> P (xs ! i) \<and> (\<forall>j<i. \<not> P (xs ! j))"
proof (induction xs arbitrary: i)
  case (Cons x xs)
  show ?case
    by (cases i) (auto simp: Cons.IH less_Suc_eq_0_disj nth_Cons')
qed simp

lemma index_where_None: "index_where P xs = None \<longleftrightarrow> (\<forall>x\<in>set xs. \<not> P x)"
  by (induction xs) auto

lemma index_where_map: "index_where P (map f xs) = index_where (\<lambda>x. P (f x)) xs"
  by (induction xs) auto

lemma enumerate_Suc_map: "enumerate (Suc n) xs = map (\<lambda>(j, x). (Suc j, x)) (enumerate n xs)"
  by (induction xs arbitrary: n) auto

end
