(* ===== verification/SimRandom.thy ===== *)
theory SimRandom
  imports SimPrelude
begin

text \<open>
  Python's \<open>random.Random\<close>, as far as the simulation uses it. A seeded generator is a fixed tape
  of raw values read left to right; the tape stands for the Mersenne Twister output of the seed,
  so every theorem quantifies over all of them. Each method turns raw values into its documented
  result: \<open>randrange(n)\<close> into a number below \<open>n\<close>, \<open>random()\<close> into \<open>k / 2^53\<close> with
  \<open>k < 2^53\<close>, \<open>uniform(a, b)\<close> into \<open>a + (b - a) * random()\<close>, \<open>sample(range(n), k)\<close> into
  \<open>k\<close> distinct numbers below \<open>n\<close>.
\<close>

record rng =
  rng_tape :: "nat \<Rightarrow> nat"
  rng_pos :: nat

definition rng_raw :: "rng \<Rightarrow> nat \<times> rng" where
  "rng_raw r = (rng_tape r (rng_pos r), r\<lparr>rng_pos := Suc (rng_pos r)\<rparr>)"

definition randrange :: "rng \<Rightarrow> nat \<Rightarrow> nat \<times> rng" where
  \<comment> \<open>only for \<open>n > 0\<close>; the callers are shown never to ask for \<open>randrange(0)\<close>\<close>
  "randrange r n = (let (x, r') = rng_raw r in (x mod n, r'))"

definition randint_upto :: "rng \<Rightarrow> nat \<Rightarrow> nat \<times> rng" where
  \<comment> \<open>\<open>randint(0, n)\<close>, both ends included\<close>
  "randint_upto r n = randrange r (Suc n)"

definition random_unit :: "rng \<Rightarrow> rat \<times> rng" where
  "random_unit r = (let (x, r') = rng_raw r in (of_nat (x mod 2 ^ 53) / 2 ^ 53, r'))"

definition uniform :: "rng \<Rightarrow> rat \<Rightarrow> rat \<Rightarrow> rat \<times> rng" where
  "uniform r a b = (let (u, r') = random_unit r in (a + (b - a) * u, r'))"

fun sample_pool :: "nat \<Rightarrow> nat list \<Rightarrow> rng \<Rightarrow> nat list \<times> rng" where
  "sample_pool 0 pool r = ([], r)"
| "sample_pool (Suc k) pool r =
     (let (j, r') = randrange r (length pool);
          (rest, r'') = sample_pool k (remove_nth j pool) r'
      in (pool ! j # rest, r''))"

definition sample_range :: "rng \<Rightarrow> nat \<Rightarrow> nat \<Rightarrow> nat list \<times> rng" where
  "sample_range r n k = sample_pool k [0..<n] r"

lemma randrange_less: "0 < n \<Longrightarrow> fst (randrange r n) < n"
  by (simp add: randrange_def rng_raw_def)

lemma randint_upto_le: "fst (randint_upto r n) \<le> n"
  using randrange_less [of "Suc n" r] by (simp add: randint_upto_def)

lemma random_unit_range: "0 \<le> fst (random_unit r) \<and> fst (random_unit r) < 1"
proof -
  have "(of_nat (rng_tape r (rng_pos r) mod 2 ^ 53) :: rat) < of_nat (2 ^ 53)"
    by (simp only: of_nat_less_iff) simp
  then show ?thesis by (simp add: random_unit_def rng_raw_def)
qed

lemma uniform_range:
  assumes "a \<le> b" shows "a \<le> fst (uniform r a b) \<and> fst (uniform r a b) \<le> b"
proof -
  define u where "u = fst (random_unit r)"
  have u: "0 \<le> u" "u < 1" using random_unit_range [of r] by (auto simp: u_def)
  have "(b - a) * u \<le> (b - a) * 1" using assms u by (intro mult_left_mono) auto
  moreover have "0 \<le> (b - a) * u" using assms u by simp
  ultimately show ?thesis by (auto simp: uniform_def u_def split_beta)
qed

lemma sample_pool_spec:
  assumes "k \<le> length pool" and "distinct pool"
  shows "length (fst (sample_pool k pool r)) = k \<and> distinct (fst (sample_pool k pool r)) \<and>
    set (fst (sample_pool k pool r)) \<subseteq> set pool"
  using assms
proof (induction k arbitrary: pool r)
  case (Suc k)
  obtain j r' where j: "randrange r (length pool) = (j, r')" by fastforce
  have jlt: "j < length pool" using randrange_less [of "length pool" r] Suc.prems j by (cases pool) auto
  let ?rest = "remove_nth j pool"
  have "distinct ?rest" and notin: "pool ! j \<notin> set ?rest"
    using distinct_remove_nth [OF \<open>distinct pool\<close> jlt] by auto
  moreover have "k \<le> length ?rest" using Suc.prems jlt by (simp add: length_remove_nth)
  ultimately show ?case
    using Suc.IH [of ?rest r'] j jlt set_remove_nth_subset [of j pool]
    by (auto simp: Let_def split: prod.splits)
qed simp

lemma sample_range_spec:
  assumes "k \<le> n"
  shows "length (fst (sample_range r n k)) = k" "distinct (fst (sample_range r n k))"
    "set (fst (sample_range r n k)) \<subseteq> {..<n}"
  using sample_pool_spec [of k "[0..<n]" r] assms by (auto simp: sample_range_def)

definition demo_rng :: rng where
  "demo_rng = \<lparr>rng_tape = (\<lambda>i. i * 7 + 3), rng_pos = 0\<rparr>"

end
