(* ===== verification/SimPolicy.thy ===== *)
theory SimPolicy
  imports SimRandom
begin

text \<open>
  \<open>src/simloop/_policy.py\<close>: the object that owns the one ordering decision of the loop. A policy
  is shown the ready queue as \<open>(owner, label)\<close> views and answers with an index into it. The
  \<open>SchedulingPolicy\<close> protocol is the locale \<open>scheduling_policy\<close>; the three policies of the
  module and the sum \<open>policy\<close> the loop's field ranges over interpret it. No policy is asked about
  an empty queue: the loop's \<open>_step\<close> advances the clock first (theory \<open>SimLoop\<close>).
\<close>

type_synonym ready_view = "int \<times> label"

definition CHOICE_ITEMSIZE :: nat where
  \<comment> \<open>bytes of a C \<open>unsigned long\<close>, on the LP64 platforms\<close>
  "CHOICE_ITEMSIZE = 8"

definition MAX_CHOICE :: nat where
  "MAX_CHOICE = 2 ^ (8 * CHOICE_ITEMSIZE) - 1"

section \<open>The interface\<close>

locale scheduling_policy =
  fixes pick :: "'p \<Rightarrow> ready_view list \<Rightarrow> nat \<times> 'p"
    and invar :: "'p \<Rightarrow> bool"
  assumes pick_in_range: "invar p \<Longrightarrow> ready \<noteq> [] \<Longrightarrow> fst (pick p ready) < length ready"
    and pick_invar: "invar p \<Longrightarrow> ready \<noteq> [] \<Longrightarrow> invar (snd (pick p ready))"
begin

text \<open>What the loop does with the answer: \<open>pop(index)\<close> takes exactly one entry off the queue.\<close>

lemma pop_chosen:
  assumes "invar p" and "queue \<noteq> []" and "pick p (map view queue) = (i, p')"
  shows "mset queue = add_mset (queue ! i) (mset (remove_nth i queue))" and "invar p'"
    and "i < length queue"
  using pick_in_range [OF assms(1), of "map view queue"]
    pick_invar [OF assms(1), of "map view queue"] assms(2,3)
  by (auto intro: mset_remove_nth)

end

text \<open>A policy that reads the length of the queue and never the views.\<close>

locale length_driven_policy = scheduling_policy +
  assumes pick_length: "length ready = length ready' \<Longrightarrow> pick p ready = pick p ready'"
begin

lemma pick_ignores_views: "pick p (map view queue) = pick p (map view' queue)"
  by (rule pick_length) simp

end

section \<open>SeededPolicy\<close>

record seeded =
  sd_rng :: rng

definition seeded_init :: "rng \<Rightarrow> seeded" where
  "seeded_init r = \<lparr>sd_rng = r\<rparr>"

definition seeded_choose :: "seeded \<Rightarrow> ready_view list \<Rightarrow> nat \<times> seeded" where
  "seeded_choose p ready =
     (let (i, r) = randrange (sd_rng p) (length ready) in (i, p\<lparr>sd_rng := r\<rparr>))"

interpretation seeded_pol: length_driven_policy seeded_choose "\<lambda>_. True"
  by unfold_locales
    (auto simp: seeded_choose_def split_beta Let_def intro: randrange_less)

section \<open>ScriptedPolicy\<close>

record scripted =
  sc_choices :: "nat list"
  sc_step :: nat
  sc_diverged_at :: "nat option"

definition scripted_init :: "int list \<Rightarrow> exn + scripted" where
  "scripted_init recorded =
     (if \<exists>c\<in>set recorded. c < 0 \<or> int MAX_CHOICE < c then Inl ValueError
      else Inr \<lparr>sc_choices = map nat recorded, sc_step = 0, sc_diverged_at = None\<rparr>)"

definition scripted_diverge :: "nat \<Rightarrow> scripted \<Rightarrow> scripted" where
  "scripted_diverge step p =
     (if sc_diverged_at p = None then p\<lparr>sc_diverged_at := Some step\<rparr> else p)"

definition scripted_choose :: "scripted \<Rightarrow> ready_view list \<Rightarrow> nat \<times> scripted" where
  "scripted_choose p ready =
     (let step = sc_step p; p = p\<lparr>sc_step := Suc step\<rparr> in
      if length (sc_choices p) \<le> step then (0, scripted_diverge step p)
      else let choice = sc_choices p ! step in
        if length ready \<le> choice then (length ready - 1, scripted_diverge step p)
        else (choice, p))"

interpretation scripted_pol: length_driven_policy scripted_choose "\<lambda>_. True"
  by unfold_locales (auto simp: scripted_choose_def Let_def)

lemma scripted_diverge_sel [simp]:
  "sc_choices (scripted_diverge k p) = sc_choices p" "sc_step (scripted_diverge k p) = sc_step p"
  "sc_diverged_at (scripted_diverge k p) =
     (if sc_diverged_at p = None then Some k else sc_diverged_at p)"
  by (auto simp: scripted_diverge_def)

lemma scripted_choose_sel [simp]:
  "sc_choices (snd (scripted_choose p ready)) = sc_choices p"
  "sc_step (snd (scripted_choose p ready)) = Suc (sc_step p)"
  by (auto simp: scripted_choose_def Let_def)

text \<open>Driving a policy over the queues of consecutive steps.\<close>

fun choose_seq :: "('p \<Rightarrow> ready_view list \<Rightarrow> nat \<times> 'p) \<Rightarrow> 'p \<Rightarrow> ready_view list list \<Rightarrow> nat list \<times> 'p"
  where
  "choose_seq ch p [] = ([], p)"
| "choose_seq ch p (q # qs) =
     (let (i, p') = ch p q; (rest, p'') = choose_seq ch p' qs in (i # rest, p''))"

definition scripted_answer :: "nat list \<Rightarrow> nat \<Rightarrow> ready_view list \<Rightarrow> nat" where
  "scripted_answer cs k q = (if k < length cs then min (cs ! k) (length q - 1) else 0)"

definition scripted_departs :: "nat list \<Rightarrow> nat \<Rightarrow> ready_view list \<Rightarrow> bool" where
  "scripted_departs cs k q \<longleftrightarrow> length cs \<le> k \<or> length q \<le> cs ! k"

lemma scripted_choose_answer:
  "q \<noteq> [] \<Longrightarrow> fst (scripted_choose p q) = scripted_answer (sc_choices p) (sc_step p) q"
  by (auto simp: scripted_choose_def scripted_answer_def Let_def Suc_le_eq)

lemma scripted_choose_diverged:
  "sc_diverged_at (snd (scripted_choose p q)) =
     (if sc_diverged_at p = None \<and> scripted_departs (sc_choices p) (sc_step p) q
      then Some (sc_step p) else sc_diverged_at p)"
  by (auto simp: scripted_choose_def scripted_departs_def Let_def)

lemma scripted_seq:
  assumes "\<forall>q\<in>set qs. q \<noteq> []"
  shows "fst (choose_seq scripted_choose p qs) =
      map (\<lambda>(j, q). scripted_answer (sc_choices p) (sc_step p + j) q) (enumerate 0 qs) \<and>
    sc_diverged_at (snd (choose_seq scripted_choose p qs)) =
      (case sc_diverged_at p of Some d \<Rightarrow> Some d
       | None \<Rightarrow> map_option ((+) (sc_step p))
           (index_where (\<lambda>(j, q). scripted_departs (sc_choices p) (sc_step p + j) q)
             (enumerate 0 qs)))"
  using assms
proof (induction qs arbitrary: p)
  case (Cons q qs)
  let ?p' = "snd (scripted_choose p q)"
  have plus_fun: "(+) (Suc n) = (\<lambda>x. Suc (n + x))" for n by auto
  note shift = enumerate_Suc_map [of 0 qs] and iw = index_where_map
  have IH: "fst (choose_seq scripted_choose ?p' qs) =
      map (\<lambda>(j, q). scripted_answer (sc_choices p) (Suc (sc_step p) + j) q) (enumerate 0 qs)"
    "sc_diverged_at (snd (choose_seq scripted_choose ?p' qs)) =
      (case sc_diverged_at ?p' of Some d \<Rightarrow> Some d
       | None \<Rightarrow> map_option ((+) (Suc (sc_step p)))
           (index_where (\<lambda>(j, q). scripted_departs (sc_choices p) (Suc (sc_step p) + j) q)
             (enumerate 0 qs)))"
    using Cons.IH [of ?p'] Cons.prems unfolding scripted_choose_sel by simp_all
  show ?case
    using IH Cons.prems
    by (auto simp: shift iw case_prod_unfold Let_def enumerate_simps scripted_choose_answer
        scripted_choose_diverged option.map_comp comp_def plus_fun split: option.splits)
qed (simp split: option.splits)

text \<open>
  C26. A scripted replay, over any sequence of non-empty queues: at step \<open>k\<close> it runs the recorded
  choice, clamped to the last ready callback, and FIFO once the recording is exhausted; and
  \<open>diverged_at\<close> is the first step at which the recording was exhausted or out of range (none when
  the run followed it exactly).
\<close>
theorem scripted_follows_recording:
  assumes "scripted_init recorded = Inr p" and "\<forall>q\<in>set qs. q \<noteq> []"
  shows "fst (choose_seq scripted_choose p qs) =
      map (\<lambda>(k, q). scripted_answer (map nat recorded) k q) (enumerate 0 qs) \<and>
    sc_diverged_at (snd (choose_seq scripted_choose p qs)) =
      index_where (\<lambda>(k, q). scripted_departs (map nat recorded) k q) (enumerate 0 qs)"
proof -
  from assms(1) have p: "sc_choices p = map nat recorded" "sc_step p = 0" "sc_diverged_at p = None"
    by (auto simp: scripted_init_def split: if_splits)
  have "map_option ((+) 0) x = x" for x :: "nat option" by (cases x) auto
  then show ?thesis using scripted_seq [OF assms(2), of p] by (simp add: p)
qed

theorem scripted_follows_recording_witness:
  "let qs = [[(0, ''a''), (1, ''b'')], [(0, ''a'')], [(1, ''b''), (2, ''c'')]];
       p = \<lparr>sc_choices = [1, 5], sc_step = 0, sc_diverged_at = None\<rparr>
   in fst (choose_seq scripted_choose p qs) = [1, 0, 0] \<and>
      sc_diverged_at (snd (choose_seq scripted_choose p qs)) = Some 1"
proof -
  let ?qs = "[[(0, ''a''), (1, ''b'')], [(0, ''a'')], [(1, ''b''), (2, ''c'')]] :: ready_view list list"
  let ?p = "\<lparr>sc_choices = [1, 5], sc_step = 0, sc_diverged_at = None\<rparr> :: scripted"
  have init: "scripted_init [1, 5] = Inr ?p"
    by (simp add: scripted_init_def MAX_CHOICE_def CHOICE_ITEMSIZE_def)
  show ?thesis
    using scripted_follows_recording [OF init, of ?qs]
    by (simp add: scripted_answer_def scripted_departs_def)
qed

section \<open>PCTPolicy\<close>

record pct =
  pct_rng :: rng
  pct_priorities :: "(int, rat) dict"
  pct_floor :: rat
  pct_change_points :: "nat list"
  pct_step_count :: nat

definition pct_init :: "rng \<Rightarrow> int \<Rightarrow> int \<Rightarrow> exn + pct" where
  "pct_init r depth horizon =
     (if depth < 1 then Inl ValueError
      else if horizon < 1 then Inl ValueError
      else if depth - 1 > horizon then Inl ValueError
      else let (points, r') = sample_range r (nat horizon) (nat (depth - 1)) in
        Inr \<lparr>pct_rng = r', pct_priorities = [], pct_floor = 0, pct_change_points = points,
             pct_step_count = 0\<rparr>)"

definition pct_priority :: "int \<Rightarrow> pct \<Rightarrow> rat \<times> pct" where
  "pct_priority own p =
     (case dict_get (pct_priorities p) own of
        Some prio \<Rightarrow> (prio, p)
      | None \<Rightarrow> let (u, r) = random_unit (pct_rng p); prio = u + 1 in
          (prio, p\<lparr>pct_rng := r, pct_priorities := dict_set own prio (pct_priorities p)\<rparr>))"

text \<open>\<open>max(range(len(ready)), key=...)\<close>: every entry is priced in queue order, and an entry replaces
  the best one so far only when its priority is strictly higher.\<close>

fun pct_max :: "ready_view list \<Rightarrow> nat \<Rightarrow> (nat \<times> rat) option \<Rightarrow> pct \<Rightarrow> (nat \<times> rat) option \<times> pct" where
  "pct_max [] i best p = (best, p)"
| "pct_max (v # vs) i best p =
     (let (prio, p') = pct_priority (fst v) p in
      pct_max vs (Suc i)
        (case best of None \<Rightarrow> Some (i, prio)
         | Some (j, b) \<Rightarrow> if b < prio then Some (i, prio) else best) p')"

definition pct_choose :: "pct \<Rightarrow> ready_view list \<Rightarrow> nat \<times> pct" where
  "pct_choose p ready =
     (let step = pct_step_count p;
          (best, p1) = pct_max ready 0 None (p\<lparr>pct_step_count := Suc step\<rparr>);
          index = (case best of Some (i, _) \<Rightarrow> i | None \<Rightarrow> 0)
      in if step \<in> set (pct_change_points p)
         then (index, p1\<lparr>pct_floor := pct_floor p1 - 1,
                 pct_priorities := dict_set (fst (ready ! index)) (pct_floor p1 - 1)
                   (pct_priorities p1)\<rparr>)
         else (index, p1))"

subsection \<open>The leader has the highest priority\<close>

abbreviation pct_known :: "pct \<Rightarrow> int \<Rightarrow> rat option" where
  "pct_known p own \<equiv> dict_get (pct_priorities p) own"

definition pct_ext :: "pct \<Rightarrow> pct \<Rightarrow> bool" where
  \<comment> \<open>pricing owners only adds first draws, which lie in \<open>[1, 2)\<close>\<close>
  "pct_ext p p' \<longleftrightarrow> pct_floor p' = pct_floor p \<and> pct_change_points p' = pct_change_points p \<and>
     pct_step_count p' = pct_step_count p \<and>
     (\<forall>own v. pct_known p own = Some v \<longrightarrow> pct_known p' own = Some v) \<and>
     (\<forall>own v. pct_known p' own = Some v \<longrightarrow> pct_known p own = Some v \<or> (1 \<le> v \<and> v < 2))"

lemma pct_ext_refl: "pct_ext p p"
  by (simp add: pct_ext_def)

lemma pct_ext_trans: "pct_ext p q \<Longrightarrow> pct_ext q r \<Longrightarrow> pct_ext p r"
  unfolding pct_ext_def by metis

lemma pct_ext_known: "pct_ext p p' \<Longrightarrow> pct_known p own = Some v \<Longrightarrow> pct_known p' own = Some v"
  by (simp add: pct_ext_def)

lemma pct_priority_spec:
  assumes "pct_priority own p = (prio, p')"
  shows "pct_known p' own = Some prio" and "pct_ext p p'"
  using assms random_unit_range [of "pct_rng p"]
  by (auto simp: pct_priority_def pct_ext_def Let_def split: option.splits prod.splits if_splits)

definition best_of :: "ready_view list \<Rightarrow> pct \<Rightarrow> (nat \<times> rat) option \<Rightarrow> bool" where
  \<comment> \<open>\<open>best\<close> is the earliest entry of the scanned queue with the highest known priority\<close>
  "best_of vs p best \<longleftrightarrow>
     (case best of None \<Rightarrow> vs = []
      | Some (i, b) \<Rightarrow> i < length vs \<and> pct_known p (fst (vs ! i)) = Some b \<and>
          (\<forall>j<length vs. \<exists>v. pct_known p (fst (vs ! j)) = Some v \<and> v \<le> b \<and> (j < i \<longrightarrow> v < b)))"

lemma best_of_mono:
  assumes "best_of vs p best" and "pct_ext p p'"
  shows "best_of vs p' best"
proof (cases best)
  case None
  with assms(1) show ?thesis by (simp add: best_of_def)
next
  case (Some ib)
  with assms show ?thesis
    by (cases ib) (auto simp: best_of_def dest: pct_ext_known, meson pct_ext_known)
qed

lemma best_of_snoc:
  assumes "best_of vs p best" and "pct_known p (fst v) = Some prio"
  shows "best_of (vs @ [v]) p
    (case best of None \<Rightarrow> Some (length vs, prio)
     | Some (j, b) \<Rightarrow> if b < prio then Some (length vs, prio) else best)"
proof (cases best)
  case None
  with assms show ?thesis by (auto simp: best_of_def)
next
  case (Some jb)
  obtain j b where jb: "jb = (j, b)" by (cases jb)
  have j: "j < length vs" "pct_known p (fst (vs ! j)) = Some b"
    and old: "\<And>k. k < length vs \<Longrightarrow>
      \<exists>v. pct_known p (fst (vs ! k)) = Some v \<and> v \<le> b \<and> (k < j \<longrightarrow> v < b)"
    using assms(1) Some jb by (auto simp: best_of_def)
  show ?thesis
  proof (cases "b < prio")
    case True
    have "\<exists>w. pct_known p (fst (vs ! k)) = Some w \<and> w < prio" if "k < length vs" for k
      using old [OF that] True by (meson le_less_trans)
    then show ?thesis
      using Some jb True assms(2) by (auto simp: best_of_def nth_append less_Suc_eq) (metis less_imp_le)
  next
    case False
    then show ?thesis
      using Some jb assms(2) j old by (auto simp: best_of_def nth_append less_Suc_eq)
  qed
qed

lemma pct_max_spec:
  assumes "best_of seen p best" and "i = length seen" and "pct_max vs i best p = (best', p')"
  shows "best_of (seen @ vs) p' best' \<and> pct_ext p p'"
  using assms
proof (induction vs arbitrary: seen i best p)
  case Nil
  then show ?case by (simp add: pct_ext_refl)
next
  case (Cons v vs)
  obtain prio q where q: "pct_priority (fst v) p = (prio, q)" by fastforce
  note qs = pct_priority_spec [OF q]
  let ?b = "case best of None \<Rightarrow> Some (i, prio)
     | Some (j, b) \<Rightarrow> if b < prio then Some (i, prio) else best"
  have "best_of (seen @ [v]) q ?b"
    unfolding Cons.prems(2) by (rule best_of_snoc [OF best_of_mono [OF Cons.prems(1) qs(2)] qs(1)])
  moreover have "pct_max vs (Suc i) ?b q = (best', p')" using Cons.prems(3) q by simp
  ultimately have "best_of ((seen @ [v]) @ vs) p' best' \<and> pct_ext q p'"
    by (intro Cons.IH) (simp_all add: Cons.prems(2))
  then show ?case using pct_ext_trans [OF qs(2)] by simp
qed

lemma pct_max_None:
  assumes "pct_max vs 0 None p = (best, p')"
  shows "best_of vs p' best" and "pct_ext p p'"
  using pct_max_spec [of "[]" p None 0 vs best p'] assms by (simp_all add: best_of_def)

definition pct_priced :: "pct \<Rightarrow> ready_view list \<Rightarrow> pct" where
  \<comment> \<open>the policy once every ready owner has been priced\<close>
  "pct_priced p ready = snd (pct_max ready 0 None (p\<lparr>pct_step_count := Suc (pct_step_count p)\<rparr>))"

lemma pct_priced_ext: "pct_ext (p\<lparr>pct_step_count := Suc (pct_step_count p)\<rparr>) (pct_priced p ready)"
  by (cases "pct_max ready 0 None (p\<lparr>pct_step_count := Suc (pct_step_count p)\<rparr>)")
    (simp add: pct_priced_def pct_max_None)

lemma pct_choose_leader:
  assumes "ready \<noteq> []"
  obtains i b where "best_of ready (pct_priced p ready) (Some (i, b))"
    and "pct_choose p ready = (i,
      if pct_step_count p \<in> set (pct_change_points p)
      then (pct_priced p ready)\<lparr>pct_floor := pct_floor p - 1,
         pct_priorities := dict_set (fst (ready ! i)) (pct_floor p - 1) (pct_priorities (pct_priced p ready))\<rparr>
      else pct_priced p ready)"
proof -
  obtain best p1 where m: "pct_max ready 0 None (p\<lparr>pct_step_count := Suc (pct_step_count p)\<rparr>) = (best, p1)"
    by fastforce
  note spec = pct_max_None [OF m]
  then obtain i b where best: "best = Some (i, b)"
    using assms by (cases best) (auto simp: best_of_def)
  have "pct_floor p1 = pct_floor p" using spec(2) by (simp add: pct_ext_def)
  then show ?thesis
    using spec best m by (intro that [of i b]) (auto simp: pct_choose_def pct_priced_def)
qed

text \<open>First draws are in \<open>[1, 2)\<close>; a demotion is at or above the floor and at most \<open>-1\<close>.\<close>

definition pct_inv :: "pct \<Rightarrow> bool" where
  "pct_inv p \<longleftrightarrow> pct_floor p \<le> 0 \<and>
     (\<forall>own v. pct_known p own = Some v \<longrightarrow> (1 \<le> v \<and> v < 2) \<or> (pct_floor p \<le> v \<and> v \<le> -1))"

lemma pct_inv_ext: "pct_inv p \<Longrightarrow> pct_ext p p' \<Longrightarrow> pct_inv p'"
  unfolding pct_inv_def pct_ext_def by metis

lemma pct_inv_step_count [simp]: "pct_inv (p\<lparr>pct_step_count := n\<rparr>) = pct_inv p"
  by (simp add: pct_inv_def)

lemma pct_inv_priced: "pct_inv p \<Longrightarrow> pct_inv (pct_priced p ready)"
  by (rule pct_inv_ext [OF _ pct_priced_ext]) simp

lemma pct_inv_demote:
  assumes "pct_inv p"
  shows "pct_inv (p\<lparr>pct_floor := pct_floor p - 1, pct_priorities := dict_set own (pct_floor p - 1) (pct_priorities p)\<rparr>)"
proof -
  have "pct_floor p \<le> 0" using assms by (simp add: pct_inv_def)
  moreover have "pct_floor p - 1 \<le> v \<and> v \<le> -1 \<or> 1 \<le> v \<and> v < 2" if "pct_known p o' = Some v" for o' v
  proof -
    have "(1 \<le> v \<and> v < 2) \<or> (pct_floor p \<le> v \<and> v \<le> -1)"
      using assms that unfolding pct_inv_def by blast
    then show ?thesis by linarith
  qed
  ultimately show ?thesis by (simp add: pct_inv_def) blast
qed

lemma pct_priced_floor [simp]: "pct_floor (pct_priced p ready) = pct_floor p"
  using pct_priced_ext [of p ready] by (simp add: pct_ext_def)

interpretation pct_pol: scheduling_policy pct_choose pct_inv
proof (unfold_locales, goal_cases)
  case (1 p ready)
  then show ?case by (rule_tac pct_choose_leader [of ready p]) (auto simp: best_of_def)
next
  case (2 p ready)
  then show ?case
    using pct_inv_demote [OF pct_inv_priced [of p ready]] pct_inv_priced [of p ready]
    by (rule_tac pct_choose_leader [of ready p]) auto
qed

text \<open>
  C31. PCT runs the leader: after every ready owner has been priced (owners already seen keep their
  priority, new ones draw from \<open>[1, 2)\<close>), the returned index is the earliest entry of the queue
  whose owner has the highest priority.
\<close>
theorem pct_runs_leader:
  assumes "ready \<noteq> []" and "pct_choose p ready = (i, p')"
  shows "i < length ready \<and>
    (\<forall>j<length ready. \<exists>v b. pct_known (pct_priced p ready) (fst (ready ! j)) = Some v \<and>
       pct_known (pct_priced p ready) (fst (ready ! i)) = Some b \<and> v \<le> b \<and> (j < i \<longrightarrow> v < b)) \<and>
    (\<forall>own v. pct_known p own = Some v \<longrightarrow> pct_known (pct_priced p ready) own = Some v) \<and>
    (\<forall>own v. pct_known (pct_priced p ready) own = Some v \<longrightarrow> pct_known p own = Some v \<or> 1 \<le> v \<and> v < 2)"
proof -
  obtain b where "best_of ready (pct_priced p ready) (Some (i, b))"
    using assms(2) by (rule_tac pct_choose_leader [OF assms(1), of p]) simp
  then show ?thesis
    using pct_priced_ext [of p ready] by (simp add: best_of_def pct_ext_def)
qed

definition demo_pct :: pct where
  "demo_pct = \<lparr>pct_rng = demo_rng, pct_priorities = [(0, 3 / 2), (1, -1)], pct_floor = -1,
     pct_change_points = [4], pct_step_count = 4\<rparr>"

lemma demo_pct_choose: "pct_choose demo_pct [(1, ''a''), (0, ''b'')] =
    (1, demo_pct\<lparr>pct_step_count := 5, pct_floor := -2, pct_priorities := [(0, -2), (1, -1)]\<rparr>)"
  by (simp add: pct_choose_def pct_priority_def demo_pct_def)

theorem pct_runs_leader_witness:
  "pct_choose demo_pct [(1, ''a''), (0, ''b'')] =
     (1, demo_pct\<lparr>pct_step_count := 5, pct_floor := -2, pct_priorities := [(0, -2), (1, -1)]\<rparr>) \<and>
   (1::nat) < length [(1::int, ''a''), (0, ''b'')]"
  using pct_runs_leader [OF _ demo_pct_choose] demo_pct_choose by simp

text \<open>
  A change point costs the leader its rank: the demoted owner ends strictly below every other
  owner the policy has seen, at most \<open>-1\<close> and hence below every first draw, and nobody else's
  priority moves. Demotions go ever lower: the floor drops by one each time.
\<close>
lemma pct_demotes_leader:
  assumes "pct_inv p" and "ready \<noteq> []" and "pct_choose p ready = (i, p')"
    and "pct_step_count p \<in> set (pct_change_points p)"
  shows "\<exists>d. pct_known p' (fst (ready ! i)) = Some d \<and> d \<le> -1 \<and> pct_floor p' = pct_floor p - 1 \<and>
    (\<forall>own v. own \<noteq> fst (ready ! i) \<longrightarrow> pct_known p' own = Some v \<longrightarrow>
       d < v \<and> pct_known (pct_priced p ready) own = Some v)"
proof -
  let ?p1 = "pct_priced p ready"
  have p': "p' = ?p1\<lparr>pct_floor := pct_floor p - 1,
      pct_priorities := dict_set (fst (ready ! i)) (pct_floor p - 1) (pct_priorities ?p1)\<rparr>"
    using assms(3,4) by (rule_tac pct_choose_leader [OF assms(2), of p]) simp
  have inv: "pct_inv ?p1" by (rule pct_inv_priced [OF assms(1)])
  have below: "pct_floor p - 1 < v" if "pct_known ?p1 own = Some v" for own v
  proof -
    have "pct_floor p \<le> 0 \<and> ((1 \<le> v \<and> v < 2) \<or> (pct_floor p \<le> v \<and> v \<le> -1))"
      using inv that unfolding pct_inv_def pct_priced_floor by blast
    then show ?thesis by linarith
  qed
  have "pct_floor p \<le> 0" using assms(1) by (simp add: pct_inv_def)
  then show ?thesis using below by (auto simp: p')
qed

lemma demo_pct_inv: "pct_inv demo_pct"
  by (simp add: pct_inv_def demo_pct_def)

text \<open>
  C35. \<open>PCTPolicy\<close> is built exactly when depth and horizon are at least 1 and the horizon has room for
  \<open>depth - 1\<close> change points; it then has exactly that many, pairwise distinct, all inside the
  horizon, and satisfies the policy's invariant.
\<close>
theorem pct_init_change_points:
  "(case pct_init r depth horizon of
      Inl e \<Rightarrow> e = ValueError \<and> (depth < 1 \<or> horizon < 1 \<or> horizon < depth - 1)
    | Inr p \<Rightarrow> 1 \<le> depth \<and> 1 \<le> horizon \<and> depth - 1 \<le> horizon \<and>
        int (length (pct_change_points p)) = depth - 1 \<and> distinct (pct_change_points p) \<and>
        set (pct_change_points p) \<subseteq> {..<nat horizon} \<and> pct_inv p)"
proof -
  have "nat (depth - 1) \<le> nat horizon" if "depth - 1 \<le> horizon" using that by simp
  then show ?thesis
    using sample_range_spec [of "nat (depth - 1)" "nat horizon" r]
    by (auto simp: pct_init_def pct_inv_def Let_def split: prod.splits)
qed

section \<open>The loop's policy field\<close>

datatype policy = SeededP seeded | ScriptedP scripted | PctP pct

fun policy_choose :: "policy \<Rightarrow> ready_view list \<Rightarrow> nat \<times> policy" where
  "policy_choose (SeededP p) ready = map_prod id SeededP (seeded_choose p ready)"
| "policy_choose (ScriptedP p) ready = map_prod id ScriptedP (scripted_choose p ready)"
| "policy_choose (PctP p) ready = map_prod id PctP (pct_choose p ready)"

fun diverged_at :: "policy \<Rightarrow> nat option" where
  "diverged_at (SeededP p) = None"
| "diverged_at (ScriptedP p) = sc_diverged_at p"
| "diverged_at (PctP p) = None"

fun policy_inv :: "policy \<Rightarrow> bool" where
  "policy_inv (SeededP p) = True"
| "policy_inv (ScriptedP p) = True"
| "policy_inv (PctP p) = pct_inv p"

interpretation pol: scheduling_policy policy_choose policy_inv
proof (unfold_locales, goal_cases)
  case (1 p ready)
  then show ?case
    by (cases p) (auto intro: seeded_pol.pick_in_range scripted_pol.pick_in_range pct_pol.pick_in_range)
next
  case (2 p ready)
  then show ?case by (cases p) (auto intro: pct_pol.pick_invar)
qed

end
