(* ===== verification/SimText.thy ===== *)
theory SimText
  imports SimPrelude
begin

text \<open>
  Decimal printing, as \<open>str(n)\<close> and f-strings do it, with the facts the trace serialisation and
  the synthetic addresses rest on: the printed form holds only digits (and a minus sign), it is
  never empty, and it determines the number. \<open>parse_nat\<close> is \<open>int(text)\<close> on a digit string.
\<close>

definition digit_char :: "nat \<Rightarrow> char" where
  "digit_char d = (char_of (48 + d))"

definition char_digit :: "char \<Rightarrow> nat" where
  "char_digit c = of_char c - 48"

definition is_digit :: "char \<Rightarrow> bool" where
  "is_digit c \<longleftrightarrow> 48 \<le> (of_char c :: nat) \<and> (of_char c :: nat) \<le> 57"

fun str_nat :: "nat \<Rightarrow> string" where
  "str_nat n = (if n < 10 then [digit_char n] else str_nat (n div 10) @ [digit_char (n mod 10)])"

declare str_nat.simps [simp del]

definition str_int :: "int \<Rightarrow> string" where
  "str_int i = (if i < 0 then CHR ''-'' # str_nat (nat (- i)) else str_nat (nat i))"

definition parse_nat :: "string \<Rightarrow> nat" where
  "parse_nat s = fold (\<lambda>c n. 10 * n + char_digit c) s 0"

lemma of_char_digit_char: "d < 10 \<Longrightarrow> of_char (digit_char d) = (48 + d :: nat)"
  by (simp add: digit_char_def)

lemma char_digit_digit_char [simp]: "d < 10 \<Longrightarrow> char_digit (digit_char d) = d"
  by (simp add: char_digit_def of_char_digit_char)

lemma is_digit_digit_char [simp]: "d < 10 \<Longrightarrow> is_digit (digit_char d)"
  by (simp add: is_digit_def of_char_digit_char)

lemma str_nat_digits: "c \<in> set (str_nat n) \<Longrightarrow> is_digit c"
proof (induction n rule: str_nat.induct)
  case (1 n)
  then show ?case by (cases "n < 10") (auto simp: str_nat.simps [of n])
qed

lemma str_nat_nonempty [simp]: "str_nat n \<noteq> []"
  by (simp add: str_nat.simps [of n])

lemma parse_str_nat [simp]: "parse_nat (str_nat n) = n"
proof (induction n rule: str_nat.induct)
  case (1 n)
  then show ?case
    by (cases "n < 10") (auto simp: str_nat.simps [of n] parse_nat_def)
qed

lemma str_nat_inject [simp]: "str_nat m = str_nat n \<longleftrightarrow> m = n"
  by (metis parse_str_nat)

lemma digit_not_special:
  "is_digit c \<Longrightarrow> c \<noteq> CHR ''|'' \<and> c \<noteq> CHR ''-'' \<and> c \<noteq> CHR ''.'' \<and> c \<noteq> CHR 0x0A"
  by (auto simp: is_digit_def)

lemma str_int_inject [simp]: "str_int i = str_int j \<longleftrightarrow> i = j"
proof -
  have no_minus: "str_nat n \<noteq> CHR ''-'' # s" for n s
    using str_nat_digits [of "CHR ''-''" n] by (auto simp: is_digit_def)
  then show ?thesis
    using no_minus [symmetric] by (auto simp: str_int_def split: if_splits)
qed

lemma str_int_chars: "c \<in> set (str_int i) \<Longrightarrow> c \<noteq> CHR ''|'' \<and> c \<noteq> CHR 0x0A"
  by (auto simp: str_int_def dest!: str_nat_digits digit_not_special split: if_splits)

subsection \<open>Fields ended by a separator\<close>

text \<open>A field that avoids the separator is determined by the text up to the first separator.\<close>

lemma separator_split:
  assumes "xs @ c # ys = xs' @ c # ys'" and "c \<notin> set xs" and "c \<notin> set xs'"
  shows "xs = xs' \<and> ys = ys'"
  using assms
proof (induction xs arbitrary: xs')
  case Nil
  then show ?case by (cases xs') auto
next
  case (Cons x xs)
  then obtain x' zs where "xs' = x' # zs" by (cases xs') auto
  with Cons.prems Cons.IH [of zs] show ?case by auto
qed

lemma terminated_lines_inject:
  assumes "concat (map (\<lambda>x. f x @ [c]) xs) = concat (map (\<lambda>x. f x @ [c]) ys)"
    and "\<And>x. x \<in> set xs \<Longrightarrow> c \<notin> set (f x)" and "\<And>y. y \<in> set ys \<Longrightarrow> c \<notin> set (f y)"
  shows "map f xs = map f ys"
  using assms
proof (induction xs arbitrary: ys)
  case Nil
  then show ?case by (cases ys) auto
next
  case (Cons x xs)
  then obtain y zs where ys: "ys = y # zs" by (cases ys) auto
  with Cons.prems have "f x = f y \<and>
      concat (map (\<lambda>x. f x @ [c]) xs) = concat (map (\<lambda>x. f x @ [c]) zs)"
    by (intro separator_split [of _ c]) auto
  with Cons.IH [of zs] Cons.prems ys show ?case by auto
qed

end
