(* ===== verification/SimTrace.thy ===== *)
theory SimTrace
  imports SimText
begin

text \<open>
  \<open>src/simloop/_trace.py\<close>: the append-only record of decisions and its serialisation. The
  digest (SHA-256) and the float printer \<open>repr\<close> are standard-library functions and stay
  arguments; what the serialisation needs of \<open>repr\<close> (it determines the float and prints neither
  the separator nor a newline) is a named hypothesis of the theorems that use it.
\<close>

datatype event_kind = Schedule | Run | Advance | Cancel | Net

record trace_event =
  ev_kind :: event_kind
  ev_when :: time
  ev_seq :: int
  ev_label :: label
  ev_host :: hostname

type_synonym recorder = "trace_event list"

definition mk_event :: "event_kind \<Rightarrow> time \<Rightarrow> int \<Rightarrow> label \<Rightarrow> hostname \<Rightarrow> trace_event" where
  "mk_event k w q l h = \<lparr>ev_kind = k, ev_when = w, ev_seq = q, ev_label = l, ev_host = h\<rparr>"

lemma mk_event_sel [simp]:
  "ev_kind (mk_event k w q l h) = k" "ev_when (mk_event k w q l h) = w"
  "ev_seq (mk_event k w q l h) = q" "ev_label (mk_event k w q l h) = l"
  "ev_host (mk_event k w q l h) = h"
  by (simp_all add: mk_event_def)

definition record_event ::
    "event_kind \<Rightarrow> time \<Rightarrow> int \<Rightarrow> label \<Rightarrow> hostname \<Rightarrow> recorder \<Rightarrow> recorder" where
  "record_event k w q l h rec = rec @ [mk_event k w q l h]"

definition recorder_len :: "recorder \<Rightarrow> nat" where
  "recorder_len rec = length rec"

fun kind_name :: "event_kind \<Rightarrow> string" where
  "kind_name Schedule = ''schedule''"
| "kind_name Run = ''run''"
| "kind_name Advance = ''advance''"
| "kind_name Cancel = ''cancel''"
| "kind_name Net = ''net''"

abbreviation newline :: char where "newline \<equiv> CHR 0x0A"

abbreviation bar :: char where "bar \<equiv> CHR ''|''"

definition event_fields :: "(time \<Rightarrow> string) \<Rightarrow> trace_event \<Rightarrow> string" where
  "event_fields repr e = kind_name (ev_kind e) @ bar # repr (ev_when e) @ bar #
     str_int (ev_seq e) @ bar # ev_host e @ bar # ev_label e"

definition serialise :: "(time \<Rightarrow> string) \<Rightarrow> recorder \<Rightarrow> string" where
  "serialise repr rec = concat (map (\<lambda>e. event_fields repr e @ [newline]) rec)"

definition trace_hash :: "(string \<Rightarrow> 'd) \<Rightarrow> (time \<Rightarrow> string) \<Rightarrow> recorder \<Rightarrow> 'd" where
  \<comment> \<open>\<open>digest.update(a); digest.update(b)\<close> is \<open>digest.update(a + b)\<close>\<close>
  "trace_hash digest repr rec = digest (serialise repr rec)"

text \<open>What \<open>SimNetwork.host\<close> and \<open>_label\<close> guarantee of a recorded event.\<close>

definition clean_event :: "trace_event \<Rightarrow> bool" where
  "clean_event e \<longleftrightarrow> bar \<notin> set (ev_host e) \<and> newline \<notin> set (ev_host e) \<and> newline \<notin> set (ev_label e)"

definition clean_repr :: "(time \<Rightarrow> string) \<Rightarrow> bool" where
  "clean_repr repr \<longleftrightarrow> inj repr \<and> (\<forall>w. bar \<notin> set (repr w) \<and> newline \<notin> set (repr w))"

lemma kind_name_inject [simp]: "kind_name k = kind_name k' \<longleftrightarrow> k = k'"
  by (cases k; cases k') auto

lemma kind_name_clean: "bar \<notin> set (kind_name k) \<and> newline \<notin> set (kind_name k)"
  by (cases k) auto

lemma event_fields_inject:
  assumes "clean_repr repr" "clean_event e" "clean_event e'"
    and "event_fields repr e = event_fields repr e'"
  shows "e = e'"
proof -
  have "kind_name (ev_kind e) = kind_name (ev_kind e') \<and>
      repr (ev_when e) @ bar # str_int (ev_seq e) @ bar # ev_host e @ bar # ev_label e =
      repr (ev_when e') @ bar # str_int (ev_seq e') @ bar # ev_host e' @ bar # ev_label e'"
    using assms(4) unfolding event_fields_def
    by (rule separator_split) (simp_all add: kind_name_clean)
  moreover from this have "repr (ev_when e) = repr (ev_when e') \<and>
      str_int (ev_seq e) @ bar # ev_host e @ bar # ev_label e =
      str_int (ev_seq e') @ bar # ev_host e' @ bar # ev_label e'"
    using assms(1) by (intro separator_split [of _ bar]) (auto simp: clean_repr_def)
  moreover from this have "str_int (ev_seq e) = str_int (ev_seq e') \<and>
      ev_host e @ bar # ev_label e = ev_host e' @ bar # ev_label e'"
    using str_int_chars by (intro separator_split [of _ bar]) auto
  moreover from this have "ev_host e = ev_host e' \<and> ev_label e = ev_label e'"
    using assms(2,3) by (intro separator_split [of _ bar]) (auto simp: clean_event_def)
  ultimately show ?thesis
    using assms(1) by (auto simp: clean_repr_def inj_def)
qed

lemma event_fields_no_newline:
  "clean_repr repr \<Longrightarrow> clean_event e \<Longrightarrow> newline \<notin> set (event_fields repr e)"
  using kind_name_clean str_int_chars
  by (auto simp: event_fields_def clean_repr_def clean_event_def)

lemma serialise_inject_aux:
  assumes "clean_repr repr" and "list_all clean_event xs" and "list_all clean_event ys"
    and "serialise repr xs = serialise repr ys"
  shows "xs = ys"
proof -
  have "map (event_fields repr) xs = map (event_fields repr) ys"
    using assms unfolding serialise_def
    by (intro terminated_lines_inject) (auto simp: list_all_iff event_fields_no_newline)
  moreover have "inj_on (event_fields repr) (set xs \<union> set ys)"
    using assms by (intro inj_onI event_fields_inject [of repr]) (auto simp: list_all_iff)
  ultimately show ?thesis by (rule map_inj_on)
qed

text \<open>
  C27. The trace hash identifies a run: for two streams of events whose labels and host names are
  clean, and a digest that does not collide on their serialisations, the hashes are equal exactly
  when the streams are the same, event for event and field for field.
\<close>
theorem trace_hash_identifies_run:
  assumes "clean_repr repr" and "list_all clean_event xs" and "list_all clean_event ys"
    and "inj_on digest {serialise repr xs, serialise repr ys}"
  shows "trace_hash digest repr xs = trace_hash digest repr ys \<longleftrightarrow> xs = ys"
proof
  assume "trace_hash digest repr xs = trace_hash digest repr ys"
  then have "digest (serialise repr xs) = digest (serialise repr ys)"
    by (simp only: trace_hash_def)
  then have "serialise repr xs = serialise repr ys"
    by (rule inj_onD [OF assms(4)]) simp_all
  with assms(1-3) show "xs = ys" by (rule serialise_inject_aux)
qed simp

definition demo_repr :: "time \<Rightarrow> string" where
  "demo_repr w = str_int (fst (quotient_of w)) @ ''/'' @ str_int (snd (quotient_of w))"

lemma clean_demo_repr: "clean_repr demo_repr"
proof -
  have slash: "CHR ''/'' \<notin> set (str_int i)" for i
    by (auto simp: str_int_def is_digit_def dest!: str_nat_digits split: if_splits)
  have "inj demo_repr"
  proof (rule injI)
    fix v w assume "demo_repr v = demo_repr w"
    then have "str_int (fst (quotient_of v)) = str_int (fst (quotient_of w)) \<and>
        str_int (snd (quotient_of v)) = str_int (snd (quotient_of w))"
      unfolding demo_repr_def append_Cons append_Nil by (rule separator_split) (rule slash)+
    then have "quotient_of v = quotient_of w" by (simp add: prod_eq_iff)
    then show "v = w" by (rule quotient_of_inject)
  qed
  then show ?thesis using str_int_chars by (auto simp: clean_repr_def demo_repr_def)
qed

theorem trace_hash_identifies_run_witness:
  "trace_hash (\<lambda>s. s) demo_repr [mk_event Run 1 4 ''f'' ''a''] \<noteq>
   trace_hash (\<lambda>s. s) demo_repr [mk_event Cancel 1 4 ''f'' ''a'']"
proof -
  let ?x = "[mk_event Run 1 4 ''f'' ''a'']" and ?y = "[mk_event Cancel 1 4 ''f'' ''a'']"
  have "trace_hash (\<lambda>s. s) demo_repr ?x = trace_hash (\<lambda>s. s) demo_repr ?y \<longleftrightarrow> ?x = ?y"
    by (rule trace_hash_identifies_run [OF clean_demo_repr]) (simp_all add: clean_event_def)
  then show ?thesis by (simp add: mk_event_def)
qed

end
