(* ===== verification/SimLoop.thy ===== *)
theory SimLoop
  imports SimPolicy SimTrace "HOL-Library.Product_Lexorder"
begin

text \<open>
  \<open>src/simloop/_loop.py\<close>: the scheduling core of \<open>SimLoop\<close>. The state is the record \<open>loop\<close>; the
  network extends it (theory \<open>SimNet\<close>), so every operation is defined on the extensible
  \<open>loop_scheme\<close>. Conventions:
  \<^item> a handle is named by the sequence number it was created with, and \<open>l_cancelled\<close> holds the
    handles whose \<open>cancel()\<close> was called;
  \<^item> the only part of a \<open>Context\<close> the loop reads is the pinned host, so a context is a host name,
    and a call without one copies the ambient \<open>l_current_host\<close>;
  \<^item> what a callback does is the argument \<open>exec\<close>: code of the program under simulation;
  \<^item> the timer heap is kept in pop order: its keys \<open>(when, seq)\<close> are pairwise distinct, so
    \<open>heapq\<close> pops it in exactly that order;
  \<^item> \<open>l_clock_offsets\<close> and \<open>l_host_tasks\<close> are the two fields of \<open>SimNetwork\<close> the loop reads.
\<close>

section \<open>State\<close>

record 'cb callable =
  c_qualname :: "string option"
  c_typename :: string
  c_self :: "nat option" \<comment> \<open>the task a bound method belongs to\<close>
  c_code :: 'cb

definition label_of :: "'cb callable \<Rightarrow> label" where
  "label_of cb = (case c_qualname cb of Some name \<Rightarrow> name | None \<Rightarrow> c_typename cb)"

record 'cb ready_entry =
  e_seq :: nat
  e_label :: label
  e_host :: hostname
  e_callback :: "'cb callable"

record 'cb timer =
  t_when :: time
  t_shown :: time
  t_entry :: "'cb ready_entry"

definition timer_key :: "'cb timer \<Rightarrow> time \<times> nat" where
  "timer_key t = (t_when t, e_seq (t_entry t))"

record 'cb loop =
  l_seed :: int
  l_policy :: policy
  l_choice_log :: "nat list"
  l_user_random :: rng
  l_uuid_random :: rng
  l_now :: time
  l_ready :: "'cb ready_entry list"
  l_timers :: "'cb timer list"
  l_next_seq :: nat
  l_cancelled :: "nat list"
  l_task_owners :: "(nat, nat) dict"
  l_next_owner :: nat
  l_recorder :: recorder
  l_running :: bool
  l_closed :: bool
  l_stopping :: bool
  l_unhandled :: "exn list"
  l_thread_id :: nat
  l_clock_offsets :: "(hostname, time) dict"
  l_host_tasks :: "(hostname, nat list) dict"
  l_current_host :: hostname

definition DRIVER :: hostname where "DRIVER = ''driver''"

definition WIRE :: hostname where "WIRE = ''''"

definition loop_init :: "(int \<Rightarrow> rng) \<Rightarrow> (string \<Rightarrow> rng) \<Rightarrow> int \<Rightarrow> nat \<Rightarrow> 'cb loop" where
  \<comment> \<open>\<open>seeded\<close> and \<open>stream\<close> are \<open>random.Random\<close> applied to a number and to a text\<close>
  "loop_init seeded stream seed thread =
     \<lparr>l_seed = seed, l_policy = SeededP (seeded_init (seeded seed)), l_choice_log = [],
      l_user_random = stream (str_int seed @ '':random''),
      l_uuid_random = stream (str_int seed @ '':uuid''), l_now = 0, l_ready = [], l_timers = [],
      l_next_seq = 0, l_cancelled = [], l_task_owners = [], l_next_owner = 0, l_recorder = [],
      l_running = False, l_closed = False, l_stopping = False, l_unhandled = [],
      l_thread_id = thread, l_clock_offsets = [], l_host_tasks = [(DRIVER, [])],
      l_current_host = DRIVER\<rparr>"

definition set_policy :: "policy \<Rightarrow> ('cb, 'z) loop_scheme \<Rightarrow> ('cb, 'z) loop_scheme" where
  "set_policy p s = s\<lparr>l_policy := p\<rparr>"

definition from_choices ::
    "(int \<Rightarrow> rng) \<Rightarrow> (string \<Rightarrow> rng) \<Rightarrow> int list \<Rightarrow> int \<Rightarrow> nat \<Rightarrow> exn + 'cb loop" where
  "from_choices seeded stream choices fault_seed thread =
     (case scripted_init choices of
        Inl e \<Rightarrow> Inl e
      | Inr p \<Rightarrow> Inr (set_policy (ScriptedP p) (loop_init seeded stream fault_seed thread)))"

section \<open>Clock and scheduling\<close>

definition record_at_now ::
    "event_kind \<Rightarrow> int \<Rightarrow> label \<Rightarrow> hostname \<Rightarrow> ('cb, 'z) loop_scheme \<Rightarrow> ('cb, 'z) loop_scheme" where
  "record_at_now k q lbl h s = s\<lparr>l_recorder := record_event k (l_now s) q lbl h (l_recorder s)\<rparr>"

definition offset_now :: "('cb, 'z) loop_scheme \<Rightarrow> time" where
  "offset_now s = (case dict_get (l_clock_offsets s) (l_current_host s) of Some d \<Rightarrow> d | None \<Rightarrow> 0)"

definition loop_time :: "('cb, 'z) loop_scheme \<Rightarrow> time" where
  "loop_time s = l_now s + offset_now s"

definition true_time :: "('cb, 'z) loop_scheme \<Rightarrow> time" where
  "true_time s = l_now s"

definition check_closed :: "('cb, 'z) loop_scheme \<Rightarrow> ('cb, 'z) loop_scheme outcome" where
  "check_closed s = (if l_closed s then Exc RuntimeError s else Ret s)"

definition new_entry ::
    "'cb callable \<Rightarrow> hostname option \<Rightarrow> ('cb, 'z) loop_scheme \<Rightarrow> 'cb ready_entry" where
  "new_entry cb ctx s =
     \<lparr>e_seq = l_next_seq s, e_label = label_of cb,
      e_host = (case ctx of Some h \<Rightarrow> h | None \<Rightarrow> l_current_host s), e_callback = cb\<rparr>"

definition call_soon ::
    "'cb callable \<Rightarrow> hostname option \<Rightarrow> ('cb, 'z) loop_scheme \<Rightarrow> ('cb, 'z) loop_scheme outcome" where
  "call_soon cb ctx s =
     andthen (check_closed s) (\<lambda>s.
       Ret (record_at_now Schedule (int (l_next_seq s)) (label_of cb) (l_current_host s)
         (s\<lparr>l_next_seq := Suc (l_next_seq s), l_ready := l_ready s @ [new_entry cb ctx s]\<rparr>)))"

definition call_soon_threadsafe ::
    "nat \<Rightarrow> 'cb callable \<Rightarrow> hostname option \<Rightarrow> ('cb, 'z) loop_scheme \<Rightarrow> ('cb, 'z) loop_scheme outcome" where
  "call_soon_threadsafe thread cb ctx s =
     (if thread \<noteq> l_thread_id s then Exc FenceError s else call_soon cb ctx s)"

definition heappush :: "'cb timer \<Rightarrow> 'cb timer list \<Rightarrow> 'cb timer list" where
  "heappush t ts = insort_key timer_key t ts"

definition call_at_true ::
    "time \<Rightarrow> time \<Rightarrow> 'cb callable \<Rightarrow> hostname option \<Rightarrow> ('cb, 'z) loop_scheme \<Rightarrow>
     ('cb, 'z) loop_scheme outcome" where
  "call_at_true when_true shown cb ctx s =
     andthen (check_closed s) (\<lambda>s.
       Ret (record_at_now Schedule (int (l_next_seq s)) (label_of cb) (l_current_host s)
         (s\<lparr>l_next_seq := Suc (l_next_seq s),
            l_timers := heappush \<lparr>t_when = when_true, t_shown = shown, t_entry = new_entry cb ctx s\<rparr>
              (l_timers s)\<rparr>)))"

definition call_later ::
    "time \<Rightarrow> 'cb callable \<Rightarrow> hostname option \<Rightarrow> ('cb, 'z) loop_scheme \<Rightarrow> ('cb, 'z) loop_scheme outcome" where
  "call_later delay cb ctx s =
     (let w = l_now s + delay in call_at_true w (w + offset_now s) cb ctx s)"

definition call_at ::
    "time \<Rightarrow> 'cb callable \<Rightarrow> hostname option \<Rightarrow> ('cb, 'z) loop_scheme \<Rightarrow> ('cb, 'z) loop_scheme outcome" where
  "call_at w cb ctx s = call_at_true (w - offset_now s) w cb ctx s"

definition cancel_handle :: "nat \<Rightarrow> ('cb, 'z) loop_scheme \<Rightarrow> ('cb, 'z) loop_scheme" where
  \<comment> \<open>\<open>asyncio.Handle.cancel\<close>\<close>
  "cancel_handle q s = s\<lparr>l_cancelled := q # l_cancelled s\<rparr>"

definition is_cancelled :: "('cb, 'z) loop_scheme \<Rightarrow> 'cb ready_entry \<Rightarrow> bool" where
  "is_cancelled s e \<longleftrightarrow> e_seq e \<in> set (l_cancelled s)"

definition record_entry ::
    "event_kind \<Rightarrow> 'cb ready_entry \<Rightarrow> ('cb, 'z) loop_scheme \<Rightarrow> ('cb, 'z) loop_scheme" where
  "record_entry k e s = record_at_now k (int (e_seq e)) (e_label e) (e_host e) s"

section \<open>One step\<close>

text \<open>The two loops of \<open>_advance_clock\<close>, each popping the head of the heap.\<close>

fun drop_cancelled :: "'cb timer list \<Rightarrow> ('cb, 'z) loop_scheme \<Rightarrow> ('cb, 'z) loop_scheme" where
  "drop_cancelled [] s = s\<lparr>l_timers := []\<rparr>"
| "drop_cancelled (t # ts) s =
     (if is_cancelled s (t_entry t) then drop_cancelled ts (record_entry Cancel (t_entry t) s)
      else s\<lparr>l_timers := t # ts\<rparr>)"

fun release_due :: "'cb timer list \<Rightarrow> ('cb, 'z) loop_scheme \<Rightarrow> ('cb, 'z) loop_scheme" where
  "release_due [] s = s\<lparr>l_timers := []\<rparr>"
| "release_due (t # ts) s =
     (if t_when t \<le> l_now s
      then release_due ts
        (if is_cancelled s (t_entry t) then record_entry Cancel (t_entry t) s
         else s\<lparr>l_ready := l_ready s @ [t_entry t]\<rparr>)
      else s\<lparr>l_timers := t # ts\<rparr>)"

definition advance_clock :: "('cb, 'z) loop_scheme \<Rightarrow> ('cb, 'z) loop_scheme outcome" where
  "advance_clock s =
     (let s1 = drop_cancelled (l_timers s) s in
      case l_timers s1 of
        [] \<Rightarrow> Exc DeadlockError s1
      | t # _ \<Rightarrow>
          let s2 = s1\<lparr>l_now := max (l_now s1) (t_when t)\<rparr>;
              s3 = record_at_now Advance (-1) '''' '''' s2
          in Ret (release_due (l_timers s3) s3))"

definition ready_view_of :: "('cb, 'z) loop_scheme \<Rightarrow> 'cb ready_entry \<Rightarrow> ready_view" where
  "ready_view_of s e =
     (case c_self (e_callback e) of
        Some task \<Rightarrow> (case dict_get (l_task_owners s) task of
            Some own \<Rightarrow> (int own, e_label e)
          | None \<Rightarrow> (-1 - int (e_seq e), e_label e))
      | None \<Rightarrow> (-1 - int (e_seq e), e_label e))"

definition is_exit :: "exn \<Rightarrow> bool" where
  "is_exit x \<longleftrightarrow> x = SystemExit \<or> x = KeyboardInterrupt"

definition default_exception_handler :: "exn option \<Rightarrow> ('cb, 'z) loop_scheme \<Rightarrow> ('cb, 'z) loop_scheme" where
  "default_exception_handler exc s =
     (case exc of Some x \<Rightarrow> s\<lparr>l_unhandled := l_unhandled s @ [x]\<rparr> | None \<Rightarrow> s)"

type_synonym ('cb, 'z) exec = "'cb \<Rightarrow> ('cb, 'z) loop_scheme \<Rightarrow> ('cb, 'z) loop_scheme outcome"

type_synonym ('cb, 'z) handler =
  "(exn option \<Rightarrow> ('cb, 'z) loop_scheme \<Rightarrow> ('cb, 'z) loop_scheme outcome) option"

definition call_exception_handler ::
    "('cb, 'z) handler \<Rightarrow> exn option \<Rightarrow> ('cb, 'z) loop_scheme \<Rightarrow> ('cb, 'z) loop_scheme outcome" where
  "call_exception_handler handler exc s =
     (case handler of
        None \<Rightarrow> Ret (default_exception_handler exc s)
      | Some h \<Rightarrow>
          (case h exc s of
             Ret s' \<Rightarrow> Ret s'
           | Exc x s' \<Rightarrow>
               if is_exit x then Exc x s'
               else Ret (default_exception_handler exc (s'\<lparr>l_unhandled := l_unhandled s' @ [x]\<rparr>))))"

definition run_handle ::
    "('cb, 'z) exec \<Rightarrow> ('cb, 'z) handler \<Rightarrow> 'cb ready_entry \<Rightarrow> ('cb, 'z) loop_scheme \<Rightarrow>
     ('cb, 'z) loop_scheme outcome" where
  \<comment> \<open>\<open>asyncio.Handle._run\<close>: the callback runs in its own context; what it raises goes to the
      loop's exception handler, except the two exceptions that end the process\<close>
  "run_handle exec handler e s =
     (let ambient = l_current_host s;
          r = exec (c_code (e_callback e)) (s\<lparr>l_current_host := e_host e\<rparr>)
      in case finally_do r (\<lambda>s'. s'\<lparr>l_current_host := ambient\<rparr>) of
           Ret s' \<Rightarrow> Ret s'
         | Exc x s' \<Rightarrow>
             if is_exit x then Exc x s' else call_exception_handler handler (Some x) s')"

definition run_chosen ::
    "('cb, 'z) exec \<Rightarrow> ('cb, 'z) handler \<Rightarrow> ('cb, 'z) loop_scheme \<Rightarrow> ('cb, 'z) loop_scheme outcome" where
  "run_chosen exec handler s =
     (let (index, p) = policy_choose (l_policy s) (map (ready_view_of s) (l_ready s)) in
      if MAX_CHOICE < index then Exc AssertionError (s\<lparr>l_policy := p\<rparr>)
      else
        let e = l_ready s ! index;
            s1 = s\<lparr>l_policy := p, l_choice_log := l_choice_log s @ [index],
                   l_ready := remove_nth index (l_ready s)\<rparr>
        in if is_cancelled s1 e then Ret (record_entry Cancel e s1)
           else run_handle exec handler e (record_entry Run e s1))"

definition loop_step ::
    "('cb, 'z) exec \<Rightarrow> ('cb, 'z) handler \<Rightarrow> ('cb, 'z) loop_scheme \<Rightarrow> ('cb, 'z) loop_scheme outcome" where
  "loop_step exec handler s =
     andthen (if l_ready s = [] then advance_clock s else Ret s) (run_chosen exec handler)"

section \<open>Running\<close>

datatype 's run = Finished (run_outcome: "'s outcome") | OutOfFuel 's

fun run_state :: "'s run \<Rightarrow> 's" where
  "run_state (Finished r) = result_state r"
| "run_state (OutOfFuel s) = s"

definition has_work :: "('cb, 'z) loop_scheme \<Rightarrow> bool" where
  "has_work s \<longleftrightarrow> l_ready s \<noteq> [] \<or> l_timers s \<noteq> []"

text \<open>A run may last for ever, so the loop is bounded by fuel: one unit per step.\<close>

fun run_while ::
    "(('cb, 'z) loop_scheme \<Rightarrow> bool) \<Rightarrow> ('cb, 'z) exec \<Rightarrow> ('cb, 'z) handler \<Rightarrow> nat \<Rightarrow>
     ('cb, 'z) loop_scheme \<Rightarrow> ('cb, 'z) loop_scheme run" where
  "run_while guard exec handler fuel s =
     (if \<not> guard s then Finished (Ret s)
      else case fuel of
        0 \<Rightarrow> OutOfFuel s
      | Suc n \<Rightarrow> (case loop_step exec handler s of
            Ret s' \<Rightarrow> run_while guard exec handler n s'
          | Exc x s' \<Rightarrow> Finished (Exc x s')))"

declare run_while.simps [simp del]

definition run_forever ::
    "('cb, 'z) exec \<Rightarrow> ('cb, 'z) handler \<Rightarrow> nat \<Rightarrow> nat \<Rightarrow> ('cb, 'z) loop_scheme \<Rightarrow>
     ('cb, 'z) loop_scheme run" where
  "run_forever exec handler thread fuel s =
     (if l_closed s then Finished (Exc RuntimeError s)
      else if l_running s then Finished (Exc RuntimeError s)
      else case run_while (\<lambda>s. \<not> l_stopping s \<and> has_work s) exec handler fuel
                  (s\<lparr>l_running := True, l_thread_id := thread\<rparr>) of
          Finished r \<Rightarrow> Finished (finally_do r (\<lambda>s. s\<lparr>l_stopping := False, l_running := False\<rparr>))
        | OutOfFuel s' \<Rightarrow> OutOfFuel s')"

definition stop :: "('cb, 'z) loop_scheme \<Rightarrow> ('cb, 'z) loop_scheme" where
  "stop s = s\<lparr>l_stopping := True\<rparr>"

definition register_task :: "nat \<Rightarrow> ('cb, 'z) loop_scheme \<Rightarrow> ('cb, 'z) loop_scheme outcome" where
  \<comment> \<open>\<open>SimNetwork._register_task\<close>, for the host the caller is pinned to\<close>
  "register_task task s =
     (case dict_get (l_host_tasks s) (l_current_host s) of
        None \<Rightarrow> Exc KeyError s
      | Some ts \<Rightarrow> Ret (s\<lparr>l_host_tasks := dict_set (l_current_host s) (ts @ [task]) (l_host_tasks s)\<rparr>))"

definition create_task ::
    "bool \<Rightarrow> nat \<Rightarrow> 'cb callable \<Rightarrow> hostname option \<Rightarrow> ('cb, 'z) loop_scheme \<Rightarrow>
     ('cb, 'z) loop_scheme outcome" where
  \<comment> \<open>\<open>asyncio.Task\<close> queues its first step from its constructor, bound to the task itself\<close>
  "create_task eager task first_step ctx s =
     andthen (check_closed s) (\<lambda>s.
       if eager then Exc FenceError s
       else andthen (call_soon (first_step\<lparr>c_self := Some task\<rparr>) ctx s) (\<lambda>s.
         register_task task
           (s\<lparr>l_task_owners := dict_set task (l_next_owner s) (l_task_owners s),
              l_next_owner := Suc (l_next_owner s)\<rparr>)))"

text \<open>
  \<open>run_until_complete\<close>. The awaited future belongs to the program, so its four operations are
  arguments: \<open>done\<close>, \<open>cancel\<close>, \<open>outcome\<close> (what \<open>fut.result()\<close> raises, if anything) and
  \<open>collect\<close>, what finalising unreachable tasks in \<open>gc.collect()\<close> reports to the loop.
\<close>

record 's awaited =
  aw_done :: "'s \<Rightarrow> bool"
  aw_cancel :: "'s \<Rightarrow> 's"
  aw_outcome :: "'s \<Rightarrow> exn option"
  aw_collect :: "'s \<Rightarrow> 's"

definition await_verdict :: "bool \<Rightarrow> ('cb, 'z) loop_scheme awaited \<Rightarrow> ('cb, 'z) loop_scheme \<Rightarrow>
    ('cb, 'z) loop_scheme outcome" where
  "await_verdict completed fut s =
     (if \<not> completed then
        (case l_unhandled s of x # _ \<Rightarrow> Exc x s | [] \<Rightarrow> Exc DeadlockError s)
      else case aw_outcome fut s of
          Some x \<Rightarrow> Exc x s
        | None \<Rightarrow> (case l_unhandled s of x # _ \<Rightarrow> Exc x s | [] \<Rightarrow> Ret s))"

definition run_until_complete ::
    "('cb, 'z) loop_scheme awaited \<Rightarrow> ('cb, 'z) exec \<Rightarrow> ('cb, 'z) handler \<Rightarrow> nat \<Rightarrow> nat \<Rightarrow> nat \<Rightarrow>
     ('cb, 'z) loop_scheme \<Rightarrow> ('cb, 'z) loop_scheme run" where
  "run_until_complete fut exec handler thread fuel drain_fuel s =
     (case run_forever exec handler thread fuel s of
        OutOfFuel s' \<Rightarrow> OutOfFuel s'
      | Finished (Exc x s') \<Rightarrow> Finished (Exc x s')
      | Finished (Ret s') \<Rightarrow>
          if aw_done fut s' then Finished (await_verdict True fut (aw_collect fut s'))
          else case run_while (\<lambda>s. has_work s \<and> \<not> aw_done fut s) exec handler drain_fuel
                      (aw_cancel fut s') of
              OutOfFuel t \<Rightarrow> OutOfFuel t
            | Finished (Exc x t) \<Rightarrow> Finished (Exc x t)
            | Finished (Ret t) \<Rightarrow> Finished (await_verdict False fut (aw_collect fut t)))"

end
