(* ===== verification/SimDisk.thy ===== *)
theory SimDisk
  imports SimRandom
begin

text \<open>
  \<open>SimDisk\<close> of \<open>src/simloop/_net.py\<close>: a host's storage. Contents are an insertion-ordered
  dictionary; a buffered disk queues its operations in a journal and answers reads through an
  overlay. A journal or overlay entry is \<open>None\<close> where the source writes the \<open>_DELETED\<close> marker.

  The locale \<open>crash_storage\<close> is what a machine relies on of its storage: reads see the writes, a
  sync makes what is read durable, and a crash leaves what some prefix of the unsynced operations
  makes of the durable contents. It is interpreted on the disk's own operations.
\<close>

section \<open>State and operations\<close>

type_synonym key = string

type_synonym 'v journal = "(key \<times> 'v option) list"

record 'v disk =
  d_data :: "(key, 'v) dict"
  d_buffered :: bool
  d_torn :: bool
  d_journal :: "'v journal"
  d_overlay :: "(key, 'v option) dict"

definition disk_init :: "'v disk" where
  "disk_init = \<lparr>d_data = [], d_buffered = False, d_torn = False, d_journal = [], d_overlay = []\<rparr>"

fun apply_entry :: "key \<times> 'v option \<Rightarrow> (key, 'v) dict \<Rightarrow> (key, 'v) dict" where
  "apply_entry (k, None) data = dict_pop k data"
| "apply_entry (k, Some v) data = dict_set k v data"

definition apply_journal :: "'v journal \<Rightarrow> (key, 'v) dict \<Rightarrow> (key, 'v) dict" where
  "apply_journal j data = fold apply_entry j data"

definition disk_sync :: "'v disk \<Rightarrow> 'v disk" where
  "disk_sync d = d\<lparr>d_data := apply_journal (d_journal d) (d_data d), d_journal := [], d_overlay := []\<rparr>"

definition disk_configure :: "bool \<Rightarrow> bool \<Rightarrow> 'v disk \<Rightarrow> 'v disk" where
  "disk_configure buffered torn d = disk_sync d\<lparr>d_buffered := buffered, d_torn := torn\<rparr>"

definition disk_crash :: "rng \<Rightarrow> 'v disk \<Rightarrow> 'v disk \<times> rng" where
  "disk_crash r d =
     (let journal = d_journal d; d = d\<lparr>d_journal := [], d_overlay := []\<rparr> in
      if journal = [] then (d, r)
      else let (kept, r) = (if d_torn d then randint_upto r (length journal) else (0, r))
        in (d\<lparr>d_data := apply_journal (take kept journal) (d_data d)\<rparr>, r))"

definition disk_get :: "'v disk \<Rightarrow> key \<Rightarrow> exn + 'v" where
  "disk_get d k =
     (case dict_get (d_overlay d) k of
        Some None \<Rightarrow> Inl KeyError
      | Some (Some v) \<Rightarrow> Inr v
      | None \<Rightarrow> (case dict_get (d_data d) k of None \<Rightarrow> Inl KeyError | Some v \<Rightarrow> Inr v))"

definition disk_set :: "key \<Rightarrow> 'v \<Rightarrow> 'v disk \<Rightarrow> 'v disk" where
  "disk_set k v d =
     (if \<not> d_buffered d then d\<lparr>d_data := dict_set k v (d_data d)\<rparr>
      else d\<lparr>d_journal := d_journal d @ [(k, Some v)], d_overlay := dict_set k (Some v) (d_overlay d)\<rparr>)"

definition disk_del :: "key \<Rightarrow> 'v disk \<Rightarrow> 'v disk outcome" where
  "disk_del k d =
     (if \<not> d_buffered d then
        (if dict_get (d_data d) k = None then Exc KeyError d
         else Ret (d\<lparr>d_data := dict_pop k (d_data d)\<rparr>))
      else case disk_get d k of
          Inl e \<Rightarrow> Exc e d
        | Inr _ \<Rightarrow> Ret (d\<lparr>d_journal := d_journal d @ [(k, None)], d_overlay := dict_set k None (d_overlay d)\<rparr>))"

definition disk_merged :: "'v disk \<Rightarrow> key list" where
  "disk_merged d =
     filter (\<lambda>k. dict_get (d_overlay d) k \<noteq> Some None) (map fst (d_data d)) @
     map fst (filter (\<lambda>(k, v). k \<notin> fst ` set (d_data d) \<and> v \<noteq> None) (d_overlay d))"

definition disk_iter :: "'v disk \<Rightarrow> key list" where
  "disk_iter d = (if d_overlay d = [] then map fst (d_data d) else disk_merged d)"

definition disk_len :: "'v disk \<Rightarrow> nat" where
  "disk_len d = (if d_overlay d = [] then length (d_data d) else length (disk_merged d))"

section \<open>The invariant: the overlay is the journal, keyed for reading\<close>

definition disk_inv :: "'v disk \<Rightarrow> bool" where
  "disk_inv d \<longleftrightarrow> distinct (map fst (d_data d)) \<and> distinct (map fst (d_overlay d)) \<and>
     (\<not> d_buffered d \<longrightarrow> d_journal d = []) \<and>
     (\<forall>k. dict_get (d_overlay d) k = map_of (rev (d_journal d)) k)"

definition disk_view :: "'v disk \<Rightarrow> key \<Rightarrow> 'v option" where
  \<comment> \<open>what the machine reads\<close>
  "disk_view d k = (case disk_get d k of Inl _ \<Rightarrow> None | Inr v \<Rightarrow> Some v)"

definition disk_durable :: "'v disk \<Rightarrow> key \<Rightarrow> 'v option" where
  \<comment> \<open>what a reboot finds once the queue is gone\<close>
  "disk_durable d = dict_get (d_data d)"

definition apply_op :: "key \<times> 'v option \<Rightarrow> (key \<Rightarrow> 'v option) \<Rightarrow> key \<Rightarrow> 'v option" where
  "apply_op kv m = m(fst kv := snd kv)"

lemma apply_entry_get: "dict_get (apply_entry kv data) = apply_op kv (dict_get data)"
  by (cases kv; cases "snd kv") (auto simp: apply_op_def fun_eq_iff)

lemma apply_journal_get: "dict_get (apply_journal j data) = fold apply_op j (dict_get data)"
  by (induction j arbitrary: data) (auto simp: apply_journal_def apply_entry_get)

lemma fold_apply_op: "fold apply_op j m k = (case map_of (rev j) k of Some v \<Rightarrow> v | None \<Rightarrow> m k)"
proof (induction j rule: rev_induct)
  case (snoc kv j)
  then show ?case by (cases kv) (simp add: apply_op_def)
qed simp

lemma apply_journal_distinct: "distinct (map fst data) \<Longrightarrow> distinct (map fst (apply_journal j data))"
proof (induction j arbitrary: data)
  case (Cons kv j)
  have "distinct (map fst (apply_entry kv data))"
    using Cons.prems by (cases kv; cases "snd kv") (auto simp: distinct_update distinct_delete)
  then show ?case using Cons.IH by (simp add: apply_journal_def)
qed (simp add: apply_journal_def)

lemma disk_view_overlay: "disk_view d k = (case dict_get (d_overlay d) k of Some v \<Rightarrow> v | None \<Rightarrow> dict_get (d_data d) k)"
  by (auto simp: disk_view_def disk_get_def split: option.splits)

lemma disk_view_journal:
  assumes "disk_inv d" shows "disk_view d = fold apply_op (d_journal d) (disk_durable d)"
  using assms by (auto simp: fun_eq_iff disk_view_overlay fold_apply_op disk_durable_def disk_inv_def)

lemma disk_get_view: "disk_get d k = (case disk_view d k of None \<Rightarrow> Inl KeyError | Some v \<Rightarrow> Inr v)"
  by (auto simp: disk_view_def disk_get_def split: option.splits)

lemma disk_inv_init: "disk_inv disk_init"
  by (simp add: disk_inv_def disk_init_def)

lemma disk_inv_sync: "disk_inv d \<Longrightarrow> disk_inv (disk_sync d)"
  by (simp add: disk_inv_def disk_sync_def apply_journal_distinct)

lemma disk_inv_configure: "disk_inv d \<Longrightarrow> disk_inv (disk_configure b t d)"
  by (simp add: disk_inv_def disk_configure_def disk_sync_def apply_journal_distinct)

lemma disk_inv_set: "disk_inv d \<Longrightarrow> disk_inv (disk_set k v d)"
  by (auto simp: disk_inv_def disk_set_def distinct_update)

lemma disk_inv_del: "disk_inv d \<Longrightarrow> disk_inv (result_state (disk_del k d))"
  by (auto simp: disk_inv_def disk_del_def distinct_update distinct_delete split: sum.splits)

lemma disk_crash_cases:
  "\<exists>n. fst (disk_crash r d) = d\<lparr>d_data := apply_journal (take n (d_journal d)) (d_data d),
     d_journal := [], d_overlay := []\<rparr> \<and> n \<le> length (d_journal d) \<and> (\<not> d_torn d \<longrightarrow> n = 0)"
proof (cases "d_journal d = []")
  case True
  then show ?thesis by (intro exI [of _ 0]) (simp add: disk_crash_def apply_journal_def)
next
  case False
  let ?n = "if d_torn d then fst (randint_upto r (length (d_journal d))) else 0"
  have "fst (disk_crash r d) = d\<lparr>d_data := apply_journal (take ?n (d_journal d)) (d_data d),
      d_journal := [], d_overlay := []\<rparr>"
    using False by (auto simp: disk_crash_def Let_def split_beta)
  then show ?thesis by (intro exI [of _ ?n]) (auto intro: randint_upto_le)
qed

lemma disk_inv_crash: "disk_inv d \<Longrightarrow> disk_inv (fst (disk_crash r d))"
  using disk_crash_cases [of r d] by (auto simp: disk_inv_def apply_journal_distinct)

section \<open>What a machine relies on\<close>

datatype 'v disk_op = Write key 'v | Delete key | Sync

fun ideal_op :: "'v disk_op \<Rightarrow> (key \<Rightarrow> 'v option) \<Rightarrow> key \<Rightarrow> 'v option" where
  "ideal_op (Write k v) m = m(k \<mapsto> v)"
| "ideal_op (Delete k) m = m(k := None)"
| "ideal_op Sync m = m"

definition ideal_ops :: "'v disk_op list \<Rightarrow> (key \<Rightarrow> 'v option) \<Rightarrow> key \<Rightarrow> 'v option" where
  "ideal_ops ops m = fold ideal_op ops m"

fun synced_upto :: "'v disk_op list \<Rightarrow> nat" where
  \<comment> \<open>how many operations the last sync made durable\<close>
  "synced_upto [] = 0"
| "synced_upto (op # ops) =
     (if Sync \<in> set ops then Suc (synced_upto ops) else if op = Sync then 1 else 0)"

lemma synced_upto_le: "synced_upto ops \<le> length ops"
  by (induction ops) auto

lemma synced_upto_none: "Sync \<notin> set ops \<Longrightarrow> synced_upto ops = 0"
  by (induction ops) auto

lemma synced_upto_snoc: "synced_upto (ops @ [op]) = (if op = Sync then Suc (length ops) else synced_upto ops)"
  by (induction ops) (auto simp: synced_upto_none)

locale crash_storage =
  fixes inv :: "'s \<Rightarrow> bool" and buffered :: "'s \<Rightarrow> bool" and torn :: "'s \<Rightarrow> bool"
    and queue :: "'s \<Rightarrow> 'v journal" and durable :: "'s \<Rightarrow> key \<Rightarrow> 'v option"
    and perform :: "'v disk_op \<Rightarrow> 's \<Rightarrow> 's" and crash :: "rng \<Rightarrow> 's \<Rightarrow> 's"
  assumes inv_perform: "inv s \<Longrightarrow> inv (perform op s)"
    and mode_perform: "buffered (perform op s) = buffered s" "torn (perform op s) = torn s"
    and unbuffered: "inv s \<Longrightarrow> \<not> buffered s \<Longrightarrow> queue s = []"
    and write_buffered: "inv s \<Longrightarrow> buffered s \<Longrightarrow>
      queue (perform (Write k v) s) = queue s @ [(k, Some v)] \<and> durable (perform (Write k v) s) = durable s"
    and write_through: "inv s \<Longrightarrow> \<not> buffered s \<Longrightarrow> durable (perform (Write k v) s) = (durable s)(k \<mapsto> v)"
    and delete_buffered: "inv s \<Longrightarrow> buffered s \<Longrightarrow> durable (perform (Delete k) s) = durable s \<and>
      (queue (perform (Delete k) s) = queue s @ [(k, None)] \<or>
       queue (perform (Delete k) s) = queue s \<and> fold apply_op (queue s) (durable s) k = None)"
    and delete_through: "inv s \<Longrightarrow> \<not> buffered s \<Longrightarrow> durable (perform (Delete k) s) = (durable s)(k := None)"
    and sync_flushes: "inv s \<Longrightarrow> queue (perform Sync s) = [] \<and>
      durable (perform Sync s) = fold apply_op (queue s) (durable s)"
    and crash_prefix: "\<exists>n\<le>length (queue s). queue (crash r s) = [] \<and>
      durable (crash r s) = fold apply_op (take n (queue s)) (durable s) \<and> (\<not> torn s \<longrightarrow> n = 0)"
begin

abbreviation view :: "'s \<Rightarrow> key \<Rightarrow> 'v option" where
  "view s \<equiv> fold apply_op (queue s) (durable s)"

abbreviation performs :: "'v disk_op list \<Rightarrow> 's \<Rightarrow> 's" where
  "performs ops \<equiv> fold perform ops"

lemma performs_keep: "inv s \<Longrightarrow> inv (performs ops s) \<and> buffered (performs ops s) = buffered s \<and>
    torn (performs ops s) = torn s"
  by (induction ops arbitrary: s) (simp_all add: inv_perform mode_perform)

lemma view_perform:
  assumes "inv s" shows "view (perform op s) = ideal_op op (view s)"
proof (cases "buffered s")
  case True
  show ?thesis
  proof (cases op)
    case (Delete k)
    with delete_buffered [OF assms True, of k] show ?thesis by (auto simp: apply_op_def fun_upd_idem)
  qed (use assms True write_buffered sync_flushes in \<open>auto simp: apply_op_def\<close>)
next
  case False
  then have "queue s = []" "queue (perform op s) = []"
    using assms unbuffered inv_perform mode_perform by auto
  then show ?thesis
    using False assms write_through delete_through sync_flushes by (cases op) auto
qed

lemma view_performs: "inv s \<Longrightarrow> view (performs ops s) = ideal_ops ops (view s)"
  by (induction ops arbitrary: s) (simp_all add: ideal_ops_def view_perform inv_perform)

text \<open>Every prefix of the queue is the state at some moment since the last sync.\<close>

lemma queue_prefix:
  assumes "inv s" and "queue s = []" and "j \<le> length (queue (performs ops s))"
  shows "\<exists>n. synced_upto ops \<le> n \<and> n \<le> length ops \<and>
    fold apply_op (take j (queue (performs ops s))) (durable (performs ops s)) = ideal_ops (take n ops) (durable s) \<and>
    (j = 0 \<and> buffered s \<longrightarrow> n = synced_upto ops)"
  using assms(3)
proof (induction ops arbitrary: j rule: rev_induct)
  case Nil
  with assms(2) show ?case by (simp add: ideal_ops_def)
next
  case (snoc op ops)
  let ?t = "performs ops s" and ?t' = "performs (ops @ [op]) s"
  have t: "inv ?t" "buffered ?t = buffered s" "inv ?t'" using performs_keep assms(1) by blast+
  have whole: "view ?t' = ideal_ops (ops @ [op]) (durable s)"
    using view_performs [OF assms(1), of "ops @ [op]"] assms(2) by simp
  show ?case
  proof (cases "j = length (queue ?t') \<and> (j = 0 \<and> buffered s \<longrightarrow> op = Sync)")
    case True
    then have "take j (queue ?t') = queue ?t'" by simp
    with whole True synced_upto_le [of "ops @ [op]"] show ?thesis
      by (intro exI [of _ "length (ops @ [op])"]) (auto simp: synced_upto_snoc)
  next
    case False
    have "op \<noteq> Sync" using False snoc.prems sync_flushes [OF t(1)] by auto
    have "buffered s"
    proof (rule ccontr)
      assume "\<not> buffered s"
      then have "queue ?t' = []" using unbuffered [OF t(3)] performs_keep [OF assms(1)] by blast
      with False snoc.prems \<open>\<not> buffered s\<close> show False by simp
    qed
    then have q: "durable ?t' = durable ?t" "\<exists>es. queue ?t' = queue ?t @ es \<and> length es \<le> 1"
      using t write_buffered [of ?t] delete_buffered [of ?t] \<open>op \<noteq> Sync\<close>
      by (cases op; force)+
    then have "j \<le> length (queue ?t)" and "take j (queue ?t') = take j (queue ?t)"
      using False snoc.prems \<open>buffered s\<close> by force+
    with snoc.IH [of j] q(1) obtain n where "synced_upto ops \<le> n" "n \<le> length ops"
      "fold apply_op (take j (queue ?t')) (durable ?t') = ideal_ops (take n ops) (durable s)"
      "j = 0 \<and> buffered s \<longrightarrow> n = synced_upto ops" by auto
    then show ?thesis
      using \<open>op \<noteq> Sync\<close> by (intro exI [of _ n]) (auto simp: synced_upto_snoc)
  qed
qed

lemma crash_leaves_a_moment:
  assumes "inv s" and "queue s = []"
  shows "\<exists>n. synced_upto ops \<le> n \<and> n \<le> length ops \<and>
    view (crash r (performs ops s)) = ideal_ops (take n ops) (view s) \<and>
    (buffered s \<and> \<not> torn s \<longrightarrow> n = synced_upto ops)"
proof -
  obtain j where j: "j \<le> length (queue (performs ops s))" "queue (crash r (performs ops s)) = []"
    "durable (crash r (performs ops s)) = fold apply_op (take j (queue (performs ops s))) (durable (performs ops s))"
    "\<not> torn (performs ops s) \<longrightarrow> j = 0"
    using crash_prefix [of "performs ops s" r] by blast
  with queue_prefix [OF assms j(1)] performs_keep [OF assms(1), of ops] assms(2) show ?thesis by auto
qed

end

fun disk_do :: "'v disk_op \<Rightarrow> 'v disk \<Rightarrow> 'v disk" where
  "disk_do (Write k v) d = disk_set k v d"
| "disk_do (Delete k) d = result_state (disk_del k d)"
| "disk_do Sync d = disk_sync d"

interpretation dk: crash_storage disk_inv d_buffered d_torn d_journal disk_durable disk_do
    "\<lambda>r d. fst (disk_crash r d)"
proof (unfold_locales, goal_cases)
  case (1 d op)
  then show ?case by (cases op) (auto intro: disk_inv_set disk_inv_del disk_inv_sync)
next
  case (2 op d)
  then show ?case by (cases op) (auto simp: disk_set_def disk_del_def disk_sync_def split: sum.splits)
next
  case (3 op d)
  then show ?case by (cases op) (auto simp: disk_set_def disk_del_def disk_sync_def split: sum.splits)
next
  case (7 d k)
  then have "disk_view d k = fold apply_op (d_journal d) (disk_durable d) k"
    by (simp add: disk_view_journal)
  then show ?case
    using 7 by (auto simp: disk_del_def disk_durable_def disk_get_view split: option.splits)
next
  case (9 d)
  then show ?case by (simp add: disk_sync_def disk_durable_def apply_journal_get)
next
  case (10 d r)
  then show ?case
    using disk_crash_cases [of r d] by (auto simp: disk_durable_def apply_journal_get)
qed (auto simp: disk_inv_def disk_set_def disk_del_def disk_durable_def fun_eq_iff
    dict_get_None_iff split: sum.splits)

text \<open>
  What the machine reads is the ideal map after the operations it made, buffered or not: a
  write is read back at once, a deleted key is gone, and a sync changes nothing that is read.
\<close>
lemma disk_reads_its_writes:
  assumes "disk_inv d"
  shows "disk_get (fold disk_do ops d) k =
    (case ideal_ops ops (disk_view d) k of None \<Rightarrow> Inl KeyError | Some v \<Rightarrow> Inr v)"
proof -
  have inv: "disk_inv (fold disk_do ops d)" using dk.performs_keep [OF assms] by blast
  then have "disk_view (fold disk_do ops d) = ideal_ops ops (disk_view d)"
    using dk.view_performs [OF assms] assms by (simp add: disk_view_journal)
  then show ?thesis by (simp add: disk_get_view)
qed

definition demo_disk :: "nat disk" where
  "demo_disk = disk_configure True True (disk_set ''term'' 1 disk_init)"

lemma demo_disk_inv: "disk_inv demo_disk" "d_journal demo_disk = []" "d_buffered demo_disk"
  by (simp_all add: demo_disk_def disk_inv_configure disk_inv_set disk_inv_init)
    (simp_all add: disk_configure_def disk_sync_def)

text \<open>
  C21. A crash is a return to an earlier moment: after any operations on a flushed disk, the reboot
  reads the ideal map as it was after some number of them, at least all those before the last
  \<open>sync()\<close>; exactly those when the disk is buffered and does not tear, and all of them when it
  is unbuffered.
\<close>
theorem disk_crash_is_a_moment:
  assumes "disk_inv d" and "d_journal d = []"
  shows "\<exists>n. synced_upto ops \<le> n \<and> n \<le> length ops \<and>
    disk_view (fst (disk_crash r (fold disk_do ops d))) = ideal_ops (take n ops) (disk_view d) \<and>
    (d_buffered d \<and> \<not> d_torn d \<longrightarrow> n = synced_upto ops) \<and>
    (\<not> d_buffered d \<longrightarrow> ideal_ops (take n ops) (disk_view d) = ideal_ops ops (disk_view d))"
proof -
  let ?d' = "fold disk_do ops d"
  have inv: "disk_inv ?d'" using dk.performs_keep [OF assms(1)] by blast
  obtain n where n: "synced_upto ops \<le> n" "n \<le> length ops"
    "disk_view (fst (disk_crash r ?d')) = ideal_ops (take n ops) (disk_view d)"
    "d_buffered d \<and> \<not> d_torn d \<longrightarrow> n = synced_upto ops"
    using dk.crash_leaves_a_moment [OF assms, of ops r] assms(1) inv
    by (auto simp: disk_view_journal disk_inv_crash)
  have "disk_view (fst (disk_crash r ?d')) = ideal_ops ops (disk_view d)" if "\<not> d_buffered d"
  proof -
    have "d_journal ?d' = []"
      using that inv dk.performs_keep [OF assms(1), of ops] by (simp add: disk_inv_def)
    moreover from this have "d_journal (fst (disk_crash r ?d')) = []"
        "disk_durable (fst (disk_crash r ?d')) = disk_durable ?d'"
      by (simp_all add: disk_crash_def disk_durable_def)
    ultimately show ?thesis
      using dk.view_performs [OF assms(1), of ops] inv assms(1) by (simp add: disk_view_journal disk_inv_crash)
  qed
  with n show ?thesis by (intro exI [of _ n]) auto
qed

theorem disk_crash_is_a_moment_witness:
  "\<exists>n. 1 \<le> n \<and> n \<le> 2 \<and>
    disk_view (fst (disk_crash demo_rng (fold disk_do [Sync, Write ''term'' 2] demo_disk))) =
      ideal_ops (take n [Sync, Write ''term'' 2]) (disk_view demo_disk)"
  using disk_crash_is_a_moment [OF demo_disk_inv(1,2), of "[Sync, Write ''term'' 2]" demo_rng] by auto

lemma fst_set_filter: "k \<in> fst ` set (filter (\<lambda>(k, v). P k v) xs) \<longleftrightarrow> (\<exists>v. (k, v) \<in> set xs \<and> P k v)"
  by force

text \<open>
  Iterating a disk lists exactly the keys that read back, each once, and \<open>len\<close> counts them.
\<close>
lemma disk_iter_lists_readable_keys:
  assumes "disk_inv d"
  shows "distinct (disk_iter d) \<and> set (disk_iter d) = {k. disk_view d k \<noteq> None} \<and>
    disk_len d = card {k. disk_view d k \<noteq> None}"
proof -
  have sub: "distinct (map fst (filter P (d_overlay d)))" for P
    using assms by (simp add: disk_inv_def distinct_map_filter)
  have data: "distinct (map fst (d_data d))" using assms by (simp add: disk_inv_def)
  have "distinct (disk_merged d)"
    unfolding disk_merged_def distinct_append by (intro conjI sub distinct_filter data) (auto intro: rev_image_eqI)
  with data have dist: "distinct (disk_iter d)" by (simp add: disk_iter_def)
  have "k \<in> set (disk_iter d) \<longleftrightarrow> disk_view d k \<noteq> None" for k
  proof (cases "dict_get (d_overlay d) k")
    case None
    then have "k \<notin> fst ` set (d_overlay d)" by (simp only: dict_get_None_iff not_False_eq_True)
    then have "k \<in> set (disk_iter d) \<longleftrightarrow> k \<in> fst ` set (d_data d)"
      using None by (auto simp: disk_iter_def disk_merged_def intro: rev_image_eqI)
    then show ?thesis
      using None dict_get_None_iff [of "d_data d" k] by (auto simp: disk_view_overlay)
  next
    case (Some v)
    then have "d_overlay d \<noteq> []" "(k, v) \<in> set (d_overlay d)" by (auto dest: map_of_SomeD)
    moreover have "w = v" if "(k, w) \<in> set (d_overlay d)" for w
      using that Some map_of_is_SomeI [of "d_overlay d" k w] assms unfolding disk_inv_def by simp
    ultimately have "k \<in> fst ` set (filter (\<lambda>(k, v). k \<notin> fst ` set (d_data d) \<and> v \<noteq> None) (d_overlay d)) \<longleftrightarrow>
        k \<notin> fst ` set (d_data d) \<and> v \<noteq> None"
      unfolding fst_set_filter by blast
    then have "k \<in> set (disk_merged d) \<longleftrightarrow> v \<noteq> None"
      using Some by (simp add: disk_merged_def del: not_None_eq) blast
    moreover have "disk_view d k = v" using Some by (simp add: disk_view_overlay)
    ultimately show ?thesis using \<open>d_overlay d \<noteq> []\<close> by (simp add: disk_iter_def)
  qed
  then have set: "set (disk_iter d) = {k. disk_view d k \<noteq> None}" by blast
  moreover have "disk_len d = length (disk_iter d)" by (simp add: disk_len_def disk_iter_def)
  ultimately show ?thesis using dist distinct_card [OF dist] by simp
qed

end
