(* ===== verification/SimNetState.thy ===== *)
theory SimNetState
  imports SimLoop SimDisk
begin

text \<open>
  \<open>SimNetwork\<close> of \<open>src/simloop/_net.py\<close>: its state, the host registry with its synthetic
  addresses, name resolution and configuration. The state \<open>net\<close> extends the loop's record, the
  two objects being mutually linked in the source (\<open>_clock_offsets\<close> and \<open>_tasks\<close> are the
  loop record's \<open>l_clock_offsets\<close> and \<open>l_host_tasks\<close>). Transports, servers and futures are
  objects with identity: each kind has a store, a list that only grows, and an object is the
  index it was created at. Dictionaries keep their insertion order.
\<close>

section \<open>State\<close>

type_synonym addr = "hostname \<times> int"

datatype packet_kind = Dgram | Syn | Accept | Refuse | Data | Fin | Rst

record packet =
  pk_kind :: packet_kind
  pk_src :: hostname
  pk_dst :: hostname
  pk_src_port :: int
  pk_dst_port :: int
  pk_conn :: int
  pk_seq :: int
  pk_payload :: bytes
  pk_uid :: nat

record link =
  lk_latency :: "(time \<times> time) option"
  lk_drop :: "rat option"
  lk_duplicate :: "rat option"

record protocol =
  pr_id :: nat
  pr_buffered :: bool \<comment> \<open>whether it is an \<open>asyncio.BufferedProtocol\<close>\<close>

text \<open>What a handle of the loop runs: the network's own callbacks, or code of the program.\<close>

datatype cb =
    DeliverCb packet
  | FinishCb nat "exn option"
  | LostCb nat
  | UserCb nat

text \<open>\<open>asyncio.Future\<close>: the state and the callbacks waiting for it, with their contexts.\<close>

datatype fut_state = FutPending | FutResult "(nat \<times> protocol) option" | FutFailed exn | FutCancelled

record fut =
  fu_state :: fut_state
  fu_waiters :: "(cb callable \<times> hostname) list"

record server =
  sv_addr :: addr
  sv_closed_fut :: nat

record listener =
  ls_factory :: protocol
  ls_server :: nat

record connect =
  cn_fut :: nat
  cn_factory :: protocol
  cn_local :: addr
  cn_remote :: addr

record inorder =
  io_next :: int
  io_early :: "(int, packet) dict"

record sim_socket =
  sk_park :: "bool option" \<comment> \<open>the parked pair, and whether its held end is still open\<close>
  sk_disposed :: bool

record stream =
  st_conn :: int
  st_local :: addr
  st_remote :: addr
  st_protocol :: "protocol option"
  st_buffered :: bool
  st_out_seq :: int
  st_closing :: bool
  st_closed :: bool
  st_eof_sent :: bool
  st_read_paused :: bool
  st_backlog :: "bytes list"
  st_eof_pending :: bool
  st_write_buffer :: int
  st_protocol_paused :: bool
  st_limits :: "(int \<times> int) option"
  st_extra_socket :: "sim_socket option"
  st_peer_closed :: bool

record dgram =
  dg_local :: addr
  dg_remote :: "addr option"
  dg_protocol :: "protocol option"
  dg_closing :: bool

type_synonym skey = "int \<times> hostname \<times> int"

record net = "cb loop" +
  n_rng :: rng
  n_disk_rng :: rng
  n_hosts :: "hostname list"
  n_addresses :: "(hostname, string) dict"
  n_names :: "(string, hostname) dict"
  n_alive :: "(hostname, bool) dict"
  n_disks :: "(hostname, nat disk) dict"
  n_default_latency :: "time \<times> time"
  n_default_drop :: rat
  n_default_duplicate :: rat
  n_flow_control :: bool
  n_flow_defaults :: "int \<times> int"
  n_links :: "(hostname \<times> hostname, link) dict"
  n_cuts :: "(hostname \<times> hostname) list"
  n_held :: "packet list"
  n_datagrams :: "(addr, nat) dict"
  n_listeners :: "(addr, listener) dict"
  n_streams :: "(skey, nat) dict"
  n_inbound :: "(skey, inorder) dict"
  n_pending :: "(int, connect) dict"
  n_next_conn :: int
  n_next_uid :: nat
  n_next_port :: int
  n_stream_objs :: "stream list"
  n_dgram_objs :: "dgram list"
  n_server_objs :: "server list"
  n_futs :: "fut list"
  n_exception_handler :: "nat option" \<comment> \<open>what \<open>set_exception_handler\<close> installed\<close>
  n_answer :: int \<comment> \<open>what the last call into the program returned\<close>

section \<open>Hosts and addresses\<close>

definition ADDRESS_BASE :: nat where "ADDRESS_BASE = 0x0A070000"

definition ADDRESS_LIMIT :: nat where "ADDRESS_LIMIT = 0xFFFE"

definition FORBIDDEN_NAME_CHARS :: "char list" where
  "FORBIDDEN_NAME_CHARS = [bar, newline, CHR ''>'']"

definition LOCAL_NAMES :: "string list" where
  "LOCAL_NAMES = ['''', ''0.0.0.0'', ''localhost'', ''127.0.0.1'']"

definition format_address :: "nat \<Rightarrow> string" where
  "format_address index =
     (let packed = ADDRESS_BASE + index;
          octet = (\<lambda>shift. str_nat (packed div 2 ^ shift mod 256))
      in octet 24 @ ''.'' @ octet 16 @ ''.'' @ octet 8 @ ''.'' @ octet 0)"

definition net_host :: "hostname \<Rightarrow> net \<Rightarrow> net outcome" where
  "net_host name s =
     (if name \<in> set (n_hosts s) then Ret s
      else if name = '''' then Exc ValueError s
      else if \<exists>ch\<in>set FORBIDDEN_NAME_CHARS. ch \<in> set name then Exc ValueError s
      else let index = length (n_addresses s) + 1 in
        if ADDRESS_LIMIT < index then Exc ValueError s
        else let address = format_address index in
          Ret (s\<lparr>n_hosts := n_hosts s @ [name],
                 n_addresses := dict_set name address (n_addresses s),
                 n_names := dict_set address name (n_names s),
                 n_alive := dict_set name True (n_alive s),
                 l_host_tasks := dict_set name [] (l_host_tasks s)\<rparr>))"

definition net_init :: "(int \<Rightarrow> rng) \<Rightarrow> (string \<Rightarrow> rng) \<Rightarrow> int \<Rightarrow> nat \<Rightarrow> net" where
  "net_init seeded stream seed thread =
     result_state (net_host DRIVER
       (loop.extend (loop_init seeded stream seed thread)
         (net.fields (stream (str_int seed @ '':net'')) (stream (str_int seed @ '':disk''))
            [] [] [] [] [] (0, 0) 0 0 False (16 * 1024, 64 * 1024) [] [] [] [] [] [] [] []
            0 0 49152 [] [] [] [] None 0)))"

definition require_host :: "hostname \<Rightarrow> net \<Rightarrow> exn + hostname" where
  "require_host name s = (if name \<in> set (n_hosts s) then Inr name else Inl OSError)"

definition net_address :: "hostname \<Rightarrow> net \<Rightarrow> exn + string" where
  "net_address name s =
     (case require_host name s of
        Inl e \<Rightarrow> Inl e
      | Inr _ \<Rightarrow> (case dict_get (n_addresses s) name of Some a \<Rightarrow> Inr a | None \<Rightarrow> Inl KeyError))"

definition net_hostname :: "string \<Rightarrow> net \<Rightarrow> exn + hostname" where
  "net_hostname address s =
     (case dict_get (n_names s) address of Some name \<Rightarrow> Inr name | None \<Rightarrow> Inl OSError)"

section \<open>Name resolution\<close>

text \<open>What a caller may pass for a host or a port; other types stand for every other object.\<close>

datatype host_arg = HNone | HStr string | HBytes string | HOther

datatype port_arg = PNone | PInt int | PStr string | POther

definition decoded :: "host_arg \<Rightarrow> host_arg" where
  "decoded host =
     (case host of
        HBytes b \<Rightarrow> if \<forall>c\<in>set b. (of_char c :: nat) < 128 then HStr b else host
      | _ \<Rightarrow> host)"

definition service_port :: "port_arg \<Rightarrow> exn + int" where
  "service_port port =
     (case port of
        PNone \<Rightarrow> Inr 0
      | PInt n \<Rightarrow> Inr n
      | PStr t \<Rightarrow> if t \<noteq> '''' \<and> list_all is_digit t then Inr (int (parse_nat t)) else Inl GaiError
      | POther \<Rightarrow> Inl GaiError)"

definition resolve :: "host_arg \<Rightarrow> net \<Rightarrow> exn + hostname" where
  "resolve host s =
     (case decoded host of
        HStr h \<Rightarrow> (case dict_get (n_names s) h of Some name \<Rightarrow> Inr name | None \<Rightarrow> require_host h s)
      | _ \<Rightarrow> Inl OSError)"

definition lookup_address :: "host_arg \<Rightarrow> net \<Rightarrow> exn + string" where
  "lookup_address host s =
     (let own = (case dict_get (n_addresses s) (l_current_host s) of Some a \<Rightarrow> Inr a | None \<Rightarrow> Inl KeyError) in
      case decoded host of
        HNone \<Rightarrow> own
      | HStr h \<Rightarrow>
          if h \<in> set LOCAL_NAMES then own
          else if dict_get (n_names s) h \<noteq> None then Inr h
          else (case dict_get (n_addresses s) h of None \<Rightarrow> Inl GaiError | Some a \<Rightarrow> Inr a)
      | _ \<Rightarrow> Inl GaiError)"

definition AF_INET :: int where "AF_INET = 2"

definition NI_NUMERICHOST :: int where "NI_NUMERICHOST = 1"

definition SOCKET_KINDS :: "(int \<times> int) list" where
  \<comment> \<open>\<open>(SOCK_STREAM, IPPROTO_TCP), (SOCK_DGRAM, IPPROTO_UDP)\<close> with their Linux numbers\<close>
  "SOCKET_KINDS = [(1, 6), (2, 17)]"

type_synonym addr_info = "int \<times> int \<times> int \<times> string \<times> (string \<times> int)"

definition getaddrinfo :: "host_arg \<Rightarrow> port_arg \<Rightarrow> int \<Rightarrow> int \<Rightarrow> int \<Rightarrow> net \<Rightarrow> exn + addr_info list" where
  "getaddrinfo host port family type proto s =
     (case lookup_address host s of
        Inl e \<Rightarrow> Inl e
      | Inr address \<Rightarrow> (case service_port port of
            Inl e \<Rightarrow> Inl e
          | Inr number \<Rightarrow>
              let rows = map (\<lambda>(kind, protocol). (AF_INET, kind, protocol, '''', (address, number)))
                    (filter (\<lambda>(kind, protocol). (type = 0 \<or> type = kind) \<and> (proto = 0 \<or> proto = protocol))
                      SOCKET_KINDS)
              in if (family \<noteq> 0 \<and> family \<noteq> AF_INET) \<or> rows = [] then Inl GaiError else Inr rows))"

definition getnameinfo :: "string \<Rightarrow> port_arg \<Rightarrow> int \<Rightarrow> net \<Rightarrow> exn + (string \<times> string)" where
  \<comment> \<open>for a well-typed \<open>(str, port)\<close> pair\<close>
  "getnameinfo address port flags s =
     (case (case dict_get (n_names s) address of
              Some name \<Rightarrow> Inr (name, address)
            | None \<Rightarrow> (case dict_get (n_addresses s) address of
                  Some numeric \<Rightarrow> Inr (address, numeric)
                | None \<Rightarrow> Inl GaiError)) of
        Inl e \<Rightarrow> Inl e
      | Inr (name, numeric) \<Rightarrow>
          let resolved = if flags mod 2 = NI_NUMERICHOST then numeric else name in
          (case service_port port of Inl e \<Rightarrow> Inl e | Inr n \<Rightarrow> Inr (resolved, str_int n)))"

definition bind_address :: "string option \<Rightarrow> int \<Rightarrow> net \<Rightarrow> exn + addr" where
  "bind_address host port s =
     (let owner = l_current_host s in
      case host of
        None \<Rightarrow> Inr (owner, port)
      | Some h \<Rightarrow>
          if h \<in> set LOCAL_NAMES then Inr (owner, port)
          else if (case dict_get (n_names s) h of Some n \<Rightarrow> n | None \<Rightarrow> h) \<noteq> owner then Inl OSError
          else Inr (owner, port))"

section \<open>Configuration\<close>

definition check_probability :: "rat \<Rightarrow> exn + rat" where
  "check_probability v = (if 0 \<le> v \<and> v \<le> 1 then Inr v else Inl ValueError)"

definition check_latency :: "time \<times> time \<Rightarrow> exn + (time \<times> time)" where
  "check_latency v = (let (lo, hi) = v in if lo < 0 \<or> hi < lo then Inl ValueError else Inr (lo, hi))"

definition check_limits :: "int option \<Rightarrow> int option \<Rightarrow> exn + (int \<times> int)" where
  "check_limits high low =
     (let high = (case high of Some h \<Rightarrow> h | None \<Rightarrow> (case low of None \<Rightarrow> 64 * 1024 | Some l \<Rightarrow> 4 * l));
          low = (case low of Some l \<Rightarrow> l | None \<Rightarrow> high div 4)
      in if low \<le> high \<and> 0 \<le> low then Inr (low, high) else Inl ValueError)"

definition checked :: "(exn + 'a) \<Rightarrow> ('a \<Rightarrow> 's \<Rightarrow> 's) \<Rightarrow> 's \<Rightarrow> 's outcome" where
  \<comment> \<open>assign a validated value, or raise with everything assigned so far in place\<close>
  "checked v f s = (case v of Inl e \<Rightarrow> Exc e s | Inr x \<Rightarrow> Ret (f x s))"

definition checked_opt :: "'b option \<Rightarrow> ('b \<Rightarrow> exn + 'a) \<Rightarrow> ('a \<Rightarrow> 's \<Rightarrow> 's) \<Rightarrow> 's \<Rightarrow> 's outcome" where
  "checked_opt v chk f s = (case v of None \<Rightarrow> Ret s | Some x \<Rightarrow> checked (chk x) f s)"

definition set_defaults ::
    "(time \<times> time) option \<Rightarrow> rat option \<Rightarrow> rat option \<Rightarrow> net \<Rightarrow> net outcome" where
  "set_defaults latency drop_p dup_p s =
     andthen (checked_opt latency check_latency (\<lambda>v s. s\<lparr>n_default_latency := v\<rparr>) s) (\<lambda>s.
     andthen (checked_opt drop_p check_probability (\<lambda>v s. s\<lparr>n_default_drop := v\<rparr>) s)
       (checked_opt dup_p check_probability (\<lambda>v s. s\<lparr>n_default_duplicate := v\<rparr>)))"

definition no_link :: link where
  "no_link = \<lparr>lk_latency = None, lk_drop = None, lk_duplicate = None\<rparr>"

definition upd_link :: "hostname \<times> hostname \<Rightarrow> (link \<Rightarrow> link) \<Rightarrow> net \<Rightarrow> net" where
  "upd_link k f s = s\<lparr>n_links := dict_set k
     (f (case dict_get (n_links s) k of Some l \<Rightarrow> l | None \<Rightarrow> no_link)) (n_links s)\<rparr>"

definition set_link ::
    "hostname \<Rightarrow> hostname \<Rightarrow> (time \<times> time) option \<Rightarrow> rat option \<Rightarrow> rat option \<Rightarrow> net \<Rightarrow> net outcome" where
  "set_link src dst latency drop_p dup_p s =
     (case (require_host src s, require_host dst s) of
        (Inl e, _) \<Rightarrow> Exc e s
      | (_, Inl e) \<Rightarrow> Exc e s
      | _ \<Rightarrow>
         andthen (checked_opt latency check_latency
           (\<lambda>v. upd_link (src, dst) (\<lambda>l. l\<lparr>lk_latency := Some v\<rparr>)) (upd_link (src, dst) id s)) (\<lambda>s.
         andthen (checked_opt drop_p check_probability
           (\<lambda>v. upd_link (src, dst) (\<lambda>l. l\<lparr>lk_drop := Some v\<rparr>)) s)
           (checked_opt dup_p check_probability
             (\<lambda>v. upd_link (src, dst) (\<lambda>l. l\<lparr>lk_duplicate := Some v\<rparr>)))))"

definition set_clock :: "hostname \<Rightarrow> time \<Rightarrow> net \<Rightarrow> net outcome" where
  "set_clock name offset s =
     checked (require_host name s) (\<lambda>n s. s\<lparr>l_clock_offsets := dict_set n offset (l_clock_offsets s)\<rparr>) s"

definition clock_offset :: "hostname \<Rightarrow> net \<Rightarrow> exn + time" where
  "clock_offset name s =
     (case require_host name s of
        Inl e \<Rightarrow> Inl e
      | Inr n \<Rightarrow> Inr (case dict_get (l_clock_offsets s) n of Some d \<Rightarrow> d | None \<Rightarrow> 0))"

definition host_disk :: "hostname \<Rightarrow> net \<Rightarrow> nat disk" where
  "host_disk name s = (case dict_get (n_disks s) name of Some d \<Rightarrow> d | None \<Rightarrow> disk_init)"

definition set_disk :: "hostname \<Rightarrow> bool \<Rightarrow> bool \<Rightarrow> net \<Rightarrow> net outcome" where
  "set_disk name buffered torn s =
     (case require_host name s of
        Inl e \<Rightarrow> Exc e s
      | Inr n \<Rightarrow>
          if torn \<and> \<not> buffered then Exc ValueError s
          else Ret (s\<lparr>n_disks := dict_set n (disk_configure buffered torn (host_disk n s)) (n_disks s)\<rparr>))"

fun require_hosts :: "hostname list \<Rightarrow> net \<Rightarrow> exn + hostname list" where
  "require_hosts [] s = Inr []"
| "require_hosts (n # ns) s =
     (case require_host n s of
        Inl e \<Rightarrow> Inl e
      | Inr h \<Rightarrow> (case require_hosts ns s of Inl e \<Rightarrow> Inl e | Inr hs \<Rightarrow> Inr (h # hs)))"

definition partition_net :: "hostname list \<Rightarrow> hostname list \<Rightarrow> net \<Rightarrow> net outcome" where
  "partition_net group_a group_b s =
     (case (require_hosts group_a s, require_hosts group_b s) of
        (Inl e, _) \<Rightarrow> Exc e s
      | (_, Inl e) \<Rightarrow> Exc e s
      | (Inr side_a, Inr side_b) \<Rightarrow>
          if side_a = [] \<or> side_b = [] then Exc ValueError s
          else if set side_a \<inter> set side_b \<noteq> {} then Exc ValueError s
          else Ret (s\<lparr>n_cuts := n_cuts s @ List.product side_a side_b\<rparr>))"

definition is_cut :: "hostname \<Rightarrow> hostname \<Rightarrow> net \<Rightarrow> bool" where
  \<comment> \<open>a cut is an unordered pair of hosts\<close>
  "is_cut a b s \<longleftrightarrow> (a, b) \<in> set (n_cuts s) \<or> (b, a) \<in> set (n_cuts s)"

definition resolved :: "hostname \<Rightarrow> hostname \<Rightarrow> net \<Rightarrow> (time \<times> time) \<times> rat \<times> rat" where
  "resolved src dst s =
     (case dict_get (n_links s) (src, dst) of
        None \<Rightarrow> (n_default_latency s, n_default_drop s, n_default_duplicate s)
      | Some l \<Rightarrow>
          (case lk_latency l of Some v \<Rightarrow> v | None \<Rightarrow> n_default_latency s,
           case lk_drop l of Some v \<Rightarrow> v | None \<Rightarrow> n_default_drop s,
           case lk_duplicate l of Some v \<Rightarrow> v | None \<Rightarrow> n_default_duplicate s))"

end
