(* ===== verification/SimTransport.thy ===== *)
theory SimTransport
  imports SimNetState
begin

text \<open>
  The packet pipeline of \<open>SimNetwork\<close> (\<open>_transmit\<close>, \<open>_schedule\<close>, \<open>_blackhole\<close>,
  \<open>heal\<close>) and \<open>src/simloop/_transports.py\<close>. A transport is the index of its record in the
  network's store. Calls into the program (a protocol's methods, a factory, a task) are values of
  \<open>upcall\<close>, run by the argument \<open>up\<close>; what such a call returns is left in \<open>n_answer\<close>.
\<close>

section \<open>The packet pipeline\<close>

definition new_uid :: "net \<Rightarrow> nat \<times> net" where
  "new_uid s = (n_next_uid s, s\<lparr>n_next_uid := Suc (n_next_uid s)\<rparr>)"

definition ephemeral :: "net \<Rightarrow> int \<times> net" where
  "ephemeral s = (n_next_port s, s\<lparr>n_next_port := n_next_port s + 1\<rparr>)"

definition net_trace :: "string \<Rightarrow> packet \<Rightarrow> net \<Rightarrow> net" where
  "net_trace verb pk s =
     record_at_now Net (int (pk_uid pk)) (verb @ '' '' @ pk_src pk @ ''>'' @ pk_dst pk) WIRE s"

definition net_cb :: "string \<Rightarrow> cb \<Rightarrow> cb callable" where
  \<comment> \<open>a bound method of the network or of a transport\<close>
  "net_cb qualname code =
     \<lparr>c_qualname = Some qualname, c_typename = ''method'', c_self = None, c_code = code\<rparr>"

definition deliver_callable :: "packet \<Rightarrow> cb callable" where
  "deliver_callable pk = net_cb ''SimNetwork._deliver'' (DeliverCb pk)"

definition net_schedule :: "packet \<Rightarrow> time \<times> time \<Rightarrow> net \<Rightarrow> net outcome" where
  "net_schedule pk latency s =
     (let s = net_trace ''send'' pk s;
          (delay, r) = uniform (n_rng s) (fst latency) (snd latency)
      in call_later delay (deliver_callable pk) (Some WIRE) (s\<lparr>n_rng := r\<rparr>))"

definition blackhole :: "packet \<Rightarrow> net \<Rightarrow> net" where
  "blackhole pk s =
     (if pk_kind pk = Dgram then net_trace ''drop'' pk s
      else net_trace ''hold'' pk (s\<lparr>n_held := n_held s @ [pk]\<rparr>))"

definition transmit :: "packet \<Rightarrow> net \<Rightarrow> net outcome" where
  "transmit pk s =
     (if is_cut (pk_src pk) (pk_dst pk) s then Ret (blackhole pk s)
      else
        let (latency, drop_p, dup_p) = resolved (pk_src pk) (pk_dst pk) s in
        if pk_kind pk = Dgram then
          let (u, r) = random_unit (n_rng s); s = s\<lparr>n_rng := r\<rparr> in
          if u < drop_p then Ret (net_trace ''drop'' pk s)
          else
            let (v, r) = random_unit (n_rng s); s = s\<lparr>n_rng := r\<rparr> in
            if v < dup_p
            then andthen (net_schedule pk latency (net_trace ''dup'' pk s)) (net_schedule pk latency)
            else net_schedule pk latency s
        else net_schedule pk latency s)"

fun release_all :: "packet list \<Rightarrow> net \<Rightarrow> net outcome" where
  "release_all [] s = Ret s"
| "release_all (pk # pks) s = andthen (transmit pk (net_trace ''release'' pk s)) (release_all pks)"

definition heal :: "net \<Rightarrow> net outcome" where
  "heal s = release_all (n_held s) (s\<lparr>n_cuts := [], n_held := []\<rparr>)"

definition send_stream ::
    "packet_kind \<Rightarrow> hostname \<Rightarrow> hostname \<Rightarrow> int \<Rightarrow> int \<Rightarrow> bytes \<Rightarrow> int \<Rightarrow> int \<Rightarrow> net \<Rightarrow> net outcome" where
  "send_stream kind src dst conn seq payload src_port dst_port s =
     (let (uid, s) = new_uid s in
      transmit \<lparr>pk_kind = kind, pk_src = src, pk_dst = dst, pk_src_port = src_port,
        pk_dst_port = dst_port, pk_conn = conn, pk_seq = seq, pk_payload = payload, pk_uid = uid\<rparr> s)"

definition send_datagram :: "addr \<Rightarrow> addr \<Rightarrow> bytes \<Rightarrow> net \<Rightarrow> net outcome" where
  "send_datagram src dst payload s =
     (case resolve (HStr (fst dst)) s of
        Inl e \<Rightarrow> Exc e s
      | Inr host \<Rightarrow>
          let (uid, s) = new_uid s in
          transmit \<lparr>pk_kind = Dgram, pk_src = fst src, pk_dst = host, pk_src_port = snd src,
            pk_dst_port = snd dst, pk_conn = -1, pk_seq = -1, pk_payload = payload, pk_uid = uid\<rparr> s)"

section \<open>Calls into the program\<close>

datatype transport_ref = StreamRef nat | DgramRef nat

datatype upcall =
    Construct protocol
  | ConnectionMade transport_ref protocol
  | ConnectionLost transport_ref protocol "exn option"
  | DataReceived nat protocol bytes
  | GetBuffer nat protocol nat
  | BufferUpdated nat protocol bytes
  | EofReceived nat protocol
  | PauseWriting nat protocol
  | ResumeWriting nat protocol
  | DatagramReceived nat protocol bytes addr
  | CancelTask nat
  | HandleException nat "exn option"
  | UserCode nat

type_synonym up = "upcall \<Rightarrow> net \<Rightarrow> net outcome"

definition ask :: "up \<Rightarrow> upcall \<Rightarrow> net \<Rightarrow> net outcome" where
  "ask up u s = up u (s\<lparr>n_answer := 0\<rparr>)"

definition net_handler_fun :: "up \<Rightarrow> exn option \<Rightarrow> net \<Rightarrow> net outcome" where
  "net_handler_fun up exc s =
     (case n_exception_handler s of
        None \<Rightarrow> Ret (default_exception_handler exc s)
      | Some h \<Rightarrow> up (HandleException h exc) s)"

definition report_failure :: "up \<Rightarrow> exn \<Rightarrow> net \<Rightarrow> net outcome" where
  "report_failure up exc s = call_exception_handler (Some (net_handler_fun up)) (Some exc) s"

definition shielded :: "up \<Rightarrow> upcall \<Rightarrow> net \<Rightarrow> net outcome" where
  \<comment> \<open>\<open>try: ... except (SystemExit, KeyboardInterrupt): raise; except BaseException: report\<close>\<close>
  "shielded up u s =
     (case up u s of
        Ret s' \<Rightarrow> Ret s'
      | Exc x s' \<Rightarrow> if is_exit x then Exc x s' else report_failure up x s')"

subsection \<open>Futures\<close>

definition new_fut :: "(cb callable \<times> hostname) list \<Rightarrow> net \<Rightarrow> nat \<times> net" where
  "new_fut ws s =
     (length (n_futs s), s\<lparr>n_futs := n_futs s @ [\<lparr>fu_state = FutPending, fu_waiters = ws\<rparr>]\<rparr>)"

definition fut_done :: "nat \<Rightarrow> net \<Rightarrow> bool" where
  "fut_done f s \<longleftrightarrow> fu_state (n_futs s ! f) \<noteq> FutPending"

fun wake_all :: "(cb callable \<times> hostname) list \<Rightarrow> net \<Rightarrow> net outcome" where
  "wake_all [] s = Ret s"
| "wake_all (w # ws) s = andthen (call_soon (fst w) (Some (snd w)) s) (wake_all ws)"

definition settle_fut :: "nat \<Rightarrow> fut_state \<Rightarrow> net \<Rightarrow> net outcome" where
  "settle_fut f st s =
     (if fut_done f s then Exc InvalidStateError s
      else wake_all (fu_waiters (n_futs s ! f))
        (s\<lparr>n_futs := (n_futs s)[f := \<lparr>fu_state = st, fu_waiters = []\<rparr>]\<rparr>))"

section \<open>Stream transports\<close>

definition get_st :: "net \<Rightarrow> nat \<Rightarrow> stream" where
  "get_st s i = n_stream_objs s ! i"

definition upd_st :: "nat \<Rightarrow> (stream \<Rightarrow> stream) \<Rightarrow> net \<Rightarrow> net" where
  "upd_st i f s = s\<lparr>n_stream_objs := (n_stream_objs s)[i := f (n_stream_objs s ! i)]\<rparr>"

definition stream_init :: "int \<Rightarrow> addr \<Rightarrow> addr \<Rightarrow> stream" where
  "stream_init conn local remote =
     \<lparr>st_conn = conn, st_local = local, st_remote = remote, st_protocol = None, st_buffered = False,
      st_out_seq = 1, st_closing = False, st_closed = False, st_eof_sent = False,
      st_read_paused = False, st_backlog = [], st_eof_pending = False, st_write_buffer = 0,
      st_protocol_paused = False, st_limits = None, st_extra_socket = None, st_peer_closed = False\<rparr>"

definition new_stream :: "int \<Rightarrow> addr \<Rightarrow> addr \<Rightarrow> net \<Rightarrow> nat \<times> net" where
  "new_stream conn local remote s =
     (length (n_stream_objs s), s\<lparr>n_stream_objs := n_stream_objs s @ [stream_init conn local remote]\<rparr>)"

definition register_stream :: "int \<Rightarrow> addr \<Rightarrow> addr \<Rightarrow> net \<Rightarrow> nat \<times> net" where
  \<comment> \<open>a transport is entered in \<open>_streams\<close> as soon as it is made\<close>
  "register_stream conn local remote s =
     (let (i, s) = new_stream conn local remote s in
      (i, s\<lparr>n_streams := dict_set (conn, fst local, snd local) i (n_streams s)\<rparr>))"

definition adopt :: "nat \<Rightarrow> protocol option \<Rightarrow> net \<Rightarrow> net" where
  "adopt i p s = upd_st i (\<lambda>t. t\<lparr>st_protocol := p,
     st_buffered := (case p of Some q \<Rightarrow> pr_buffered q | None \<Rightarrow> False)\<rparr>) s"

definition stream_begin :: "up \<Rightarrow> nat \<Rightarrow> protocol \<Rightarrow> net \<Rightarrow> net outcome" where
  "stream_begin up i p s = up (ConnectionMade (StreamRef i) p) (adopt i (Some p) s)"

subsection \<open>Outbound\<close>

definition stream_send :: "packet_kind \<Rightarrow> bytes \<Rightarrow> nat \<Rightarrow> net \<Rightarrow> net outcome" where
  "stream_send kind payload i s =
     (let t = get_st s i in
      send_stream kind (fst (st_local t)) (fst (st_remote t)) (st_conn t) (st_out_seq t) payload
        (snd (st_local t)) (snd (st_remote t))
        (upd_st i (\<lambda>t. t\<lparr>st_out_seq := st_out_seq t + 1\<rparr>) s))"

definition effective_limits :: "nat \<Rightarrow> net \<Rightarrow> int \<times> int" where
  "effective_limits i s = (case st_limits (get_st s i) of Some l \<Rightarrow> l | None \<Rightarrow> n_flow_defaults s)"

definition maybe_pause_protocol :: "up \<Rightarrow> nat \<Rightarrow> net \<Rightarrow> net outcome" where
  "maybe_pause_protocol up i s =
     (let t = get_st s i in
      if st_write_buffer t \<le> snd (effective_limits i s) \<or> st_protocol_paused t then Ret s
      else case st_protocol t of
          None \<Rightarrow> Ret s
        | Some p \<Rightarrow> shielded up (PauseWriting i p) (upd_st i (\<lambda>t. t\<lparr>st_protocol_paused := True\<rparr>) s))"

definition maybe_resume_protocol :: "up \<Rightarrow> nat \<Rightarrow> net \<Rightarrow> net outcome" where
  "maybe_resume_protocol up i s =
     (let t = get_st s i in
      if \<not> st_protocol_paused t \<or> fst (effective_limits i s) < st_write_buffer t then Ret s
      else
        let s = upd_st i (\<lambda>t. t\<lparr>st_protocol_paused := False\<rparr>) s in
        case st_protocol t of None \<Rightarrow> Ret s | Some p \<Rightarrow> shielded up (ResumeWriting i p) s)"

definition release_flow_control :: "up \<Rightarrow> nat \<Rightarrow> net \<Rightarrow> net outcome" where
  "release_flow_control up i s =
     (let t = get_st s i; s = upd_st i (\<lambda>t. t\<lparr>st_write_buffer := 0\<rparr>) s in
      if \<not> st_protocol_paused t then Ret s
      else
        let s = upd_st i (\<lambda>t. t\<lparr>st_protocol_paused := False\<rparr>) s in
        case st_protocol t of None \<Rightarrow> Ret s | Some p \<Rightarrow> shielded up (ResumeWriting i p) s)"

definition charge :: "up \<Rightarrow> nat \<Rightarrow> nat \<Rightarrow> net \<Rightarrow> net outcome" where
  "charge up i n s =
     (if \<not> n_flow_control s then Ret s
      else maybe_pause_protocol up i
        (upd_st i (\<lambda>t. t\<lparr>st_write_buffer := st_write_buffer t + int n\<rparr>) s))"

definition credit :: "up \<Rightarrow> nat \<Rightarrow> nat \<Rightarrow> net \<Rightarrow> net outcome" where
  "credit up i n s =
     (if \<not> n_flow_control s \<or> st_closed (get_st s i) then Ret s
      else maybe_resume_protocol up i
        (upd_st i (\<lambda>t. t\<lparr>st_write_buffer := max 0 (st_write_buffer t - int n)\<rparr>) s))"

definition consumed :: "up \<Rightarrow> nat \<Rightarrow> nat \<Rightarrow> net \<Rightarrow> net outcome" where
  "consumed up i n s =
     (if \<not> n_flow_control s then Ret s
      else
        let t = get_st s i in
        case dict_get (n_streams s) (st_conn t, fst (st_remote t), snd (st_remote t)) of
          None \<Rightarrow> Ret s
        | Some peer \<Rightarrow> credit up peer n s)"

definition stream_write :: "up \<Rightarrow> nat \<Rightarrow> bytes option \<Rightarrow> net \<Rightarrow> net outcome" where
  \<comment> \<open>\<open>None\<close> is an argument that is not bytes-like\<close>
  "stream_write up i data s =
     (case data of
        None \<Rightarrow> Exc TypeError s
      | Some payload \<Rightarrow>
          let t = get_st s i in
          if st_eof_sent t \<or> st_closing t \<or> st_closed t then Exc RuntimeError s
          else if payload = [] then Ret s
          else andthen (stream_send Data payload i s) (charge up i (length payload)))"

fun stream_writelines :: "up \<Rightarrow> nat \<Rightarrow> bytes option list \<Rightarrow> net \<Rightarrow> net outcome" where
  "stream_writelines up i [] s = Ret s"
| "stream_writelines up i (d # ds) s = andthen (stream_write up i d s) (stream_writelines up i ds)"

definition write_eof :: "nat \<Rightarrow> net \<Rightarrow> net outcome" where
  "write_eof i s =
     (let t = get_st s i in
      if st_eof_sent t \<or> st_closed t then Ret s
      else stream_send Fin [] i (upd_st i (\<lambda>t. t\<lparr>st_eof_sent := True\<rparr>) s))"

definition finish_callable :: "nat \<Rightarrow> exn option \<Rightarrow> cb callable" where
  "finish_callable i exc = net_cb ''_SimStreamTransport._finish'' (FinishCb i exc)"

definition stream_close :: "nat \<Rightarrow> net \<Rightarrow> net outcome" where
  "stream_close i s =
     (let t = get_st s i in
      if st_closing t \<or> st_closed t then Ret s
      else
        let s = upd_st i (\<lambda>t. t\<lparr>st_closing := True\<rparr>) s in
        andthen
          (if \<not> st_eof_sent t then stream_send Fin [] i (upd_st i (\<lambda>t. t\<lparr>st_eof_sent := True\<rparr>) s)
           else Ret s)
          (call_soon (finish_callable i None) None))"

definition force_close :: "nat \<Rightarrow> exn option \<Rightarrow> net \<Rightarrow> net outcome" where
  "force_close i exc s =
     (if st_closed (get_st s i) then Ret s
      else andthen (stream_send Rst [] i (upd_st i (\<lambda>t. t\<lparr>st_closing := True\<rparr>) s))
        (call_soon (finish_callable i exc) None))"

definition stream_abort :: "nat \<Rightarrow> net \<Rightarrow> net outcome" where
  "stream_abort i s = force_close i None s"

definition drop_stream :: "int \<Rightarrow> hostname \<Rightarrow> int \<Rightarrow> net \<Rightarrow> net" where
  "drop_stream conn host port s = s\<lparr>n_streams := dict_pop (conn, host, port) (n_streams s)\<rparr>"

definition retire :: "stream \<Rightarrow> stream" where
  "retire t = t\<lparr>st_closed := True, st_closing := True, st_write_buffer := 0, st_protocol_paused := False\<rparr>"

definition stream_finish :: "up \<Rightarrow> nat \<Rightarrow> exn option \<Rightarrow> net \<Rightarrow> net outcome" where
  "stream_finish up i exc s =
     (let t = get_st s i in
      if st_closed t then Ret s
      else
        let s = drop_stream (st_conn t) (fst (st_local t)) (snd (st_local t)) (upd_st i retire s);
            s = upd_st i (\<lambda>t. t\<lparr>
                st_extra_socket := map_option (\<lambda>k. k\<lparr>sk_disposed := True, sk_park := None\<rparr>) (st_extra_socket t),
                st_protocol := None, st_buffered := False\<rparr>) s
        in case st_protocol t of
            None \<Rightarrow> Ret s
          | Some p \<Rightarrow> up (ConnectionLost (StreamRef i) p exc) s)"

subsection \<open>Inbound\<close>

function feed_buffered :: "up \<Rightarrow> nat \<Rightarrow> bytes \<Rightarrow> net \<Rightarrow> net outcome" where
  "feed_buffered up i data s =
     (if data = [] then Ret s
      else case st_protocol (get_st s i) of
          None \<Rightarrow> Exc AttributeError s
        | Some p \<Rightarrow>
            andthen (ask up (GetBuffer i p (length data)) s) (\<lambda>s.
              let room = nat (n_answer s); taken = min room (length data) in
              if room = 0 then Exc RuntimeError s
              else case st_protocol (get_st s i) of
                  None \<Rightarrow> Exc AttributeError s
                | Some p \<Rightarrow> andthen (up (BufferUpdated i p (take taken data)) s)
                    (feed_buffered up i (drop taken data))))"
  by pat_completeness auto

termination
  by (relation "measure (\<lambda>(up, i, data, s). length data)") auto

declare feed_buffered.simps [simp del]

definition stream_deliver :: "up \<Rightarrow> nat \<Rightarrow> bytes \<Rightarrow> net \<Rightarrow> net outcome" where
  "stream_deliver up i data s =
     (if \<not> st_buffered (get_st s i) then
        (case st_protocol (get_st s i) of
           None \<Rightarrow> Exc AttributeError s
         | Some p \<Rightarrow> up (DataReceived i p data) s)
      else feed_buffered up i data s)"

definition data_arrived :: "up \<Rightarrow> nat \<Rightarrow> bytes \<Rightarrow> net \<Rightarrow> net outcome" where
  "data_arrived up i data s =
     (let t = get_st s i in
      if st_closed t then Ret s
      else if st_read_paused t then Ret (upd_st i (\<lambda>t. t\<lparr>st_backlog := st_backlog t @ [data]\<rparr>) s)
      else andthen (stream_deliver up i data s) (consumed up i (length data)))"

definition eof_arrived :: "up \<Rightarrow> nat \<Rightarrow> net \<Rightarrow> net outcome" where
  "eof_arrived up i s =
     (let s = upd_st i (\<lambda>t. t\<lparr>st_peer_closed := True,
            st_extra_socket := map_option (\<lambda>k. k\<lparr>sk_park := map_option (\<lambda>_. False) (sk_park k)\<rparr>)
              (st_extra_socket t)\<rparr>) s;
          t = get_st s i
      in if st_closed t then Ret s
         else if st_read_paused t then Ret (upd_st i (\<lambda>t. t\<lparr>st_eof_pending := True\<rparr>) s)
         else case st_protocol t of
             None \<Rightarrow> Exc AttributeError s
           | Some p \<Rightarrow> andthen (ask up (EofReceived i p) s)
               (\<lambda>s. if n_answer s = 0 then stream_close i s else Ret s))"

definition reset_arrived :: "up \<Rightarrow> nat \<Rightarrow> net \<Rightarrow> net outcome" where
  "reset_arrived up i s =
     (let s = upd_st i (\<lambda>t. t\<lparr>st_peer_closed := True\<rparr>) s in
      if st_closed (get_st s i) then Ret s
      else stream_finish up i (Some ConnectionResetError) s)"

subsection \<open>Read flow control\<close>

definition pause_reading :: "nat \<Rightarrow> net \<Rightarrow> net" where
  "pause_reading i s =
     (let t = get_st s i in
      if st_closed t \<or> st_read_paused t then s else upd_st i (\<lambda>t. t\<lparr>st_read_paused := True\<rparr>) s)"

definition can_drain :: "stream \<Rightarrow> bool" where
  "can_drain t \<longleftrightarrow> st_backlog t \<noteq> [] \<and> \<not> st_read_paused t \<and> \<not> st_closed t"

text \<open>
  The loop of \<open>resume_reading\<close>. Every turn takes one chunk off the backlog, and nothing a
  protocol can call puts one back (bytes arrive only in a step of the loop), so the number of
  chunks at the start bounds the turns.
\<close>

fun drain_backlog :: "nat \<Rightarrow> up \<Rightarrow> nat \<Rightarrow> net \<Rightarrow> net outcome" where
  "drain_backlog fuel up i s =
     (if \<not> can_drain (get_st s i) then Ret s
      else case fuel of
          0 \<Rightarrow> Ret s
        | Suc n \<Rightarrow>
            let chunk = hd (st_backlog (get_st s i)) in
            andthen (stream_deliver up i chunk (upd_st i (\<lambda>t. t\<lparr>st_backlog := tl (st_backlog t)\<rparr>) s)) (\<lambda>s.
            andthen (consumed up i (length chunk) s) (drain_backlog n up i)))"

declare drain_backlog.simps [simp del]

definition resume_reading :: "up \<Rightarrow> nat \<Rightarrow> net \<Rightarrow> net outcome" where
  "resume_reading up i s =
     (let t = get_st s i in
      if st_closed t \<or> \<not> st_read_paused t then Ret s
      else
        andthen (drain_backlog (length (st_backlog t)) up i (upd_st i (\<lambda>t. t\<lparr>st_read_paused := False\<rparr>) s)) (\<lambda>s.
          let t = get_st s i in
          if st_eof_pending t \<and> \<not> st_read_paused t \<and> \<not> st_closed t
          then eof_arrived up i (upd_st i (\<lambda>t. t\<lparr>st_eof_pending := False\<rparr>) s)
          else Ret s))"

subsection \<open>Introspection\<close>

definition is_reading :: "nat \<Rightarrow> net \<Rightarrow> bool" where
  "is_reading i s \<longleftrightarrow> \<not> st_read_paused (get_st s i) \<and> \<not> st_closed (get_st s i)"

definition is_closing :: "nat \<Rightarrow> net \<Rightarrow> bool" where
  "is_closing i s \<longleftrightarrow> st_closing (get_st s i) \<or> st_closed (get_st s i)"

definition get_socket :: "nat \<Rightarrow> net \<Rightarrow> net" where
  \<comment> \<open>\<open>get_extra_info("socket")\<close>\<close>
  "get_socket i s =
     upd_st i (\<lambda>t. if st_extra_socket t = None
       then t\<lparr>st_extra_socket := Some \<lparr>sk_park = None, sk_disposed = st_closed t\<rparr>\<rparr> else t) s"

definition socket_fileno :: "nat \<Rightarrow> net \<Rightarrow> bool option \<times> net" where
  \<comment> \<open>\<open>None\<close> is -1; a descriptor is whether its held end is open, so \<open>Some False\<close> polls readable\<close>
  "socket_fileno i s =
     (let t = get_st s i in
      case st_extra_socket t of
        None \<Rightarrow> (None, s)
      | Some k \<Rightarrow>
          if sk_disposed k then (None, s)
          else case sk_park k of
              Some open_end \<Rightarrow> (Some open_end, s)
            | None \<Rightarrow> (Some (\<not> st_peer_closed t),
                upd_st i (\<lambda>t. t\<lparr>st_extra_socket := Some (k\<lparr>sk_park := Some (\<not> st_peer_closed t)\<rparr>)\<rparr>) s))"

definition set_write_buffer_limits :: "up \<Rightarrow> nat \<Rightarrow> int option \<Rightarrow> int option \<Rightarrow> net \<Rightarrow> net outcome" where
  "set_write_buffer_limits up i high low s =
     (case check_limits high low of
        Inl e \<Rightarrow> Exc e s
      | Inr l \<Rightarrow> maybe_pause_protocol up i (upd_st i (\<lambda>t. t\<lparr>st_limits := Some l\<rparr>) s))"

definition get_write_buffer_size :: "nat \<Rightarrow> net \<Rightarrow> int" where
  "get_write_buffer_size i s = (if n_flow_control s then st_write_buffer (get_st s i) else 0)"

section \<open>Datagram transports\<close>

definition get_dg :: "net \<Rightarrow> nat \<Rightarrow> dgram" where
  "get_dg s i = n_dgram_objs s ! i"

definition upd_dg :: "nat \<Rightarrow> (dgram \<Rightarrow> dgram) \<Rightarrow> net \<Rightarrow> net" where
  "upd_dg i f s = s\<lparr>n_dgram_objs := (n_dgram_objs s)[i := f (n_dgram_objs s ! i)]\<rparr>"

definition dgram_begin :: "up \<Rightarrow> nat \<Rightarrow> protocol \<Rightarrow> net \<Rightarrow> net outcome" where
  "dgram_begin up i p s =
     up (ConnectionMade (DgramRef i) p) (upd_dg i (\<lambda>t. t\<lparr>dg_protocol := Some p\<rparr>) s)"

definition datagram_arrived :: "up \<Rightarrow> nat \<Rightarrow> bytes \<Rightarrow> addr \<Rightarrow> net \<Rightarrow> net outcome" where
  "datagram_arrived up i data from s =
     (let t = get_dg s i in
      if dg_closing t then Ret s
      else if dg_remote t \<noteq> None \<and> Some from \<noteq> dg_remote t then Ret s
      else case dg_protocol t of
          None \<Rightarrow> Exc AttributeError s
        | Some p \<Rightarrow> up (DatagramReceived i p data from) s)"

definition dgram_sendto :: "nat \<Rightarrow> bytes option \<Rightarrow> addr option \<Rightarrow> net \<Rightarrow> net outcome" where
  "dgram_sendto i data to s =
     (case data of
        None \<Rightarrow> Exc TypeError s
      | Some payload \<Rightarrow>
          let t = get_dg s i in
          if dg_closing t then Exc RuntimeError s
          else case (case to of Some a \<Rightarrow> Some a | None \<Rightarrow> dg_remote t) of
              None \<Rightarrow> Exc ValueError s
            | Some target \<Rightarrow>
                if dg_remote t \<noteq> None \<and> Some target \<noteq> dg_remote t then Exc ValueError s
                else send_datagram (dg_local t) target payload s)"

definition dgram_close :: "nat \<Rightarrow> net \<Rightarrow> net outcome" where
  "dgram_close i s =
     (let t = get_dg s i in
      if dg_closing t then Ret s
      else call_soon (net_cb ''_SimDatagramTransport._lost'' (LostCb i)) None
        (upd_dg i (\<lambda>t. t\<lparr>dg_closing := True\<rparr>) s\<lparr>n_datagrams := dict_pop (dg_local t) (n_datagrams s)\<rparr>))"

definition dgram_lost :: "up \<Rightarrow> nat \<Rightarrow> net \<Rightarrow> net outcome" where
  "dgram_lost up i s =
     (let t = get_dg s i; s = upd_dg i (\<lambda>t. t\<lparr>dg_protocol := None\<rparr>) s in
      case dg_protocol t of None \<Rightarrow> Ret s | Some p \<Rightarrow> up (ConnectionLost (DgramRef i) p None) s)"

section \<open>What a program may ask of a transport\<close>

datatype extra_info =
    AddressInfo "addr option"
  | SocketInfo nat
  | DefaultInfo

definition check_bytes :: "bytes option \<Rightarrow> exn + bytes" where
  \<comment> \<open>\<open>None\<close> is an argument that is not bytes-like\<close>
  "check_bytes data = (case data of None \<Rightarrow> Inl TypeError | Some b \<Rightarrow> Inr b)"

definition stream_extra_info :: "nat \<Rightarrow> string \<Rightarrow> net \<Rightarrow> extra_info \<times> net" where
  "stream_extra_info i name s =
     (if name = ''sockname'' then (AddressInfo (Some (st_local (get_st s i))), s)
      else if name = ''peername'' then (AddressInfo (Some (st_remote (get_st s i))), s)
      else if name = ''socket'' then (SocketInfo i, get_socket i s)
      else (DefaultInfo, s))"

definition dgram_extra_info :: "nat \<Rightarrow> string \<Rightarrow> net \<Rightarrow> extra_info" where
  "dgram_extra_info i name s =
     (if name = ''sockname'' then AddressInfo (Some (dg_local (get_dg s i)))
      else if name = ''peername'' then AddressInfo (dg_remote (get_dg s i))
      else DefaultInfo)"

definition socket_address :: "addr \<Rightarrow> net \<Rightarrow> exn + string \<times> int" where
  "socket_address endpoint s = map_sum id (\<lambda>address. (address, snd endpoint)) (net_address (fst endpoint) s)"

definition getsockname :: "nat \<Rightarrow> net \<Rightarrow> exn + string \<times> int" where
  "getsockname i s = socket_address (st_local (get_st s i)) s"

definition getpeername :: "nat \<Rightarrow> net \<Rightarrow> exn + string \<times> int" where
  "getpeername i s = socket_address (st_remote (get_st s i)) s"

definition get_write_buffer_limits :: "nat \<Rightarrow> net \<Rightarrow> int \<times> int" where
  "get_write_buffer_limits i s = effective_limits i s"

definition get_protocol :: "nat \<Rightarrow> net \<Rightarrow> protocol option" where
  "get_protocol i s = st_protocol (get_st s i)"

definition dgram_set_protocol :: "nat \<Rightarrow> protocol option \<Rightarrow> net \<Rightarrow> net" where
  "dgram_set_protocol i p s = upd_dg i (\<lambda>t. t\<lparr>dg_protocol := p\<rparr>) s"

definition dgram_get_protocol :: "nat \<Rightarrow> net \<Rightarrow> protocol option" where
  "dgram_get_protocol i s = dg_protocol (get_dg s i)"

definition dgram_is_closing :: "nat \<Rightarrow> net \<Rightarrow> bool" where
  "dgram_is_closing i s \<longleftrightarrow> dg_closing (get_dg s i)"

definition dgram_abort :: "nat \<Rightarrow> net \<Rightarrow> net outcome" where
  "dgram_abort i s = dgram_close i s"

lemma sock_names_belong_to_hosts:
  \<comment> \<open>an address the socket reports leads back to the host it was asked for\<close>
  assumes "getpeername i s = Inr (address, port)" and "\<And>h a. net_address h s = Inr a \<longleftrightarrow> net_hostname a s = Inr h"
  shows "net_hostname address s = Inr (fst (st_remote (get_st s i))) \<and> port = snd (st_remote (get_st s i))"
proof (cases "net_address (fst (st_remote (get_st s i))) s")
  case (Inr a)
  then have "a = address" "port = snd (st_remote (get_st s i))"
    using assms(1) by (simp_all add: getpeername_def socket_address_def)
  with Inr assms(2) show ?thesis by blast
qed (use assms(1) in \<open>simp add: getpeername_def socket_address_def\<close>)

lemma gone_connection_has_no_descriptor:
  \<comment> \<open>a socket first asked for after the teardown is born closed\<close>
  assumes "st_extra_socket (get_st s i) = None" and "st_closed (get_st s i)" and "i < length (n_stream_objs s)"
  shows "fst (socket_fileno i (snd (stream_extra_info i ''socket'' s))) = None"
  using assms by (simp add: stream_extra_info_def get_socket_def socket_fileno_def Let_def get_st_def upd_st_def)

end
