(* ===== verification/SimNet.thy ===== *)
theory SimNet
  imports SimTransport
begin

text \<open>
  \<open>SimNetwork\<close> of \<open>src/simloop/_net.py\<close>, the part that runs: delivery and in-order
  dispatch, connection set-up, servers, datagram endpoints, crash and restart; what each callback
  of the loop executes (\<open>net_exec\<close>); and the programs that run on it. A program is a strategy: at
  each point of each call into it, it looks at the state and picks the next operation to perform.
  It sees everything but the scheduling policy, which is private to the loop.
\<close>

section \<open>Delivery\<close>

definition in_host :: "hostname \<Rightarrow> (net \<Rightarrow> net outcome) \<Rightarrow> net \<Rightarrow> net outcome" where
  \<comment> \<open>\<open>token = _current_host.set(h); try: ... finally: _current_host.reset(token)\<close>\<close>
  "in_host h f s = finally_do (f (s\<lparr>l_current_host := h\<rparr>)) (\<lambda>t. t\<lparr>l_current_host := l_current_host s\<rparr>)"

definition handle_syn :: "up \<Rightarrow> packet \<Rightarrow> net \<Rightarrow> net outcome" where
  "handle_syn up pk s =
     (case dict_get (n_listeners s) (pk_dst pk, pk_dst_port pk) of
        None \<Rightarrow> send_stream Refuse (pk_dst pk) (pk_src pk) (pk_conn pk) 0 [] (pk_dst_port pk) (pk_src_port pk) s
      | Some ls \<Rightarrow>
          let (i, s) = register_stream (pk_conn pk) (pk_dst pk, pk_dst_port pk) (pk_src pk, pk_src_port pk) s
          in andthen (send_stream Accept (pk_dst pk) (pk_src pk) (pk_conn pk) 0 [] (pk_dst_port pk) (pk_src_port pk) s) (\<lambda>s.
             andthen (up (Construct (ls_factory ls)) s) (stream_begin up i (ls_factory ls))))"

definition handle_answer :: "up \<Rightarrow> packet \<Rightarrow> net \<Rightarrow> net outcome" where
  "handle_answer up pk s =
     (case dict_get (n_pending s) (pk_conn pk) of
        None \<Rightarrow> Ret s
      | Some cn \<Rightarrow>
          let s = s\<lparr>n_pending := dict_pop (pk_conn pk) (n_pending s)\<rparr> in
          if fut_done (cn_fut cn) s then Ret s
          else if pk_kind pk = Accept then
            let (i, s) = register_stream (pk_conn pk) (cn_local cn) (cn_remote cn) s
            in andthen (up (Construct (cn_factory cn)) s) (\<lambda>s.
               andthen (stream_begin up i (cn_factory cn) s)
                 (settle_fut (cn_fut cn) (FutResult (Some (i, cn_factory cn)))))
          else settle_fut (cn_fut cn) (FutFailed ConnectionRefusedError) s)"

definition dispatch_ready :: "up \<Rightarrow> packet \<Rightarrow> net \<Rightarrow> net outcome" where
  "dispatch_ready up pk s =
     (if pk_kind pk = Syn then handle_syn up pk s
      else if pk_kind pk = Accept \<or> pk_kind pk = Refuse then handle_answer up pk s
      else case dict_get (n_streams s) (pk_conn pk, pk_dst pk, pk_dst_port pk) of
          None \<Rightarrow> Ret s
        | Some i \<Rightarrow>
            (case pk_kind pk of
               Data \<Rightarrow> data_arrived up i (pk_payload pk) s
             | Fin \<Rightarrow> eof_arrived up i s
             | Rst \<Rightarrow> reset_arrived up i s
             | _ \<Rightarrow> Ret s))"

definition inorder_init :: inorder where
  "inorder_init = \<lparr>io_next = 0, io_early = []\<rparr>"

definition queue_at :: "skey \<Rightarrow> net \<Rightarrow> inorder" where
  "queue_at key s = (case dict_get (n_inbound s) key of Some q \<Rightarrow> q | None \<Rightarrow> inorder_init)"

definition put_queue :: "skey \<Rightarrow> inorder \<Rightarrow> net \<Rightarrow> net" where
  "put_queue key q s = s\<lparr>n_inbound := dict_set key q (n_inbound s)\<rparr>"

text \<open>
  The loop of \<open>_InOrder.push\<close>: every turn takes one packet out of \<open>_early\<close>, so its size
  bounds the turns.
\<close>

fun drain_early :: "(packet \<Rightarrow> net \<Rightarrow> net outcome) \<Rightarrow> nat \<Rightarrow> skey \<Rightarrow> net \<Rightarrow> net outcome" where
  "drain_early dispatch 0 key s = Ret s"
| "drain_early dispatch (Suc n) key s =
     (let q = queue_at key s in
      case dict_get (io_early q) (io_next q) of
        None \<Rightarrow> Ret s
      | Some pk \<Rightarrow> andthen
          (dispatch pk
            (put_queue key \<lparr>io_next = io_next q + 1, io_early = dict_pop (io_next q) (io_early q)\<rparr> s))
          (drain_early dispatch n key))"

definition inorder_push :: "(packet \<Rightarrow> net \<Rightarrow> net outcome) \<Rightarrow> skey \<Rightarrow> packet \<Rightarrow> net \<Rightarrow> net outcome" where
  "inorder_push dispatch key pk s =
     (let q = queue_at key s; early = dict_set (pk_seq pk) pk (io_early q) in
      drain_early dispatch (length early) key (put_queue key (q\<lparr>io_early := early\<rparr>) s))"

definition dispatch_stream :: "up \<Rightarrow> packet \<Rightarrow> net \<Rightarrow> net outcome" where
  "dispatch_stream up pk s =
     inorder_push (dispatch_ready up) (pk_conn pk, pk_dst pk, pk_dst_port pk) pk s"

definition deliver_up :: "up \<Rightarrow> packet \<Rightarrow> net \<Rightarrow> net outcome" where
  "deliver_up up pk s =
     (if pk_kind pk = Dgram then
        (case dict_get (n_datagrams s) (pk_dst pk, pk_dst_port pk) of
           None \<Rightarrow> Ret (net_trace ''lost'' pk s)
         | Some i \<Rightarrow> datagram_arrived up i (pk_payload pk) (pk_src pk, pk_src_port pk) s)
      else dispatch_stream up pk s)"

definition net_deliver :: "up \<Rightarrow> packet \<Rightarrow> net \<Rightarrow> net outcome" where
  "net_deliver up pk s =
     (case (dict_get (n_alive s) (pk_src pk), dict_get (n_alive s) (pk_dst pk)) of
        (None, _) \<Rightarrow> Exc KeyError s
      | (Some False, _) \<Rightarrow> Ret (net_trace ''lost'' pk s)
      | (Some True, None) \<Rightarrow> Exc KeyError s
      | (Some True, Some False) \<Rightarrow> Ret (net_trace ''lost'' pk s)
      | (Some True, Some True) \<Rightarrow>
          if is_cut (pk_src pk) (pk_dst pk) s then Ret (blackhole pk s)
          else in_host (pk_dst pk) (deliver_up up pk) (net_trace ''deliver'' pk s))"

section \<open>Connections, servers and endpoints\<close>

definition open_connection ::
    "protocol \<Rightarrow> host_arg \<Rightarrow> port_arg \<Rightarrow> cb callable \<Rightarrow> net \<Rightarrow> net outcome" where
  \<comment> \<open>up to \<open>await fut\<close>: \<open>waiter\<close> is the wake-up of the awaiting task. The connection number is
      left in \<open>n_answer\<close>\<close>
  "open_connection factory host port waiter s =
     (case (decoded host, port) of
        (HStr h, PInt port) \<Rightarrow>
          (case resolve (HStr h) s of
             Inl e \<Rightarrow> Exc e s
           | Inr host \<Rightarrow>
               let src = l_current_host s;
                   conn = n_next_conn s;
                   (p1, s) = ephemeral (s\<lparr>n_next_conn := n_next_conn s + 1\<rparr>);
                   (src_port, s) = (if host = src \<and> p1 = port then ephemeral s else (p1, s));
                   (f, s) = new_fut [(waiter, src)] s;
                   s = s\<lparr>n_pending := dict_set conn
                     \<lparr>cn_fut = f, cn_factory = factory, cn_local = (src, src_port), cn_remote = (host, port)\<rparr>
                     (n_pending s), n_answer := conn\<rparr>
               in send_stream Syn src host conn 0 [] src_port port s)
      | _ \<Rightarrow> Exc ValueError s)"

definition connection_returned :: "int \<Rightarrow> net \<Rightarrow> net" where
  \<comment> \<open>the task woke up with the pair: \<open>finally: self._pending.pop(conn, None)\<close>\<close>
  "connection_returned conn s = s\<lparr>n_pending := dict_pop conn (n_pending s)\<rparr>"

definition connection_cancelled :: "int \<Rightarrow> nat \<Rightarrow> net \<Rightarrow> net outcome" where
  \<comment> \<open>the task was cancelled while it awaited future \<open>f\<close>\<close>
  "connection_cancelled conn f s =
     finally_do
       (case fu_state (n_futs s ! f) of
          FutResult (Some (i, p)) \<Rightarrow> andthen (stream_abort i s) (Exc CancelledError)
        | _ \<Rightarrow> Exc CancelledError s)
       (connection_returned conn)"

definition start_server :: "protocol \<Rightarrow> string option \<Rightarrow> port_arg \<Rightarrow> net \<Rightarrow> net outcome" where
  "start_server factory host port s =
     (case port of
        PInt port \<Rightarrow>
          (case bind_address host port s of
             Inl e \<Rightarrow> Exc e s
           | Inr bind \<Rightarrow>
               if dict_get (n_listeners s) bind \<noteq> None then Exc OSError s
               else
                 let (f, s) = new_fut [] s; sid = length (n_server_objs s) in
                 Ret (s\<lparr>n_server_objs := n_server_objs s @ [\<lparr>sv_addr = bind, sv_closed_fut = f\<rparr>],
                        n_listeners := dict_set bind \<lparr>ls_factory = factory, ls_server = sid\<rparr> (n_listeners s)\<rparr>))
      | _ \<Rightarrow> Exc ValueError s)"

definition server_close :: "nat \<Rightarrow> net \<Rightarrow> net outcome" where
  "server_close sid s =
     (let sv = n_server_objs s ! sid in
      if fut_done (sv_closed_fut sv) s then Ret s
      else settle_fut (sv_closed_fut sv) (FutResult None)
        (s\<lparr>n_listeners := dict_pop (sv_addr sv) (n_listeners s)\<rparr>))"

definition is_serving :: "nat \<Rightarrow> net \<Rightarrow> bool" where
  "is_serving sid s \<longleftrightarrow> \<not> fut_done (sv_closed_fut (n_server_objs s ! sid)) s"

fun each :: "('a \<Rightarrow> net \<Rightarrow> net outcome) \<Rightarrow> 'a list \<Rightarrow> net \<Rightarrow> net outcome" where
  \<comment> \<open>\<open>for x in xs: f(x)\<close>, left at the first exception\<close>
  "each f [] s = Ret s"
| "each f (x # xs) s = andthen (f x s) (each f xs)"

definition accepted_by :: "nat \<Rightarrow> net \<Rightarrow> nat \<Rightarrow> bool" where
  "accepted_by sid s i \<longleftrightarrow> st_local (get_st s i) = sv_addr (n_server_objs s ! sid)"

definition close_clients :: "nat \<Rightarrow> net \<Rightarrow> net outcome" where
  "close_clients sid s =
     each (\<lambda>i s. if accepted_by sid s i then stream_close i s else Ret s) (map snd (n_streams s)) s"

definition abort_clients :: "nat \<Rightarrow> net \<Rightarrow> net outcome" where
  "abort_clients sid s =
     each (\<lambda>i s. if accepted_by sid s i then stream_abort i s else Ret s) (map snd (n_streams s)) s"

definition open_datagram_endpoint ::
    "up \<Rightarrow> protocol \<Rightarrow> (string \<times> int) option \<Rightarrow> (string \<times> int) option \<Rightarrow> net \<Rightarrow> net outcome" where
  "open_datagram_endpoint up factory local_addr remote_addr s =
     (let (bound, s) = (case local_addr of
            None \<Rightarrow> let (p, s) = ephemeral s in (Inr (l_current_host s, p), s)
          | Some (h, p) \<Rightarrow> (bind_address (Some h) p s, s))
      in case bound of
           Inl e \<Rightarrow> Exc e s
         | Inr bind \<Rightarrow>
             if dict_get (n_datagrams s) bind \<noteq> None then Exc OSError s
             else case (case remote_addr of
                   None \<Rightarrow> Inr None
                 | Some (h, p) \<Rightarrow> (case resolve (HStr h) s of Inl e \<Rightarrow> Inl e | Inr name \<Rightarrow> Inr (Some (name, p)))) of
                 Inl e \<Rightarrow> Exc e s
               | Inr remote \<Rightarrow>
                   let i = length (n_dgram_objs s);
                       s = s\<lparr>n_dgram_objs := n_dgram_objs s @
                             [\<lparr>dg_local = bind, dg_remote = remote, dg_protocol = None, dg_closing = False\<rparr>],
                           n_datagrams := dict_set bind i (n_datagrams s)\<rparr>
                   in andthen (up (Construct factory) s) (dgram_begin up i factory))"

definition set_flow_control :: "up \<Rightarrow> bool \<Rightarrow> int option \<Rightarrow> int option \<Rightarrow> net \<Rightarrow> net outcome" where
  "set_flow_control up enabled high low s =
     andthen (if high \<noteq> None \<or> low \<noteq> None
              then checked (check_limits high low) (\<lambda>l s. s\<lparr>n_flow_defaults := l\<rparr>) s else Ret s) (\<lambda>s.
       let s = s\<lparr>n_flow_control := enabled\<rparr> in
       if enabled then Ret s else each (release_flow_control up) (map snd (n_streams s)) s)"

section \<open>Crash and restart\<close>

definition net_mark :: "string \<Rightarrow> hostname \<Rightarrow> net \<Rightarrow> net" where
  "net_mark verb name s =
     (let (uid, s) = new_uid s in record_at_now Net (int uid) (verb @ '' '' @ name) WIRE s)"

definition crash_disk :: "hostname \<Rightarrow> net \<Rightarrow> net" where
  "crash_disk name s =
     (case dict_get (n_disks s) name of
        None \<Rightarrow> s
      | Some d \<Rightarrow> let (d', r) = disk_crash (n_disk_rng s) d in
          s\<lparr>n_disks := dict_set name d' (n_disks s), n_disk_rng := r\<rparr>)"

definition close_listener :: "addr \<Rightarrow> net \<Rightarrow> net outcome" where
  "close_listener key s =
     (case dict_get (n_listeners s) key of
        None \<Rightarrow> Exc KeyError s
      | Some ls \<Rightarrow> server_close (ls_server ls) s)"

definition del_datagram :: "addr \<Rightarrow> net \<Rightarrow> net outcome" where
  "del_datagram key s =
     (if dict_get (n_datagrams s) key = None then Exc KeyError s
      else Ret (s\<lparr>n_datagrams := dict_pop key (n_datagrams s)\<rparr>))"

definition finish_at :: "up \<Rightarrow> skey \<Rightarrow> net \<Rightarrow> net outcome" where
  "finish_at up key s =
     (case dict_get (n_streams s) key of None \<Rightarrow> Exc KeyError s | Some i \<Rightarrow> stream_finish up i None s)"

definition lose_held :: "hostname \<Rightarrow> net \<Rightarrow> net" where
  "lose_held name s =
     (let touches = (\<lambda>pk. name = pk_src pk \<or> name = pk_dst pk) in
      fold (net_trace ''lost'') (filter touches (n_held s)) s
        \<lparr>n_held := filter (\<lambda>pk. \<not> touches pk) (n_held s)\<rparr>)"

definition net_crash :: "up \<Rightarrow> hostname \<Rightarrow> net \<Rightarrow> net outcome" where
  "net_crash up name s =
     (case require_host name s of
        Inl e \<Rightarrow> Exc e s
      | Inr _ \<Rightarrow>
          if name = DRIVER then Exc ValueError s
          else case dict_get (n_alive s) name of
              None \<Rightarrow> Exc KeyError s
            | Some False \<Rightarrow> Exc ValueError s
            | Some True \<Rightarrow>
                let s = crash_disk name (s\<lparr>n_alive := dict_set name False (n_alive s)\<rparr>) in
                (case dict_get (l_host_tasks s) name of
                   None \<Rightarrow> Exc KeyError s
                 | Some tasks \<Rightarrow>
                     andthen (each (\<lambda>t. up (CancelTask t)) tasks s) (\<lambda>s.
                     andthen (each close_listener (filter (\<lambda>k. fst k = name) (map fst (n_listeners s))) s) (\<lambda>s.
                     andthen (each del_datagram (filter (\<lambda>k. fst k = name) (map fst (n_datagrams s))) s) (\<lambda>s.
                     andthen (each (finish_at up) (filter (\<lambda>k. fst (snd k) = name) (map fst (n_streams s))) s) (\<lambda>s.
                     Ret (net_mark ''crash'' name (lose_held name s))))))))"

definition net_restart :: "hostname \<Rightarrow> net \<Rightarrow> net outcome" where
  "net_restart name s =
     (case require_host name s of
        Inl e \<Rightarrow> Exc e s
      | Inr _ \<Rightarrow> (case dict_get (n_alive s) name of
            None \<Rightarrow> Exc KeyError s
          | Some True \<Rightarrow> Exc ValueError s
          | Some False \<Rightarrow> Ret (net_mark ''restart'' name (s\<lparr>n_alive := dict_set name True (n_alive s)\<rparr>))))"

section \<open>What the loop runs\<close>

definition dispose_socket :: "nat \<Rightarrow> net \<Rightarrow> net" where
  "dispose_socket i s = upd_st i (\<lambda>t. t\<lparr>st_extra_socket :=
     map_option (\<lambda>k. k\<lparr>sk_disposed := True, sk_park := None\<rparr>) (st_extra_socket t)\<rparr>) s"

definition close_loop :: "net \<Rightarrow> net outcome" where
  \<comment> \<open>\<open>SimLoop.close\<close>; the socket targets of \<open>sock_connect\<close> are not modelled\<close>
  "close_loop s =
     (if l_running s then Exc RuntimeError s
      else Ret (fold dispose_socket (map snd (n_streams s)) s\<lparr>l_closed := True\<rparr>))"

fun net_exec :: "up \<Rightarrow> cb \<Rightarrow> net \<Rightarrow> net outcome" where
  "net_exec up (DeliverCb pk) s = net_deliver up pk s"
| "net_exec up (FinishCb i exc) s = stream_finish up i exc s"
| "net_exec up (LostCb i) s = dgram_lost up i s"
| "net_exec up (UserCb k) s = up (UserCode k) s"

definition net_handler :: "up \<Rightarrow> (exn option \<Rightarrow> net \<Rightarrow> net outcome) option" where
  "net_handler up = Some (net_handler_fun up)"

end
