(* ===== verification/SimProgram.thy ===== *)
theory SimProgram
  imports SimNet
begin

text \<open>
  Programs on the simulated loop and network. An \<open>action\<close> is one call of the public API; a
  \<open>program\<close> is a strategy that, at each point of each call into it, looks at the state and picks
  the next action or returns. It sees everything but what is private to the loop and the network:
  the scheduling policy and the reassembly queues.
\<close>

section \<open>Programs\<close>

datatype net_action =
    AHost hostname
  | ASetDefaults "(time \<times> time) option" "rat option" "rat option"
  | ASetLink hostname hostname "(time \<times> time) option" "rat option" "rat option"
  | ASetClock hostname time
  | ASetDisk hostname bool bool
  | ADisk hostname "nat disk_op"
  | ASetFlowControl bool "int option" "int option"
  | APartition "hostname list" "hostname list"
  | AHeal
  | ACrash hostname
  | ARestart hostname

datatype loop_action =
    ACallSoon "cb callable" "hostname option"
  | ACallLater time "cb callable" "hostname option"
  | ACallAt time "cb callable" "hostname option"
  | ACancel nat
  | ACreateTask bool nat "cb callable" "hostname option"
  | AHostCreateTask hostname bool nat "cb callable"
  | ATaskDone hostname nat
  | AStop
  | ASetExceptionHandler "nat option"
  | AAnswer int
  | ARaise exn

datatype endpoint_action =
    AOpenConnection protocol host_arg port_arg "cb callable"
  | AConnectionReturned int
  | AConnectionCancelled int nat
  | AStartServer protocol "string option" port_arg
  | AServerClose nat
  | ACloseClients nat
  | AAbortClients nat
  | AOpenDatagram protocol "(string \<times> int) option" "(string \<times> int) option"
  | ASendto nat "bytes option" "addr option"
  | ADatagramClose nat

datatype stream_action =
    AWrite "bytes option list"
  | AWriteEof
  | AClose
  | AAbort
  | AForceClose "exn option"
  | APauseReading
  | AResumeReading
  | ASetProtocol "protocol option"
  | ASetLimits "int option" "int option"
  | AGetSocket
  | AFileno

datatype action = NetA net_action | LoopA loop_action | EndpointA endpoint_action | StreamA nat stream_action

definition with_obj :: "bool \<Rightarrow> (net \<Rightarrow> net outcome) \<Rightarrow> net \<Rightarrow> net outcome" where
  \<comment> \<open>a program only holds references to objects that exist\<close>
  "with_obj ok f s = (if ok then f s else Exc TypeError s)"

definition known_context :: "hostname option \<Rightarrow> net \<Rightarrow> bool" where
  \<comment> \<open>a context carries a host some code set\<close>
  "known_context ctx s \<longleftrightarrow> (case ctx of None \<Rightarrow> True | Some h \<Rightarrow> h \<in> set (n_hosts s))"

definition host_create_task :: "hostname \<Rightarrow> bool \<Rightarrow> nat \<Rightarrow> cb callable \<Rightarrow> net \<Rightarrow> net outcome" where
  "host_create_task name eager task first_step s = in_host name (create_task eager task first_step None) s"

definition task_done :: "hostname \<Rightarrow> nat \<Rightarrow> net \<Rightarrow> net" where
  \<comment> \<open>the done callback \<open>owner.remove\<close> of a task registered on a host\<close>
  "task_done h task s =
     s\<lparr>l_host_tasks := map (\<lambda>(n, ts). (n, if n = h then remove1 task ts else ts)) (l_host_tasks s)\<rparr>"

definition disk_action :: "hostname \<Rightarrow> nat disk_op \<Rightarrow> net \<Rightarrow> net" where
  "disk_action h op s = s\<lparr>n_disks := dict_set h (disk_do op (host_disk h s)) (n_disks s)\<rparr>"

fun perform_net :: "up \<Rightarrow> net_action \<Rightarrow> net \<Rightarrow> net outcome" where
  "perform_net up (AHost name) s = net_host name s"
| "perform_net up (ASetDefaults l d dup) s = set_defaults l d dup s"
| "perform_net up (ASetLink a b l d dup) s = set_link a b l d dup s"
| "perform_net up (ASetClock h off) s = set_clock h off s"
| "perform_net up (ASetDisk h b t) s = set_disk h b t s"
| "perform_net up (ADisk h op) s = with_obj (h \<in> set (n_hosts s)) (\<lambda>s. Ret (disk_action h op s)) s"
| "perform_net up (ASetFlowControl e hi lo) s = set_flow_control up e hi lo s"
| "perform_net up (APartition a b) s = partition_net a b s"
| "perform_net up AHeal s = heal s"
| "perform_net up (ACrash h) s = net_crash up h s"
| "perform_net up (ARestart h) s = net_restart h s"

fun perform_loop :: "loop_action \<Rightarrow> net \<Rightarrow> net outcome" where
  "perform_loop (ACallSoon c ctx) s = with_obj (known_context ctx s) (call_soon c ctx) s"
| "perform_loop (ACallLater d c ctx) s = with_obj (known_context ctx s) (call_later d c ctx) s"
| "perform_loop (ACallAt w c ctx) s = with_obj (known_context ctx s) (call_at w c ctx) s"
| "perform_loop (ACancel q) s = Ret (cancel_handle q s)"
| "perform_loop (ACreateTask eager t c ctx) s = with_obj (known_context ctx s) (create_task eager t c ctx) s"
| "perform_loop (AHostCreateTask h eager t c) s =
     with_obj (h \<in> set (n_hosts s)) (host_create_task h eager t c) s"
| "perform_loop (ATaskDone h t) s = Ret (task_done h t s)"
| "perform_loop AStop s = Ret (stop s)"
| "perform_loop (ASetExceptionHandler h) s = Ret (s\<lparr>n_exception_handler := h\<rparr>)"
| "perform_loop (AAnswer n) s = Ret (s\<lparr>n_answer := n\<rparr>)"
| "perform_loop (ARaise x) s = Exc x s"

fun perform_endpoint :: "up \<Rightarrow> endpoint_action \<Rightarrow> net \<Rightarrow> net outcome" where
  "perform_endpoint up (AOpenConnection f h p w) s = open_connection f h p w s"
| "perform_endpoint up (AConnectionReturned c) s = Ret (connection_returned c s)"
| "perform_endpoint up (AConnectionCancelled c f) s =
     with_obj (f < length (n_futs s)) (connection_cancelled c f) s"
| "perform_endpoint up (AStartServer f h p) s = start_server f h p s"
| "perform_endpoint up (AServerClose i) s = with_obj (i < length (n_server_objs s)) (server_close i) s"
| "perform_endpoint up (ACloseClients i) s = with_obj (i < length (n_server_objs s)) (close_clients i) s"
| "perform_endpoint up (AAbortClients i) s = with_obj (i < length (n_server_objs s)) (abort_clients i) s"
| "perform_endpoint up (AOpenDatagram f l r) s = open_datagram_endpoint up f l r s"
| "perform_endpoint up (ASendto i d a) s = with_obj (i < length (n_dgram_objs s)) (dgram_sendto i d a) s"
| "perform_endpoint up (ADatagramClose i) s = with_obj (i < length (n_dgram_objs s)) (dgram_close i) s"

fun perform_stream :: "up \<Rightarrow> nat \<Rightarrow> stream_action \<Rightarrow> net \<Rightarrow> net outcome" where
  "perform_stream up i (AWrite ds) s = stream_writelines up i ds s"
| "perform_stream up i AWriteEof s = write_eof i s"
| "perform_stream up i AClose s = stream_close i s"
| "perform_stream up i AAbort s = stream_abort i s"
| "perform_stream up i (AForceClose x) s = force_close i x s"
| "perform_stream up i APauseReading s = Ret (pause_reading i s)"
| "perform_stream up i AResumeReading s = resume_reading up i s"
| "perform_stream up i (ASetProtocol p) s = Ret (adopt i p s)"
| "perform_stream up i (ASetLimits hi lo) s = set_write_buffer_limits up i hi lo s"
| "perform_stream up i AGetSocket s = Ret (get_socket i s)"
| "perform_stream up i AFileno s = Ret (snd (socket_fileno i s))"

fun perform :: "up \<Rightarrow> action \<Rightarrow> net \<Rightarrow> net outcome" where
  "perform up (NetA a) s = perform_net up a s"
| "perform up (LoopA a) s = perform_loop a s"
| "perform up (EndpointA a) s = perform_endpoint up a s"
| "perform up (StreamA i a) s = with_obj (i < length (n_stream_objs s)) (perform_stream up i a) s"

definition blank_policy :: policy where
  "blank_policy = ScriptedP \<lparr>sc_choices = [], sc_step = 0, sc_diverged_at = None\<rparr>"

definition public :: "net \<Rightarrow> net" where
  \<comment> \<open>what a program can see: not the policy, nor the reassembly queues\<close>
  "public s = set_policy blank_policy (s\<lparr>n_inbound := []\<rparr>)"

type_synonym program = "upcall \<Rightarrow> nat \<Rightarrow> net \<Rightarrow> action option"

text \<open>
  Running a program: the k-th action of the call \<open>u\<close> is \<open>prog u k s\<close>, or the call returns.
  The budget \<open>n\<close> bounds the actions of one call and the depth of the calls inside it, as the
  interpreter's stack does; a program that exceeds it gets \<open>RecursionError\<close>.
\<close>

primrec behave :: "program \<Rightarrow> nat \<Rightarrow> upcall \<Rightarrow> nat \<Rightarrow> net \<Rightarrow> net outcome" where
  "behave prog 0 = (\<lambda>u k s. Exc RecursionError s)"
| "behave prog (Suc n) = (\<lambda>u k s.
     case prog u k (public s) of
       None \<Rightarrow> Ret s
     | Some a \<Rightarrow> andthen (perform (\<lambda>u. behave prog n u 0) a s) (behave prog n u (Suc k)))"

definition upcalls :: "program \<Rightarrow> nat \<Rightarrow> up" where
  "upcalls prog n u s = behave prog n u 0 s"

end
