(* ===== verification/SimStable.thy ===== *)
theory SimStable
  imports SimProgram
begin

text \<open>
  What every operation of the network keeps. The locale \<open>stable_pred\<close> is a property of the state
  that survives each primitive change the operations are made of; inside it, every operation of the
  network and every action of a program is shown to keep the property. Its extensions add code of
  the program that keeps it (\<open>stable_upcalls\<close>) and the reassembly queues (\<open>stable_delivery\<close>).
  Each invariant of the network is then one interpretation.
\<close>

named_theorems stable_intros \<open>operations that keep a stable property\<close>

definition keeps_identity :: "(stream \<Rightarrow> stream) \<Rightarrow> bool" where
  \<comment> \<open>an update that moves no endpoint and neither closes nor reopens\<close>
  "keeps_identity f \<longleftrightarrow> (\<forall>t. st_conn (f t) = st_conn t \<and> st_local (f t) = st_local t \<and>
     st_remote (f t) = st_remote t \<and> st_closed (f t) = st_closed t)"

declare keeps_identity_def [simp]

locale stable_pred =
  fixes P :: "net \<Rightarrow> bool"
  assumes stable_fields:
    "P t \<Longrightarrow> P (t\<lparr>n_rng := v_n_rng\<rparr>)"
    "P t \<Longrightarrow> P (t\<lparr>n_disk_rng := v_n_disk_rng\<rparr>)"
    "P t \<Longrightarrow> P (t\<lparr>n_disks := v_n_disks\<rparr>)"
    "P t \<Longrightarrow> P (t\<lparr>n_default_latency := v_n_default_latency\<rparr>)"
    "P t \<Longrightarrow> P (t\<lparr>n_default_drop := v_n_default_drop\<rparr>)"
    "P t \<Longrightarrow> P (t\<lparr>n_default_duplicate := v_n_default_duplicate\<rparr>)"
    "P t \<Longrightarrow> P (t\<lparr>n_flow_control := v_n_flow_control\<rparr>)"
    "P t \<Longrightarrow> P (t\<lparr>n_flow_defaults := v_n_flow_defaults\<rparr>)"
    "P t \<Longrightarrow> P (t\<lparr>n_links := v_n_links\<rparr>)"
    "P t \<Longrightarrow> P (t\<lparr>n_cuts := v_n_cuts\<rparr>)"
    "P t \<Longrightarrow> P (t\<lparr>n_held := v_n_held\<rparr>)"
    "P t \<Longrightarrow> P (t\<lparr>n_datagrams := v_n_datagrams\<rparr>)"
    "P t \<Longrightarrow> P (t\<lparr>n_listeners := v_n_listeners\<rparr>)"
    "P t \<Longrightarrow> P (t\<lparr>n_pending := v_n_pending\<rparr>)"
    "P t \<Longrightarrow> P (t\<lparr>n_next_conn := v_n_next_conn\<rparr>)"
    "P t \<Longrightarrow> P (t\<lparr>n_next_port := v_n_next_port\<rparr>)"
    "P t \<Longrightarrow> P (t\<lparr>n_dgram_objs := v_n_dgram_objs\<rparr>)"
    "P t \<Longrightarrow> P (t\<lparr>n_server_objs := v_n_server_objs\<rparr>)"
    "P t \<Longrightarrow> P (t\<lparr>n_futs := v_n_futs\<rparr>)"
    "P t \<Longrightarrow> P (t\<lparr>n_exception_handler := v_n_exception_handler\<rparr>)"
    "P t \<Longrightarrow> P (t\<lparr>n_answer := v_n_answer\<rparr>)"
    "P t \<Longrightarrow> P (t\<lparr>l_current_host := v_l_current_host\<rparr>)"
    "P t \<Longrightarrow> P (t\<lparr>l_host_tasks := v_l_host_tasks\<rparr>)"
    "P t \<Longrightarrow> P (t\<lparr>l_task_owners := v_l_task_owners\<rparr>)"
    "P t \<Longrightarrow> P (t\<lparr>l_next_owner := v_l_next_owner\<rparr>)"
    "P t \<Longrightarrow> P (t\<lparr>l_unhandled := v_l_unhandled\<rparr>)"
    "P t \<Longrightarrow> P (t\<lparr>l_stopping := v_l_stopping\<rparr>)"
    "P t \<Longrightarrow> P (t\<lparr>l_clock_offsets := v_l_clock_offsets\<rparr>)"
    and stable_trace: "P t \<Longrightarrow> P (record_at_now Net q lbl h t)"
    and stable_calls:
    "P t \<Longrightarrow> P (result_state (call_soon cb ctx t))"
    "P t \<Longrightarrow> P (result_state (call_later d cb ctx t))"
    "P t \<Longrightarrow> P (result_state (call_at w cb ctx t))"
    "P t \<Longrightarrow> P (cancel_handle k t)"
    and stable_uid: "P t \<Longrightarrow> P (t\<lparr>n_next_uid := Suc (n_next_uid t)\<rparr>)"
    and stable_host: "P t \<Longrightarrow> P (result_state (net_host name t))"
    and stable_alive: "P t \<Longrightarrow> P (t\<lparr>n_alive := dict_set h b (n_alive t)\<rparr>)"
    and stable_stream: "keeps_identity f \<Longrightarrow> P t \<Longrightarrow> P (upd_st i f t)"
    and stable_new: "P t \<Longrightarrow> P (snd (register_stream conn local remote t))"
    and stable_retire: "P t \<Longrightarrow> \<not> st_closed (get_st t i) \<Longrightarrow>
      P (drop_stream (st_conn (get_st t i)) (fst (st_local (get_st t i))) (snd (st_local (get_st t i)))
        (upd_st i retire t))"
begin

declare stable_fields [stable_intros] stable_trace [stable_intros] stable_calls [stable_intros]
  stable_uid [stable_intros] stable_host [stable_intros] stable_alive [stable_intros]
  stable_stream [stable_intros] stable_new [stable_intros] stable_retire [stable_intros]

lemma andthen_stable [stable_intros]:
  assumes "P (result_state r)" and "\<And>t. P t \<Longrightarrow> P (result_state (f t))"
  shows "P (result_state (andthen r f))"
  using assms by (cases r) auto

lemma finally_stable [stable_intros]:
  "(\<And>t. P t \<Longrightarrow> P (f t)) \<Longrightarrow> P (result_state r) \<Longrightarrow> P (result_state (finally_do r f))"
  by simp

lemma small_stable [stable_intros]:
  "P t \<Longrightarrow> P (stop t)"
  "P t \<Longrightarrow> P (default_exception_handler exc t)"
  by (auto simp: stop_def default_exception_handler_def intro: stable_intros split: option.split)

lemma register_task_stable [stable_intros]:
  "P t \<Longrightarrow> P (result_state (register_task k t))"
  by (auto simp: register_task_def intro: stable_intros split: option.split)

lemma create_task_stable [stable_intros]:
  "P t \<Longrightarrow> P (result_state (create_task eager k c ctx t))"
  by (auto simp: create_task_def check_closed_def intro!: stable_intros)

lemma config_stable [stable_intros]:
  "P t \<Longrightarrow> P (upd_dg i dh t)"
  "P t \<Longrightarrow> P (upd_link k f t)"
  "P t \<Longrightarrow> P (net_trace verb pk t)"
  "P t \<Longrightarrow> P (blackhole pk t)"
  "P t \<Longrightarrow> P (net_mark verb hn t)"
  "P t \<Longrightarrow> P (adopt i pr t)"
  "P t \<Longrightarrow> P (pause_reading i t)"
  "P t \<Longrightarrow> P (get_socket i t)"
  "P t \<Longrightarrow> P (task_done hn kk t)"
  "P t \<Longrightarrow> P (disk_action hn op t)"
  "P t \<Longrightarrow> P (connection_returned c t)"
  "P t \<Longrightarrow> P (snd (socket_fileno i t))"
  by (auto simp: upd_dg_def upd_link_def net_trace_def blackhole_def net_mark_def new_uid_def
      adopt_def pause_reading_def get_socket_def task_done_def disk_action_def
      connection_returned_def socket_fileno_def Let_def intro!: stable_intros split: option.split)

lemma checked_stable [stable_intros]:
  assumes "\<And>v t. P t \<Longrightarrow> P (f v t)" and "P t"
  shows "P (result_state (checked w f t))" and "P (result_state (checked_opt v chk f t))"
  using assms by (simp_all add: checked_def checked_opt_def split: sum.split option.split)

lemma net_schedule_stable [stable_intros]:
  "P t \<Longrightarrow> P (result_state (net_schedule pk lat t))"
  by (auto simp: net_schedule_def Let_def split_beta intro!: stable_intros)

lemma transmit_stable [stable_intros]: "P t \<Longrightarrow> P (result_state (transmit pk t))"
  by (auto simp: transmit_def Let_def split_beta intro!: stable_intros)

lemma release_all_stable [stable_intros]: "P t \<Longrightarrow> P (result_state (release_all pks t))"
  by (induction pks arbitrary: t) (auto intro!: stable_intros)

lemma wake_all_stable [stable_intros]: "P t \<Longrightarrow> P (result_state (wake_all ws t))"
  by (induction ws arbitrary: t) (auto intro!: stable_intros)

lemma each_stable [stable_intros]:
  assumes "\<And>x t. P t \<Longrightarrow> P (result_state (f x t))" and "P t"
  shows "P (result_state (each f xs t))"
  using assms(2) by (induction xs arbitrary: t) (auto intro!: stable_intros assms(1))

lemma in_host_stable [stable_intros]:
  assumes "\<And>t. P t \<Longrightarrow> P (result_state (f t))" and "P t"
  shows "P (result_state (in_host h f t))"
  unfolding in_host_def by (intro stable_intros assms)

lemma wire_stable [stable_intros]:
  "P t \<Longrightarrow> P (result_state (heal t))"
  "P t \<Longrightarrow> P (result_state (send_stream kd a b c q d sp dp t))"
  "P t \<Longrightarrow> P (result_state (send_datagram src dst d t))"
  "P t \<Longrightarrow> P (result_state (settle_fut f st t))"
  "P t \<Longrightarrow> P (result_state (set_defaults l dr du t))"
  "P t \<Longrightarrow> P (result_state (set_link a b l dr du t))"
  "P t \<Longrightarrow> P (result_state (set_clock h off t))"
  "P t \<Longrightarrow> P (result_state (set_disk h bu to t))"
  "P t \<Longrightarrow> P (result_state (partition_net ga gb t))"
  "P t \<Longrightarrow> P (result_state (net_restart h t))"
  by (auto simp: heal_def send_stream_def send_datagram_def new_uid_def settle_fut_def
      set_defaults_def set_link_def set_clock_def set_disk_def partition_net_def net_restart_def Let_def
      split: sum.split option.split bool.split intro!: stable_intros)

lemma stream_send_stable [stable_intros]: "P t \<Longrightarrow> P (result_state (stream_send kd d i t))"
  by (auto simp: stream_send_def Let_def intro!: stable_intros)

lemma close_stable [stable_intros]:
  "P t \<Longrightarrow> P (result_state (write_eof i t))"
  "P t \<Longrightarrow> P (result_state (stream_close i t))"
  "P t \<Longrightarrow> P (result_state (force_close i exc t))"
  "P t \<Longrightarrow> P (result_state (stream_abort i t))"
  "P t \<Longrightarrow> P (result_state (dgram_sendto i dat to t))"
  "P t \<Longrightarrow> P (result_state (dgram_close i t))"
  by (auto simp: write_eof_def stream_close_def force_close_def stream_abort_def dgram_sendto_def
      dgram_close_def Let_def intro!: stable_intros split: option.split)

lemma server_stable [stable_intros]:
  "P t \<Longrightarrow> P (result_state (server_close k t))"
  "P t \<Longrightarrow> P (result_state (start_server fa ho po t))"
  "P t \<Longrightarrow> P (result_state (open_connection fa ha po w t))"
  "P t \<Longrightarrow> P (result_state (connection_cancelled c f t))"
  "P t \<Longrightarrow> P (result_state (close_listener key t))"
  "P t \<Longrightarrow> P (result_state (del_datagram key t))"
  by (auto simp: server_close_def start_server_def open_connection_def connection_cancelled_def
      close_listener_def del_datagram_def new_fut_def ephemeral_def Let_def simp del: result_state_finally
      intro!: stable_intros split: option.split sum.split port_arg.split host_arg.split fut_state.split prod.split)

lemma clients_stable [stable_intros]:
  "P t \<Longrightarrow> P (result_state (close_clients k t))"
  "P t \<Longrightarrow> P (result_state (abort_clients k t))"
  by (auto simp: close_clients_def abort_clients_def intro!: stable_intros)

lemma lose_held_stable [stable_intros]: "P t \<Longrightarrow> P (lose_held h t)"
proof -
  have "P t \<Longrightarrow> P (fold (net_trace v) pks t)" for v pks t
    by (induction pks arbitrary: t) (simp_all add: config_stable(3))
  then show "P t \<Longrightarrow> P (lose_held h t)"
    by (auto simp: lose_held_def intro!: stable_intros)
qed

lemma crash_disk_stable [stable_intros]: "P t \<Longrightarrow> P (crash_disk h t)"
  by (auto simp: crash_disk_def split_beta intro!: stable_intros split: option.split)

end

locale stable_upcalls = stable_pred +
  fixes up :: up
  assumes up_stable: "P t \<Longrightarrow> P (result_state (up u t))"
begin

lemma handler_stable: "P t \<Longrightarrow> P (result_state (net_handler_fun up exc t))"
  by (auto simp: net_handler_fun_def intro!: stable_intros up_stable split: option.split)

lemma report_stable: "P t \<Longrightarrow> P (result_state (report_failure up x t))"
  using handler_stable [of t "Some x"]
  by (cases "net_handler_fun up (Some x) t")
    (auto simp: report_failure_def call_exception_handler_def intro!: stable_intros)

lemma shielded_stable: "P t \<Longrightarrow> P (result_state (shielded up u t))"
  using up_stable [of t u] by (cases "up u t") (auto simp: shielded_def intro!: report_stable)

lemma ask_stable: "P t \<Longrightarrow> P (result_state (ask up u t))"
  by (auto simp: ask_def intro!: up_stable stable_intros)

lemmas up_stables = up_stable shielded_stable ask_stable

lemma flow_stable:
  "P t \<Longrightarrow> P (result_state (maybe_pause_protocol up i t))"
  "P t \<Longrightarrow> P (result_state (maybe_resume_protocol up i t))"
  "P t \<Longrightarrow> P (result_state (release_flow_control up i t))"
  by (auto simp: maybe_pause_protocol_def maybe_resume_protocol_def release_flow_control_def Let_def
      intro!: up_stables stable_intros split: option.split)

lemma charge_stable:
  "P t \<Longrightarrow> P (result_state (charge up i n t))"
  "P t \<Longrightarrow> P (result_state (credit up i n t))"
  "P t \<Longrightarrow> P (result_state (set_write_buffer_limits up i hi lo t))"
  by (auto simp: charge_def credit_def set_write_buffer_limits_def intro!: flow_stable stable_intros split: sum.split)

lemma write_stable:
  "P t \<Longrightarrow> P (result_state (consumed up i n t))"
  "P t \<Longrightarrow> P (result_state (stream_write up i d t))"
  by (auto simp: consumed_def stream_write_def Let_def intro!: charge_stable stable_intros split: option.split)

lemma writelines_stable: "P t \<Longrightarrow> P (result_state (stream_writelines up i ds t))"
  by (induction ds arbitrary: t) (auto intro!: write_stable stable_intros)

lemma finish_stable:
  "P t \<Longrightarrow> P (result_state (stream_finish up i exc t))"
  "P t \<Longrightarrow> P (result_state (dgram_lost up i t))"
  "P t \<Longrightarrow> P (result_state (stream_begin up i pr t))"
  "P t \<Longrightarrow> P (result_state (dgram_begin up i pr t))"
  "P t \<Longrightarrow> P (result_state (datagram_arrived up i d a t))"
  by (auto simp: stream_finish_def dgram_lost_def stream_begin_def dgram_begin_def datagram_arrived_def
      Let_def intro!: up_stables stable_intros split: option.split)

lemma feed_stable: "P t \<Longrightarrow> P (result_state (feed_buffered up i data t))"
proof (induction data arbitrary: t rule: length_induct)
  case (1 data)
  have IH: "P t \<Longrightarrow> P (result_state (feed_buffered up i (drop (min k (length data)) data) t))"
    if "data \<noteq> []" "0 < k" for t k
    using 1 that by simp
  show ?case
    using 1(2)
    by (auto simp: feed_buffered.simps [of up i data] Let_def intro!: up_stables stable_intros IH split: option.split)
qed

lemma arrived_stable:
  "P t \<Longrightarrow> P (result_state (stream_deliver up i d t))"
  "P t \<Longrightarrow> P (result_state (eof_arrived up i t))"
  "P t \<Longrightarrow> P (result_state (reset_arrived up i t))"
  by (auto simp: stream_deliver_def eof_arrived_def reset_arrived_def Let_def
      intro!: up_stables feed_stable finish_stable stable_intros split: option.split)

lemma data_stable: "P t \<Longrightarrow> P (result_state (data_arrived up i d t))"
  by (auto simp: data_arrived_def Let_def intro!: arrived_stable write_stable stable_intros)

lemma drain_stable: "P t \<Longrightarrow> P (result_state (drain_backlog fuel up i t))"
proof (induction fuel arbitrary: t)
  case (Suc n)
  show ?case
    using Suc.prems
    by (auto simp: drain_backlog.simps [of "Suc n"] Let_def intro!: arrived_stable write_stable stable_intros Suc.IH)
qed (simp add: drain_backlog.simps)

lemma resume_stable: "P t \<Longrightarrow> P (result_state (resume_reading up i t))"
  by (auto simp: resume_reading_def Let_def intro!: drain_stable arrived_stable stable_intros)

lemma handle_stable:
  "P t \<Longrightarrow> P (result_state (handle_syn up pk t))"
  "P t \<Longrightarrow> P (result_state (handle_answer up pk t))"
  by (auto simp: handle_syn_def handle_answer_def  Let_def split_beta
      intro!: up_stables finish_stable stable_intros split: option.split)

lemma dispatch_stable: "P t \<Longrightarrow> P (result_state (dispatch_ready up pk t))"
  by (auto simp: dispatch_ready_def intro!: handle_stable data_stable arrived_stable split: option.split packet_kind.split)

lemma finish_at_stable: "P t \<Longrightarrow> P (result_state (finish_at up key t))"
  by (auto simp: finish_at_def intro!: finish_stable split: option.split)

lemma crash_stable: "P t \<Longrightarrow> P (result_state (net_crash up h t))"
  by (auto simp: net_crash_def Let_def intro!: up_stable finish_at_stable stable_intros
      split: sum.split option.split bool.split)

lemma flow_control_stable: "P t \<Longrightarrow> P (result_state (set_flow_control up e hi lo t))"
  by (auto simp: set_flow_control_def Let_def intro!: flow_stable stable_intros)

lemma endpoint_stable: "P t \<Longrightarrow> P (result_state (open_datagram_endpoint up fa la ra t))"
  by (auto simp: open_datagram_endpoint_def ephemeral_def Let_def
      intro!: up_stable finish_stable stable_intros split: option.split sum.split prod.split)

lemma perform_stable: "P t \<Longrightarrow> P (result_state (perform up a t))"
proof (cases a)
  case (NetA b)
  then show "P t \<Longrightarrow> ?thesis"
    by (cases b) (auto simp: with_obj_def intro!: stable_intros flow_control_stable crash_stable)
next
  case (LoopA b)
  then show "P t \<Longrightarrow> ?thesis"
    by (cases b) (auto simp: with_obj_def host_create_task_def intro!: stable_intros)
next
  case (EndpointA b)
  then show "P t \<Longrightarrow> ?thesis"
    by (cases b) (auto simp: with_obj_def intro!: stable_intros endpoint_stable)
next
  case (StreamA i b)
  then show "P t \<Longrightarrow> ?thesis"
    by (cases b) (auto simp: with_obj_def intro!: stable_intros writelines_stable resume_stable charge_stable)
qed

end

locale stable_delivery = stable_upcalls +
  assumes stable_queue: "P t \<Longrightarrow> P (put_queue key q t)"
begin

declare stable_queue [stable_intros]

lemma drain_early_stable: "P t \<Longrightarrow> P (result_state (drain_early (dispatch_ready up) n key t))"
  by (induction n arbitrary: t) (auto simp: Let_def intro!: dispatch_stable stable_intros split: option.split)

lemma deliver_stable: "P t \<Longrightarrow> P (result_state (deliver_up up pk t))"
  by (auto simp: deliver_up_def dispatch_stream_def inorder_push_def Let_def
      intro!: drain_early_stable finish_stable stable_intros split: option.split)

lemma net_deliver_stable: "P t \<Longrightarrow> P (result_state (net_deliver up pk t))"
  by (auto simp: net_deliver_def intro!: deliver_stable stable_intros split: option.split bool.split)

lemma net_exec_stable: "P t \<Longrightarrow> P (result_state (net_exec up c t))"
  by (cases c) (auto intro!: net_deliver_stable finish_stable up_stable)

end

end
