(* ===== verification/SimBlind.thy ===== *)
theory SimBlind
  imports SimProgram
begin

text \<open>
  What no operation of the network looks at. The locale \<open>private_update\<close> is a change \<open>hide\<close> to a
  part of the state that no operation reads or writes: it commutes with every primitive access, so
  every operation commutes with it. Its extensions add code of the program that commutes with it and
  the reassembly queues. Replacing the scheduling policy is such a change, which makes replay exact;
  so is replacing the reassembly queues, for everything but delivery itself.
\<close>

named_theorems blind_simps \<open>operations that commute with a private change\<close>

section \<open>Commuting through control flow\<close>

definition andthen_via :: "'s outcome \<Rightarrow> ('s \<Rightarrow> 's outcome) \<Rightarrow> ('s \<Rightarrow> 's) \<Rightarrow> 's outcome" where
  \<comment> \<open>the common form both sides of a commutation are rewritten to\<close>
  "andthen_via r g f = (case r of Ret s \<Rightarrow> g s | Exc x s \<Rightarrow> Exc x (f s))"

lemma andthen_via_simps [simp]:
  "andthen_via (Ret s) g f = g s" "andthen_via (Exc x s) g f = Exc x (f s)"
  by (simp_all add: andthen_via_def)

lemma map_outcome_andthen [simp]:
  "map_outcome f (andthen r g) = andthen_via r (\<lambda>s. map_outcome f (g s)) f"
  "andthen (map_outcome f r) g = andthen_via r (\<lambda>s. g (f s)) f"
  "map_outcome h (andthen_via r g f) = andthen_via r (\<lambda>s. map_outcome h (g s)) (\<lambda>s. h (f s))"
  by (cases r; simp add: andthen_via_def)+

lemma finally_do_map: "finally_do r g = map_outcome g r"
  by (cases r) auto

lemma map_outcome_cases [simp]:
  "map_outcome f (if b then x else y) = (if b then map_outcome f x else map_outcome f y)"
  "map_outcome f (case v of None \<Rightarrow> x | Some a \<Rightarrow> z a) =
     (case v of None \<Rightarrow> map_outcome f x | Some a \<Rightarrow> map_outcome f (z a))"
  "map_outcome f (case w of Inl e \<Rightarrow> g e | Inr a \<Rightarrow> h a) =
     (case w of Inl e \<Rightarrow> map_outcome f (g e) | Inr a \<Rightarrow> map_outcome f (h a))"
  "map_outcome f (case q of (a, b) \<Rightarrow> k a b) = (case q of (a, b) \<Rightarrow> map_outcome f (k a b))"
  by (auto split: option.split sum.split prod.split)

lemmas branch_congs = option.case_cong sum.case_cong prod.case_cong if_cong

section \<open>Private changes\<close>

locale private_update =
  fixes hide :: "net \<Rightarrow> net"
  assumes hide_selects [simp]:
    "n_rng (hide s) = n_rng s"
    "n_disk_rng (hide s) = n_disk_rng s"
    "n_hosts (hide s) = n_hosts s"
    "n_addresses (hide s) = n_addresses s"
    "n_names (hide s) = n_names s"
    "n_alive (hide s) = n_alive s"
    "n_disks (hide s) = n_disks s"
    "n_default_latency (hide s) = n_default_latency s"
    "n_default_drop (hide s) = n_default_drop s"
    "n_default_duplicate (hide s) = n_default_duplicate s"
    "n_flow_control (hide s) = n_flow_control s"
    "n_flow_defaults (hide s) = n_flow_defaults s"
    "n_links (hide s) = n_links s"
    "n_cuts (hide s) = n_cuts s"
    "n_held (hide s) = n_held s"
    "n_datagrams (hide s) = n_datagrams s"
    "n_listeners (hide s) = n_listeners s"
    "n_streams (hide s) = n_streams s"
    "n_pending (hide s) = n_pending s"
    "n_next_conn (hide s) = n_next_conn s"
    "n_next_uid (hide s) = n_next_uid s"
    "n_next_port (hide s) = n_next_port s"
    "n_stream_objs (hide s) = n_stream_objs s"
    "n_dgram_objs (hide s) = n_dgram_objs s"
    "n_server_objs (hide s) = n_server_objs s"
    "n_futs (hide s) = n_futs s"
    "n_exception_handler (hide s) = n_exception_handler s"
    "n_answer (hide s) = n_answer s"
    "l_now (hide s) = l_now s"
    "l_ready (hide s) = l_ready s"
    "l_timers (hide s) = l_timers s"
    "l_next_seq (hide s) = l_next_seq s"
    "l_cancelled (hide s) = l_cancelled s"
    "l_recorder (hide s) = l_recorder s"
    "l_current_host (hide s) = l_current_host s"
    "l_host_tasks (hide s) = l_host_tasks s"
    "l_task_owners (hide s) = l_task_owners s"
    "l_next_owner (hide s) = l_next_owner s"
    "l_stopping (hide s) = l_stopping s"
    "l_closed (hide s) = l_closed s"
    "l_unhandled (hide s) = l_unhandled s"
    "l_clock_offsets (hide s) = l_clock_offsets s"
    and hide_updates [simp]:
    "hide s\<lparr>n_rng := v_n_rng\<rparr> = hide (s\<lparr>n_rng := v_n_rng\<rparr>)"
    "hide s\<lparr>n_disk_rng := v_n_disk_rng\<rparr> = hide (s\<lparr>n_disk_rng := v_n_disk_rng\<rparr>)"
    "hide s\<lparr>n_hosts := v_n_hosts\<rparr> = hide (s\<lparr>n_hosts := v_n_hosts\<rparr>)"
    "hide s\<lparr>n_addresses := v_n_addresses\<rparr> = hide (s\<lparr>n_addresses := v_n_addresses\<rparr>)"
    "hide s\<lparr>n_names := v_n_names\<rparr> = hide (s\<lparr>n_names := v_n_names\<rparr>)"
    "hide s\<lparr>n_alive := v_n_alive\<rparr> = hide (s\<lparr>n_alive := v_n_alive\<rparr>)"
    "hide s\<lparr>n_disks := v_n_disks\<rparr> = hide (s\<lparr>n_disks := v_n_disks\<rparr>)"
    "hide s\<lparr>n_default_latency := v_n_default_latency\<rparr> = hide (s\<lparr>n_default_latency := v_n_default_latency\<rparr>)"
    "hide s\<lparr>n_default_drop := v_n_default_drop\<rparr> = hide (s\<lparr>n_default_drop := v_n_default_drop\<rparr>)"
    "hide s\<lparr>n_default_duplicate := v_n_default_duplicate\<rparr> = hide (s\<lparr>n_default_duplicate := v_n_default_duplicate\<rparr>)"
    "hide s\<lparr>n_flow_control := v_n_flow_control\<rparr> = hide (s\<lparr>n_flow_control := v_n_flow_control\<rparr>)"
    "hide s\<lparr>n_flow_defaults := v_n_flow_defaults\<rparr> = hide (s\<lparr>n_flow_defaults := v_n_flow_defaults\<rparr>)"
    "hide s\<lparr>n_links := v_n_links\<rparr> = hide (s\<lparr>n_links := v_n_links\<rparr>)"
    "hide s\<lparr>n_cuts := v_n_cuts\<rparr> = hide (s\<lparr>n_cuts := v_n_cuts\<rparr>)"
    "hide s\<lparr>n_held := v_n_held\<rparr> = hide (s\<lparr>n_held := v_n_held\<rparr>)"
    "hide s\<lparr>n_datagrams := v_n_datagrams\<rparr> = hide (s\<lparr>n_datagrams := v_n_datagrams\<rparr>)"
    "hide s\<lparr>n_listeners := v_n_listeners\<rparr> = hide (s\<lparr>n_listeners := v_n_listeners\<rparr>)"
    "hide s\<lparr>n_streams := v_n_streams\<rparr> = hide (s\<lparr>n_streams := v_n_streams\<rparr>)"
    "hide s\<lparr>n_pending := v_n_pending\<rparr> = hide (s\<lparr>n_pending := v_n_pending\<rparr>)"
    "hide s\<lparr>n_next_conn := v_n_next_conn\<rparr> = hide (s\<lparr>n_next_conn := v_n_next_conn\<rparr>)"
    "hide s\<lparr>n_next_uid := v_n_next_uid\<rparr> = hide (s\<lparr>n_next_uid := v_n_next_uid\<rparr>)"
    "hide s\<lparr>n_next_port := v_n_next_port\<rparr> = hide (s\<lparr>n_next_port := v_n_next_port\<rparr>)"
    "hide s\<lparr>n_stream_objs := v_n_stream_objs\<rparr> = hide (s\<lparr>n_stream_objs := v_n_stream_objs\<rparr>)"
    "hide s\<lparr>n_dgram_objs := v_n_dgram_objs\<rparr> = hide (s\<lparr>n_dgram_objs := v_n_dgram_objs\<rparr>)"
    "hide s\<lparr>n_server_objs := v_n_server_objs\<rparr> = hide (s\<lparr>n_server_objs := v_n_server_objs\<rparr>)"
    "hide s\<lparr>n_futs := v_n_futs\<rparr> = hide (s\<lparr>n_futs := v_n_futs\<rparr>)"
    "hide s\<lparr>n_exception_handler := v_n_exception_handler\<rparr> = hide (s\<lparr>n_exception_handler := v_n_exception_handler\<rparr>)"
    "hide s\<lparr>n_answer := v_n_answer\<rparr> = hide (s\<lparr>n_answer := v_n_answer\<rparr>)"
    "hide s\<lparr>l_ready := v_l_ready\<rparr> = hide (s\<lparr>l_ready := v_l_ready\<rparr>)"
    "hide s\<lparr>l_timers := v_l_timers\<rparr> = hide (s\<lparr>l_timers := v_l_timers\<rparr>)"
    "hide s\<lparr>l_next_seq := v_l_next_seq\<rparr> = hide (s\<lparr>l_next_seq := v_l_next_seq\<rparr>)"
    "hide s\<lparr>l_cancelled := v_l_cancelled\<rparr> = hide (s\<lparr>l_cancelled := v_l_cancelled\<rparr>)"
    "hide s\<lparr>l_recorder := v_l_recorder\<rparr> = hide (s\<lparr>l_recorder := v_l_recorder\<rparr>)"
    "hide s\<lparr>l_current_host := v_l_current_host\<rparr> = hide (s\<lparr>l_current_host := v_l_current_host\<rparr>)"
    "hide s\<lparr>l_host_tasks := v_l_host_tasks\<rparr> = hide (s\<lparr>l_host_tasks := v_l_host_tasks\<rparr>)"
    "hide s\<lparr>l_task_owners := v_l_task_owners\<rparr> = hide (s\<lparr>l_task_owners := v_l_task_owners\<rparr>)"
    "hide s\<lparr>l_next_owner := v_l_next_owner\<rparr> = hide (s\<lparr>l_next_owner := v_l_next_owner\<rparr>)"
    "hide s\<lparr>l_stopping := v_l_stopping\<rparr> = hide (s\<lparr>l_stopping := v_l_stopping\<rparr>)"
    "hide s\<lparr>l_unhandled := v_l_unhandled\<rparr> = hide (s\<lparr>l_unhandled := v_l_unhandled\<rparr>)"
    "hide s\<lparr>l_clock_offsets := v_l_clock_offsets\<rparr> = hide (s\<lparr>l_clock_offsets := v_l_clock_offsets\<rparr>)"
begin

lemma record_net_blind [simp]:
  "record_at_now k q l h (hide s) = hide (record_at_now k q l h s)"
  by (simp add: record_at_now_def)

lemma offset_now_blind [simp]: "offset_now (hide s) = offset_now s"
  by (simp add: offset_now_def)

lemma new_entry_blind [simp]: "new_entry cb ctx (hide s) = new_entry cb ctx s"
  by (simp add: new_entry_def split: option.split)

lemma call_blind [blind_simps]:
  "check_closed (hide s) = map_outcome hide (check_closed s)"
  "call_soon cb ctx (hide s) = map_outcome hide (call_soon cb ctx s)"
  "call_at_true w sh cb ctx (hide s) = map_outcome hide (call_at_true w sh cb ctx s)"
  by (simp_all add: call_soon_def call_at_true_def check_closed_def)

lemma call_timer_blind [blind_simps]:
  "call_later d cb ctx (hide s) = map_outcome hide (call_later d cb ctx s)"
  "call_at w cb ctx (hide s) = map_outcome hide (call_at w cb ctx s)"
  by (simp_all add: call_later_def call_at_def Let_def blind_simps)

lemma small_blind [blind_simps]:
  "cancel_handle q (hide s) = hide (cancel_handle q s)"
  "stop (hide s) = hide (stop s)"
  "default_exception_handler exc (hide s) = hide (default_exception_handler exc s)"
  by (simp_all add: cancel_handle_def stop_def default_exception_handler_def split: option.split)

lemma register_task_blind [blind_simps]:
  "register_task t (hide s) = map_outcome hide (register_task t s)"
  by (simp add: register_task_def cong: branch_congs)

lemma create_task_blind [blind_simps]:
  "create_task eager k c ctx (hide s) = map_outcome hide (create_task eager k c ctx s)"
 
  by (simp add: create_task_def blind_simps cong: branch_congs)

lemma config_reads [simp]:
  "require_host h (hide s) = require_host h s" "require_hosts hs (hide s) = require_hosts hs s"
  "is_cut a b (hide s) = is_cut a b s" "resolved a b (hide s) = resolved a b s"
  "resolve ha (hide s) = resolve ha s" "bind_address ho port (hide s) = bind_address ho port s"
  "host_disk h (hide s) = host_disk h s" "fut_done f (hide s) = fut_done f s"
  "get_st (hide s) i = get_st s i" "get_dg (hide s) i = get_dg s i"
  "effective_limits i (hide s) = effective_limits i s"
  "known_context ctx (hide s) = known_context ctx s"
proof -
  show "require_hosts hs (hide s) = require_hosts hs s"
    by (induction hs) (simp_all add: require_host_def)
qed (simp_all add: require_host_def is_cut_def resolved_def resolve_def bind_address_def host_disk_def
    fut_done_def get_st_def get_dg_def effective_limits_def known_context_def
    cong: branch_congs host_arg.case_cong)

lemma config_blind [blind_simps]:
  "upd_st i g (hide s) = hide (upd_st i g s)"
  "upd_dg i dh (hide s) = hide (upd_dg i dh s)"
  "upd_link k f (hide s) = hide (upd_link k f s)"
  "net_trace verb pk (hide s) = hide (net_trace verb pk s)"
  "blackhole pk (hide s) = hide (blackhole pk s)"
  "net_mark verb h (hide s) = hide (net_mark verb h s)"
  "drop_stream c h port (hide s) = hide (drop_stream c h port s)"
  "adopt i pr (hide s) = hide (adopt i pr s)"
  "pause_reading i (hide s) = hide (pause_reading i s)"
  "get_socket i (hide s) = hide (get_socket i s)"
  "task_done h kk (hide s) = hide (task_done h kk s)"
  "disk_action h op (hide s) = hide (disk_action h op s)"
  "connection_returned c (hide s) = hide (connection_returned c s)"
  "snd (socket_fileno i (hide s)) = hide (snd (socket_fileno i s))"
  by (simp_all add: upd_st_def upd_dg_def upd_link_def net_trace_def blackhole_def net_mark_def new_uid_def
      drop_stream_def adopt_def pause_reading_def get_socket_def task_done_def disk_action_def
      connection_returned_def socket_fileno_def Let_def split: option.split)

lemma checked_blind:
  assumes "\<And>v s. f v (hide s) = hide (f v s)"
  shows "checked w f (hide s) = map_outcome hide (checked w f s)"
    and "checked_opt v chk f (hide s) = map_outcome hide (checked_opt v chk f s)"
  by (simp_all add: checked_def checked_opt_def assms split: sum.split option.split)

lemma net_schedule_blind [blind_simps]:
  "net_schedule pk lat (hide s) = map_outcome hide (net_schedule pk lat s)"
  by (simp add: net_schedule_def Let_def blind_simps net_trace_def split_beta)

lemma transmit_blind [blind_simps]:
  "transmit pk (hide s) = map_outcome hide (transmit pk s)"
  by (simp add: transmit_def Let_def blind_simps split_beta cong: if_cong)

lemma release_all_blind [blind_simps]:
  "release_all pks (hide s) = map_outcome hide (release_all pks s)"
  by (induction pks arbitrary: s) (simp_all add: blind_simps)

lemma wake_all_blind [blind_simps]:
  "wake_all ws (hide s) = map_outcome hide (wake_all ws s)"
  by (induction ws arbitrary: s) (simp_all add: blind_simps)

lemma each_blind [blind_simps]:
  assumes "\<And>x s. f x (hide s) = map_outcome hide (f x s)"
  shows "each f xs (hide s) = map_outcome hide (each f xs s)"
  by (induction xs arbitrary: s) (simp_all add: assms)

lemma in_host_blind [blind_simps]:
  assumes "\<And>s. f (hide s) = map_outcome hide (f s)"
  shows "in_host h f (hide s) = map_outcome hide (in_host h f s)"
  by (simp add: in_host_def finally_do_map assms outcome.map_comp comp_def)

lemma wire_blind [blind_simps]:
  "heal (hide s) = map_outcome hide (heal s)"
  "send_stream kd a b c q d sp dp (hide s) = map_outcome hide (send_stream kd a b c q d sp dp s)"
  "send_datagram src dst d (hide s) = map_outcome hide (send_datagram src dst d s)"
  "settle_fut f st (hide s) = map_outcome hide (settle_fut f st s)"
  "net_host h (hide s) = map_outcome hide (net_host h s)"
  "set_defaults l dr du (hide s) = map_outcome hide (set_defaults l dr du s)"
  "set_link a b l dr du (hide s) = map_outcome hide (set_link a b l dr du s)"
  "set_clock h off (hide s) = map_outcome hide (set_clock h off s)"
  "set_disk h bu to (hide s) = map_outcome hide (set_disk h bu to s)"
  "partition_net ga gb (hide s) = map_outcome hide (partition_net ga gb s)"
  "net_restart h (hide s) = map_outcome hide (net_restart h s)"
  by (simp_all add: heal_def send_stream_def send_datagram_def new_uid_def settle_fut_def net_host_def
      set_defaults_def set_link_def set_clock_def set_disk_def partition_net_def net_restart_def Let_def
      checked_blind blind_simps split: sum.split option.split bool.split cong: branch_congs)

lemma stream_send_blind [blind_simps]:
  "stream_send kd d i (hide s) = map_outcome hide (stream_send kd d i s)"
  by (simp add: stream_send_def Let_def blind_simps)

lemma close_blind [blind_simps]:
  "write_eof i (hide s) = map_outcome hide (write_eof i s)"
  "stream_close i (hide s) = map_outcome hide (stream_close i s)"
  "force_close i exc (hide s) = map_outcome hide (force_close i exc s)"
  "stream_abort i (hide s) = map_outcome hide (stream_abort i s)"
  "dgram_sendto i dat to (hide s) = map_outcome hide (dgram_sendto i dat to s)"
  "dgram_close i (hide s) = map_outcome hide (dgram_close i s)"
  by (simp_all add: write_eof_def stream_close_def force_close_def stream_abort_def dgram_sendto_def
      dgram_close_def Let_def blind_simps split: option.split cong: if_cong)

lemma server_blind [blind_simps]:
  "server_close k (hide s) = map_outcome hide (server_close k s)"
  "start_server fa ho po (hide s) = map_outcome hide (start_server fa ho po s)"
  "open_connection fa ha po w (hide s) = map_outcome hide (open_connection fa ha po w s)"
  "connection_cancelled c f (hide s) = map_outcome hide (connection_cancelled c f s)"
  "close_listener key (hide s) = map_outcome hide (close_listener key s)"
  "del_datagram key (hide s) = map_outcome hide (del_datagram key s)"
  by (simp_all add: server_close_def start_server_def open_connection_def connection_cancelled_def
      close_listener_def del_datagram_def new_fut_def ephemeral_def finally_do_map outcome.map_comp comp_def
      Let_def blind_simps
      split: option.split sum.split port_arg.split host_arg.split fut_state.split prod.split cong: if_cong)

lemma accepted_by_blind [simp]: "accepted_by k (hide s) i = accepted_by k s i"
  by (simp add: accepted_by_def)

lemma clients_blind [blind_simps]:
  "close_clients k (hide s) = map_outcome hide (close_clients k s)"
  "abort_clients k (hide s) = map_outcome hide (abort_clients k s)"
  by (simp_all add: close_clients_def abort_clients_def blind_simps)

lemma lose_held_blind [blind_simps]: "lose_held h (hide s) = hide (lose_held h s)"
proof -
  have "fold (net_trace v) pks (hide t) = hide (fold (net_trace v) pks t)" for v pks t
    by (induction pks arbitrary: t) (simp_all add: blind_simps)
  then show ?thesis by (simp add: lose_held_def)
qed

lemma crash_disk_blind [blind_simps]: "crash_disk h (hide s) = hide (crash_disk h s)"
  by (simp add: crash_disk_def split_beta split: option.split)

end

locale blind_upcalls = private_update +
  fixes up :: up
  assumes up_blind: "up u (hide s) = map_outcome hide (up u s)"
begin

lemma handler_blind:
  "net_handler_fun up exc (hide s) = map_outcome hide (net_handler_fun up exc s)"
  by (simp add: net_handler_fun_def up_blind blind_simps split: option.split)

lemma report_blind:
  "report_failure up x (hide s) = map_outcome hide (report_failure up x s)"
  by (cases "net_handler_fun up (Some x) s")
    (simp_all add: report_failure_def call_exception_handler_def handler_blind blind_simps)

lemma shielded_blind: "shielded up u (hide s) = map_outcome hide (shielded up u s)"
  by (cases "up u s") (simp_all add: shielded_def up_blind report_blind)

lemma ask_blind: "ask up u (hide s) = map_outcome hide (ask up u s)"
  by (simp add: ask_def up_blind)

lemmas up_blinds = up_blind shielded_blind ask_blind

lemma flow_blind:
  "maybe_pause_protocol up i (hide s) = map_outcome hide (maybe_pause_protocol up i s)"
  "maybe_resume_protocol up i (hide s) = map_outcome hide (maybe_resume_protocol up i s)"
  "release_flow_control up i (hide s) = map_outcome hide (release_flow_control up i s)"
  by (simp_all add: maybe_pause_protocol_def maybe_resume_protocol_def release_flow_control_def Let_def
      up_blinds blind_simps split: option.split)

lemma charge_blind:
  "charge up i n (hide s) = map_outcome hide (charge up i n s)"
  "credit up i n (hide s) = map_outcome hide (credit up i n s)"
  "set_write_buffer_limits up i hi lo (hide s) =
     map_outcome hide (set_write_buffer_limits up i hi lo s)"
  by (simp_all add: charge_def credit_def set_write_buffer_limits_def flow_blind blind_simps split: sum.split)

lemma write_blind:
  "consumed up i n (hide s) = map_outcome hide (consumed up i n s)"
  "stream_write up i d (hide s) = map_outcome hide (stream_write up i d s)"
  by (simp_all add: consumed_def stream_write_def Let_def charge_blind blind_simps split: option.split)

lemma writelines_blind:
  "stream_writelines up i ds (hide s) = map_outcome hide (stream_writelines up i ds s)"
  by (induction ds arbitrary: s) (simp_all add: write_blind)

lemma finish_blind:
  "stream_finish up i exc (hide s) = map_outcome hide (stream_finish up i exc s)"
  "dgram_lost up i (hide s) = map_outcome hide (dgram_lost up i s)"
  "stream_begin up i pr (hide s) = map_outcome hide (stream_begin up i pr s)"
  "dgram_begin up i pr (hide s) = map_outcome hide (dgram_begin up i pr s)"
  "datagram_arrived up i d a (hide s) = map_outcome hide (datagram_arrived up i d a s)"
  by (simp_all add: stream_finish_def dgram_lost_def stream_begin_def dgram_begin_def datagram_arrived_def
      Let_def up_blinds blind_simps split: option.split)

lemma feed_blind:
  "feed_buffered up i data (hide s) = map_outcome hide (feed_buffered up i data s)"
proof (induction data arbitrary: s rule: length_induct)
  case (1 data)
  show ?case
  proof (cases "data = []")
    case False
    have IH: "feed_buffered up i (drop (min (nat a) (length data)) data) (hide t) =
        map_outcome hide (feed_buffered up i (drop (min (nat a) (length data)) data) t)"
      if "0 < a" for a t
      using 1 False that by simp
    show ?thesis
      using False
      by (simp add: feed_buffered.simps [of up i data] Let_def up_blinds IH cong: branch_congs)
  qed (simp add: feed_buffered.simps)
qed

lemma arrived_blind:
  "stream_deliver up i d (hide s) = map_outcome hide (stream_deliver up i d s)"
  "eof_arrived up i (hide s) = map_outcome hide (eof_arrived up i s)"
  "reset_arrived up i (hide s) = map_outcome hide (reset_arrived up i s)"
  by (simp_all add: stream_deliver_def eof_arrived_def reset_arrived_def Let_def up_blinds feed_blind
      finish_blind blind_simps split: option.split cong: if_cong)

lemma data_blind:
  "data_arrived up i d (hide s) = map_outcome hide (data_arrived up i d s)"
  by (simp add: data_arrived_def Let_def arrived_blind write_blind blind_simps)

lemma drain_blind:
  "drain_backlog fuel up i (hide s) = map_outcome hide (drain_backlog fuel up i s)"
proof (induction fuel arbitrary: s)
  case (Suc n)
  then show ?case
    by (simp add: drain_backlog.simps [of "Suc n"] Let_def arrived_blind write_blind blind_simps)
qed (simp add: drain_backlog.simps)

lemma resume_blind:
  "resume_reading up i (hide s) = map_outcome hide (resume_reading up i s)"
  by (simp add: resume_reading_def Let_def drain_blind arrived_blind blind_simps cong: if_cong)

lemma handle_blind:
  "handle_syn up pk (hide s) = map_outcome hide (handle_syn up pk s)"
  "handle_answer up pk (hide s) = map_outcome hide (handle_answer up pk s)"
  by (simp_all add: handle_syn_def handle_answer_def register_stream_def new_stream_def Let_def up_blinds finish_blind
      blind_simps split: option.split cong: if_cong)

lemma dispatch_blind:
  "dispatch_ready up pk (hide s) = map_outcome hide (dispatch_ready up pk s)"
  by (simp add: dispatch_ready_def handle_blind data_blind arrived_blind
      split: option.split packet_kind.split)

lemma finish_at_blind:
  "finish_at up key (hide s) = map_outcome hide (finish_at up key s)"
  by (simp add: finish_at_def finish_blind split: option.split)

lemma crash_blind:
  "net_crash up h (hide s) = map_outcome hide (net_crash up h s)"
  by (simp add: net_crash_def Let_def blind_simps up_blind finish_at_blind
      split: sum.split option.split bool.split cong: branch_congs)

lemma flow_control_blind:
  "set_flow_control up e hi lo (hide s) = map_outcome hide (set_flow_control up e hi lo s)"
  by (simp add: set_flow_control_def Let_def checked_blind flow_blind blind_simps cong: if_cong)

lemma endpoint_blind:
  "open_datagram_endpoint up fa la ra (hide s) =
     map_outcome hide (open_datagram_endpoint up fa la ra s)"
  by (simp add: open_datagram_endpoint_def ephemeral_def Let_def up_blind finish_blind
      split: option.split sum.split prod.split)

lemma perform_blind: "perform up a (hide s) = map_outcome hide (perform up a s)"
proof (cases a)
  case (NetA b)
  then show ?thesis
    by (cases b) (simp_all add: with_obj_def blind_simps flow_control_blind crash_blind)
next
  case (LoopA b)
  then show ?thesis
    by (cases b) (simp_all add: with_obj_def host_create_task_def blind_simps)
next
  case (EndpointA b)
  then show ?thesis
    by (cases b) (simp_all add: with_obj_def blind_simps endpoint_blind)
next
  case (StreamA i b)
  then show ?thesis
    by (cases b) (simp_all add: with_obj_def blind_simps writelines_blind resume_blind charge_blind)
qed

end

locale blind_delivery = blind_upcalls +
  assumes hide_queue [simp]: "queue_at key (hide s) = queue_at key s"
    and hide_put [blind_simps]: "put_queue key q (hide s) = hide (put_queue key q s)"
begin

lemma drain_early_blind:
  "drain_early (dispatch_ready up) n key (hide s) = map_outcome hide (drain_early (dispatch_ready up) n key s)"
  by (induction n arbitrary: s)
    (simp_all add: Let_def dispatch_blind blind_simps split: option.split)

lemma deliver_blind:
  "deliver_up up pk (hide s) = map_outcome hide (deliver_up up pk s)"
  by (simp add: deliver_up_def dispatch_stream_def inorder_push_def Let_def drain_early_blind
      finish_blind blind_simps split: option.split)

lemma net_deliver_blind:
  "net_deliver up pk (hide s) = map_outcome hide (net_deliver up pk s)"
  by (simp add: net_deliver_def blind_simps deliver_blind split: option.split bool.split)

lemma net_exec_blind:
  "net_exec up c (hide s) = map_outcome hide (net_exec up c s)"
  by (cases c) (simp_all add: net_deliver_blind finish_blind up_blind)

end

end
