(* ===== verification/SimLoopInv.thy ===== *)
theory SimLoopInv
  imports SimLoop
begin

text \<open>
  The scheduling invariant of \<open>SimLoop\<close> and what it gives. \<open>api_step\<close> is what a callback may do to
  the loop while it runs: schedule, cancel, record a network event, and change anything outside the
  scheduling core. The locale \<open>loop_client\<close> is the contract between the loop and the code it
  runs; every lemma about runs is proved once inside it, for any program that keeps to the API.
\<close>

section \<open>The scheduling core and the callbacks' API\<close>

definition pending :: "('cb, 'z) loop_scheme \<Rightarrow> 'cb ready_entry list" where
  "pending s = l_ready s @ map t_entry (l_timers s)"

definition settled_seqs :: "recorder \<Rightarrow> int list" where
  "settled_seqs rec = map ev_seq (filter (\<lambda>e. ev_kind e = Run \<or> ev_kind e = Cancel) rec)"

definition scheduled_seqs :: "recorder \<Rightarrow> int list" where
  "scheduled_seqs rec = map ev_seq (filter (\<lambda>e. ev_kind e = Schedule) rec)"

definition seqs_below :: "nat \<Rightarrow> int multiset" where
  "seqs_below n = mset (map int [0..<n])"

lemma seqs_below_Suc [simp]: "seqs_below (Suc n) = add_mset (int n) (seqs_below n)"
  by (simp add: seqs_below_def)

lemma seqs_below_0 [simp]: "seqs_below 0 = {#}"
  by (simp add: seqs_below_def)

lemma count_seqs_below: "count (seqs_below n) q = (if 0 \<le> q \<and> q < int n then 1 else 0)"
  by (induction n) auto

definition entry_seqs :: "'cb ready_entry list \<Rightarrow> int multiset" where
  "entry_seqs es = mset (map (\<lambda>e. int (e_seq e)) es)"

lemma entry_seqs_simps [simp]:
  "entry_seqs [] = {#}" "entry_seqs (e # es) = add_mset (int (e_seq e)) (entry_seqs es)"
  "entry_seqs (es @ fs) = entry_seqs es + entry_seqs fs"
  by (simp_all add: entry_seqs_def)

definition loop_core where
  "loop_core s = (l_policy s, l_choice_log s, l_now s, l_ready s, l_timers s, l_next_seq s,
     l_cancelled s, l_recorder s)"

inductive api_step :: "('cb, 'z) loop_scheme \<Rightarrow> ('cb, 'z) loop_scheme \<Rightarrow> bool" where
  soon: "call_soon cb ctx s = Ret s' \<Longrightarrow> api_step s s'"
| timer: "call_at_true w shown cb ctx s = Ret s' \<Longrightarrow> api_step s s'"
| cancel: "api_step s (cancel_handle q s)"
| net: "api_step s (record_at_now Net q lbl h s)"
| frame: "loop_core s' = loop_core s \<Longrightarrow> api_step s s'"

abbreviation api_steps :: "('cb, 'z) loop_scheme \<Rightarrow> ('cb, 'z) loop_scheme \<Rightarrow> bool" where
  "api_steps \<equiv> api_step\<^sup>*\<^sup>*"

lemma api_steps_frame: "loop_core s' = loop_core s \<Longrightarrow> api_steps s s'"
  by (rule r_into_rtranclp) (rule api_step.frame)

lemma api_steps_call_soon: "api_steps s (result_state (call_soon cb ctx s))"
proof (cases "call_soon cb ctx s")
  case (Ret s')
  then show ?thesis by (auto intro: api_step.soon)
next
  case (Exc x s')
  then have "s' = s" by (auto simp: call_soon_def check_closed_def split: if_splits)
  with Exc show ?thesis by simp
qed

lemma api_steps_call_at_true: "api_steps s (result_state (call_at_true w sh cb ctx s))"
proof (cases "call_at_true w sh cb ctx s")
  case (Ret s')
  then show ?thesis by (auto intro: api_step.timer)
next
  case (Exc x s')
  then have "s' = s" by (auto simp: call_at_true_def check_closed_def split: if_splits)
  with Exc show ?thesis by simp
qed

lemma api_steps_call_later: "api_steps s (result_state (call_later d cb ctx s))"
  by (simp add: call_later_def Let_def api_steps_call_at_true)

lemma api_steps_call_at: "api_steps s (result_state (call_at w cb ctx s))"
  by (simp add: call_at_def api_steps_call_at_true)

lemma api_steps_net: "api_steps s (record_at_now Net q lbl h s)"
  by (rule r_into_rtranclp) (rule api_step.net)

lemma api_steps_andthen:
  assumes "api_steps s (result_state r)"
    and "\<And>t. r = Ret t \<Longrightarrow> api_steps t (result_state (f t))"
  shows "api_steps s (result_state (andthen r f))"
  using assms by (cases r) (auto intro: rtranclp_trans)

section \<open>The invariant\<close>

text \<open>
  Timers are in pop order, the policy is well formed, trace timestamps never decrease and never
  pass the clock, and the books balance: every sequence number handed out was scheduled once, and
  is either still pending or was run or cancelled, once.
\<close>

definition loop_inv :: "('cb, 'z) loop_scheme \<Rightarrow> bool" where
  "loop_inv s \<longleftrightarrow>
     sorted (map timer_key (l_timers s)) \<and> policy_inv (l_policy s) \<and>
     sorted (map ev_when (l_recorder s)) \<and> (\<forall>e\<in>set (l_recorder s). ev_when e \<le> l_now s) \<and>
     mset (scheduled_seqs (l_recorder s)) = seqs_below (l_next_seq s) \<and>
     entry_seqs (pending s) + mset (settled_seqs (l_recorder s)) = seqs_below (l_next_seq s)"

lemma seqs_record_event [simp]:
  "scheduled_seqs (record_event k w q l h rec) =
     scheduled_seqs rec @ (if k = Schedule then [q] else [])"
  "settled_seqs (record_event k w q l h rec) =
     settled_seqs rec @ (if k = Run \<or> k = Cancel then [q] else [])"
  by (auto simp: scheduled_seqs_def settled_seqs_def record_event_def)

lemma recorder_record_event [simp]:
  "set (record_event k w q l h rec) = insert (mk_event k w q l h) (set rec)"
  "map ev_when (record_event k w q l h rec) = map ev_when rec @ [w]"
  by (auto simp: record_event_def)

lemma record_at_now_sel [simp]:
  "l_policy (record_at_now k q l h s) = l_policy s"
  "l_choice_log (record_at_now k q l h s) = l_choice_log s"
  "l_now (record_at_now k q l h s) = l_now s" "l_ready (record_at_now k q l h s) = l_ready s"
  "l_timers (record_at_now k q l h s) = l_timers s" "l_next_seq (record_at_now k q l h s) = l_next_seq s"
  "l_cancelled (record_at_now k q l h s) = l_cancelled s"
  "l_recorder (record_at_now k q l h s) = record_event k (l_now s) q l h (l_recorder s)"
  "l_task_owners (record_at_now k q l h s) = l_task_owners s"
  "l_unhandled (record_at_now k q l h s) = l_unhandled s"
  "l_closed (record_at_now k q l h s) = l_closed s"
  "l_stopping (record_at_now k q l h s) = l_stopping s"
  "l_current_host (record_at_now k q l h s) = l_current_host s"
  by (simp_all add: record_at_now_def)

lemma record_entry_sel [simp]:
  "l_policy (record_entry k e s) = l_policy s" "l_choice_log (record_entry k e s) = l_choice_log s"
  "l_now (record_entry k e s) = l_now s" "l_ready (record_entry k e s) = l_ready s"
  "l_timers (record_entry k e s) = l_timers s" "l_next_seq (record_entry k e s) = l_next_seq s"
  "l_cancelled (record_entry k e s) = l_cancelled s"
  "l_recorder (record_entry k e s) =
     record_event k (l_now s) (int (e_seq e)) (e_label e) (e_host e) (l_recorder s)"
  by (simp_all add: record_entry_def)

lemma loop_inv_core: "loop_core s' = loop_core s \<Longrightarrow> loop_inv s' = loop_inv s"
  by (simp add: loop_inv_def loop_core_def pending_def)

lemma mset_heappush: "mset (heappush t ts) = add_mset t (mset ts)"
  by (simp add: heappush_def)

lemma mset_map_heappush: "mset (map f (heappush t ts)) = add_mset (f t) (mset (map f ts))"
  by (simp add: mset_heappush)

lemma sorted_heappush: "sorted (map timer_key ts) \<Longrightarrow> sorted (map timer_key (heappush t ts))"
  by (simp add: heappush_def sorted_insort_key)

lemma entry_seqs_heappush [simp]:
  "entry_seqs (map t_entry (heappush t ts)) = add_mset (int (e_seq (t_entry t))) (entry_seqs (map t_entry ts))"
  by (simp only: entry_seqs_def map_map mset_map_heappush comp_def)

lemma loop_inv_call_soon:
  assumes "loop_inv s" and "call_soon cb ctx s = Ret s'" shows "loop_inv s'"
  using assms
  by (auto simp: loop_inv_def call_soon_def check_closed_def pending_def new_entry_def
      sorted_append split: if_splits)

lemma loop_inv_call_at_true:
  assumes "loop_inv s" and "call_at_true w sh cb ctx s = Ret s'" shows "loop_inv s'"
proof -
  let ?t = "\<lparr>t_when = w, t_shown = sh, t_entry = new_entry cb ctx s\<rparr>"
  have s': "s' = record_at_now Schedule (int (l_next_seq s)) (label_of cb) (l_current_host s)
      (s\<lparr>l_next_seq := Suc (l_next_seq s), l_timers := heappush ?t (l_timers s)\<rparr>)"
    using assms(2) by (auto simp: call_at_true_def check_closed_def split: if_splits)
  have "entry_seqs (pending s') = add_mset (int (l_next_seq s)) (entry_seqs (pending s))"
    by (simp add: s' pending_def new_entry_def)
  then show ?thesis
    using assms(1) sorted_heappush [of "l_timers s" ?t]
    unfolding loop_inv_def by (auto simp: s' sorted_append)
qed

lemma loop_inv_cancel: "loop_inv s \<Longrightarrow> loop_inv (cancel_handle q s)"
  by (simp add: loop_inv_def cancel_handle_def pending_def)

lemma loop_inv_net: "loop_inv s \<Longrightarrow> loop_inv (record_at_now Net q lbl h s)"
  by (auto simp: loop_inv_def pending_def sorted_append)

lemma loop_inv_api_step: "api_step s s' \<Longrightarrow> loop_inv s \<Longrightarrow> loop_inv s'"
  by (induction rule: api_step.induct)
    (blast intro: loop_inv_call_soon loop_inv_call_at_true loop_inv_cancel loop_inv_net
      loop_inv_core [THEN iffD2])+

lemma loop_inv_api_steps: "api_steps s s' \<Longrightarrow> loop_inv s \<Longrightarrow> loop_inv s'"
  by (induction rule: rtranclp_induct) (auto intro: loop_inv_api_step)

lemma loop_inv_init: "loop_inv (loop_init seeded stream seed thread)"
  by (simp add: loop_inv_def loop_init_def pending_def scheduled_seqs_def settled_seqs_def)

section \<open>What the API never touches\<close>

lemma api_step_keeps:
  "api_step s s' \<Longrightarrow> l_now s' = l_now s \<and> l_policy s' = l_policy s \<and> l_choice_log s' = l_choice_log s \<and>
     (\<exists>es. l_recorder s' = l_recorder s @ es)"
  by (induction rule: api_step.induct)
    (auto simp: call_soon_def call_at_true_def check_closed_def cancel_handle_def loop_core_def
      record_event_def split: if_splits)

lemma api_steps_keep:
  "api_steps s s' \<Longrightarrow> l_now s' = l_now s \<and> l_policy s' = l_policy s \<and> l_choice_log s' = l_choice_log s \<and>
     (\<exists>es. l_recorder s' = l_recorder s @ es)"
proof (induction rule: rtranclp_induct)
  case (step s' s'')
  then show ?case using api_step_keeps [OF step.hyps(2)] by (metis append_assoc)
qed auto

section \<open>Advancing the clock\<close>

lemma loop_inv_pop_cancelled:
  "loop_inv (s\<lparr>l_timers := t # ts\<rparr>) \<Longrightarrow> loop_inv ((record_entry Cancel (t_entry t) s)\<lparr>l_timers := ts\<rparr>)"
  by (auto simp: loop_inv_def pending_def sorted_append)

lemma loop_inv_pop_due:
  "loop_inv (s\<lparr>l_timers := t # ts\<rparr>) \<Longrightarrow>
   loop_inv ((s\<lparr>l_ready := l_ready s @ [t_entry t]\<rparr>)\<lparr>l_timers := ts\<rparr>)"
  by (auto simp: loop_inv_def pending_def)

lemma loop_inv_drop_cancelled: "loop_inv (s\<lparr>l_timers := ts\<rparr>) \<Longrightarrow> loop_inv (drop_cancelled ts s)"
  by (induction ts s rule: drop_cancelled.induct) (auto dest: loop_inv_pop_cancelled)

lemma loop_inv_release_due: "loop_inv (s\<lparr>l_timers := ts\<rparr>) \<Longrightarrow> loop_inv (release_due ts s)"
  by (induction ts s rule: release_due.induct) (auto dest: loop_inv_pop_cancelled loop_inv_pop_due)

lemma loop_inv_release_all: "loop_inv s \<Longrightarrow> loop_inv (release_due (l_timers s) s)"
  by (rule loop_inv_release_due) simp

lemma loop_inv_set_now:
  assumes "loop_inv s" and "l_now s \<le> w"
  shows "loop_inv (record_at_now Advance (-1) lbl h (s\<lparr>l_now := w\<rparr>))"
  using assms by (fastforce simp: loop_inv_def pending_def sorted_append)

lemma loop_inv_advance: "loop_inv s \<Longrightarrow> loop_inv (result_state (advance_clock s))"
proof -
  assume inv: "loop_inv s"
  let ?s1 = "drop_cancelled (l_timers s) s"
  have inv1: "loop_inv ?s1" by (rule loop_inv_drop_cancelled) (simp add: inv)
  show ?thesis
  proof (cases "l_timers ?s1")
    case Nil
    with inv1 show ?thesis by (simp add: advance_clock_def)
  next
    case (Cons t ts)
    let ?s3 = "record_at_now Advance (-1) [] [] (?s1\<lparr>l_now := max (l_now ?s1) (t_when t)\<rparr>)"
    have "loop_inv ?s3" by (rule loop_inv_set_now [OF inv1]) simp
    then have "loop_inv (release_due (l_timers ?s3) ?s3)" by (rule loop_inv_release_all)
    then show ?thesis by (simp add: advance_clock_def Cons Let_def del: release_due.simps)
  qed
qed

lemma drop_cancelled_spec:
  defines "live s \<equiv> \<lambda>t. \<not> is_cancelled s (t_entry t)"
  shows "l_timers (drop_cancelled ts s) = dropWhile (\<lambda>t. \<not> live s t) ts \<and>
    l_now (drop_cancelled ts s) = l_now s \<and> l_ready (drop_cancelled ts s) = l_ready s \<and>
    l_cancelled (drop_cancelled ts s) = l_cancelled s"
  by (induction ts s rule: drop_cancelled.induct) (auto simp: live_def is_cancelled_def)

lemma release_due_spec:
  assumes "sorted (map timer_key ts)"
  shows "l_timers (release_due ts s) = filter (\<lambda>t. l_now s < t_when t) ts \<and>
    l_ready (release_due ts s) = l_ready s @
      map t_entry (filter (\<lambda>t. \<not> is_cancelled s (t_entry t) \<and> t_when t \<le> l_now s) ts) \<and>
    l_now (release_due ts s) = l_now s"
  using assms
proof (induction ts s rule: release_due.induct)
  case (2 t ts s)
  show ?case
  proof (cases "t_when t \<le> l_now s")
    case True
    with 2 show ?thesis by (auto simp: is_cancelled_def)
  next
    case False
    have "l_now s < t_when u" if "u \<in> set ts" for u
    proof -
      have "timer_key t \<le> timer_key u" using 2(2) that by auto
      then show ?thesis using False by (auto simp: timer_key_def less_eq_prod_def less_prod_def)
    qed
    then have "filter (\<lambda>u. l_now s < t_when u) ts = ts"
        "filter (\<lambda>u. \<not> is_cancelled s (t_entry u) \<and> t_when u \<le> l_now s) ts = []"
      by (auto simp: filter_id_conv filter_empty_conv dest!: leD)
    with False show ?thesis by auto
  qed
qed simp

lemma sorted_first_live:
  assumes "sorted (map timer_key ts)" and "dropWhile (\<lambda>t. \<not> P t) ts = t # us"
  shows "P t" and "filter P ts = t # filter P us"
    and "\<And>u. u \<in> set (takeWhile (\<lambda>t. \<not> P t) ts) \<Longrightarrow> t_when u \<le> t_when t"
    and "\<And>u. u \<in> set ts \<Longrightarrow> P u \<Longrightarrow> t_when t \<le> t_when u"
proof -
  show P: "P t" using hd_dropWhile [of "\<lambda>t. \<not> P t" ts] assms(2) by simp
  have split: "ts = takeWhile (\<lambda>t. \<not> P t) ts @ t # us"
    using takeWhile_dropWhile_id [of "\<lambda>t. \<not> P t" ts] assms(2) by simp
  have none: "filter P (takeWhile (\<lambda>t. \<not> P t) ts) = []"
    by (auto simp: filter_empty_conv dest: set_takeWhileD)
  show f: "filter P ts = t # filter P us" by (subst split) (simp add: none P)
  have sorted: "sorted (map timer_key (takeWhile (\<lambda>t. \<not> P t) ts @ t # us))"
    using assms(1) split by simp
  show "t_when u \<le> t_when t" if "u \<in> set (takeWhile (\<lambda>t. \<not> P t) ts)" for u
    using sorted that by (fastforce simp: sorted_append timer_key_def less_eq_prod_def)
  show "t_when t \<le> t_when u" if "u \<in> set ts" "P u" for u
  proof -
    have "u \<in> set (filter P ts)" using that by simp
    then have "u = t \<or> u \<in> set us" unfolding f by auto
    then show ?thesis using sorted by (fastforce simp: sorted_append timer_key_def less_eq_prod_def)
  qed
qed

lemma advance_clock_cases:
  assumes "loop_inv s"
  shows "case filter (\<lambda>t. \<not> is_cancelled s (t_entry t)) (l_timers s) of
      [] \<Rightarrow> (\<exists>s'. advance_clock s = Exc DeadlockError s' \<and> l_timers s' = [] \<and>
        l_ready s' = l_ready s \<and> l_now s' = l_now s)
    | t # live \<Rightarrow> (\<exists>s'. advance_clock s = Ret s' \<and> l_now s' = max (l_now s) (t_when t) \<and>
        (\<forall>u\<in>set live. t_when t \<le> t_when u) \<and>
        l_ready s' = l_ready s @ map t_entry (filter (\<lambda>u. t_when u \<le> l_now s') (t # live)) \<and>
        l_timers s' = filter (\<lambda>u. l_now s' < t_when u) (l_timers s))"
proof -
  let ?P = "\<lambda>t. \<not> is_cancelled s (t_entry t)"
  let ?s1 = "drop_cancelled (l_timers s) s"
  note s1 = drop_cancelled_spec [of "l_timers s" s]
  show ?thesis
  proof (cases "dropWhile (\<lambda>t. \<not> ?P t) (l_timers s)")
    case Nil
    then have "filter ?P (l_timers s) = []" by (auto simp: dropWhile_eq_Nil_conv filter_empty_conv)
    moreover have "l_timers ?s1 = []" "l_now ?s1 = l_now s" "l_ready ?s1 = l_ready s"
      using s1 Nil by simp_all
    ultimately show ?thesis by (simp add: advance_clock_def)
  next
    case (Cons t us)
    have sorted: "sorted (map timer_key (l_timers s))" using assms by (simp add: loop_inv_def)
    note first = sorted_first_live [OF sorted Cons]
    have split: "l_timers s = takeWhile (\<lambda>t. \<not> ?P t) (l_timers s) @ t # us"
      by (simp only: Cons [symmetric] takeWhile_dropWhile_id)
    let ?w = "max (l_now s) (t_when t)"
    let ?s3 = "record_at_now Advance (-1) [] [] (?s1\<lparr>l_now := ?w\<rparr>)"
    let ?s' = "release_due (t # us) ?s3"
    have adv: "advance_clock s = Ret ?s'"
      using s1 Cons by (simp add: advance_clock_def Let_def del: release_due.simps)
    have "sorted (map timer_key (t # us))"
      using sorted by (subst (asm) split) (simp add: sorted_append)
    note rel = release_due_spec [OF this, of ?s3]
    have canc: "is_cancelled ?s3 = is_cancelled s" using s1 by (auto simp: is_cancelled_def fun_eq_iff)
    have late: "filter (\<lambda>u. ?w < t_when u) (l_timers s) = filter (\<lambda>u. ?w < t_when u) (t # us)"
    proof -
      have "\<not> ?w < t_when u" if "u \<in> set (takeWhile (\<lambda>t. \<not> ?P t) (l_timers s))" for u
        using first(3) [OF that] by (simp add: not_less le_max_iff_disj)
      then have "filter (\<lambda>u. ?w < t_when u) (takeWhile (\<lambda>t. \<not> ?P t) (l_timers s)) = []"
        by (simp only: filter_empty_conv) blast
      then show ?thesis by (subst split) simp
    qed
    have live: "filter (\<lambda>u. ?P u \<and> t_when u \<le> ?w) (t # us) =
        filter (\<lambda>u. t_when u \<le> ?w) (filter ?P (t # us))"
      by (simp add: conj_commute)
    have "\<forall>u\<in>set (filter ?P us). t_when t \<le> t_when u"
    proof -
      have "set us \<subseteq> set (l_timers s)" by (subst split) auto
      then show ?thesis using first(4) by auto
    qed
    then show ?thesis
      unfolding first(2) list.case
      using adv rel live late canc s1 first(1)
      by (intro exI [of _ ?s']) (simp del: release_due.simps)
  qed
qed

text \<open>
  C23. \<open>_advance_clock\<close>: with no live timer left it raises \<open>SimulationDeadlockError\<close>, the clock
  unmoved. Otherwise the clock jumps to the earliest live deadline (and never backwards), exactly
  the live timers due by then become ready, in \<open>(deadline, seq)\<close> order behind what was ready, and
  exactly the timers due later stay on the heap.
\<close>
theorem advance_clock_spec:
  assumes "loop_inv s"
  shows "case filter (\<lambda>t. \<not> is_cancelled s (t_entry t)) (l_timers s) of
      [] \<Rightarrow> (\<exists>s'. advance_clock s = Exc DeadlockError s' \<and> l_timers s' = [] \<and>
        l_ready s' = l_ready s \<and> l_now s' = l_now s)
    | t # live \<Rightarrow> (\<exists>s'. advance_clock s = Ret s' \<and> l_now s' = max (l_now s) (t_when t) \<and>
        (\<forall>u\<in>set live. t_when t \<le> t_when u) \<and>
        l_ready s' = l_ready s @ map t_entry (filter (\<lambda>u. t_when u \<le> l_now s') (t # live)) \<and>
        l_timers s' = filter (\<lambda>u. l_now s' < t_when u) (l_timers s))"
  using assms by (rule advance_clock_cases)

definition demo_callable :: "unit callable" where
  "demo_callable = \<lparr>c_qualname = Some ''tick'', c_typename = ''function'', c_self = None, c_code = ()\<rparr>"

definition demo_loop :: "unit loop" where
  \<comment> \<open>three timers, the earliest of them cancelled\<close>
  "demo_loop =
     (let new = loop_init (\<lambda>_. demo_rng) (\<lambda>_. demo_rng) 0 1;
          add = (\<lambda>w s. result_state (call_at_true w w demo_callable None s))
      in cancel_handle 0 (add 3 (add 2 (add 1 new))))"

lemma loop_inv_demo: "loop_inv demo_loop"
  unfolding demo_loop_def Let_def
  by (intro loop_inv_cancel loop_inv_api_steps [OF api_steps_call_at_true] loop_inv_init)

theorem advance_clock_spec_witness:
  "\<exists>s'. advance_clock demo_loop = Ret s' \<and> l_now s' = 2 \<and> map e_seq (l_ready s') = [1]"
  using advance_clock_spec [OF loop_inv_demo]
  by (auto simp: demo_loop_def call_at_true_def check_closed_def loop_init_def heappush_def
      timer_key_def new_entry_def cancel_handle_def is_cancelled_def less_eq_prod_def record_at_now_def)

end
