(* ===== verification/SimLoopRun.thy ===== *)
theory SimLoopRun
  imports SimLoopInv
begin

text \<open>
  Steps and runs of the loop. The locale \<open>loop_client\<close> states what the loop relies on of the code
  it runs: callbacks and the installed exception handler reach the loop through its API. The locale
  \<open>policy_blind_client\<close> adds that they never look at the scheduling policy, which is private to
  the loop; under it a run is determined by its choices, and recorded choices replay exactly. Both
  are interpreted on the simulated network's callbacks in theory \<open>SimSystem\<close>.
\<close>

section \<open>Invariants of a step\<close>

lemma advance_gives_ready:
  assumes "loop_inv s" and "advance_clock s = Ret s'" shows "l_ready s' \<noteq> []"
  using advance_clock_cases [OF assms(1)] assms(2)
  by (cases "filter (\<lambda>t. \<not> is_cancelled s (t_entry t)) (l_timers s)") auto

lemma drop_cancelled_keeps:
  "l_policy (drop_cancelled ts s) = l_policy s \<and> l_choice_log (drop_cancelled ts s) = l_choice_log s \<and>
   l_next_seq (drop_cancelled ts s) = l_next_seq s \<and>
   (\<exists>es. l_recorder (drop_cancelled ts s) = l_recorder s @ es)"
  by (induction ts s rule: drop_cancelled.induct) (auto simp: record_event_def)

lemma release_due_keeps:
  "l_policy (release_due ts s) = l_policy s \<and> l_choice_log (release_due ts s) = l_choice_log s \<and>
   l_now (release_due ts s) = l_now s \<and> l_next_seq (release_due ts s) = l_next_seq s \<and>
   (\<exists>es. l_recorder (release_due ts s) = l_recorder s @ es)"
  by (induction ts s rule: release_due.induct) (auto simp: record_event_def)

lemma advance_clock_keeps:
  "l_policy (result_state (advance_clock s)) = l_policy s \<and>
   l_choice_log (result_state (advance_clock s)) = l_choice_log s \<and>
   l_now s \<le> l_now (result_state (advance_clock s)) \<and>
   (\<exists>es. l_recorder (result_state (advance_clock s)) = l_recorder s @ es)"
proof -
  let ?s1 = "drop_cancelled (l_timers s) s"
  note k1 = drop_cancelled_keeps [of "l_timers s" s] and s1 = drop_cancelled_spec [of "l_timers s" s]
  show ?thesis
  proof (cases "l_timers ?s1")
    case Nil
    with k1 s1 show ?thesis by (simp add: advance_clock_def)
  next
    case (Cons t ts)
    let ?s3 = "record_at_now Advance (-1) [] [] (?s1\<lparr>l_now := max (l_now ?s1) (t_when t)\<rparr>)"
    have "advance_clock s = Ret (release_due (l_timers ?s3) ?s3)"
      by (simp add: advance_clock_def Cons Let_def del: release_due.simps)
    moreover note release_due_keeps [of "l_timers ?s3" ?s3]
    ultimately show ?thesis using k1 s1 by (auto simp: record_event_def simp del: release_due.simps)
  qed
qed

text \<open>What popping the chosen entry does, whatever the policy.\<close>

lemma loop_inv_settle:
  assumes "loop_inv s" and "i < length (l_ready s)" and "policy_inv p" and "k = Run \<or> k = Cancel"
  shows "loop_inv (record_entry k (l_ready s ! i)
    (s\<lparr>l_policy := p, l_choice_log := clog, l_ready := remove_nth i (l_ready s)\<rparr>))"
proof -
  have "entry_seqs (l_ready s) = add_mset (int (e_seq (l_ready s ! i))) (entry_seqs (remove_nth i (l_ready s)))"
    unfolding entry_seqs_def mset_map using mset_remove_nth [OF assms(2)] by simp
  then show ?thesis
    using assms(1,3,4) by (auto simp: loop_inv_def pending_def sorted_append)
qed

locale loop_client =
  fixes exec :: "('cb, 'z) exec" and handler :: "('cb, 'z) handler"
  assumes exec_api: "api_steps s (result_state (exec cb s))"
    and handler_api: "handler = Some h \<Longrightarrow> api_steps s (result_state (h exc s))"
begin

lemma call_exception_handler_api: "api_steps s (result_state (call_exception_handler handler exc s))"
proof (cases handler)
  case None
  then show ?thesis
    by (auto simp: call_exception_handler_def default_exception_handler_def loop_core_def
        intro!: api_steps_frame split: option.splits)
next
  case (Some h)
  have "api_steps s' (default_exception_handler exc (s'\<lparr>l_unhandled := l_unhandled s' @ [x]\<rparr>))" for s' :: "('cb, 'z) loop_scheme" and x
    by (rule api_steps_frame) (simp add: default_exception_handler_def loop_core_def split: option.splits)
  with Some handler_api [OF Some, of s exc] show ?thesis
    by (cases "h exc s") (auto simp: call_exception_handler_def intro: rtranclp_trans)
qed

lemma run_handle_api: "api_steps s (result_state (run_handle exec handler e s))"
proof -
  let ?s0 = "s\<lparr>l_current_host := e_host e\<rparr>"
  let ?r = "finally_do (exec (c_code (e_callback e)) ?s0) (\<lambda>s'. s'\<lparr>l_current_host := l_current_host s\<rparr>)"
  have "api_steps s ?s0" by (rule api_steps_frame) (simp add: loop_core_def)
  moreover have "api_steps ?s0 (result_state (exec (c_code (e_callback e)) ?s0))" by (rule exec_api)
  moreover have "api_steps t (t\<lparr>l_current_host := l_current_host s\<rparr>)" for t :: "('cb, 'z) loop_scheme"
    by (rule api_steps_frame) (simp add: loop_core_def)
  ultimately have r: "api_steps s (result_state ?r)"
    unfolding result_state_finally by (meson rtranclp_trans)
  show ?thesis
  proof (cases ?r)
    case (Ret t)
    with r show ?thesis by (simp add: run_handle_def Let_def)
  next
    case (Exc x t)
    with r call_exception_handler_api [of t "Some x"] show ?thesis
      by (auto simp: run_handle_def Let_def intro: rtranclp_trans)
  qed
qed

lemma run_chosen_inv:
  assumes "loop_inv s" and "l_ready s \<noteq> []"
  shows "loop_inv (result_state (run_chosen exec handler s))"
proof -
  obtain i p where c: "policy_choose (l_policy s) (map (ready_view_of s) (l_ready s)) = (i, p)" by fastforce
  have "policy_inv (l_policy s)" using assms(1) by (simp add: loop_inv_def)
  note popped = pol.pop_chosen [OF this assms(2) c]
  note settle = loop_inv_settle [OF assms(1) popped(3,2)]
  have "loop_inv (s\<lparr>l_policy := p\<rparr>)" using assms(1) popped(2) by (simp add: loop_inv_def pending_def)
  then show ?thesis
    using settle loop_inv_api_steps [OF run_handle_api]
    by (auto simp: run_chosen_def c Let_def)
qed

lemma loop_step_inv:
  assumes "loop_inv s"
  shows "loop_inv (result_state (loop_step exec handler s))"
proof (cases "l_ready s = []")
  case True
  show ?thesis
  proof (cases "advance_clock s")
    case (Ret s')
    with loop_inv_advance [OF assms] advance_gives_ready [OF assms Ret] True show ?thesis
      by (simp add: loop_step_def run_chosen_inv)
  next
    case (Exc x s')
    with loop_inv_advance [OF assms] True show ?thesis by (simp add: loop_step_def)
  qed
next
  case False
  then show ?thesis by (simp add: loop_step_def run_chosen_inv assms)
qed

lemma run_while_inv: "loop_inv s \<Longrightarrow> loop_inv (run_state (run_while guard exec handler fuel s))"
proof (induction fuel arbitrary: s)
  case 0
  then show ?case by (simp add: run_while.simps)
next
  case (Suc n)
  show ?case
  proof (cases "loop_step exec handler s")
    case (Ret s')
    with loop_step_inv [OF Suc.prems] have "loop_inv s'" by simp
    with Suc Ret show ?thesis by (simp add: run_while.simps [of guard exec handler "Suc n"])
  next
    case (Exc x s')
    with loop_step_inv [OF Suc.prems] Suc.prems show ?thesis
      by (simp add: run_while.simps [of guard exec handler "Suc n"])
  qed
qed

text \<open>Time and the trace only grow.\<close>

lemma run_handle_keeps:
  "l_now (result_state (run_handle exec handler e s)) = l_now s \<and>
   l_policy (result_state (run_handle exec handler e s)) = l_policy s \<and>
   l_choice_log (result_state (run_handle exec handler e s)) = l_choice_log s \<and>
   (\<exists>es. l_recorder (result_state (run_handle exec handler e s)) = l_recorder s @ es)"
  using api_steps_keep [OF run_handle_api] .

lemma run_chosen_grows:
  "l_now s \<le> l_now (result_state (run_chosen exec handler s)) \<and>
   (\<exists>es. l_recorder (result_state (run_chosen exec handler s)) = l_recorder s @ es)"
proof -
  obtain i p where c: "policy_choose (l_policy s) (map (ready_view_of s) (l_ready s)) = (i, p)" by fastforce
  let ?s1 = "s\<lparr>l_policy := p, l_choice_log := l_choice_log s @ [i], l_ready := remove_nth i (l_ready s)\<rparr>"
  show ?thesis
    using run_handle_keeps [of "l_ready s ! i" "record_entry Run (l_ready s ! i) ?s1"]
    by (auto simp: run_chosen_def c Let_def record_event_def)
qed

lemma loop_step_grows:
  "l_now s \<le> l_now (result_state (loop_step exec handler s)) \<and>
   (\<exists>es. l_recorder (result_state (loop_step exec handler s)) = l_recorder s @ es)"
proof (cases "l_ready s = []")
  case True
  show ?thesis
  proof (cases "advance_clock s")
    case (Ret s')
    with advance_clock_keeps [of s] run_chosen_grows [of s'] True show ?thesis
      by (auto simp: loop_step_def)
  next
    case (Exc x s')
    with advance_clock_keeps [of s] True show ?thesis by (simp add: loop_step_def)
  qed
qed (simp add: loop_step_def run_chosen_grows)

lemma run_while_grows:
  "l_now s \<le> l_now (run_state (run_while guard exec handler fuel s)) \<and>
   (\<exists>es. l_recorder (run_state (run_while guard exec handler fuel s)) = l_recorder s @ es)"
proof (induction fuel arbitrary: s)
  case (Suc n)
  show ?case
  proof (cases "loop_step exec handler s")
    case (Ret s')
    with loop_step_grows [of s] Suc [of s'] show ?thesis
      by (auto simp: run_while.simps [of guard exec handler "Suc n"])
  next
    case (Exc x s')
    with loop_step_grows [of s] show ?thesis
      by (simp add: run_while.simps [of guard exec handler "Suc n"])
  qed
qed (simp add: run_while.simps)

end

section \<open>Runs and their choices\<close>

lemma set_policy_sel [simp]:
  "l_policy (set_policy p s) = p" "l_choice_log (set_policy p s) = l_choice_log s"
  "l_now (set_policy p s) = l_now s" "l_ready (set_policy p s) = l_ready s"
  "l_timers (set_policy p s) = l_timers s" "l_cancelled (set_policy p s) = l_cancelled s"
  "l_recorder (set_policy p s) = l_recorder s" "l_unhandled (set_policy p s) = l_unhandled s"
  "l_current_host (set_policy p s) = l_current_host s" "l_stopping (set_policy p s) = l_stopping s"
  "l_closed (set_policy p s) = l_closed s" "l_running (set_policy p s) = l_running s"
  "l_task_owners (set_policy p s) = l_task_owners s"
  "is_cancelled (set_policy p s) = is_cancelled s" "has_work (set_policy p s) = has_work s"
  by (auto simp: set_policy_def is_cancelled_def has_work_def fun_eq_iff)

lemma ready_view_of_set_policy [simp]: "ready_view_of (set_policy p s) = ready_view_of s"
  by (simp add: ready_view_of_def fun_eq_iff split: option.splits)

lemma set_policy_idem [simp]:
  "set_policy p (set_policy q s) = set_policy p s" "set_policy (l_policy s) s = s"
  by (simp_all add: set_policy_def)

lemma set_policy_record [simp]:
  "record_at_now k a b c (set_policy p s) = set_policy p (record_at_now k a b c s)"
  "record_entry k e (set_policy p s) = set_policy p (record_entry k e s)"
  by (simp_all add: set_policy_def record_at_now_def record_entry_def)

lemma set_policy_update [simp]:
  "set_policy p s\<lparr>l_timers := ts\<rparr> = set_policy p (s\<lparr>l_timers := ts\<rparr>)"
  "set_policy p s\<lparr>l_ready := es\<rparr> = set_policy p (s\<lparr>l_ready := es\<rparr>)"
  "set_policy p s\<lparr>l_now := w\<rparr> = set_policy p (s\<lparr>l_now := w\<rparr>)"
  "set_policy p s\<lparr>l_current_host := h\<rparr> = set_policy p (s\<lparr>l_current_host := h\<rparr>)"
  "set_policy p s\<lparr>l_unhandled := u\<rparr> = set_policy p (s\<lparr>l_unhandled := u\<rparr>)"
  "set_policy p s\<lparr>l_running := b, l_thread_id := n\<rparr> = set_policy p (s\<lparr>l_running := b, l_thread_id := n\<rparr>)"
  "set_policy p s\<lparr>l_stopping := b, l_running := c\<rparr> = set_policy p (s\<lparr>l_stopping := b, l_running := c\<rparr>)"
  by (simp_all add: set_policy_def)

lemma drop_cancelled_set_policy:
  "drop_cancelled ts (set_policy p s) = set_policy p (drop_cancelled ts s)"
  by (induction ts s rule: drop_cancelled.induct) auto

lemma release_due_set_policy: "release_due ts (set_policy p s) = set_policy p (release_due ts s)"
  by (induction ts s rule: release_due.induct) auto

lemma advance_clock_set_policy:
  "advance_clock (set_policy p s) = map_outcome (set_policy p) (advance_clock s)"
  by (auto simp: advance_clock_def Let_def drop_cancelled_set_policy release_due_set_policy
      simp del: release_due.simps split: list.splits)

lemma result_state_map [simp]: "result_state (map_outcome f r) = f (result_state r)"
  by (cases r) auto

lemma run_state_map [simp]: "run_state (map_run f r) = f (run_state r)"
  by (cases r) auto

definition prepared :: "('cb, 'z) loop_scheme \<Rightarrow> ('cb, 'z) loop_scheme outcome" where
  "prepared s = (if l_ready s = [] then advance_clock s else Ret s)"

lemma loop_step_prepared: "loop_step exec handler s = andthen (prepared s) (run_chosen exec handler)"
  by (simp add: loop_step_def prepared_def)

lemma prepared_set_policy: "prepared (set_policy p s) = map_outcome (set_policy p) (prepared s)"
  by (simp add: prepared_def advance_clock_set_policy)

lemma prepared_spec:
  assumes "loop_inv s" and "prepared s = Ret s1"
  shows "loop_inv s1" "l_ready s1 \<noteq> []" "l_policy s1 = l_policy s" "l_choice_log s1 = l_choice_log s"
  using assms loop_inv_advance [of s] advance_gives_ready [of s s1] advance_clock_keeps [of s]
  by (auto simp: prepared_def split: if_splits)

lemma prepared_Exc:
  assumes "prepared s = Exc x s'"
  shows "l_policy s' = l_policy s" "l_choice_log s' = l_choice_log s"
  using assms advance_clock_keeps [of s] by (auto simp: prepared_def split: if_splits)

locale policy_blind_client = loop_client +
  assumes exec_blind: "exec cb (set_policy p s) = map_outcome (set_policy p) (exec cb s)"
    and handler_blind: "handler = Some h \<Longrightarrow> h exc (set_policy p s) = map_outcome (set_policy p) (h exc s)"
begin

lemma handler_set_policy:
  "call_exception_handler handler exc (set_policy p s) =
     map_outcome (set_policy p) (call_exception_handler handler exc s)"
proof (cases handler)
  case None
  then show ?thesis
    by (auto simp: call_exception_handler_def default_exception_handler_def split: option.splits)
next
  case (Some h)
  then show ?thesis
    using handler_blind [OF Some, of exc p s]
    by (cases "h exc s")
      (auto simp: call_exception_handler_def default_exception_handler_def split: option.splits)
qed

lemma run_handle_set_policy:
  "run_handle exec handler e (set_policy p s) = map_outcome (set_policy p) (run_handle exec handler e s)"
proof -
  let ?r = "exec (c_code (e_callback e)) (s\<lparr>l_current_host := e_host e\<rparr>)"
  have "exec (c_code (e_callback e)) (set_policy p s\<lparr>l_current_host := e_host e\<rparr>) = map_outcome (set_policy p) ?r"
    by (simp add: exec_blind)
  then show ?thesis
    by (cases ?r) (auto simp: run_handle_def Let_def handler_set_policy)
qed

lemma run_chosen_same_choice:
  assumes "policy_choose (l_policy s) (map (ready_view_of s) (l_ready s)) = (i, p')"
    and "policy_choose q (map (ready_view_of s) (l_ready s)) = (i, q')"
  shows "run_chosen exec handler (set_policy q s) = map_outcome (set_policy q') (run_chosen exec handler s)"
proof -
  let ?s1 = "s\<lparr>l_policy := p', l_choice_log := l_choice_log s @ [i], l_ready := remove_nth i (l_ready s)\<rparr>"
  have "set_policy q s\<lparr>l_policy := q', l_choice_log := l_choice_log s @ [i],
      l_ready := remove_nth i (l_ready s)\<rparr> = set_policy q' ?s1"
    and "set_policy q s\<lparr>l_policy := q'\<rparr> = set_policy q' (s\<lparr>l_policy := p'\<rparr>)"
    by (simp_all add: set_policy_def)
  then show ?thesis
    using assms by (simp add: run_chosen_def Let_def run_handle_set_policy)
qed

lemma run_chosen_logs:
  assumes "policy_choose (l_policy s) (map (ready_view_of s) (l_ready s)) = (i, p')"
    and "i \<le> MAX_CHOICE"
  shows "l_choice_log (result_state (run_chosen exec handler s)) = l_choice_log s @ [i]"
    and "l_policy (result_state (run_chosen exec handler s)) = p'"
  using assms run_handle_keeps by (auto simp: run_chosen_def Let_def split: if_splits)

lemma run_chosen_too_far:
  assumes "policy_choose (l_policy s) (map (ready_view_of s) (l_ready s)) = (i, p')"
    and "\<not> i \<le> MAX_CHOICE"
  shows "run_chosen exec handler s = Exc AssertionError (s\<lparr>l_policy := p'\<rparr>)"
  using assms by (simp add: run_chosen_def)

lemma loop_step_logs:
  assumes "loop_inv s"
  shows "\<exists>cs. l_choice_log (result_state (loop_step exec handler s)) = l_choice_log s @ cs \<and>
    (\<forall>c\<in>set cs. c \<le> MAX_CHOICE)"
proof (cases "prepared s")
  case (Exc x s')
  with prepared_Exc [OF Exc] show ?thesis by (simp add: loop_step_prepared)
next
  case (Ret s1)
  obtain i p' where c: "policy_choose (l_policy s1) (map (ready_view_of s1) (l_ready s1)) = (i, p')" by fastforce
  with prepared_spec [OF assms Ret] run_chosen_logs [OF c] run_chosen_too_far [OF c] Ret show ?thesis
    by (cases "i \<le> MAX_CHOICE") (auto simp: loop_step_prepared)
qed

lemma run_while_logs:
  assumes "loop_inv s"
  shows "\<exists>cs. l_choice_log (run_state (run_while guard exec handler fuel s)) = l_choice_log s @ cs \<and>
    (\<forall>c\<in>set cs. c \<le> MAX_CHOICE)"
  using assms
proof (induction fuel arbitrary: s)
  case (Suc n)
  obtain cs where cs: "l_choice_log (result_state (loop_step exec handler s)) = l_choice_log s @ cs"
      "\<forall>c\<in>set cs. c \<le> MAX_CHOICE"
    using loop_step_logs [OF Suc.prems] by blast
  show ?case
  proof (cases "loop_step exec handler s")
    case (Ret s')
    with loop_step_inv [OF Suc.prems] have "loop_inv s'" by simp
    from Suc.IH [OF this] obtain ds where
      "l_choice_log (run_state (run_while guard exec handler n s')) = l_choice_log s' @ ds"
      "\<forall>c\<in>set ds. c \<le> MAX_CHOICE" by blast
    with cs Ret show ?thesis
      by (intro exI [of _ "if guard s then cs @ ds else []"])
        (auto simp: run_while.simps [of guard exec handler "Suc n"])
  next
    case (Exc x s')
    with cs show ?thesis
      by (intro exI [of _ "if guard s then cs else []"])
        (auto simp: run_while.simps [of guard exec handler "Suc n"])
  qed
qed (simp add: run_while.simps)

end

section \<open>Replaying recorded choices\<close>

text \<open>
  \<open>script_at\<close> is what a script asks for at a step: its entry, or FIFO beyond its end. A script
  covers a list of choices when it asks for exactly those from where it stands.
\<close>

definition script_at :: "scripted \<Rightarrow> nat \<Rightarrow> nat" where
  "script_at q k = (if k < length (sc_choices q) then sc_choices q ! k else 0)"

definition script_covers :: "scripted \<Rightarrow> nat list \<Rightarrow> bool" where
  "script_covers q cs \<longleftrightarrow> (\<forall>k<length cs. script_at q (sc_step q + k) = cs ! k)"

definition script_advanced :: "scripted \<Rightarrow> nat \<Rightarrow> scripted \<Rightarrow> bool" where
  "script_advanced q n q' \<longleftrightarrow> sc_choices q' = sc_choices q \<and> sc_step q' = sc_step q + n \<and>
     (sc_step q + n \<le> length (sc_choices q) \<longrightarrow> sc_diverged_at q' = sc_diverged_at q)"

lemma script_advanced_0 [simp]: "script_advanced q 0 q"
  by (simp add: script_advanced_def)

lemma script_advanced_trans:
  "script_advanced q m q' \<Longrightarrow> script_advanced q' n q'' \<Longrightarrow> script_advanced q (m + n) q''"
  by (auto simp: script_advanced_def)

lemma script_covers_append:
  assumes "script_covers q (cs @ ds)"
  shows "script_covers q cs" and "script_advanced q (length cs) q' \<Longrightarrow> script_covers q' ds"
proof -
  show "script_covers q cs"
    using assms by (auto simp: script_covers_def nth_append)
  show "script_covers q' ds" if "script_advanced q (length cs) q'"
  proof -
    have "script_at q (sc_step q + (length cs + k)) = ds ! k" if "k < length ds" for k
      using assms [unfolded script_covers_def, rule_format, of "length cs + k"] that by simp
    moreover have "script_at q' = script_at q" "sc_step q' = sc_step q + length cs"
      using that by (auto simp: script_advanced_def script_at_def)
    ultimately show ?thesis by (simp add: script_covers_def add.assoc)
  qed
qed

lemma scripted_choose_covers:
  assumes "script_covers q [i]" and "i < length ready"
  shows "\<exists>q'. scripted_choose q ready = (i, q') \<and> script_advanced q 1 q'"
  using assms
  by (auto simp: script_covers_def script_at_def scripted_choose_def script_advanced_def Let_def
      split: if_splits)

context policy_blind_client begin

lemma loop_step_replay:
  assumes inv: "loop_inv s" and "\<nexists>s'. loop_step exec handler s = Exc AssertionError s'"
    and "l_choice_log (result_state (loop_step exec handler s)) = l_choice_log s @ cs"
    and "script_covers q cs"
  shows "\<exists>q'. loop_step exec handler (set_policy (ScriptedP q) s) =
      map_outcome (set_policy (ScriptedP q')) (loop_step exec handler s) \<and>
    script_advanced q (length cs) q'"
proof (cases "prepared s")
  case (Exc x s')
  with assms(3) prepared_Exc [OF Exc] have "cs = []" by (simp add: loop_step_prepared)
  with Exc show ?thesis
    by (intro exI [of _ q]) (simp add: loop_step_prepared prepared_set_policy)
next
  case (Ret s1)
  obtain i p' where c: "policy_choose (l_policy s1) (map (ready_view_of s1) (l_ready s1)) = (i, p')" by fastforce
  note s1 = prepared_spec [OF inv Ret]
  have step: "loop_step exec handler s = run_chosen exec handler s1"
    using Ret by (simp add: loop_step_prepared)
  have "i \<le> MAX_CHOICE"
    using assms(2) run_chosen_too_far [OF c] unfolding step by blast
  with run_chosen_logs [OF c] assms(3) s1 have cs: "cs = [i]" unfolding step by simp
  have "policy_inv (l_policy s1)" using s1(1) by (simp add: loop_inv_def)
  then have "i < length (map (ready_view_of s1) (l_ready s1))"
    using pol.pop_chosen(3) [OF _ s1(2) c] by simp
  from scripted_choose_covers [OF _ this] assms(4) cs obtain q' where q':
    "scripted_choose q (map (ready_view_of s1) (l_ready s1)) = (i, q')" "script_advanced q 1 q'" by blast
  then have "policy_choose (ScriptedP q) (map (ready_view_of s1) (l_ready s1)) = (i, ScriptedP q')" by simp
  from run_chosen_same_choice [OF c this] Ret q'(2) cs show ?thesis
    by (intro exI [of _ q']) (simp add: loop_step_prepared prepared_set_policy)
qed

lemma run_while_replay:
  assumes "loop_inv s" and "\<And>p t. guard (set_policy p t) = guard t"
    and "\<nexists>s'. run_while guard exec handler fuel s = Finished (Exc AssertionError s')"
    and "l_choice_log (run_state (run_while guard exec handler fuel s)) = l_choice_log s @ cs"
    and "script_covers q cs"
  shows "\<exists>q'. run_while guard exec handler fuel (set_policy (ScriptedP q) s) =
      map_run (set_policy (ScriptedP q')) (run_while guard exec handler fuel s) \<and>
    script_advanced q (length cs) q'"
  using assms(1,3,4,5)
proof (induction fuel arbitrary: s q cs)
  case 0
  then have "cs = []" by (simp add: run_while.simps split: if_splits)
  then show ?case by (intro exI [of _ q]) (simp add: run_while.simps assms(2))
next
  case (Suc n)
  note unfold = run_while.simps [of guard exec handler "Suc n"]
  show ?case
  proof (cases "guard s")
    case False
    with Suc.prems have "cs = []" by (simp add: unfold)
    with False show ?thesis by (intro exI [of _ q]) (simp add: unfold assms(2))
  next
    case guard: True
    obtain cs1 where cs1: "l_choice_log (result_state (loop_step exec handler s)) = l_choice_log s @ cs1"
      using loop_step_logs [OF Suc.prems(1)] by blast
    have no_assert: "\<nexists>s'. loop_step exec handler s = Exc AssertionError s'"
      using Suc.prems(2) guard by (auto simp: unfold)
    show ?thesis
    proof (cases "loop_step exec handler s")
      case (Exc x s')
      with Suc.prems(3) cs1 guard have "cs = cs1" by (simp add: unfold)
      with loop_step_replay [OF Suc.prems(1) no_assert cs1, of q] Suc.prems(4) Exc guard show ?thesis
        by (auto simp: unfold assms(2))
    next
      case (Ret s')
      with loop_step_inv [OF Suc.prems(1)] have inv': "loop_inv s'" by simp
      obtain cs2 where cs2: "l_choice_log (run_state (run_while guard exec handler n s')) = l_choice_log s' @ cs2"
        using run_while_logs [OF inv'] by blast
      have cs: "cs = cs1 @ cs2" using Suc.prems(3) cs1 cs2 Ret guard by (simp add: unfold)
      note covers = script_covers_append [OF Suc.prems(4) [unfolded cs]]
      obtain q1 where q1: "loop_step exec handler (set_policy (ScriptedP q) s) = Ret (set_policy (ScriptedP q1) s')"
          "script_advanced q (length cs1) q1"
        using loop_step_replay [OF Suc.prems(1) no_assert cs1 covers(1)] Ret by auto
      have "\<nexists>t. run_while guard exec handler n s' = Finished (Exc AssertionError t)"
        using Suc.prems(2) Ret guard by (auto simp: unfold)
      from Suc.IH [OF inv' this cs2 covers(2) [OF q1(2)]] obtain q2 where
        "run_while guard exec handler n (set_policy (ScriptedP q1) s') =
           map_run (set_policy (ScriptedP q2)) (run_while guard exec handler n s')"
        "script_advanced q1 (length cs2) q2" by blast
      with q1 Ret guard cs show ?thesis
        by (auto simp: unfold assms(2) intro: script_advanced_trans)
    qed
  qed
qed

end

end
