(* ===== verification/SimSystem.thy ===== *)
theory SimSystem
  imports SimStable SimBlind SimLoopRun
begin

text \<open>
  The loop, the network and a program put together. Every program keeps what the network's
  operations keep and is blind to what they are blind to, by induction on its budget; so the locales
  of theories \<open>SimStable\<close> and \<open>SimBlind\<close> hold of it, and with them the contracts \<open>loop_client\<close> and
  \<open>policy_blind_client\<close> the loop relies on, interpreted here on the network's own callbacks.
\<close>

section \<open>Programs keep the contracts\<close>

lemma behave_stable:
  assumes "stable_pred P" and "P t"
  shows "P (result_state (behave prog n u k t))"
  using assms(2)
proof (induction n arbitrary: u k t)
  case (Suc n)
  have "stable_upcalls P (\<lambda>u. behave prog n u 0)"
    by (intro stable_upcalls.intro stable_upcalls_axioms.intro assms(1) Suc.IH)
  note act = stable_upcalls.perform_stable [OF this]
  show ?case
    using Suc.prems
    by (auto intro!: stable_pred.andthen_stable [OF assms(1)] act Suc.IH split: option.split)
qed simp

lemma upcalls_stable: "stable_pred P \<Longrightarrow> stable_upcalls P (upcalls prog n)"
  by (intro stable_upcalls.intro stable_upcalls_axioms.intro) (simp_all add: upcalls_def behave_stable)

lemma behave_blind:
  assumes "private_update hide" and "\<And>s. public (hide s) = public s"
  shows "behave prog n u k (hide s) = map_outcome hide (behave prog n u k s)"
proof (induction n arbitrary: u k s)
  case (Suc n)
  have "blind_upcalls hide (\<lambda>u. behave prog n u 0)"
    by (intro blind_upcalls.intro blind_upcalls_axioms.intro assms(1) Suc.IH)
  note act = blind_upcalls.perform_blind [OF this]
  show ?case by (simp add: assms(2) act Suc.IH split: option.split)
qed simp

lemma upcalls_blind:
  "private_update hide \<Longrightarrow> (\<And>s. public (hide s) = public s) \<Longrightarrow> blind_upcalls hide (upcalls prog n)"
  by (intro blind_upcalls.intro blind_upcalls_axioms.intro) (simp_all add: upcalls_def behave_blind)

section \<open>The loop's API\<close>

lemma api_frame: "api_steps s t \<Longrightarrow> loop_core t' = loop_core t \<Longrightarrow> api_steps s t'"
  by (meson api_steps_frame rtranclp_trans)

lemma net_host_core: "loop_core (result_state (net_host name t)) = loop_core t"
  by (simp add: net_host_def loop_core_def Let_def)

lemma api_stable: "stable_pred (api_steps s)"
proof (unfold_locales, goal_cases)
  case 29
  then show ?case by (meson api_steps_net rtranclp_trans)
next
  case 30
  then show ?case by (meson api_steps_call_soon rtranclp_trans)
next
  case 31
  then show ?case by (meson api_steps_call_later rtranclp_trans)
next
  case 32
  then show ?case by (meson api_steps_call_at rtranclp_trans)
next
  case 33
  then show ?case by (meson api_step.cancel rtranclp.rtrancl_into_rtrancl)
next
  case 35
  then show ?case by (rule api_frame) (rule net_host_core)
qed (erule api_frame, simp add: loop_core_def upd_st_def register_stream_def new_stream_def drop_stream_def)+

interpretation api: stable_delivery "api_steps s" "upcalls prog n" for s prog n
  by (intro stable_delivery.intro upcalls_stable api_stable stable_delivery_axioms.intro)
    (erule api_frame, simp add: put_queue_def loop_core_def)

interpretation pol_hide: private_update "set_policy p" for p
  by unfold_locales (simp_all add: set_policy_def)

lemma public_policy: "public (set_policy p s) = public s"
  by (simp add: public_def set_policy_def)

interpretation pol_blind: blind_delivery "set_policy p" "upcalls prog n" for p prog n
proof (intro blind_delivery.intro blind_delivery_axioms.intro)
  show "blind_upcalls (set_policy p) (upcalls prog n)"
    by (rule upcalls_blind [OF pol_hide.private_update_axioms public_policy])
  show "queue_at key (set_policy p s) = queue_at key s" for key s
    by (simp add: queue_at_def set_policy_def)
  show "put_queue key q (set_policy p s) = set_policy p (put_queue key q s)" for key q s
    by (simp add: put_queue_def set_policy_def)
qed

section \<open>Runs of the whole system\<close>

definition sys_exec :: "program \<Rightarrow> nat \<Rightarrow> cb \<Rightarrow> net \<Rightarrow> net outcome" where
  "sys_exec prog n = net_exec (upcalls prog n)"

definition sys_handler :: "program \<Rightarrow> nat \<Rightarrow> (exn option \<Rightarrow> net \<Rightarrow> net outcome) option" where
  "sys_handler prog n = net_handler (upcalls prog n)"

interpretation sys: policy_blind_client "sys_exec prog n" "sys_handler prog n" for prog n
proof
  show "api_steps s (result_state (sys_exec prog n cb s))" for s :: net and cb
    unfolding sys_exec_def by (rule api.net_exec_stable) simp
  show "sys_handler prog n = Some h \<Longrightarrow> api_steps s (result_state (h exc s))" for h exc and s :: net
    unfolding sys_handler_def net_handler_def using api.handler_stable [of s s] by auto
  show "sys_exec prog n cb (set_policy p s) = map_outcome (set_policy p) (sys_exec prog n cb s)" for cb p s
    unfolding sys_exec_def by (rule pol_blind.net_exec_blind)
  show "sys_handler prog n = Some h \<Longrightarrow> h exc (set_policy p s) = map_outcome (set_policy p) (h exc s)" for h exc p s
    unfolding sys_handler_def net_handler_def using pol_blind.handler_blind by auto
qed

end
