(* ===== verification/SimRuns.thy ===== *)
theory SimRuns
  imports SimSystem
begin

text \<open>
  Whole runs: a program booted on a fresh loop and network and run by \<open>run_forever\<close>. Since the
  statements hold for every number of steps, they hold of every state such a run reaches.
\<close>

section \<open>Booting and running\<close>

definition booted ::
    "(int \<Rightarrow> rng) \<Rightarrow> (string \<Rightarrow> rng) \<Rightarrow> int \<Rightarrow> nat \<Rightarrow> cb callable \<Rightarrow> net" where
  \<comment> \<open>a loop made from a seed, with the driver's main task created on it\<close>
  "booted seeded stream seed thread main =
     result_state (create_task False 0 main None (net_init seeded stream seed thread))"

definition booted_replay ::
    "(int \<Rightarrow> rng) \<Rightarrow> (string \<Rightarrow> rng) \<Rightarrow> int list \<Rightarrow> int \<Rightarrow> nat \<Rightarrow> cb callable \<Rightarrow> exn + net" where
  \<comment> \<open>the same on the loop \<open>from_choices\<close> makes, with the network around it (\<open>from_choices_in_net\<close>)\<close>
  "booted_replay seeded stream choices fault_seed thread main =
     (case (from_choices seeded stream choices fault_seed thread :: exn + cb loop) of
        Inl e \<Rightarrow> Inl e
      | Inr l \<Rightarrow> Inr (result_state (create_task False 0 main None
          (set_policy (l_policy l) (net_init seeded stream fault_seed thread)))))"

lemma from_choices_in_net:
  assumes "from_choices seeded stream choices fault_seed thread = Inr l"
  shows "loop.truncate (set_policy (l_policy l) (net_init seeded stream fault_seed thread)) = l"
  using assms by (auto simp: from_choices_def set_policy_def net_init_def net_host_def loop_init_def loop.defs net.defs Let_def
      split: sum.splits)

definition sys_run :: "program \<Rightarrow> nat \<Rightarrow> nat \<Rightarrow> nat \<Rightarrow> net \<Rightarrow> net run" where
  "sys_run prog n thread fuel s = run_forever (sys_exec prog n) (sys_handler prog n) thread fuel s"

subsection \<open>The invariant at boot\<close>

lemma net_init_core:
  "loop_core (net_init sd st seed thread) =
     (SeededP (seeded_init (sd seed)), [], 0, [], [], 0, [], [])"
  by (simp add: net_init_def net_host_def loop_core_def loop_init_def loop.extend_def net.fields_def
      FORBIDDEN_NAME_CHARS_def ADDRESS_LIMIT_def DRIVER_def Let_def)

lemma net_init_inv: "loop_inv (net_init sd st seed thread)"
  using net_init_core [of sd st seed thread]
  by (simp add: loop_inv_def loop_core_def pending_def scheduled_seqs_def settled_seqs_def)

lemma booted_inv: "loop_inv (booted sd st seed thread main)"
proof -
  have "api_steps (net_init sd st seed thread) (booted sd st seed thread main)"
    unfolding booted_def by (intro stable_pred.create_task_stable [OF api_stable]) simp
  then show ?thesis using net_init_inv by (rule loop_inv_api_steps)
qed

lemma booted_log: "l_choice_log (booted sd st seed thread main) = []"
proof -
  have "api_steps (net_init sd st seed thread) (booted sd st seed thread main)"
    unfolding booted_def by (intro stable_pred.create_task_stable [OF api_stable]) simp
  from api_steps_keep [OF this] net_init_core [of sd st seed thread] show ?thesis
    by (simp add: loop_core_def)
qed

lemma loop_inv_flags [simp]:
  "loop_inv (s\<lparr>l_running := b, l_thread_id := k\<rparr>) = loop_inv s"
  "loop_inv (s\<lparr>l_stopping := b, l_running := c\<rparr>) = loop_inv s" for s :: net
  by (rule loop_inv_core; simp add: loop_core_def)+

lemma sys_run_inv: "loop_inv s \<Longrightarrow> loop_inv (run_state (sys_run prog n thread fuel s))"
  using sys.run_while_inv [of "s\<lparr>l_running := True, l_thread_id := thread\<rparr>"
      "\<lambda>s. \<not> l_stopping s \<and> has_work s" prog n fuel]
  by (auto simp: sys_run_def run_forever_def split: run.split)

section \<open>Scheduling\<close>

text \<open>
  C2. No callback is lost and none runs twice: in every state a run reaches, the trace shows every
  sequence number scheduled exactly once, and each of them is either still pending (ready or on the
  timer heap), or was run or cancelled, exactly once.
\<close>
theorem callbacks_are_conserved:
  "let s = run_state (sys_run prog n thread fuel (booted seeded stream seed thread main)) in
   (\<forall>q. count (mset (scheduled_seqs (l_recorder s))) q = (if 0 \<le> q \<and> q < int (l_next_seq s) then 1 else 0)) \<and>
   (\<forall>q. count (entry_seqs (pending s)) q + count (mset (settled_seqs (l_recorder s))) q =
      (if 0 \<le> q \<and> q < int (l_next_seq s) then 1 else 0))"
proof -
  let ?s = "run_state (sys_run prog n thread fuel (booted seeded stream seed thread main))"
  have "loop_inv ?s" by (intro sys_run_inv booted_inv)
  then show ?thesis
    by (auto simp: loop_inv_def Let_def count_seqs_below simp flip: count_union)
qed

text \<open>
  C22. Virtual time only moves forward: in every state a run reaches, the timestamps of the trace
  never decrease and never pass the clock; and what a later state has recorded extends what an
  earlier one had, by steps at the same time or later.
\<close>
theorem time_moves_forward:
  "let s = run_state (sys_run prog n thread fuel (booted seeded stream seed thread main));
       t = run_state (run_while (\<lambda>s. \<not> l_stopping s \<and> has_work s) (sys_exec prog n) (sys_handler prog n) steps s)
   in sorted (map ev_when (l_recorder s)) \<and> list_all (\<lambda>e. ev_when e \<le> l_now s) (l_recorder s) \<and>
      l_now s \<le> l_now t \<and> (\<exists>es. l_recorder t = l_recorder s @ es)"
proof -
  let ?s = "run_state (sys_run prog n thread fuel (booted seeded stream seed thread main))"
  have "loop_inv ?s" by (intro sys_run_inv booted_inv)
  then show ?thesis
    using sys.run_while_grows [of ?s "\<lambda>s. \<not> l_stopping s \<and> has_work s" prog n steps]
    by (simp add: loop_inv_def Let_def list_all_iff)
qed

section \<open>Replay\<close>

lemma net_init_policy:
  "create_task False 0 main None (set_policy p (net_init sd st seed thread)) =
     map_outcome (set_policy p) (create_task False 0 main None (net_init sd st seed thread))"
  by (rule pol_hide.create_task_blind)

lemma booted_replay_eq:
  "booted_replay sd st choices seed thread main =
     (case scripted_init choices of
        Inl e \<Rightarrow> Inl e
      | Inr q \<Rightarrow> Inr (set_policy (ScriptedP q) (booted sd st seed thread main)))"
  by (simp add: booted_replay_def from_choices_def booted_def net_init_policy split: sum.split)

lemma set_policy_running [simp]:
  "set_policy p s\<lparr>l_running := b\<rparr> = set_policy p (s\<lparr>l_running := b\<rparr>)"
  "set_policy p s\<lparr>l_thread_id := k\<rparr> = set_policy p (s\<lparr>l_thread_id := k\<rparr>)" for s :: net
  by (simp_all add: set_policy_def)

lemma sys_run_replay:
  assumes "loop_inv s" and "\<nexists>s'. sys_run prog n thread fuel s = Finished (Exc AssertionError s')"
    and "l_choice_log (run_state (sys_run prog n thread fuel s)) = l_choice_log s @ cs"
    and "script_covers q cs"
  shows "\<exists>q'. sys_run prog n thread fuel (set_policy (ScriptedP q) s) =
      map_run (set_policy (ScriptedP q')) (sys_run prog n thread fuel s) \<and> script_advanced q (length cs) q'"
proof (cases "l_closed s \<or> l_running s")
  case True
  then have "sys_run prog n thread fuel s = Finished (Exc RuntimeError s)"
    by (auto simp: sys_run_def run_forever_def)
  with assms(3) have "cs = []" by simp
  with True show ?thesis by (intro exI [of _ q]) (auto simp: sys_run_def run_forever_def)
next
  case False
  let ?g = "\<lambda>s :: net. \<not> l_stopping s \<and> has_work s"
  let ?s0 = "s\<lparr>l_running := True, l_thread_id := thread\<rparr>"
  let ?r = "run_while ?g (sys_exec prog n) (sys_handler prog n) fuel ?s0"
  let ?done = "\<lambda>s :: net. s\<lparr>l_stopping := False, l_running := False\<rparr>"
  have unfold: "sys_run prog n thread fuel s =
      (case ?r of Finished r \<Rightarrow> Finished (map_outcome ?done r) | OutOfFuel s' \<Rightarrow> OutOfFuel s')"
    using False by (simp add: sys_run_def run_forever_def finally_do_map split: run.split)
  have "l_choice_log (run_state ?r) = l_choice_log ?s0 @ cs"
    using assms(3) by (simp add: unfold split: run.splits)
  moreover have "\<nexists>s'. ?r = Finished (Exc AssertionError s')"
    using assms(2) by (auto simp: unfold)
  ultimately obtain q' where q': "run_while ?g (sys_exec prog n) (sys_handler prog n) fuel (set_policy (ScriptedP q) ?s0) =
      map_run (set_policy (ScriptedP q')) ?r" "script_advanced q (length cs) q'"
    using sys.run_while_replay [of ?s0 ?g prog n fuel cs q] assms(1,4) by auto
  have "sys_run prog n thread fuel (set_policy (ScriptedP q) s) =
      map_run (set_policy (ScriptedP q')) (sys_run prog n thread fuel s)"
    using False q'(1) by (cases ?r) (simp_all add: sys_run_def run_forever_def finally_do_map
        outcome.map_comp comp_def)
  with q'(2) show ?thesis by blast
qed

text \<open>
  C1. Replay is exact: take any run of any program, and replay the choices it recorded (its own
  \<open>_choices()\<close>) on a loop made by \<open>_from_choices\<close> with the same fault seed. The recording is
  accepted, the replay ends the same way, in the same state but for the policy object, with the
  same trace and the same choices, and reports no divergence.
\<close>
theorem replay_is_exact:
  assumes "r = sys_run prog n thread fuel (booted seeded stream seed thread main)"
    and "\<nexists>s'. r = Finished (Exc AssertionError s')"
  shows "\<exists>s0 p. booted_replay seeded stream (map int (l_choice_log (run_state r))) seed thread main = Inr s0 \<and>
    sys_run prog n thread fuel s0 = map_run (set_policy p) r \<and>
    l_recorder (run_state (sys_run prog n thread fuel s0)) = l_recorder (run_state r) \<and>
    l_choice_log (run_state (sys_run prog n thread fuel s0)) = l_choice_log (run_state r) \<and>
    diverged_at p = None"
proof -
  let ?b = "booted seeded stream seed thread main"
  let ?cs = "l_choice_log (run_state r)"
  obtain bound: "\<forall>c\<in>set ?cs. c \<le> MAX_CHOICE"
  proof -
    have "l_choice_log (run_state (sys_run prog n thread fuel ?b)) = [] \<or> (\<forall>c\<in>set ?cs. c \<le> MAX_CHOICE)"
      using sys.run_while_logs [of "?b\<lparr>l_running := True, l_thread_id := thread\<rparr>"
          "\<lambda>s. \<not> l_stopping s \<and> has_work s" prog n fuel] booted_inv [of seeded stream seed thread main] assms(1)
      by (auto simp: sys_run_def run_forever_def booted_log split: run.splits)
    with assms(1) show thesis using that by fastforce
  qed
  define q where "q = \<lparr>sc_choices = ?cs, sc_step = 0, sc_diverged_at = None\<rparr>"
  have init: "scripted_init (map int ?cs) = Inr q"
    using bound by (auto simp: scripted_init_def q_def comp_def)
  have "script_covers q ?cs" by (simp add: script_covers_def script_at_def q_def)
  moreover have "l_choice_log (run_state (sys_run prog n thread fuel ?b)) = l_choice_log ?b @ ?cs"
    using assms(1) by (simp add: booted_log)
  ultimately obtain q' where q': "sys_run prog n thread fuel (set_policy (ScriptedP q) ?b) =
      map_run (set_policy (ScriptedP q')) r" "script_advanced q (length ?cs) q'"
    using sys_run_replay [OF booted_inv, of prog n thread fuel seeded stream seed thread main ?cs q] assms by blast
  have "sc_diverged_at q' = None" using q'(2) by (simp add: script_advanced_def q_def)
  then show ?thesis
    using q'(1) init
    by (intro exI [of _ "set_policy (ScriptedP q) ?b"] exI [of _ "ScriptedP q'"])
      (simp add: booted_replay_eq)
qed

definition demo_user :: "nat \<Rightarrow> cb callable" where
  "demo_user k = \<lparr>c_qualname = Some ''main'', c_typename = ''function'', c_self = None, c_code = UserCb k\<rparr>"

definition demo_prog :: program where
  \<comment> \<open>the main task sets a timer and returns\<close>
  "demo_prog u k s = (if u = UserCode 0 \<and> k = 0 then Some (LoopA (ACallLater 1 (demo_user 1) None)) else None)"

lemma booted_ready: "\<exists>e. l_ready (booted sd st seed thread main) = [e]"
  by (simp add: booted_def create_task_def check_closed_def call_soon_def register_task_def net_init_def
      net_host_def loop_init_def loop.extend_def net.fields_def record_at_now_def
      FORBIDDEN_NAME_CHARS_def ADDRESS_LIMIT_def DRIVER_def Let_def)

lemma run_handle_no_assertion: "run_handle exec handler e s \<noteq> Exc AssertionError s'"
  by (auto simp: run_handle_def Let_def call_exception_handler_def is_exit_def
      split: outcome.splits option.splits if_splits)

lemma single_step_no_assertion:
  assumes "loop_inv s" and "l_ready s = [e]"
  shows "loop_step exec handler s \<noteq> Exc AssertionError s'"
proof -
  obtain i p where c: "policy_choose (l_policy s) (map (ready_view_of s) (l_ready s)) = (i, p)" by fastforce
  have "i < length (l_ready s)"
    using pol.pop_chosen(3) [OF _ _ c] assms by (simp add: loop_inv_def)
  then have "i = 0" using assms(2) by simp
  then show ?thesis
    using assms(2) c by (auto simp: loop_step_def run_chosen_def Let_def run_handle_no_assertion)
qed

theorem replay_is_exact_witness:
  "\<exists>r s0 p. r = sys_run demo_prog 3 1 1 (booted (\<lambda>_. demo_rng) (\<lambda>_. demo_rng) 7 1 (demo_user 0)) \<and>
    booted_replay (\<lambda>_. demo_rng) (\<lambda>_. demo_rng) (map int (l_choice_log (run_state r))) 7 1 (demo_user 0) = Inr s0 \<and>
    sys_run demo_prog 3 1 1 s0 = map_run (set_policy p) r \<and> diverged_at p = None"
proof -
  let ?b = "booted (\<lambda>_. demo_rng) (\<lambda>_. demo_rng) 7 1 (demo_user 0)"
  let ?b1 = "?b\<lparr>l_running := True, l_thread_id := 1\<rparr>"
  obtain e where "l_ready ?b = [e]" using booted_ready by blast
  then have "l_ready ?b1 = [e]" by simp
  then have "loop_step (sys_exec demo_prog 3) (sys_handler demo_prog 3) ?b1 \<noteq> Exc AssertionError s'" for s'
    by (intro single_step_no_assertion) (simp_all add: booted_inv)
  then have "\<nexists>s'. sys_run demo_prog 3 1 1 ?b = Finished (Exc AssertionError s')"
    by (auto simp: sys_run_def run_forever_def run_while.simps [of _ _ _ "Suc 0"] run_while.simps [of _ _ _ 0]
        finally_do_map split: run.splits outcome.splits if_splits)
  from replay_is_exact [OF refl this] show ?thesis by blast
qed

section \<open>Verdicts\<close>

text \<open>
  C25. A green run hides no failure: \<open>run_until_complete\<close> returns normally exactly when the run
  came to rest with the awaited future done, its own result is no exception, and after the
  collection of orphaned tasks no failure was reported to the loop. In every other case that ends,
  it raises.
\<close>
theorem green_run_hides_nothing:
  "run_until_complete fut exec handler thread fuel drain s = Finished (Ret t) \<longleftrightarrow>
     (\<exists>t0. run_forever exec handler thread fuel s = Finished (Ret t0) \<and> aw_done fut t0 \<and>
       t = aw_collect fut t0 \<and> aw_outcome fut t = None \<and> l_unhandled t = [])"
  by (auto simp: run_until_complete_def await_verdict_def
      split: run.splits outcome.splits option.splits list.splits if_splits)

section \<open>Skewed clocks\<close>

text \<open>
  A wrong clock changes what a host reads, never how long a duration takes. After
  \<open>set_clock(h, offset)\<close> a task on \<open>h\<close> reads the true time plus the offset; \<open>call_later\<close>
  still fires after the same true delay, whoever calls it; and a deadline the host computes from
  its own reading, \<open>call_at(loop.time() + d)\<close>, is exactly the timer \<open>call_later(d)\<close> makes.
\<close>
lemma skew_keeps_durations:
  assumes "h \<in> set (n_hosts s)"
  shows "\<exists>s'. set_clock h off s = Ret s' \<and> loop_time (s'\<lparr>l_current_host := h\<rparr>) = true_time s + off \<and>
    map t_when (l_timers (result_state (call_later d cb ctx s'))) =
      map t_when (l_timers (result_state (call_later d cb ctx s))) \<and>
    call_at (loop_time (s'\<lparr>l_current_host := h\<rparr>) + d) cb ctx (s'\<lparr>l_current_host := h\<rparr>) =
      call_later d cb ctx (s'\<lparr>l_current_host := h\<rparr>)"
proof -
  let ?s' = "s\<lparr>l_clock_offsets := dict_set h off (l_clock_offsets s)\<rparr>"
  have push: "map t_when (heappush \<lparr>t_when = w, t_shown = a, t_entry = e\<rparr> ts) =
      map t_when (heappush \<lparr>t_when = w, t_shown = b, t_entry = e\<rparr> ts)" for w a b e and ts :: "cb timer list"
    by (induction ts) (auto simp: heappush_def timer_key_def)
  have "map t_when (l_timers (result_state (call_later d cb ctx ?s'))) =
      map t_when (l_timers (result_state (call_later d cb ctx s)))"
    by (cases ctx)
      (auto simp: call_later_def call_at_true_def check_closed_def new_entry_def Let_def intro: push)
  moreover have "set_clock h off s = Ret ?s'"
    using assms by (simp add: set_clock_def checked_def require_host_def)
  moreover have "loop_time (?s'\<lparr>l_current_host := h\<rparr>) = true_time s + off"
    by (simp add: loop_time_def true_time_def offset_now_def)
  moreover have "call_at (loop_time t + d) cb ctx t = call_later d cb ctx t" for t :: net
    by (simp add: loop_time_def call_at_def call_later_def Let_def algebra_simps)
  ultimately show ?thesis by blast
qed

end
