(* ===== verification/SimNetInv.thy ===== *)
theory SimNetInv
  imports SimRuns
begin

text \<open>
  Invariants of the network over whole runs. The locale \<open>net_invariant\<close> is a property of the
  network's part of the state that the few operations touching it keep; it is a \<open>stable_pred\<close>, so
  every operation and every program keeps it, and so does every step of the loop. Its
  interpretations are the host registry, the transport registry and the ports and numbers in use.
\<close>

section \<open>From operations to runs\<close>

lemma more_calls [simp]:
  fixes t :: net
  shows "loop.more (result_state (call_soon cb ctx t)) = loop.more t"
    and "loop.more (result_state (call_at_true w sh cb ctx t)) = loop.more t"
    and "loop.more (result_state (call_later d cb ctx t)) = loop.more t"
    and "loop.more (result_state (call_at w cb ctx t)) = loop.more t"
    and "loop.more (cancel_handle k t) = loop.more t"
    and "loop.more (record_at_now kd q l h t) = loop.more t"
    and "loop.more (record_entry kd e t) = loop.more t"
  by (simp_all add: call_soon_def call_at_true_def call_later_def call_at_def check_closed_def
      cancel_handle_def record_at_now_def record_entry_def Let_def)

lemma more_advance: "loop.more (result_state (advance_clock s)) = loop.more s" for s :: net
proof -
  have drop: "loop.more (drop_cancelled ts t) = loop.more t" for ts and t :: net
    by (induction ts t rule: drop_cancelled.induct) auto
  have release: "loop.more (release_due ts t) = loop.more t" for ts and t :: net
    by (induction ts t rule: release_due.induct) auto
  show ?thesis by (simp add: advance_clock_def Let_def drop release split: list.split)
qed

locale net_invariant =
  fixes P :: "net \<Rightarrow> bool"
  assumes net_part: "loop.more t' = loop.more t \<Longrightarrow> P t \<Longrightarrow> P t'"
    and net_fields:
    "P t \<Longrightarrow> P (t\<lparr>n_rng := v_n_rng\<rparr>)"
    "P t \<Longrightarrow> P (t\<lparr>n_disk_rng := v_n_disk_rng\<rparr>)"
    "P t \<Longrightarrow> P (t\<lparr>n_disks := v_n_disks\<rparr>)"
    "P t \<Longrightarrow> P (t\<lparr>n_default_latency := v_n_default_latency\<rparr>)"
    "P t \<Longrightarrow> P (t\<lparr>n_default_drop := v_n_default_drop\<rparr>)"
    "P t \<Longrightarrow> P (t\<lparr>n_default_duplicate := v_n_default_duplicate\<rparr>)"
    "P t \<Longrightarrow> P (t\<lparr>n_flow_control := v_n_flow_control\<rparr>)"
    "P t \<Longrightarrow> P (t\<lparr>n_flow_defaults := v_n_flow_defaults\<rparr>)"
    "P t \<Longrightarrow> P (t\<lparr>n_links := v_n_links\<rparr>)"
    "P t \<Longrightarrow> P (t\<lparr>n_cuts := v_n_cuts\<rparr>)"
    "P t \<Longrightarrow> P (t\<lparr>n_held := v_n_held\<rparr>)"
    "P t \<Longrightarrow> P (t\<lparr>n_datagrams := v_n_datagrams\<rparr>)"
    "P t \<Longrightarrow> P (t\<lparr>n_listeners := v_n_listeners\<rparr>)"
    "P t \<Longrightarrow> P (t\<lparr>n_pending := v_n_pending\<rparr>)"
    "P t \<Longrightarrow> P (t\<lparr>n_next_conn := v_n_next_conn\<rparr>)"
    "P t \<Longrightarrow> P (t\<lparr>n_next_port := v_n_next_port\<rparr>)"
    "P t \<Longrightarrow> P (t\<lparr>n_dgram_objs := v_n_dgram_objs\<rparr>)"
    "P t \<Longrightarrow> P (t\<lparr>n_server_objs := v_n_server_objs\<rparr>)"
    "P t \<Longrightarrow> P (t\<lparr>n_futs := v_n_futs\<rparr>)"
    "P t \<Longrightarrow> P (t\<lparr>n_exception_handler := v_n_exception_handler\<rparr>)"
    "P t \<Longrightarrow> P (t\<lparr>n_answer := v_n_answer\<rparr>)"
    and net_uid: "P t \<Longrightarrow> P (t\<lparr>n_next_uid := Suc (n_next_uid t)\<rparr>)"
    and net_host_keeps: "P t \<Longrightarrow> P (result_state (net_host name t))"
    and net_alive: "P t \<Longrightarrow> P (t\<lparr>n_alive := dict_set h b (n_alive t)\<rparr>)"
    and net_stream: "keeps_identity f \<Longrightarrow> P t \<Longrightarrow> P (upd_st i f t)"
    and net_new: "P t \<Longrightarrow> P (snd (register_stream conn local remote t))"
    and net_retire: "P t \<Longrightarrow> \<not> st_closed (get_st t i) \<Longrightarrow>
      P (drop_stream (st_conn (get_st t i)) (fst (st_local (get_st t i))) (snd (st_local (get_st t i)))
        (upd_st i retire t))"
    and net_queue: "P t \<Longrightarrow> P (put_queue key q t)"
begin

lemma is_stable: "stable_pred P"
  by unfold_locales
    (fact net_fields net_uid net_host_keeps net_alive net_stream net_new net_retire | (erule net_part [rotated], simp))+

lemma is_stable_delivery: "stable_delivery P (upcalls prog n)"
  by (intro stable_delivery.intro upcalls_stable is_stable stable_delivery_axioms.intro net_queue)

lemma handle_keeps:
  assumes "P s" shows "P (result_state (run_handle (sys_exec prog n) (sys_handler prog n) e s))"
proof -
  let ?r = "sys_exec prog n (c_code (e_callback e)) (s\<lparr>l_current_host := e_host e\<rparr>)"
  have "P (s\<lparr>l_current_host := e_host e\<rparr>)" using assms by (rule net_part [rotated]) simp
  then have "P (result_state ?r)"
    unfolding sys_exec_def by (rule stable_delivery.net_exec_stable [OF is_stable_delivery])
  then have home: "P ((result_state ?r)\<lparr>l_current_host := h\<rparr>)" for h
    by (rule net_part [rotated]) simp
  have report: "P (result_state (call_exception_handler (sys_handler prog n) (Some x) t))" if "P t" for x t
    using stable_upcalls.report_stable [OF upcalls_stable [OF is_stable] that]
    by (simp add: report_failure_def sys_handler_def net_handler_def)
  show ?thesis
    using home report by (cases ?r) (auto simp: run_handle_def Let_def)
qed

lemma chosen_keeps:
  assumes "P s" shows "P (result_state (run_chosen (sys_exec prog n) (sys_handler prog n) s))"
proof -
  obtain i p where c: "policy_choose (l_policy s) (map (ready_view_of s) (l_ready s)) = (i, p)" by fastforce
  let ?s1 = "s\<lparr>l_policy := p, l_choice_log := l_choice_log s @ [i], l_ready := remove_nth i (l_ready s)\<rparr>"
  have "P (record_entry k e ?s1)" and "P (s\<lparr>l_policy := p\<rparr>)" for k e
    using assms by (auto elim!: net_part [rotated])
  then show ?thesis
    using c by (auto simp: run_chosen_def Let_def intro!: handle_keeps)
qed

lemma step_keeps:
  assumes "P s" shows "P (result_state (loop_step (sys_exec prog n) (sys_handler prog n) s))"
proof -
  have "P (result_state (if l_ready s = [] then advance_clock s else Ret s))"
    using assms by (auto elim!: net_part [rotated] simp: more_advance)
  then show ?thesis
    by (cases "if l_ready s = [] then advance_clock s else Ret s") (auto simp: loop_step_def intro!: chosen_keeps)
qed

lemma while_keeps: "P s \<Longrightarrow> P (run_state (run_while guard (sys_exec prog n) (sys_handler prog n) fuel s))"
proof (induction fuel arbitrary: s)
  case (Suc fuel)
  show ?case
  proof (cases "loop_step (sys_exec prog n) (sys_handler prog n) s")
    case (Ret s')
    with step_keeps [OF Suc.prems] Suc show ?thesis
      by (simp add: run_while.simps [of guard _ _ "Suc fuel"]) (metis outcome.sel(1))
  next
    case (Exc x s')
    with step_keeps [OF Suc.prems, of prog n] Suc.prems show ?thesis
      by (simp add: run_while.simps [of guard _ _ "Suc fuel"])
  qed
qed (simp add: run_while.simps)

lemma run_keeps:
  assumes "P s" shows "P (run_state (sys_run prog n thread fuel s))"
proof -
  have "P (s\<lparr>l_running := True, l_thread_id := thread\<rparr>)" using assms by (rule net_part [rotated]) simp
  note w = while_keeps [OF this, of "\<lambda>s. \<not> l_stopping s \<and> has_work s" prog n fuel]
  have "P (t\<lparr>l_stopping := False, l_running := False\<rparr>)" if "P t" for t
    using that by (rule net_part [rotated]) simp
  with w assms show ?thesis by (auto simp: sys_run_def run_forever_def split: run.split)
qed

lemma booted_keeps:
  assumes "P (net_init seeded stream seed thread)"
  shows "P (booted seeded stream seed thread main)"
  unfolding booted_def by (rule stable_pred.create_task_stable [OF is_stable assms])

end

section \<open>The host registry\<close>

definition clean_name :: "hostname \<Rightarrow> bool" where
  "clean_name h \<longleftrightarrow> h \<noteq> [] \<and> (\<forall>ch\<in>set FORBIDDEN_NAME_CHARS. ch \<notin> set h)"

definition hosts_ok :: "net \<Rightarrow> bool" where
  "hosts_ok s \<longleftrightarrow> distinct (n_hosts s) \<and> map fst (n_addresses s) = n_hosts s \<and>
     map snd (n_addresses s) = map format_address [1..<Suc (length (n_hosts s))] \<and>
     n_names s = map (\<lambda>(h, a). (a, h)) (n_addresses s) \<and> length (n_hosts s) \<le> ADDRESS_LIMIT \<and>
     (\<forall>h\<in>set (n_hosts s). clean_name h \<and> dict_get (n_alive s) h \<noteq> None)"

lemma format_address_inject:
  assumes "i \<le> ADDRESS_LIMIT" and "j \<le> ADDRESS_LIMIT" and "format_address i = format_address j"
  shows "i = j"
proof -
  let ?o = "\<lambda>k sh. str_nat ((ADDRESS_BASE + k) div 2 ^ sh mod 256)"
  have dot: "CHR ''.'' \<notin> set (str_nat k)" for k
    using str_nat_digits digit_not_special by blast
  have "?o i 24 = ?o j 24 \<and> ?o i 16 @ CHR ''.'' # ?o i 8 @ CHR ''.'' # ?o i 0 =
      ?o j 16 @ CHR ''.'' # ?o j 8 @ CHR ''.'' # ?o j 0"
    using assms(3) by (intro separator_split [of _ "CHR ''.''"] dot) (simp add: format_address_def Let_def)
  then have "?o i 16 = ?o j 16 \<and> ?o i 8 @ CHR ''.'' # ?o i 0 = ?o j 8 @ CHR ''.'' # ?o j 0"
    by (intro separator_split [of _ "CHR ''.''"] dot) simp
  then have "?o i 8 = ?o j 8 \<and> ?o i 0 = ?o j 0"
    by (intro separator_split [of _ "CHR ''.''"] dot) simp
  then have "(ADDRESS_BASE + i) div 2 ^ 8 mod 256 = (ADDRESS_BASE + j) div 2 ^ 8 mod 256"
      "(ADDRESS_BASE + i) mod 256 = (ADDRESS_BASE + j) mod 256" by simp_all
  moreover have "(ADDRESS_BASE + k) div 2 ^ 8 mod 256 = k div 256 \<and> (ADDRESS_BASE + k) mod 256 = k mod 256"
    if "k \<le> ADDRESS_LIMIT" for k
  proof -
    have "ADDRESS_BASE + k = k + 256 * (256 * 2567)" by (simp add: ADDRESS_BASE_def)
    then have "(ADDRESS_BASE + k) div 256 = k div 256 + 256 * 2567" "(ADDRESS_BASE + k) mod 256 = k mod 256"
      by (simp_all only: div_mult_self2 mod_mult_self2)
    moreover have "(k div 256 + 256 * 2567) mod 256 = k div 256"
      using that by (simp only: mod_mult_self2) (simp add: ADDRESS_LIMIT_def)
    ultimately show ?thesis by simp
  qed
  ultimately have "i div 256 = j div 256" "i mod 256 = j mod 256" using assms(1,2) by simp_all
  then show ?thesis by (metis div_mult_mod_eq)
qed

lemma dict_set_snoc: "dict_get d k = None \<Longrightarrow> dict_set k v d = d @ [(k, v)]"
  by (rule dict_set_new) (simp add: dict_get_None_iff)

lemma hosts_ok_host: "hosts_ok t \<Longrightarrow> hosts_ok (result_state (net_host name t))"
proof (cases "net_host name t")
  case (Exc x t')
  moreover assume "hosts_ok t"
  ultimately show ?thesis by (auto simp: net_host_def Let_def split: if_splits)
next
  case (Ret t')
  assume ok: "hosts_ok t"
  show ?thesis
  proof (cases "name \<in> set (n_hosts t)")
    case True
    with ok show ?thesis by (simp add: net_host_def)
  next
    case False
    let ?i = "length (n_addresses t) + 1"
    have len: "length (n_addresses t) = length (n_hosts t)" using ok by (metis hosts_ok_def length_map)
    from Ret False have guards: "name \<noteq> []" "\<forall>ch\<in>set FORBIDDEN_NAME_CHARS. ch \<notin> set name" "?i \<le> ADDRESS_LIMIT"
      and t': "t' = t\<lparr>n_hosts := n_hosts t @ [name],
                 n_addresses := dict_set name (format_address ?i) (n_addresses t),
                 n_names := dict_set (format_address ?i) name (n_names t),
                 n_alive := dict_set name True (n_alive t),
                 l_host_tasks := dict_set name [] (l_host_tasks t)\<rparr>"
      by (auto simp: net_host_def Let_def split: if_splits)
    have "dict_get (n_addresses t) name = None"
      using ok False by (metis hosts_ok_def dict_get_None_iff list.set_map)
    moreover have "dict_get (n_names t) (format_address ?i) = None"
    proof -
      have "n_names t = map (\<lambda>(h, a). (a, h)) (n_addresses t)" using ok by (simp add: hosts_ok_def)
      then have "map fst (n_names t) = map snd (n_addresses t)" by (simp add: case_prod_unfold comp_def)
      then have "fst ` set (n_names t) = set (map snd (n_addresses t))" by (metis list.set_map)
      also have "\<dots> = set (map format_address [1..<Suc (length (n_hosts t))])" using ok by (simp add: hosts_ok_def)
      also have "format_address ?i \<notin> \<dots>"
      proof
        assume "format_address ?i \<in> set (map format_address [1..<Suc (length (n_hosts t))])"
        then obtain j where "j \<le> length (n_hosts t)" "format_address ?i = format_address j"
          by (auto simp del: upt_Suc simp: less_Suc_eq_le)
        with format_address_inject [of ?i j] guards(3) len show False by simp
      qed
      finally show ?thesis by (simp add: dict_get_None_iff)
    qed
    ultimately have fields: "n_hosts t' = n_hosts t @ [name]" "n_addresses t' = n_addresses t @ [(name, format_address ?i)]"
      "n_names t' = n_names t @ [(format_address ?i, name)]" "n_alive t' = dict_set name True (n_alive t)"
      by (simp_all add: t' dict_set_snoc)
    have "hosts_ok t'"
      unfolding hosts_ok_def fields
    proof (intro conjI)
      show "distinct (n_hosts t @ [name])" using ok False by (simp add: hosts_ok_def)
      show "length (n_hosts t @ [name]) \<le> ADDRESS_LIMIT" using guards(3) len by simp
      show "map snd (n_addresses t @ [(name, format_address ?i)]) =
          map format_address [1..<Suc (length (n_hosts t @ [name]))]"
        using ok len by (simp add: hosts_ok_def)
      show "\<forall>h\<in>set (n_hosts t @ [name]). clean_name h \<and> dict_get (dict_set name True (n_alive t)) h \<noteq> None"
        using ok guards by (auto simp: hosts_ok_def clean_name_def)
    qed (use ok in \<open>simp_all add: hosts_ok_def\<close>)
    with Ret show ?thesis by simp
  qed
qed

lemma hosts_ok_dep:
  "n_hosts t' = n_hosts t \<Longrightarrow> n_addresses t' = n_addresses t \<Longrightarrow> n_names t' = n_names t \<Longrightarrow>
   n_alive t' = n_alive t \<Longrightarrow> hosts_ok t \<Longrightarrow> hosts_ok t'"
  by (simp add: hosts_ok_def)

lemma more_fields:
  fixes t t' :: net
  assumes "loop.more t' = loop.more t"
  shows "n_hosts t' = n_hosts t" "n_addresses t' = n_addresses t" "n_names t' = n_names t"
    "n_alive t' = n_alive t" "n_streams t' = n_streams t" "n_stream_objs t' = n_stream_objs t"
  using assms by (cases t; cases t'; simp)+

interpretation hosts: net_invariant hosts_ok
proof (unfold_locales, goal_cases)
  case (1 t' t)
  then show ?case using more_fields [OF 1(1)] hosts_ok_dep by blast
next
  case (24 t name)
  then show ?case by (rule hosts_ok_host)
next
  case (25 t h b)
  then show ?case by (simp add: hosts_ok_def)
qed (auto elim!: hosts_ok_dep [rotated 4]
    simp: upd_st_def drop_stream_def put_queue_def register_stream_def new_stream_def)

lemma net_init_fields:
  "n_hosts (net_init sd st seed thread) = [DRIVER]"
  "n_addresses (net_init sd st seed thread) = [(DRIVER, format_address 1)]"
  "n_names (net_init sd st seed thread) = [(format_address 1, DRIVER)]"
  "n_alive (net_init sd st seed thread) = [(DRIVER, True)]"
  "n_streams (net_init sd st seed thread) = []" "n_stream_objs (net_init sd st seed thread) = []"
  by (simp_all add: net_init_def net_host_def loop_init_def loop.extend_def net.fields_def
      FORBIDDEN_NAME_CHARS_def ADDRESS_LIMIT_def DRIVER_def Let_def)

lemma hosts_ok_init: "hosts_ok (net_init sd st seed thread)"
  by (simp add: hosts_ok_def net_init_fields clean_name_def ADDRESS_LIMIT_def DRIVER_def FORBIDDEN_NAME_CHARS_def)

lemma hosts_ok_run: "hosts_ok (run_state (sys_run prog n thread fuel (booted seeded stream seed thread main)))"
  by (intro hosts.run_keeps hosts.booted_keeps hosts_ok_init)

lemma hosts_ok_distinct_addresses:
  assumes "hosts_ok s" shows "distinct (map snd (n_addresses s))"
proof -
  have "inj_on format_address (set [1..<Suc (length (n_hosts s))])"
  proof (rule inj_onI)
    fix i j assume "i \<in> set [1..<Suc (length (n_hosts s))]" "j \<in> set [1..<Suc (length (n_hosts s))]"
      and "format_address i = format_address j"
    moreover have "length (n_hosts s) \<le> ADDRESS_LIMIT" using assms by (simp add: hosts_ok_def)
    ultimately show "i = j" by (intro format_address_inject) (auto simp del: upt_Suc)
  qed
  then have "distinct (map format_address [1..<Suc (length (n_hosts s))])"
    by (simp add: distinct_map del: upt_Suc)
  then show ?thesis using assms by (simp add: hosts_ok_def del: upt_Suc)
qed

lemma address_iff:
  assumes "hosts_ok s"
  shows "net_address h s = Inr a \<longleftrightarrow> (h, a) \<in> set (n_addresses s)"
    and "net_hostname a s = Inr h \<longleftrightarrow> (h, a) \<in> set (n_addresses s)"
proof -
  have d: "distinct (map fst (n_addresses s))" and hs: "set (n_hosts s) = fst ` set (n_addresses s)"
    using assms by (auto simp: hosts_ok_def) (metis (no_types) imageI list.set_map fst_conv)+
  show "net_address h s = Inr a \<longleftrightarrow> (h, a) \<in> set (n_addresses s)"
    using map_of_eq_Some_iff [OF d, of h a] hs
    by (auto simp: net_address_def require_host_def split: option.splits intro: rev_image_eqI)
  have names: "n_names s = map (\<lambda>(h, a). (a, h)) (n_addresses s)" using assms by (simp add: hosts_ok_def)
  have "map fst (n_names s) = map snd (n_addresses s)" by (simp add: names case_prod_unfold comp_def)
  then have "distinct (map fst (n_names s))" using hosts_ok_distinct_addresses [OF assms] by simp
  from map_of_eq_Some_iff [OF this, of a h] show "net_hostname a s = Inr h \<longleftrightarrow> (h, a) \<in> set (n_addresses s)"
    by (auto simp: net_hostname_def names split: option.splits)
qed

text \<open>
  Addresses identify hosts: in every state a run reaches, \<open>address\<close> and \<open>hostname\<close> are
  inverse to each other, every registered host has exactly one address, and no name or address is
  known that is not of a registered host.
\<close>
lemma addresses_identify_hosts:
  "let s = run_state (sys_run prog n thread fuel (booted seeded stream seed thread main)) in
   (\<forall>h a. net_address h s = Inr a \<longleftrightarrow> net_hostname a s = Inr h) \<and>
   (\<forall>h. h \<in> set (n_hosts s) \<longleftrightarrow> (\<exists>a. net_hostname a s = Inr h)) \<and>
   list_all clean_name (n_hosts s)"
proof -
  let ?s = "run_state (sys_run prog n thread fuel (booted seeded stream seed thread main))"
  have ok: "hosts_ok ?s" by (rule hosts_ok_run)
  have "h \<in> set (n_hosts ?s) \<longleftrightarrow> (\<exists>a. (h, a) \<in> set (n_addresses ?s))" for h
  proof -
    have "set (n_hosts ?s) = fst ` set (n_addresses ?s)" using ok by (metis hosts_ok_def list.set_map)
    then show ?thesis by force
  qed
  moreover have "list_all clean_name (n_hosts ?s)" using ok by (simp add: hosts_ok_def list_all_iff)
  ultimately show ?thesis using address_iff [OF ok] by (simp add: Let_def)
qed

text \<open>
  A host may be named like another host's address; the resolver then prefers the address, so
  traffic sent to that host by name reaches the other one.
\<close>
lemma address_named_host_is_shadowed:
  "let s = result_state (net_host (format_address 1) (net_init seeded stream seed thread)) in
   format_address 1 \<in> set (n_hosts s) \<and> resolve (HStr (format_address 1)) s = Inr DRIVER"
proof -
  let ?a = "format_address 1"
  have chars: "CHR ''.'' \<in> set ?a" "\<And>c. c \<in> set ?a \<Longrightarrow> is_digit c \<or> c = CHR ''.''"
    by (auto simp: format_address_def Let_def dest: str_nat_digits)
  have "CHR ''.'' \<notin> set DRIVER" by (simp add: DRIVER_def)
  with chars(1) have "?a \<noteq> DRIVER" "?a \<noteq> []" by (metis, force)
  moreover have "?a \<noteq> format_address 2" using format_address_inject [of 1 2] by (auto simp: ADDRESS_LIMIT_def)
  moreover have "\<not> (\<exists>ch\<in>set FORBIDDEN_NAME_CHARS. ch \<in> set ?a)"
  proof -
    have "\<not> is_digit ch \<and> ch \<noteq> CHR ''.''" if "ch \<in> set FORBIDDEN_NAME_CHARS" for ch
      using that by (auto simp: FORBIDDEN_NAME_CHARS_def is_digit_def)
    with chars(2) show ?thesis by blast
  qed
  ultimately show ?thesis
    by (simp add: net_host_def net_init_fields Let_def ADDRESS_LIMIT_def resolve_def decoded_def numeral_2_eq_2)
qed

section \<open>The transport registry\<close>

definition skey_of :: "stream \<Rightarrow> skey" where
  "skey_of t = (st_conn t, fst (st_local t), snd (st_local t))"

definition open_at :: "net \<Rightarrow> skey \<Rightarrow> nat \<Rightarrow> bool" where
  "open_at s k i \<longleftrightarrow> i < length (n_stream_objs s) \<and> skey_of (n_stream_objs s ! i) = k \<and>
     \<not> st_closed (n_stream_objs s ! i)"

definition streams_ok :: "net \<Rightarrow> bool" where
  \<comment> \<open>every registered transport exists, is open and is registered under its own key\<close>
  "streams_ok s \<longleftrightarrow> distinct (map fst (n_streams s)) \<and>
     (\<forall>k i. dict_get (n_streams s) k = Some i \<longrightarrow> open_at s k i)"

lemma streams_okI:
  "distinct (map fst (n_streams s)) \<Longrightarrow> (\<And>k i. dict_get (n_streams s) k = Some i \<Longrightarrow> open_at s k i) \<Longrightarrow>
   streams_ok s"
  unfolding streams_ok_def by blast

lemma streams_okD: "streams_ok s \<Longrightarrow> dict_get (n_streams s) k = Some i \<Longrightarrow> open_at s k i"
  unfolding streams_ok_def by blast

lemma streams_ok_distinct: "streams_ok s \<Longrightarrow> distinct (map fst (n_streams s))"
  by (simp only: streams_ok_def)

lemma streams_ok_dep:
  "n_streams t' = n_streams t \<Longrightarrow> n_stream_objs t' = n_stream_objs t \<Longrightarrow> streams_ok t \<Longrightarrow> streams_ok t'"
  unfolding streams_ok_def open_at_def by metis

lemma streams_ok_upd:
  assumes "keeps_identity f" and "streams_ok t" shows "streams_ok (upd_st i f t)"
proof (rule streams_okI)
  show "distinct (map fst (n_streams (upd_st i f t)))"
    using streams_ok_distinct [OF assms(2)] by (simp add: upd_st_def)
  fix k j assume "dict_get (n_streams (upd_st i f t)) k = Some j"
  moreover have "n_streams (upd_st i f t) = n_streams t" by (simp add: upd_st_def)
  ultimately have "dict_get (n_streams t) k = Some j" by metis
  from streams_okD [OF assms(2) this] show "open_at (upd_st i f t) k j"
    using assms(1) by (cases "j = i") (simp_all add: open_at_def upd_st_def skey_of_def)
qed

lemma streams_ok_new:
  assumes "streams_ok t" shows "streams_ok (snd (register_stream conn local remote t))"
proof (rule streams_okI)
  let ?t' = "snd (register_stream conn local remote t)"
  have fields: "n_streams ?t' = dict_set (conn, fst local, snd local) (length (n_stream_objs t)) (n_streams t)"
    "n_stream_objs ?t' = n_stream_objs t @ [stream_init conn local remote]"
    by (simp_all add: register_stream_def new_stream_def)
  show "distinct (map fst (n_streams ?t'))"
    using streams_ok_distinct [OF assms] by (simp add: fields distinct_update)
  fix k j assume "dict_get (n_streams ?t') k = Some j"
  then have "k = (conn, fst local, snd local) \<and> j = length (n_stream_objs t) \<or> dict_get (n_streams t) k = Some j"
    unfolding fields dict_get_set by (metis option.inject)
  then show "open_at ?t' k j"
    using streams_okD [OF assms, of k j]
    by (auto simp: open_at_def fields skey_of_def stream_init_def nth_append)
qed

lemma streams_ok_retire:
  assumes "streams_ok t"
  shows "streams_ok (drop_stream (st_conn (get_st t i)) (fst (st_local (get_st t i))) (snd (st_local (get_st t i)))
    (upd_st i retire t))"
proof (rule streams_okI)
  let ?key = "skey_of (get_st t i)"
  let ?t' = "drop_stream (st_conn (get_st t i)) (fst (st_local (get_st t i))) (snd (st_local (get_st t i))) (upd_st i retire t)"
  have fields: "n_streams ?t' = dict_pop ?key (n_streams t)"
    "n_stream_objs ?t' = (n_stream_objs t)[i := retire (n_stream_objs t ! i)]"
    by (simp_all add: drop_stream_def upd_st_def skey_of_def)
  show "distinct (map fst (n_streams ?t'))"
    using streams_ok_distinct [OF assms] by (simp add: fields distinct_delete)
  fix k j assume "dict_get (n_streams ?t') k = Some j"
  then have "k \<noteq> ?key" and k: "dict_get (n_streams t) k = Some j"
    unfolding fields dict_get_pop by (metis option.discI)+
  with streams_okD [OF assms k] have "j \<noteq> i" by (auto simp: open_at_def get_st_def)
  with streams_okD [OF assms k] show "open_at ?t' k j" by (simp add: open_at_def fields)
qed

lemma streams_ok_host: "streams_ok t \<Longrightarrow> streams_ok (result_state (net_host name t))"
  by (erule streams_ok_dep [rotated 2]) (auto simp: net_host_def Let_def)

interpretation strm: net_invariant streams_ok
proof (unfold_locales, goal_cases)
  case (1 t' t)
  then show ?case using more_fields [OF 1(1)] streams_ok_dep by blast
next
  case (24 t name)
  then show ?case by (rule streams_ok_host)
next
  case (26 f t i)
  then show ?case by (rule streams_ok_upd)
next
  case (27 t conn local remote)
  then show ?case by (rule streams_ok_new)
next
  case (28 t i)
  then show ?case by (intro streams_ok_retire)
qed (auto elim!: streams_ok_dep [rotated 2] simp: put_queue_def)

lemma streams_ok_run: "streams_ok (run_state (sys_run prog n thread fuel (booted seeded stream seed thread main)))"
proof (intro strm.run_keeps strm.booted_keeps)
  show "streams_ok (net_init seeded stream seed thread)" by (simp add: streams_ok_def net_init_fields)
qed

text \<open>
  A transport that was torn down stays torn down: nothing reopens it or moves its endpoints.
\<close>

definition successor :: "stream \<Rightarrow> stream \<Rightarrow> bool" where
  "successor a b \<longleftrightarrow> skey_of b = skey_of a \<and> st_remote b = st_remote a \<and> (st_closed a \<longrightarrow> st_closed b)"

definition later :: "net \<Rightarrow> net \<Rightarrow> bool" where
  "later s t \<longleftrightarrow> length (n_stream_objs s) \<le> length (n_stream_objs t) \<and>
     (\<forall>i<length (n_stream_objs s). successor (n_stream_objs s ! i) (n_stream_objs t ! i))"

lemma successor_trans: "successor a b \<Longrightarrow> successor b c \<Longrightarrow> successor a c"
  by (simp add: successor_def)

lemma later_refl: "later s s"
  by (simp add: later_def successor_def)

lemma later_dep: "n_stream_objs t' = n_stream_objs t \<Longrightarrow> later s t \<Longrightarrow> later s t'"
  by (simp add: later_def)

lemma later_upd:
  assumes "\<And>a. successor a (f a)" and "later s t" shows "later s (upd_st i f t)"
  unfolding later_def
proof (intro conjI allI impI)
  show "length (n_stream_objs s) \<le> length (n_stream_objs (upd_st i f t))"
    using assms(2) by (simp add: later_def upd_st_def)
  fix j assume "j < length (n_stream_objs s)"
  with assms(2) have "successor (n_stream_objs s ! j) (n_stream_objs t ! j)" "j < length (n_stream_objs t)"
    by (auto simp: later_def)
  then show "successor (n_stream_objs s ! j) (n_stream_objs (upd_st i f t) ! j)"
    using successor_trans assms(1) by (cases "j = i") (auto simp: upd_st_def)
qed

lemma successor_keeps: "keeps_identity f \<Longrightarrow> successor a (f a)"
  by (simp add: successor_def skey_of_def)

lemma successor_retire: "successor a (retire a)"
  by (simp add: successor_def skey_of_def retire_def)

interpretation mono: net_invariant "later s" for s
proof (unfold_locales, goal_cases)
  case (1 t' t)
  then show ?case using more_fields(6) [OF 1(1)] later_dep by blast
next
  case (24 t name)
  then show ?case by (auto simp: later_def net_host_def Let_def)
next
  case (26 f t i)
  then show ?case by (intro later_upd successor_keeps)
next
  case (27 t conn local remote)
  then show ?case by (auto simp: later_def register_stream_def new_stream_def nth_append)
next
  case (28 t i)
  then have "later s (upd_st i retire t)" by (intro later_upd successor_retire)
  then show ?case by (rule later_dep [rotated]) (simp add: drop_stream_def)
qed (auto elim!: later_dep [rotated] simp: put_queue_def)

text \<open>
  C24. The transport registry is consistent in every state a run reaches: each entry of
  \<open>_streams\<close> is an existing transport that is still open, registered under its own connection, host
  and port, so no key stands for two transports; and whatever runs afterwards, a transport keeps its
  connection and endpoints, and one that was torn down is never open again.
\<close>
theorem transport_registry_consistent:
  "let s = run_state (sys_run prog n thread fuel (booted seeded stream seed thread main));
       t = run_state (sys_run prog' n' thread' fuel' s)
   in streams_ok s \<and> later s t"
  using streams_ok_run mono.run_keeps [OF later_refl] by (simp add: Let_def)

end
