(* ===== verification/SimReassembly.thy ===== *)
theory SimReassembly
  imports SimSystem
begin

text \<open>
  \<open>_InOrder\<close> of \<open>src/simloop/_net.py\<close>: one direction of a stream is dispatched in sequence order,
  whatever order its packets arrive in. The locale \<open>ordered_dispatch\<close> is what the queue relies on
  of the dispatcher it calls: it leaves the reassembly queues alone. It is interpreted on
  \<open>_dispatch_ready\<close> driving any program.
\<close>

lemma each_append: "each f (xs @ ys) s = andthen (each f xs s) (each f ys)"
proof (induction xs arbitrary: s)
  case (Cons x xs)
  then show ?case by (cases "f x s") simp_all
qed simp

lemma put_queue_sel [simp]:
  "queue_at key (put_queue key q t) = q" "put_queue key q' (put_queue key q t) = put_queue key q' t"
  by (simp_all add: queue_at_def put_queue_def)

definition queue_good :: "(int \<Rightarrow> packet option) \<Rightarrow> inorder \<Rightarrow> int set \<Rightarrow> int \<Rightarrow> bool" where
  \<comment> \<open>of the packets \<open>M\<close> those numbered in \<open>A\<close> arrived, and those below \<open>k\<close> were dispatched\<close>
  "queue_good M q A k \<longleftrightarrow> io_next q = k \<and> {0..<k} \<subseteq> A \<and>
     (\<forall>j. dict_get (io_early q) j = (if k \<le> j \<and> j \<in> A then M j else None))"

lemma length_dict_pop_less: "dict_get d k \<noteq> None \<Longrightarrow> length (dict_pop k d) < length d"
proof (induction d)
  case (Cons kv d)
  have "length (dict_pop k d) \<le> length d" by (rule length_delete_le)
  with Cons show ?case by (cases kv) auto
qed simp

lemma upto_join: "k \<le> k1 \<Longrightarrow> k1 \<le> k2 \<Longrightarrow> [k..k2 - 1] = [k..k1 - 1] @ [k1..k2 - 1]" for k :: int
proof (cases "k = k1")
  case False
  assume "k \<le> k1" "k1 \<le> k2"
  with False have "k \<le> k1 - 1" "k1 - 1 \<le> k2 - 1" by simp_all
  from upto_split2 [OF this] show ?thesis by simp
qed simp

locale ordered_dispatch =
  fixes dispatch :: "packet \<Rightarrow> net \<Rightarrow> net outcome"
  assumes dispatch_private:
    "dispatch pk (t\<lparr>n_inbound := v\<rparr>) = map_outcome (\<lambda>u. u\<lparr>n_inbound := v\<rparr>) (dispatch pk t)"
begin

lemma dispatch_keeps: "n_inbound (result_state (dispatch pk t)) = n_inbound t"
proof -
  have "dispatch pk t = map_outcome (\<lambda>u. u\<lparr>n_inbound := n_inbound t\<rparr>) (dispatch pk t)"
    using dispatch_private [where pk = pk and t = t and v = "n_inbound t"] by simp
  then have "result_state (dispatch pk t) = (result_state (dispatch pk t))\<lparr>n_inbound := n_inbound t\<rparr>"
    by (metis result_state_map)
  then show ?thesis by (metis net.select_convs(19) net.surjective net.update_convs(19))
qed

lemma dispatch_put_queue:
  "dispatch pk (put_queue key q t) = map_outcome (put_queue key q) (dispatch pk t)"
  using dispatch_private [where pk = pk and t = t and v = "dict_set key q (n_inbound t)"] dispatch_keeps [of pk t]
  by (cases "dispatch pk t") (simp_all add: put_queue_def)

text \<open>Draining dispatches the unbroken run from the next expected number.\<close>

lemma drain_dispatches:
  assumes "queue_good M q A k" and "length (io_early q) \<le> fuel" and "\<And>j. j \<in> A \<Longrightarrow> M j \<noteq> None" and "0 \<le> k"
  shows "\<exists>k' q' q''. k \<le> k' \<and> k' \<notin> A \<and> queue_good M q' A k' \<and>
    drain_early dispatch fuel key (put_queue key q t) =
      (case each dispatch (map (\<lambda>j. the (M j)) [k..k' - 1]) t of
         Ret u \<Rightarrow> Ret (put_queue key q' u) | Exc x u \<Rightarrow> Exc x (put_queue key q'' u))"
  using assms(1,2,4)
proof (induction fuel arbitrary: q k t)
  case 0
  then have "dict_get (io_early q) k = None" by simp
  then have "k \<notin> A" using 0(1) assms(3) [of k] unfolding queue_good_def by (metis order_refl)
  with 0 show ?case by (intro exI [of _ k] exI [of _ q]) simp
next
  case (Suc n)
  have next_k: "io_next q = k" using Suc.prems(1) by (simp add: queue_good_def)
  show ?case
  proof (cases "dict_get (io_early q) k")
    case None
    with Suc.prems assms(3) [of k] have "k \<notin> A" by (auto simp: queue_good_def)
    with Suc.prems None next_k show ?thesis by (intro exI [of _ k] exI [of _ q]) simp
  next
    case (Some pk)
    then have k: "k \<in> A" "M k = Some pk" using Suc.prems(1) by (auto simp: queue_good_def split: if_splits)
    define q1 where "q1 = \<lparr>io_next = k + 1, io_early = dict_pop k (io_early q)\<rparr>"
    have "{0..<k + 1} \<subseteq> insert k {0..<k}" by auto
    then have good1: "queue_good M q1 A (k + 1)"
      using Suc.prems(1) k by (auto simp: queue_good_def q1_def)
    have len1: "length (io_early q1) \<le> n"
      using length_dict_pop_less [of "io_early q" k] Some Suc.prems(2) by (simp add: q1_def)
    note IH = Suc.IH [OF good1 len1]
    have head: "[k..k' - 1] = k # [k + 1..k' - 1]" if "k + 1 \<le> k'" for k'
      using upto_rec1 [of k "k' - 1"] that by simp
    have step: "drain_early dispatch (Suc n) key (put_queue key q t) =
        andthen (map_outcome (put_queue key q1) (dispatch pk t)) (drain_early dispatch n key)"
      using Some next_k by (simp add: Let_def q1_def dispatch_put_queue)
    show ?thesis
    proof (cases "dispatch pk t")
      case (Ret u)
      obtain k' q' q'' where "k + 1 \<le> k'" "k' \<notin> A" "queue_good M q' A k'"
        "drain_early dispatch n key (put_queue key q1 u) =
          (case each dispatch (map (\<lambda>j. the (M j)) [k + 1..k' - 1]) u of
             Ret u \<Rightarrow> Ret (put_queue key q' u) | Exc x u \<Rightarrow> Exc x (put_queue key q'' u))"
        using IH [of u] Suc.prems(3) by auto
      with Ret k head [of k'] step show ?thesis
        by (intro exI [of _ k'] exI [of _ q'] exI [of _ q'']) simp
    next
      case (Exc x u)
      obtain k' q' q'' where "k + 1 \<le> k'" "k' \<notin> A" "queue_good M q' A k'"
        using IH [of t] Suc.prems(3) by auto
      with Exc k head [of k'] step show ?thesis
        by (intro exI [of _ k'] exI [of _ q'] exI [of _ q1]) simp
    qed
  qed
qed

lemma push_good:
  assumes "queue_good M q A k" and "pk_seq pk \<notin> A" and "0 \<le> pk_seq pk" and "M (pk_seq pk) = Some pk"
  shows "queue_good M (q\<lparr>io_early := dict_set (pk_seq pk) pk (io_early q)\<rparr>) (insert (pk_seq pk) A) k"
proof -
  have "k \<le> pk_seq pk"
  proof (rule ccontr)
    assume "\<not> k \<le> pk_seq pk"
    then have "pk_seq pk \<in> {0..<k}" using assms(3) by simp
    with assms(1,2) show False by (auto simp: queue_good_def)
  qed
  then show ?thesis using assms by (auto simp: queue_good_def)
qed

lemma arrivals_dispatch:
  assumes "queue_good M q A k" and "k \<notin> A" and "0 \<le> k" and "\<And>j. j \<in> A \<Longrightarrow> M j \<noteq> None"
    and "\<And>pk. pk \<in> set pks \<Longrightarrow> M (pk_seq pk) = Some pk \<and> 0 \<le> pk_seq pk \<and> pk_seq pk \<notin> A"
    and "distinct (map pk_seq pks)"
  shows "\<exists>k' q' q''. k \<le> k' \<and> k' \<notin> A \<union> pk_seq ` set pks \<and> queue_good M q' (A \<union> pk_seq ` set pks) k' \<and>
    each (inorder_push dispatch key) pks (put_queue key q t) =
      (case each dispatch (map (\<lambda>j. the (M j)) [k..k' - 1]) t of
         Ret u \<Rightarrow> Ret (put_queue key q' u) | Exc x u \<Rightarrow> Exc x (put_queue key q'' u))"
  using assms
proof (induction pks arbitrary: q A k t)
  case Nil
  then show ?case by (intro exI [of _ k] exI [of _ q]) simp
next
  case (Cons pk pks)
  let ?j = "pk_seq pk"
  let ?q1 = "q\<lparr>io_early := dict_set ?j pk (io_early q)\<rparr>"
  let ?A1 = "insert ?j A"
  have good1: "queue_good M ?q1 ?A1 k" using Cons.prems by (intro push_good) auto
  have in_M: "\<And>j. j \<in> ?A1 \<Longrightarrow> M j \<noteq> None" using Cons.prems(4,5) by auto
  have push: "inorder_push dispatch key pk (put_queue key q t) =
      drain_early dispatch (length (io_early ?q1)) key (put_queue key ?q1 t)"
    by (simp add: inorder_push_def Let_def)
  obtain k1 q1 q2 where k1: "k \<le> k1" "k1 \<notin> ?A1" "queue_good M q1 ?A1 k1"
    and drain: "inorder_push dispatch key pk (put_queue key q t) =
      (case each dispatch (map (\<lambda>j. the (M j)) [k..k1 - 1]) t of
         Ret u \<Rightarrow> Ret (put_queue key q1 u) | Exc x u \<Rightarrow> Exc x (put_queue key q2 u))"
    using drain_dispatches [OF good1 order_refl in_M Cons.prems(3), of key t] unfolding push by blast
  have A2: "?A1 \<union> pk_seq ` set pks = A \<union> pk_seq ` set (pk # pks)" by auto
  have rest: "\<And>p. p \<in> set pks \<Longrightarrow> M (pk_seq p) = Some p \<and> 0 \<le> pk_seq p \<and> pk_seq p \<notin> ?A1"
    using Cons.prems(5,6) by (auto simp: image_iff)
  note IH = Cons.IH [OF k1(3) k1(2) _ in_M rest, unfolded A2]
  show ?case
  proof (cases "each dispatch (map (\<lambda>j. the (M j)) [k..k1 - 1]) t")
    case (Ret u)
    obtain k2 q' q'' where "k1 \<le> k2" "k2 \<notin> A \<union> pk_seq ` set (pk # pks)"
      "queue_good M q' (A \<union> pk_seq ` set (pk # pks)) k2"
      "each (inorder_push dispatch key) pks (put_queue key q1 u) =
        (case each dispatch (map (\<lambda>j. the (M j)) [k1..k2 - 1]) u of
           Ret u \<Rightarrow> Ret (put_queue key q' u) | Exc x u \<Rightarrow> Exc x (put_queue key q'' u))"
      using IH [of u] k1(1) Cons.prems(3,6) by auto
    with Ret drain k1(1) show ?thesis
      by (intro exI [of _ k2] exI [of _ q'] exI [of _ q'']) (simp add: upto_join [of k k1 k2] each_append)
  next
    case (Exc x u)
    obtain k2 q' q'' where "k1 \<le> k2" "k2 \<notin> A \<union> pk_seq ` set (pk # pks)"
      "queue_good M q' (A \<union> pk_seq ` set (pk # pks)) k2"
      using IH [of t] k1(1) Cons.prems(3,6) by auto
    with Exc drain k1(1) show ?thesis
      by (intro exI [of _ k2] exI [of _ q'] exI [of _ q2]) (simp add: upto_join [of k k1 k2] each_append)
  qed
qed

end

interpretation inb_hide: private_update "\<lambda>s. s\<lparr>n_inbound := v\<rparr>" for v
  by unfold_locales simp_all

lemma public_inbound: "public (s\<lparr>n_inbound := v\<rparr>) = public s"
  by (simp add: public_def)

interpretation inb_blind: blind_upcalls "\<lambda>s. s\<lparr>n_inbound := v\<rparr>" "upcalls prog n" for v prog n
  by (rule upcalls_blind [OF inb_hide.private_update_axioms public_inbound])

interpretation od: ordered_dispatch "dispatch_ready (upcalls prog n)" for prog n
  by unfold_locales (rule inb_blind.dispatch_blind)

definition same_key :: "skey \<Rightarrow> packet \<Rightarrow> bool" where
  "same_key key pk \<longleftrightarrow> key = (pk_conn pk, pk_dst pk, pk_dst_port pk)"

text \<open>
  C3. Streams are ordered, whatever the network does: take the packets of one direction of a
  connection, numbered from 0, and let them reach the machine in any order. What the machine does
  with them is exactly what it would do had they been dispatched one by one in sequence order (up to
  the reassembly queues, which no program sees), also where a protocol raises on the way.
\<close>
theorem streams_reassemble_in_order:
  assumes "mset arrivals = mset packets" and "map pk_seq packets = map int [0..<length packets]"
    and "\<forall>pk\<in>set packets. same_key key pk" and "dict_get (n_inbound s) key = None"
  shows "map_outcome (\<lambda>t. t\<lparr>n_inbound := []\<rparr>) (each (dispatch_stream (upcalls prog n)) arrivals s) =
    map_outcome (\<lambda>t. t\<lparr>n_inbound := []\<rparr>) (each (dispatch_ready (upcalls prog n)) packets s)"
proof (cases "packets = []")
  case False
  let ?D = "dispatch_ready (upcalls prog n)"
  let ?n = "int (length packets)"
  define M where "M j = (if 0 \<le> j \<and> j < ?n then Some (packets ! nat j) else None)" for j
  have seqs: "pk_seq (packets ! i) = int i" if "i < length packets" for i
    using arg_cong [OF assms(2), of "\<lambda>xs. xs ! i"] that by simp
  have sets: "set arrivals = set packets" using assms(1) by (rule mset_eq_setD)
  have "mset (map pk_seq arrivals) = mset (map int [0..<length packets])"
    using assms(1,2) by (metis mset_map)
  then have dist: "distinct (map pk_seq arrivals)" and image: "pk_seq ` set arrivals = {0..<?n}"
    using mset_eq_imp_distinct_iff [of "map pk_seq arrivals" "map int [0..<length packets]"]
      mset_eq_setD [of "map pk_seq arrivals" "map int [0..<length packets]"]
    by (auto simp: distinct_map image_int_atLeastLessThan)
  have in_M: "M (pk_seq pk) = Some pk \<and> 0 \<le> pk_seq pk \<and> pk_seq pk \<notin> {}" if "pk \<in> set arrivals" for pk
    using that seqs by (auto simp: sets M_def in_set_conv_nth)
  have good: "queue_good M inorder_init {} 0" by (simp add: queue_good_def inorder_init_def)
  obtain k' q' q'' where k': "0 \<le> k'" "k' \<notin> {0..<?n}" "queue_good M q' {0..<?n} k'"
    and runs: "each (inorder_push ?D key) arrivals (put_queue key inorder_init s) =
      (case each ?D (map (\<lambda>j. the (M j)) [0..k' - 1]) s of
         Ret u \<Rightarrow> Ret (put_queue key q' u) | Exc x u \<Rightarrow> Exc x (put_queue key q'' u))"
    using od.arrivals_dispatch [OF good _ _ _ in_M dist, where key = key and prog = prog and n = n and t = s] by (auto simp: image)
  have "{0..<k'} \<subseteq> {0..<?n}" using k'(3) by (simp add: queue_good_def)
  then have "k' \<le> ?n" by (auto simp: atLeastLessThan_subset_iff)
  with k'(1,2) have "k' = ?n" by simp
  have "map (\<lambda>j. the (M j)) [0..?n - 1] = packets"
    by (rule nth_equalityI) (auto simp: M_def)
  moreover have "each (dispatch_stream (upcalls prog n)) arrivals s = each (inorder_push ?D key) arrivals s"
  proof -
    have "same_key key pk" if "pk \<in> set arrivals" for pk using that assms(3) sets by simp
    then show ?thesis
    proof (induction arrivals arbitrary: s)
      case (Cons pk pks)
      have "dispatch_stream (upcalls prog n) pk s = inorder_push ?D key pk s"
        using Cons.prems [of pk] by (simp add: dispatch_stream_def same_key_def)
      with Cons show ?case by (cases "inorder_push ?D key pk s") simp_all
    qed simp
  qed
  moreover have "each (inorder_push ?D key) arrivals s =
      each (inorder_push ?D key) arrivals (put_queue key inorder_init s)"
  proof (cases arrivals)
    case (Cons pk pks)
    have "inorder_push ?D key pk s = inorder_push ?D key pk (put_queue key inorder_init s)"
      using assms(4) by (simp add: inorder_push_def Let_def) (simp add: queue_at_def)
    with Cons show ?thesis by simp
  qed (use sets False in simp)
  ultimately show ?thesis
    using runs \<open>k' = ?n\<close> by (cases "each ?D packets s") (simp_all add: put_queue_def)
qed (use assms(1) in simp)

definition demo_packet :: "nat \<Rightarrow> packet" where
  "demo_packet i = \<lparr>pk_kind = Data, pk_src = ''a'', pk_dst = ''b'', pk_src_port = 1, pk_dst_port = 2,
     pk_conn = 0, pk_seq = int i, pk_payload = ''x'', pk_uid = i\<rparr>"

theorem streams_reassemble_in_order_witness:
  "let s = net_init (\<lambda>_. demo_rng) (\<lambda>_. demo_rng) 0 1; up = upcalls (\<lambda>_ _ _. None) 2 in
   map_outcome (\<lambda>t. t\<lparr>n_inbound := []\<rparr>) (each (dispatch_stream up) (map demo_packet [2, 0, 1]) s) =
   map_outcome (\<lambda>t. t\<lparr>n_inbound := []\<rparr>) (each (dispatch_ready up) (map demo_packet [0, 1, 2]) s)"
proof -
  have "n_inbound (net_init (\<lambda>_. demo_rng) (\<lambda>_. demo_rng) 0 1) = []"
    by (simp add: net_init_def net_host_def loop_init_def loop.extend_def net.fields_def Let_def)
  then show ?thesis
    unfolding Let_def
    by (intro streams_reassemble_in_order [where key = "(0, ''b'', 2)"])
      (simp_all add: demo_packet_def same_key_def numeral_3_eq_3)
qed

end
