(* ===== verification/SimShrink.thy ===== *)
theory SimShrink
  imports SimPrelude "HOL-Library.Product_Lexorder"
begin

text \<open>
  \<open>src/simloop/_shrink.py\<close>: the search that reduces a failing schedule. A schedule is the list of
  choices; \<open>replay\<close>, the run of a candidate, is an argument here and is the model's own loop in
  theory \<open>SimRunOnce\<close>. A search step is a function of the search object (\<open>_Search\<close>): it returns a
  value, or \<open>None\<close> when it raised \<open>_OutOfBudget\<close>, and the search object as it then is. The passes
  take the probe as an argument, as in the code, so that the locales below state what they rely on.
\<close>

section \<open>Judging and probing\<close>

text \<open>An exception as the judge sees it: its type and its message.\<close>

type_synonym failure = "string \<times> string"
type_synonym schedule = "nat list"

definition DEFAULT_BUDGET :: int where "DEFAULT_BUDGET = 500"

definition MESSAGE_PREFIX :: nat where "MESSAGE_PREFIX = 80"

definition same_failure :: "failure \<Rightarrow> failure option \<Rightarrow> bool" where
  "same_failure original cand =
     (case cand of
        None \<Rightarrow> False
      | Some c \<Rightarrow> fst c = fst original \<and> take MESSAGE_PREFIX (snd c) = take MESSAGE_PREFIX (snd original))"

definition rank :: "schedule \<Rightarrow> nat \<times> nat" where
  "rank cand = (length (filter (\<lambda>c. c \<noteq> 0) cand), length cand)"

record search =
  s_runs :: nat
  s_best :: "schedule option"

definition search_init :: search where
  "search_init = \<lparr>s_runs = 0, s_best = None\<rparr>"

type_synonym 'a searching = "search \<Rightarrow> 'a option \<times> search"

definition sreturn :: "'a \<Rightarrow> 'a searching" where
  "sreturn x s = (Some x, s)"

definition sbind :: "'a searching \<Rightarrow> ('a \<Rightarrow> 'b searching) \<Rightarrow> 'b searching" where
  "sbind m f s = (case m s of (None, s') \<Rightarrow> (None, s') | (Some x, s') \<Rightarrow> f x s')"

lemma sbind_cong [fundef_cong]: "m = m' \<Longrightarrow> (\<And>x. f x = f' x) \<Longrightarrow> sbind m f = sbind m' f'"
  by (simp add: sbind_def fun_eq_iff split: prod.split option.split)

definition probe :: "(schedule \<Rightarrow> bool) \<Rightarrow> int \<Rightarrow> schedule \<Rightarrow> bool searching" where
  "probe fails budget cand s =
     (if int (s_runs s) \<ge> budget then (None, s)
      else
        let s1 = s\<lparr>s_runs := Suc (s_runs s)\<rparr> in
        if \<not> fails cand then (Some False, s1)
        else (Some True,
          if (case s_best s1 of None \<Rightarrow> True | Some b \<Rightarrow> rank cand < rank b)
          then s1\<lparr>s_best := Some cand\<rparr> else s1))"

section \<open>Reduction passes\<close>

definition candidate :: "schedule \<Rightarrow> nat \<Rightarrow> nat list \<Rightarrow> schedule" where
  "candidate recorded len kept = fold (\<lambda>step cs. cs[step := recorded ! step]) kept (replicate len 0)"

function shortest_prefix_loop :: "(schedule \<Rightarrow> bool searching) \<Rightarrow> schedule \<Rightarrow> nat \<Rightarrow> nat \<Rightarrow> nat searching" where
  "shortest_prefix_loop ask recorded lo hi =
     (if lo < hi then
        let mid = (lo + hi) div 2 in
        sbind (ask (take mid recorded)) (\<lambda>ok.
          if ok then shortest_prefix_loop ask recorded lo mid
          else shortest_prefix_loop ask recorded (mid + 1) hi)
      else sreturn hi)"
  by pat_completeness auto
termination by (relation "measure (\<lambda>(_, _, lo, hi). hi - lo)") auto

definition shortest_prefix :: "(schedule \<Rightarrow> bool searching) \<Rightarrow> schedule \<Rightarrow> nat searching" where
  "shortest_prefix ask recorded = shortest_prefix_loop ask recorded 0 (length recorded)"

function fifo_prefix_loop :: "(schedule \<Rightarrow> bool searching) \<Rightarrow> schedule \<Rightarrow> nat \<Rightarrow> nat \<Rightarrow> nat \<Rightarrow> nat searching" where
  "fifo_prefix_loop ask recorded len lo hi =
     (if lo < hi then
        let mid = (lo + hi + 1) div 2 in
        sbind (ask (candidate recorded len [mid..<len])) (\<lambda>ok.
          if ok then fifo_prefix_loop ask recorded len mid hi
          else fifo_prefix_loop ask recorded len lo (mid - 1))
      else sreturn lo)"
  by pat_completeness auto
termination by (relation "measure (\<lambda>(_, _, _, lo, hi). hi - lo)") auto

definition fifo_prefix :: "(schedule \<Rightarrow> bool searching) \<Rightarrow> schedule \<Rightarrow> nat \<Rightarrow> nat searching" where
  "fifo_prefix ask recorded len = fifo_prefix_loop ask recorded len 0 len"

declare shortest_prefix_loop.simps [simp del] fifo_prefix_loop.simps [simp del]

definition split_chunk :: "nat list \<Rightarrow> nat \<Rightarrow> nat \<Rightarrow> nat list" where
  "split_chunk items cnt index =
     (let lo = index * length items div cnt; hi = (index + 1) * length items div cnt
      in take (hi - lo) (drop lo items))"

definition split :: "nat list \<Rightarrow> nat \<Rightarrow> nat list list" where
  "split items cnt = filter (\<lambda>chunk. chunk \<noteq> []) (map (split_chunk items cnt) [0..<cnt])"

fun first_failing_chunk ::
    "(schedule \<Rightarrow> bool searching) \<Rightarrow> schedule \<Rightarrow> nat \<Rightarrow> nat list list \<Rightarrow> nat list option searching" where
  "first_failing_chunk ask recorded len [] = sreturn None"
| "first_failing_chunk ask recorded len (chunk # chunks) =
     sbind (ask (candidate recorded len chunk)) (\<lambda>ok.
       if ok then sreturn (Some chunk) else first_failing_chunk ask recorded len chunks)"

fun first_failing_complement ::
    "(schedule \<Rightarrow> bool searching) \<Rightarrow> schedule \<Rightarrow> nat \<Rightarrow> nat list \<Rightarrow> nat list list \<Rightarrow> nat list option searching" where
  "first_failing_complement ask recorded len kept [] = sreturn None"
| "first_failing_complement ask recorded len kept (chunk # chunks) =
     (let rest = filter (\<lambda>step. step \<notin> set chunk) kept in
      if rest = [] then first_failing_complement ask recorded len kept chunks
      else sbind (ask (candidate recorded len rest)) (\<lambda>ok.
        if ok then sreturn (Some rest) else first_failing_complement ask recorded len kept chunks))"

definition ddmin_turn ::
    "(schedule \<Rightarrow> bool searching) \<Rightarrow> schedule \<Rightarrow> nat \<Rightarrow> nat list \<Rightarrow> nat \<Rightarrow> (nat list \<times> nat) option searching" where
  \<comment> \<open>one turn of the loop: the next \<open>kept\<close> and \<open>granularity\<close>, or \<open>None\<close> for its \<open>break\<close>\<close>
  "ddmin_turn ask recorded len kept granularity =
     (let chunks = split kept granularity in
      sbind (first_failing_chunk ask recorded len chunks) (\<lambda>found.
        case found of
          Some chunk \<Rightarrow> sreturn (Some (chunk, 2))
        | None \<Rightarrow>
            sbind (if granularity > 2 then first_failing_complement ask recorded len kept chunks
                   else sreturn None) (\<lambda>rest.
              case rest of
                Some r \<Rightarrow> sreturn (Some (r, max (granularity - 1) 2))
              | None \<Rightarrow>
                  if granularity \<ge> length kept then sreturn None
                  else sreturn (Some (kept, min (granularity * 2) (length kept))))))"

lemma split_chunk_shorter:
  assumes "1 < length items" and "1 < cnt"
  shows "length (split_chunk items cnt i) < length items"
proof -
  let ?n = "length items"
  let ?lo = "i * ?n div cnt" and ?hi = "(i + 1) * ?n div cnt"
  have "?hi < ?lo + ?n"
  proof (rule ccontr)
    assume "\<not> ?hi < ?lo + ?n"
    then have "cnt * (?lo + ?n) \<le> cnt * ?hi" by (intro mult_le_mono2) simp
    also have "\<dots> \<le> (i + 1) * ?n" by (rule times_div_less_eq_dividend)
    also have "\<dots> = i * ?n + ?n" by simp
    also have "i * ?n < cnt * ?lo + cnt"
      using assms(2) by (metis add_strict_left_mono mod_less_divisor mult_div_mod_eq not_gr0 not_less_zero)
    finally have "cnt * ?n < cnt + ?n" by (simp add: add_mult_distrib2)
    moreover obtain a b where "?n = a + 2" "cnt = b + 2"
      using assms by (metis Suc_1 Suc_leI add.commute le_Suc_ex)
    ultimately show False by (simp add: algebra_simps)
  qed
  then show ?thesis using assms(1) by (simp add: split_chunk_def Let_def)
qed

lemma split_chunk_set: "set (split_chunk items cnt i) \<subseteq> set items"
  unfolding split_chunk_def Let_def by (metis set_drop_subset set_take_subset subset_trans)

lemma split_spec:
  assumes "chunk \<in> set (split kept g)"
  shows "chunk \<noteq> []" "set chunk \<subseteq> set kept" "1 < length kept \<Longrightarrow> 1 < g \<Longrightarrow> length chunk < length kept"
    "sorted_wrt (<) kept \<Longrightarrow> sorted_wrt (<) chunk"
  using assms split_chunk_set split_chunk_shorter
  by (auto simp: split_def split_chunk_def Let_def sorted_wrt_take sorted_wrt_drop)

lemma first_failing_chunk_in:
  "first_failing_chunk ask recorded len chunks s = (Some (Some chunk), s') \<Longrightarrow> chunk \<in> set chunks"
  by (induction chunks arbitrary: s) (auto simp: sbind_def sreturn_def split: prod.splits option.splits if_splits)

lemma first_failing_complement_in:
  "first_failing_complement ask recorded len kept chunks s = (Some (Some rest), s') \<Longrightarrow>
     rest \<noteq> [] \<and> (\<exists>chunk\<in>set chunks. rest = filter (\<lambda>step. step \<notin> set chunk) kept)"
  by (induction chunks arbitrary: s)
    (auto simp: sbind_def sreturn_def Let_def split: prod.splits option.splits if_splits)

text \<open>What a turn can do next.\<close>

lemma ddmin_turn_next:
  assumes "ddmin_turn ask recorded len kept g s = (Some (Some (kept', g')), s')"
  obtains (chunk) "kept' \<in> set (split kept g)" "g' = 2"
  | (complement) chunk where "chunk \<in> set (split kept g)" "kept' = filter (\<lambda>step. step \<notin> set chunk) kept"
      "kept' \<noteq> []" "2 < g" "g' = g - 1"
  | (finer) "kept' = kept" "g < length kept" "g' = min (g * 2) (length kept)"
proof -
  obtain found s1 where c: "first_failing_chunk ask recorded len (split kept g) s = (Some found, s1)"
    using assms by (auto simp: ddmin_turn_def sbind_def Let_def split: prod.splits option.splits)
  show thesis
  proof (cases found)
    case (Some ch)
    with c assms first_failing_chunk_in [of ask recorded len _ s ch s1] show thesis
      by (intro chunk) (auto simp: ddmin_turn_def sbind_def sreturn_def Let_def)
  next
    case None
    let ?m = "if g > 2 then first_failing_complement ask recorded len kept (split kept g) else sreturn None"
    obtain rest s2 where m: "?m s1 = (Some rest, s2)"
      using assms c None by (auto simp: ddmin_turn_def sbind_def Let_def split: prod.splits option.splits)
    show thesis
    proof (cases rest)
      case (Some r)
      then have "2 < g" using m by (auto simp: sreturn_def split: if_splits)
      moreover from this m Some obtain ch where "ch \<in> set (split kept g)" "r = filter (\<lambda>step. step \<notin> set ch) kept" "r \<noteq> []"
        using first_failing_complement_in [of ask recorded len kept _ s1 r s2] by auto
      moreover have "kept' = r" "g' = g - 1"
        using assms c None m Some \<open>2 < g\<close> by (auto simp: ddmin_turn_def sbind_def sreturn_def Let_def)
      ultimately show thesis by (intro complement) auto
    next
      case None
      with \<open>found = None\<close> assms c m show thesis
        by (intro finer) (auto simp: ddmin_turn_def sbind_def sreturn_def Let_def split: if_splits)
    qed
  qed
qed

lemma filter_out_shorter:
  assumes "ys \<noteq> []" and "set ys \<subseteq> set xs"
  shows "length (filter (\<lambda>x. x \<notin> set ys) xs) < length xs"
proof -
  obtain y where "y \<in> set ys" using assms(1) by (cases ys) auto
  then show ?thesis using assms(2) by (intro length_filter_less [of y]) auto
qed

lemma ddmin_turn_decreases:
  assumes "ddmin_turn ask recorded len kept g s = (Some (Some (kept', g')), s')"
    and "1 < length kept" and "1 < g"
  shows "1 < g' \<and> (length kept' < length kept \<or> kept' = kept \<and> length kept - g' < length kept - g)"
  using assms(1)
proof (cases rule: ddmin_turn_next)
  case chunk
  then show ?thesis using split_spec(3) [OF chunk(1) assms(2,3)] by simp
next
  case (complement c)
  then show ?thesis using filter_out_shorter [OF split_spec(1,2) [OF complement(1)]] by simp
next
  case finer
  then show ?thesis using assms(3) by auto
qed

text \<open>The code starts the loop at granularity 2, and no turn leaves it below that.\<close>

function ddmin_loop ::
    "(schedule \<Rightarrow> bool searching) \<Rightarrow> schedule \<Rightarrow> nat \<Rightarrow> nat list \<Rightarrow> nat \<Rightarrow> nat list searching" where
  "ddmin_loop ask recorded len kept granularity s =
     (if 1 < length kept \<and> 1 < granularity then
        (case ddmin_turn ask recorded len kept granularity s of
           (None, s') \<Rightarrow> (None, s')
         | (Some None, s') \<Rightarrow> (Some kept, s')
         | (Some (Some (kept', granularity')), s') \<Rightarrow> ddmin_loop ask recorded len kept' granularity' s')
      else (Some kept, s))"
  by pat_completeness auto
termination
  by (relation "measures [\<lambda>(_, _, _, kept, _, _). length kept, \<lambda>(_, _, _, kept, g, _). length kept - g]")
    (auto dest!: ddmin_turn_decreases [OF sym])

declare ddmin_loop.simps [simp del]

definition ddmin :: "(schedule \<Rightarrow> bool searching) \<Rightarrow> schedule \<Rightarrow> nat \<Rightarrow> nat list \<Rightarrow> nat list searching" where
  "ddmin ask recorded len positions = ddmin_loop ask recorded len positions 2"

section \<open>Shrinking a schedule\<close>

record shrink_result =
  original_len :: nat
  sh_choices :: schedule
  sh_fifo_prefix :: nat
  sh_kept :: "nat list"
  sh_labels :: "string list"
  oracle_runs :: nat

definition passes :: "(schedule \<Rightarrow> bool searching) \<Rightarrow> schedule \<Rightarrow> bool searching" where
  \<comment> \<open>the body of the \<open>try\<close>: \<open>False\<close> is its \<open>return None\<close>\<close>
  "passes ask recorded =
     sbind (ask recorded) (\<lambda>ok.
       if \<not> ok then sreturn False
       else sbind (shortest_prefix ask recorded) (\<lambda>len.
         sbind (fifo_prefix ask recorded len) (\<lambda>prefix.
           sbind (ddmin ask recorded len [prefix..<len]) (\<lambda>_. sreturn True))))"

definition kept_steps :: "schedule \<Rightarrow> nat list" where
  "kept_steps best = filter (\<lambda>step. best ! step \<noteq> 0) [0..<length best]"

definition trimmed :: "schedule \<Rightarrow> schedule" where
  "trimmed best = (let kept = kept_steps best in if kept = [] then [] else take (last kept + 1) best)"

definition shrink_schedule ::
    "(schedule \<Rightarrow> failure option) \<Rightarrow> (schedule \<Rightarrow> nat list \<Rightarrow> string list) \<Rightarrow> schedule \<Rightarrow> failure \<Rightarrow> int \<Rightarrow>
     exn + shrink_result option" where
  "shrink_schedule replay labels_at choices failure budget =
     (if budget < 1 then Inl ValueError
      else case passes (probe (\<lambda>c. same_failure failure (replay c)) budget) choices search_init of
          (Some False, s) \<Rightarrow> Inr None
        | (_, s) \<Rightarrow>
            (case s_best s of
               None \<Rightarrow> Inl AssertionError
             | Some best \<Rightarrow>
                 let kept = kept_steps best in
                 Inr (Some \<lparr>original_len = length choices, sh_choices = trimmed best,
                   sh_fifo_prefix = (if kept = [] then 0 else hd kept), sh_kept = kept,
                   sh_labels = labels_at (trimmed best) kept, oracle_runs = s_runs s\<rparr>)))"


section \<open>What every pass keeps\<close>

lemma sbind_keeps:
  assumes "P (snd (m s))" and "\<And>x s'. m s = (Some x, s') \<Longrightarrow> P s' \<Longrightarrow> P (snd (f x s'))"
  shows "P (snd (sbind m f s))"
  using assms by (auto simp: sbind_def split: prod.split option.split)

lemma sbind_Some:
  "sbind m f s = (Some y, s') \<longleftrightarrow> (\<exists>x s1. m s = (Some x, s1) \<and> f x s1 = (Some y, s'))"
  by (auto simp: sbind_def split: prod.split option.split)

lemma sreturn_simps [simp]: "snd (sreturn x s) = s" "sreturn x s = (y, s') \<longleftrightarrow> y = Some x \<and> s' = s"
  by (auto simp: sreturn_def)

lemma length_candidate [simp]: "length (candidate recorded len kept) = len"
proof -
  have "length (fold (\<lambda>step cs. cs[step := recorded ! step]) kept xs) = length xs" for xs :: schedule
    by (induction kept arbitrary: xs) auto
  then show ?thesis by (simp add: candidate_def)
qed

lemma candidate_nth:
  assumes "i < len"
  shows "candidate recorded len kept ! i = (if i \<in> set kept then recorded ! i else 0)"
proof -
  have "fold (\<lambda>step cs. cs[step := recorded ! step]) kept xs ! i = (if i \<in> set kept then recorded ! i else xs ! i)"
    if "i < length xs" for xs :: schedule
    using that by (induction kept arbitrary: xs) (auto simp: nth_list_update)
  with assms show ?thesis by (simp add: candidate_def)
qed

definition derived :: "schedule \<Rightarrow> schedule \<Rightarrow> bool" where
  \<comment> \<open>the recording cut short, with some of its choices put back to FIFO\<close>
  "derived recorded c \<longleftrightarrow> length c \<le> length recorded \<and>
     list_all (\<lambda>i. c ! i = 0 \<or> c ! i = recorded ! i) [0..<length c]"

lemma derived_nth: "derived recorded c \<longleftrightarrow> length c \<le> length recorded \<and>
    (\<forall>i<length c. c ! i = 0 \<or> c ! i = recorded ! i)"
  by (auto simp: derived_def list_all_iff)

lemma derived_take: "derived recorded (take n recorded)"
  by (simp add: derived_nth)

lemma derived_candidate: "len \<le> length recorded \<Longrightarrow> derived recorded (candidate recorded len kept)"
  by (simp add: derived_nth candidate_nth)

text \<open>One turn of each binary search.\<close>

lemma shortest_prefix_turn:
  assumes "lo < hi"
  shows "shortest_prefix_loop ask recorded lo hi s = (Some n, s') \<longleftrightarrow>
    (\<exists>ok s1. ask (take ((lo + hi) div 2) recorded) s = (Some ok, s1) \<and>
      (if ok then shortest_prefix_loop ask recorded lo ((lo + hi) div 2) s1
       else shortest_prefix_loop ask recorded ((lo + hi) div 2 + 1) hi s1) = (Some n, s'))"
  using assms unfolding shortest_prefix_loop.simps [of ask recorded lo hi] Let_def
  by (simp add: sbind_Some if_distribR)

lemma fifo_prefix_turn:
  assumes "lo < hi"
  shows "fifo_prefix_loop ask recorded len lo hi s = (Some n, s') \<longleftrightarrow>
    (\<exists>ok s1. ask (candidate recorded len [(lo + hi + 1) div 2..<len]) s = (Some ok, s1) \<and>
      (if ok then fifo_prefix_loop ask recorded len ((lo + hi + 1) div 2) hi s1
       else fifo_prefix_loop ask recorded len lo ((lo + hi + 1) div 2 - 1) s1) = (Some n, s'))"
  using assms unfolding fifo_prefix_loop.simps [of ask recorded len lo hi] Let_def
  by (simp add: sbind_Some if_distribR)

lemma shortest_prefix_bounds:
  "shortest_prefix_loop ask recorded lo hi s = (Some n, s') \<Longrightarrow> lo \<le> hi \<Longrightarrow> lo \<le> n \<and> n \<le> hi"
proof (induction "hi - lo" arbitrary: lo hi s rule: less_induct)
  case less
  show ?case
  proof (cases "lo < hi")
    case True
    let ?m = "(lo + hi) div 2"
    obtain ok s1 where "(if ok then shortest_prefix_loop ask recorded lo ?m s1
        else shortest_prefix_loop ask recorded (?m + 1) hi s1) = (Some n, s')"
      using less.prems(1) shortest_prefix_turn [OF True] by blast
    moreover have "lo \<le> ?m" "?m < hi" "?m - lo < hi - lo" "hi - (?m + 1) < hi - lo" using True by auto
    ultimately have "lo \<le> n \<and> n \<le> ?m \<or> ?m + 1 \<le> n \<and> n \<le> hi"
      using less.hyps [of ?m lo s1] less.hyps [of hi "?m + 1" s1] by (cases ok) simp_all
    with \<open>lo \<le> ?m\<close> \<open>?m < hi\<close> show ?thesis by linarith
  next
    case False
    with less.prems show ?thesis by (simp add: shortest_prefix_loop.simps [of _ _ lo])
  qed
qed

lemma fifo_prefix_bounds:
  "fifo_prefix_loop ask recorded len lo hi s = (Some n, s') \<Longrightarrow> lo \<le> hi \<Longrightarrow> lo \<le> n \<and> n \<le> hi"
proof (induction "hi - lo" arbitrary: lo hi s rule: less_induct)
  case less
  show ?case
  proof (cases "lo < hi")
    case True
    let ?m = "(lo + hi + 1) div 2"
    obtain ok s1 where "(if ok then fifo_prefix_loop ask recorded len ?m hi s1
        else fifo_prefix_loop ask recorded len lo (?m - 1) s1) = (Some n, s')"
      using less.prems(1) fifo_prefix_turn [OF True] by blast
    moreover have "lo < ?m" "?m \<le> hi" "lo \<le> ?m - 1" "hi - ?m < hi - lo" "?m - 1 - lo < hi - lo" using True by auto
    ultimately have "?m \<le> n \<and> n \<le> hi \<or> lo \<le> n \<and> n \<le> ?m - 1"
      using less.hyps [of hi ?m s1] less.hyps [of "?m - 1" lo s1] by (cases ok) simp_all
    with \<open>lo < ?m\<close> \<open>?m \<le> hi\<close> show ?thesis by linarith
  next
    case False
    with less.prems show ?thesis by (simp add: fifo_prefix_loop.simps [of _ _ _ lo])
  qed
qed

text \<open>The passes ask about derived schedules only: what a probe does with others does not matter.\<close>

lemma shortest_prefix_asks:
  assumes "\<And>c. derived recorded c \<Longrightarrow> ask c = ask' c"
  shows "shortest_prefix_loop ask recorded lo hi = shortest_prefix_loop ask' recorded lo hi"
  using assms
proof (induction ask recorded lo hi rule: shortest_prefix_loop.induct)
  case (1 ask recorded lo hi)
  then show ?case
    unfolding shortest_prefix_loop.simps [of ask recorded lo hi] shortest_prefix_loop.simps [of ask' recorded lo hi]
    by (simp add: Let_def derived_take cong: if_cong)
qed

lemma fifo_prefix_asks:
  assumes "\<And>c. derived recorded c \<Longrightarrow> ask c = ask' c" and "len \<le> length recorded"
  shows "fifo_prefix_loop ask recorded len lo hi = fifo_prefix_loop ask' recorded len lo hi"
  using assms
proof (induction ask recorded len lo hi rule: fifo_prefix_loop.induct)
  case (1 ask recorded len lo hi)
  then show ?case
    unfolding fifo_prefix_loop.simps [of ask recorded len lo hi] fifo_prefix_loop.simps [of ask' recorded len lo hi]
    by (simp add: Let_def derived_candidate cong: if_cong)
qed

lemma ddmin_turn_asks:
  assumes "\<And>c. derived recorded c \<Longrightarrow> ask c = ask' c" and "len \<le> length recorded"
  shows "ddmin_turn ask recorded len kept g = ddmin_turn ask' recorded len kept g"
proof -
  note eq = assms(1) [OF derived_candidate [OF assms(2)]]
  have "first_failing_chunk ask recorded len cs = first_failing_chunk ask' recorded len cs" for cs
    by (induction cs) (simp_all add: eq cong: if_cong)
  moreover have "first_failing_complement ask recorded len kept cs = first_failing_complement ask' recorded len kept cs" for cs
    by (induction cs) (simp_all add: eq Let_def cong: if_cong)
  ultimately have "first_failing_chunk ask recorded len = first_failing_chunk ask' recorded len"
    "first_failing_complement ask recorded len kept = first_failing_complement ask' recorded len kept" by (simp_all add: fun_eq_iff)
  then show ?thesis unfolding ddmin_turn_def by (simp only:)
qed

lemma ddmin_asks:
  assumes "\<And>c. derived recorded c \<Longrightarrow> ask c = ask' c" and "len \<le> length recorded"
  shows "ddmin_loop ask recorded len kept g s = ddmin_loop ask' recorded len kept g s"
  using assms
proof (induction ask recorded len kept g s rule: ddmin_loop.induct)
  case (1 ask recorded len kept g s)
  then show ?case
    unfolding ddmin_loop.simps [of ask recorded len kept g s] ddmin_loop.simps [of ask' recorded len kept g s]
    using 1 ddmin_turn_asks [of recorded ask ask' len kept g] by (auto split: prod.split option.split)
qed

lemma passes_asks:
  assumes "\<And>c. derived recorded c \<Longrightarrow> ask c = ask' c"
  shows "passes ask recorded s = passes ask' recorded s"
proof -
  have whole: "ask recorded = ask' recorded" using assms derived_take [of recorded "length recorded"] by simp
  have rest: "sbind (fifo_prefix ask recorded len) (\<lambda>prefix. sbind (ddmin ask recorded len [prefix..<len]) f) s' =
      sbind (fifo_prefix ask' recorded len) (\<lambda>prefix. sbind (ddmin ask' recorded len [prefix..<len]) f) s'"
    if "shortest_prefix ask' recorded s1 = (Some len, s')" for len s1 s' and f :: "nat list \<Rightarrow> bool searching"
  proof -
    have len: "len \<le> length recorded" using shortest_prefix_bounds that by (force simp: shortest_prefix_def)
    have "fifo_prefix ask recorded len = fifo_prefix ask' recorded len" "ddmin ask recorded len = ddmin ask' recorded len"
      using fifo_prefix_asks [of recorded ask ask' len] ddmin_asks [of recorded ask ask' len] assms len
      by (simp_all add: fifo_prefix_def ddmin_def fun_eq_iff)
    then show ?thesis by simp
  qed
  have "shortest_prefix ask recorded = shortest_prefix ask' recorded"
    using shortest_prefix_asks [OF assms] by (simp add: shortest_prefix_def)
  with rest show ?thesis
    unfolding passes_def whole by (auto simp: sbind_def [of "shortest_prefix ask' recorded"] sbind_def [of "ask' recorded"] split: prod.split option.split)
qed

lemma shrink_asks_derived:
  assumes "\<And>c. derived choices c \<Longrightarrow> replay c = replay' c"
  shows "shrink_schedule replay labels_at choices failure budget = shrink_schedule replay' labels_at choices failure budget"
proof -
  have "passes (probe (\<lambda>c. same_failure failure (replay c)) budget) choices search_init =
      passes (probe (\<lambda>c. same_failure failure (replay' c)) budget) choices search_init"
    by (rule passes_asks) (simp add: probe_def fun_eq_iff assms)
  then show ?thesis by (simp add: shrink_schedule_def)
qed

text \<open>A property of the search object that no probe of a derived schedule breaks.\<close>

locale search_invariant =
  fixes ask :: "schedule \<Rightarrow> bool searching" and recorded :: schedule and P :: "search \<Rightarrow> bool"
  assumes ask_keeps: "P s \<Longrightarrow> derived recorded c \<Longrightarrow> P (snd (ask c s))"
begin

lemma shortest_prefix_keeps: "P s \<Longrightarrow> P (snd (shortest_prefix_loop ask recorded lo hi s))"
proof (induction "hi - lo" arbitrary: lo hi s rule: less_induct)
  case less
  then show ?case
    by (subst shortest_prefix_loop.simps)
      (auto simp: Let_def intro!: sbind_keeps [of P] ask_keeps derived_take)
qed

lemma fifo_prefix_keeps:
  "P s \<Longrightarrow> len \<le> length recorded \<Longrightarrow> P (snd (fifo_prefix_loop ask recorded len lo hi s))"
proof (induction "hi - lo" arbitrary: lo hi s rule: less_induct)
  case less
  then show ?case
    by (subst fifo_prefix_loop.simps)
      (auto simp: Let_def intro!: sbind_keeps [of P] ask_keeps derived_candidate)
qed

lemma first_failing_chunk_keeps:
  "P s \<Longrightarrow> len \<le> length recorded \<Longrightarrow> P (snd (first_failing_chunk ask recorded len chunks s))"
proof (induction chunks arbitrary: s)
  case (Cons chunk chunks)
  then show ?case
    unfolding first_failing_chunk.simps
    by (intro sbind_keeps [of P] ask_keeps derived_candidate) (simp_all split: if_split)
qed simp

lemma first_failing_complement_keeps:
  "P s \<Longrightarrow> len \<le> length recorded \<Longrightarrow> P (snd (first_failing_complement ask recorded len kept chunks s))"
proof (induction chunks arbitrary: s)
  case (Cons chunk chunks)
  have "P (snd (sbind (ask (candidate recorded len rest)) (\<lambda>ok. if ok then sreturn (Some rest)
      else first_failing_complement ask recorded len kept chunks) s))" for rest
    using Cons by (intro sbind_keeps [of P] ask_keeps derived_candidate) (simp_all split: if_split)
  then show ?case using Cons by (simp add: Let_def)
qed simp

lemma ddmin_turn_keeps:
  "P s \<Longrightarrow> len \<le> length recorded \<Longrightarrow> P (snd (ddmin_turn ask recorded len kept g s))"
  by (auto simp: ddmin_turn_def Let_def split: option.split
      intro!: sbind_keeps [of P] first_failing_chunk_keeps first_failing_complement_keeps)

lemma ddmin_loop_keeps:
  "P s \<Longrightarrow> len \<le> length recorded \<Longrightarrow> P (snd (ddmin_loop ask recorded len kept g s))"
proof (induction "(length kept, length kept - g)" arbitrary: kept g s rule: less_induct)
  case less
  note turn = ddmin_turn_keeps [OF less.prems, of kept g]
  show ?case
  proof (cases "1 < length kept \<and> 1 < g")
    case True
    have "P (snd (ddmin_loop ask recorded len kept' g' s'))"
      if t: "ddmin_turn ask recorded len kept g s = (Some (Some (kept', g')), s')" for kept' g' s'
      using ddmin_turn_decreases [OF t] True turn less.prems t by (intro less.hyps) auto
    with turn True show ?thesis
      by (subst ddmin_loop.simps) (auto split: prod.split option.split)
  next
    case False
    with less.prems show ?thesis by (subst ddmin_loop.simps) auto
  qed
qed

lemma passes_keeps:
  assumes "P (snd (ask recorded s))" shows "P (snd (passes ask recorded s))"
proof -
  have "P (snd (sbind (shortest_prefix ask recorded) (\<lambda>len. sbind (fifo_prefix ask recorded len) (\<lambda>prefix.
      sbind (ddmin ask recorded len [prefix..<len]) (\<lambda>_. sreturn True))) s'))" if "P s'" for s'
    unfolding shortest_prefix_def fifo_prefix_def ddmin_def using that
    by (intro sbind_keeps [of P] shortest_prefix_keeps fifo_prefix_keeps ddmin_loop_keeps)
      (auto dest: shortest_prefix_bounds)
  then show ?thesis
    unfolding passes_def using assms by (intro sbind_keeps [of P]) simp_all
qed

end

text \<open>Once the recording has failed, there is a best candidate; it fails, and only gets better.\<close>

definition search_inv :: "(schedule \<Rightarrow> bool) \<Rightarrow> int \<Rightarrow> schedule \<Rightarrow> search \<Rightarrow> bool" where
  "search_inv fails budget recorded s \<longleftrightarrow> int (s_runs s) \<le> budget \<and>
     (case s_best s of None \<Rightarrow> False
      | Some b \<Rightarrow> fails b \<and> derived recorded b \<and> rank b \<le> rank recorded)"

interpretation best_fails: search_invariant "probe fails budget" recorded "search_inv fails budget recorded"
  for fails budget recorded
  by unfold_locales (auto simp: search_inv_def probe_def Let_def split: option.splits)

lemma first_probe:
  assumes "1 \<le> budget"
  shows "probe fails budget recorded search_init =
    (Some (fails recorded), \<lparr>s_runs = 1, s_best = (if fails recorded then Some recorded else None)\<rparr>)"
  using assms by (simp add: probe_def search_init_def Let_def)

lemma passes_result:
  assumes "1 \<le> budget"
  shows "fails recorded \<Longrightarrow> search_inv fails budget recorded (snd (passes (probe fails budget) recorded search_init))"
    and "\<not> fails recorded \<Longrightarrow> fst (passes (probe fails budget) recorded search_init) = Some False"
    and "fails recorded \<Longrightarrow> fst (passes (probe fails budget) recorded search_init) \<noteq> Some False"
proof -
  show "fails recorded \<Longrightarrow> search_inv fails budget recorded (snd (passes (probe fails budget) recorded search_init))"
    using assms derived_take [of recorded "length recorded"]
    by (intro best_fails.passes_keeps) (simp add: first_probe search_inv_def)
  show "\<not> fails recorded \<Longrightarrow> fst (passes (probe fails budget) recorded search_init) = Some False"
    using assms by (simp add: passes_def sbind_def first_probe sreturn_def)
  show "fails recorded \<Longrightarrow> fst (passes (probe fails budget) recorded search_init) \<noteq> Some False"
    using assms
    by (simp add: passes_def sbind_def [of "probe _ _ _"] first_probe)
      (auto simp: sbind_def sreturn_def split: prod.splits option.splits)
qed

lemma kept_steps_spec:
  "set (kept_steps b) = {i. i < length b \<and> b ! i \<noteq> 0}" "sorted_wrt (<) (kept_steps b)"
  by (auto simp: kept_steps_def sorted_wrt_filter)

lemma last_kept:
  assumes "kept_steps b \<noteq> []" and "i < length b" and "b ! i \<noteq> 0"
  shows "i \<le> last (kept_steps b) \<and> last (kept_steps b) < length b"
proof -
  let ?k = "kept_steps b"
  have "i \<in> set ?k" using assms by (simp add: kept_steps_spec)
  then obtain j where "j < length ?k" "?k ! j = i" by (auto simp: in_set_conv_nth)
  moreover from this have "j < length ?k - 1 \<or> j = length ?k - 1" by auto
  ultimately have "i \<le> last ?k"
    using sorted_wrt_nth_less [OF kept_steps_spec(2) [of b], of j "length ?k - 1"] assms(1)
    by (auto simp: last_conv_nth)
  moreover have "last (kept_steps b) \<in> set (kept_steps b)" using assms(1) by simp
  ultimately show ?thesis by (simp add: kept_steps_spec(1))
qed

lemma trimmed_spec: "\<exists>k. b = trimmed b @ replicate k 0"
proof -
  let ?n = "length (trimmed b)"
  have t: "trimmed b = take ?n b" by (simp add: trimmed_def Let_def min_def)
  have "b ! i = 0" if "i < length b" "?n \<le> i" for i
    using that last_kept [of b i] kept_steps_spec(1) [of b]
    by (cases "kept_steps b = []") (force simp: trimmed_def Let_def min_def split: if_splits)+
  then have "drop ?n b = replicate (length b - ?n) 0"
    by (intro nth_equalityI) (auto simp: nth_drop)
  with t show ?thesis by (metis append_take_drop_id)
qed

section \<open>What the search finds\<close>

lemma split_chunks_concat:
  assumes "0 < cnt"
  shows "concat (map (split_chunk items cnt) [0..<k]) = take (k * length items div cnt) items"
proof (induction k)
  case (Suc k)
  have "k * length items div cnt \<le> Suc k * length items div cnt" by (intro div_le_mono) simp
  then show ?case
    using Suc by (simp add: split_chunk_def Let_def take_add [symmetric])
qed simp

lemma concat_nonempty: "concat (filter (\<lambda>chunk. chunk \<noteq> []) xs) = concat xs"
  by (induction xs) auto

lemma concat_split:
  assumes "0 < cnt" shows "concat (split items cnt) = items"
  using split_chunks_concat [OF assms, of items cnt] assms
  by (simp add: split_def concat_nonempty)

lemma split_singletons:
  assumes "length kept \<le> g" and "chunk \<in> set (split kept g)"
  shows "length chunk = 1"
proof -
  obtain i where i: "i < g" "chunk = split_chunk kept g i" "chunk \<noteq> []"
    using assms(2) by (auto simp: split_def)
  let ?n = "length kept"
  have "(i + 1) * ?n div g \<le> (i * ?n + g) div g" using assms(1) by (intro div_le_mono) simp
  also have "\<dots> = i * ?n div g + 1" using i(1) by simp
  finally have "length chunk \<le> 1" using i(2) by (simp add: split_chunk_def Let_def)
  moreover have "length chunk \<noteq> 0" using i(3) by simp
  ultimately show ?thesis by linarith
qed

lemma split_has_singleton:
  assumes "length kept \<le> g" and "x \<in> set kept"
  shows "[x] \<in> set (split kept g)"
proof -
  have "kept \<noteq> []" using assms(2) by auto
  then have "0 < length kept" by simp
  then have "0 < g" using assms(1) by linarith
  then have "x \<in> set (concat (split kept g))" using concat_split assms(2) by simp
  then obtain chunk where c: "chunk \<in> set (split kept g)" "x \<in> set chunk" by auto
  with split_singletons [OF assms(1) c(1)] have "chunk = [x]" by (cases chunk) auto
  with c show ?thesis by simp
qed

text \<open>A probe that answers, answers truly.\<close>

locale search_oracle =
  fixes ask :: "schedule \<Rightarrow> bool searching" and fails :: "schedule \<Rightarrow> bool"
  assumes ask_answers: "ask c s = (Some ok, s') \<Longrightarrow> ok = fails c"
begin

lemma shortest_prefix_local:
  "shortest_prefix_loop ask recorded lo hi s = (Some n, s') \<Longrightarrow> lo \<le> hi \<Longrightarrow>
     (n < hi \<longrightarrow> fails (take n recorded)) \<and> (lo < n \<longrightarrow> \<not> fails (take (n - 1) recorded))"
proof (induction "hi - lo" arbitrary: lo hi s rule: less_induct)
  case less
  show ?case
  proof (cases "lo < hi")
    case True
    let ?m = "(lo + hi) div 2"
    obtain s1 where t: "(if fails (take ?m recorded) then shortest_prefix_loop ask recorded lo ?m s1
        else shortest_prefix_loop ask recorded (?m + 1) hi s1) = (Some n, s')"
      using less.prems(1) shortest_prefix_turn [OF True, of ask recorded s n s'] ask_answers by blast
    have m: "lo \<le> ?m" "?m < hi" "?m - lo < hi - lo" "hi - (?m + 1) < hi - lo" using True by auto
    show ?thesis
    proof (cases "fails (take ?m recorded)")
      case True
      with t have l: "shortest_prefix_loop ask recorded lo ?m s1 = (Some n, s')" by simp
      from less.hyps [OF m(3) l m(1)] shortest_prefix_bounds [OF l m(1)] True show ?thesis
        by (cases "n = ?m") auto
    next
      case False
      with t m(2) have l: "shortest_prefix_loop ask recorded (?m + 1) hi s1 = (Some n, s')" and le: "?m + 1 \<le> hi"
        by simp_all
      from less.hyps [OF m(4) l le] shortest_prefix_bounds [OF l le] False show ?thesis
        by (cases "n = ?m + 1") auto
    qed
  next
    case False
    with less.prems show ?thesis by (simp add: shortest_prefix_loop.simps [of _ _ lo])
  qed
qed

lemma fifo_prefix_local:
  "fifo_prefix_loop ask recorded len lo hi s = (Some n, s') \<Longrightarrow> lo \<le> hi \<Longrightarrow>
     (lo < n \<longrightarrow> fails (candidate recorded len [n..<len])) \<and>
     (n < hi \<longrightarrow> \<not> fails (candidate recorded len [n + 1..<len]))"
proof (induction "hi - lo" arbitrary: lo hi s rule: less_induct)
  case less
  show ?case
  proof (cases "lo < hi")
    case True
    let ?m = "(lo + hi + 1) div 2"
    obtain s1 where t: "(if fails (candidate recorded len [?m..<len]) then fifo_prefix_loop ask recorded len ?m hi s1
        else fifo_prefix_loop ask recorded len lo (?m - 1) s1) = (Some n, s')"
      using less.prems(1) fifo_prefix_turn [OF True, of ask recorded len s n s'] ask_answers by blast
    have m: "lo < ?m" "?m \<le> hi" "lo \<le> ?m - 1" "hi - ?m < hi - lo" "?m - 1 - lo < hi - lo" using True by auto
    show ?thesis
    proof (cases "fails (candidate recorded len [?m..<len])")
      case True
      with t have l: "fifo_prefix_loop ask recorded len ?m hi s1 = (Some n, s')" by simp
      from less.hyps [OF m(4) l m(2)] fifo_prefix_bounds [OF l m(2)] True show ?thesis
        by (cases "n = ?m") auto
    next
      case False
      with t have l: "fifo_prefix_loop ask recorded len lo (?m - 1) s1 = (Some n, s')" by simp
      have "n < ?m - 1 \<or> n + 1 = ?m" using fifo_prefix_bounds [OF l m(3)] m(1) by linarith
      with less.hyps [OF m(5) l m(3)] False show ?thesis by fastforce
    qed
  next
    case False
    with less.prems show ?thesis by (simp add: fifo_prefix_loop.simps [of _ _ _ lo])
  qed
qed

lemma first_failing_chunk_answers:
  "first_failing_chunk ask recorded len chunks s = (Some found, s') \<Longrightarrow>
     (case found of Some chunk \<Rightarrow> fails (candidate recorded len chunk)
      | None \<Rightarrow> \<forall>chunk\<in>set chunks. \<not> fails (candidate recorded len chunk))"
proof (induction chunks arbitrary: s)
  case (Cons chunk chunks)
  then obtain s1 where "(if fails (candidate recorded len chunk) then sreturn (Some chunk)
      else first_failing_chunk ask recorded len chunks) s1 = (Some found, s')"
    by (auto simp: sbind_Some dest: ask_answers)
  with Cons.IH [of s1] show ?case by (auto split: if_splits option.splits)
qed simp

lemma first_failing_complement_answers:
  "first_failing_complement ask recorded len kept chunks s = (Some found, s') \<Longrightarrow>
     (case found of Some rest \<Rightarrow> fails (candidate recorded len rest)
      | None \<Rightarrow> \<forall>chunk\<in>set chunks. filter (\<lambda>x. x \<notin> set chunk) kept \<noteq> [] \<longrightarrow>
          \<not> fails (candidate recorded len (filter (\<lambda>x. x \<notin> set chunk) kept)))"
proof (induction chunks arbitrary: s)
  case (Cons chunk chunks)
  let ?rest = "filter (\<lambda>x. x \<notin> set chunk) kept"
  show ?case
  proof (cases "?rest = []")
    case True
    with Cons.prems Cons.IH [of s] show ?thesis by (auto split: option.splits)
  next
    case False
    with Cons.prems obtain s1 where "(if fails (candidate recorded len ?rest) then sreturn (Some ?rest)
        else first_failing_complement ask recorded len kept chunks) s1 = (Some found, s')"
      by (auto simp: sbind_Some Let_def dest: ask_answers)
    with Cons.IH [of s1] False show ?thesis by (auto split: if_splits option.splits)
  qed
qed simp

definition one_minimal :: "schedule \<Rightarrow> nat \<Rightarrow> nat list \<Rightarrow> bool" where
  \<comment> \<open>putting any single kept step back to FIFO stops the failure\<close>
  "one_minimal recorded len kept \<longleftrightarrow>
     (\<forall>x\<in>set kept. \<not> fails (candidate recorded len (filter (\<lambda>y. y \<noteq> x) kept)))"

lemma ddmin_turn_stops:
  assumes "ddmin_turn ask recorded len kept g s = (Some None, s')" and "1 < length kept" and "1 < g"
    and "distinct kept"
  shows "one_minimal recorded len kept"
  unfolding one_minimal_def
proof
  fix x assume x: "x \<in> set kept"
  let ?rest = "filter (\<lambda>y. y \<noteq> x) kept"
  obtain s1 where c: "first_failing_chunk ask recorded len (split kept g) s = (Some None, s1)"
    and m: "2 < g \<Longrightarrow> \<exists>s2. first_failing_complement ask recorded len kept (split kept g) s1 = (Some None, s2)"
    and g: "length kept \<le> g"
    using assms(1) by (auto simp: ddmin_turn_def Let_def sbind_Some split: option.splits if_splits)
  note single = split_has_singleton [OF g]
  have alone: "\<not> fails (candidate recorded len [y])" if "y \<in> set kept" for y
    using first_failing_chunk_answers [OF c] single [OF that] by auto
  show "\<not> fails (candidate recorded len ?rest)"
  proof (cases "2 < g")
    case True
    have "?rest \<noteq> []"
    proof
      assume "?rest = []"
      then have "set kept \<subseteq> {x}" by (auto simp: filter_empty_conv)
      then have "card (set kept) \<le> 1" using card_mono [of "{x}" "set kept"] by simp
      then show False using distinct_card [OF assms(4)] assms(2) by simp
    qed
    then show ?thesis
      using m [OF True] first_failing_complement_answers single [OF x] by fastforce
  next
    case False
    then have "length kept = 2" using assms(2,3) g by simp
    then obtain a b where "kept = [a, b]"
      by (metis (no_types, opaque_lifting) One_nat_def Suc_1 length_0_conv length_Suc_conv)
    then show ?thesis using alone assms(4) x by auto
  qed
qed

lemma ddmin_loop_result:
  "ddmin_loop ask recorded len kept g s = (Some kept', s') \<Longrightarrow> 1 < g \<Longrightarrow> distinct kept \<Longrightarrow>
   fails (candidate recorded len kept) \<Longrightarrow>
     fails (candidate recorded len kept') \<and> set kept' \<subseteq> set kept \<and> distinct kept' \<and>
     (1 < length kept' \<longrightarrow> one_minimal recorded len kept')"
proof (induction "(length kept, length kept - g)" arbitrary: kept g s rule: less_induct)
  case less
  show ?case
  proof (cases "1 < length kept")
    case True
    with less.prems(1,2) consider (stop) "ddmin_turn ask recorded len kept g s = (Some None, s')" "kept' = kept"
      | (onward) k1 g1 s1 where "ddmin_turn ask recorded len kept g s = (Some (Some (k1, g1)), s1)"
          "ddmin_loop ask recorded len k1 g1 s1 = (Some kept', s')"
      by (subst (asm) ddmin_loop.simps) (auto split: prod.splits option.splits)
    then show ?thesis
    proof cases
      case stop
      with ddmin_turn_stops [OF stop(1) True less.prems(2,3)] less.prems show ?thesis by simp
    next
      case onward
      note dec = ddmin_turn_decreases [OF onward(1) True less.prems(2)]
      from onward(1) have "distinct k1 \<and> set k1 \<subseteq> set kept"
      proof (cases rule: ddmin_turn_next)
        case chunk
        then show ?thesis
          using split_spec(2) less.prems(3) by (auto simp: split_def split_chunk_def Let_def)
      qed (use less.prems(3) in auto)
      moreover have "fails (candidate recorded len k1)"
        using onward(1) first_failing_chunk_answers [of recorded len "split kept g" s]
          first_failing_complement_answers [of recorded len kept "split kept g"] less.prems(4)
        by (force simp: ddmin_turn_def Let_def sbind_Some split: option.splits if_splits)
      ultimately show ?thesis
        using less.hyps [of k1 g1 s1] dec onward(2) by auto
    qed
  next
    case False
    with less.prems show ?thesis by (simp add: ddmin_loop.simps [of _ _ _ kept])
  qed
qed

end

interpretation judge: search_oracle "probe fails budget" fails for fails budget
  by unfold_locales (auto simp: probe_def Let_def split: if_splits)

end

