(* ===== verification/SimShrinkSpec.thy ===== *)
theory SimShrinkSpec
  imports SimShrink
begin

text \<open>
  What the shrinker guarantees: the budget its passes need (locale \<open>funded_search\<close>, interpreted on
  the probe), that what it returns still fails the same way, and how small the result is.
\<close>

section \<open>How much budget is enough\<close>

lemma length_concat_nonempty: "(\<And>x. x \<in> set xs \<Longrightarrow> x \<noteq> []) \<Longrightarrow> length xs \<le> length (concat xs)"
proof (induction xs)
  case (Cons x xs)
  then have "x \<noteq> []" by simp
  then have "1 \<le> length x" by (cases x) auto
  with Cons show ?case by fastforce
qed simp

text \<open>A probe that still has budget answers, and costs one unit.\<close>

locale funded_search = search_oracle +
  fixes left :: "search \<Rightarrow> nat"
  assumes ask_costs: "0 < left s \<Longrightarrow> \<exists>ok s'. ask c s = (Some ok, s') \<and> left s' = left s - 1"
begin

definition completes :: "'a searching \<Rightarrow> nat \<Rightarrow> search \<Rightarrow> bool" where
  "completes m n s \<longleftrightarrow> (\<exists>x s'. m s = (Some x, s') \<and> left s \<le> left s' + n)"

lemma completes_return [simp]: "completes (sreturn x) n s"
  by (simp add: completes_def)

lemma completes_ask: "0 < left s \<Longrightarrow> completes (ask c) 1 s"
  using ask_costs [of s c] by (auto simp: completes_def)

lemma completes_bind:
  assumes "completes m a s" and "a + b \<le> left s"
    and "\<And>x s'. m s = (Some x, s') \<Longrightarrow> b \<le> left s' \<Longrightarrow> completes (f x) b s'"
  shows "completes (sbind m f) (a + b) s"
proof -
  obtain x s1 where m: "m s = (Some x, s1)" "left s \<le> left s1 + a"
    using assms(1) by (auto simp: completes_def)
  with assms(2) have "b \<le> left s1" by linarith
  from assms(3) [OF m(1) this] obtain y s2 where "f x s1 = (Some y, s2)" "left s1 \<le> left s2 + b"
    by (auto simp: completes_def)
  with m show ?thesis by (auto simp: completes_def sbind_def)
qed

lemma completes_mono: "completes m a s \<Longrightarrow> a \<le> b \<Longrightarrow> completes m b s"
  unfolding completes_def by (meson add_left_mono le_trans)

lemma shortest_prefix_completes:
  "hi - lo < 2 ^ k \<Longrightarrow> k \<le> left s \<Longrightarrow> completes (shortest_prefix_loop ask recorded lo hi) k s"
proof (induction k arbitrary: lo hi s)
  case (Suc k)
  have "completes (sbind (ask (take ((lo + hi) div 2) recorded)) (\<lambda>ok.
      if ok then shortest_prefix_loop ask recorded lo ((lo + hi) div 2)
      else shortest_prefix_loop ask recorded ((lo + hi) div 2 + 1) hi)) (1 + k) s" if "lo < hi"
    using Suc that by (intro completes_bind completes_ask) auto
  then show ?case
    by (subst shortest_prefix_loop.simps) (simp add: Let_def)
qed (simp add: shortest_prefix_loop.simps)

lemma fifo_prefix_completes:
  "hi - lo < 2 ^ k \<Longrightarrow> k \<le> left s \<Longrightarrow> completes (fifo_prefix_loop ask recorded len lo hi) k s"
proof (induction k arbitrary: lo hi s)
  case (Suc k)
  have "completes (sbind (ask (candidate recorded len [(lo + hi + 1) div 2..<len])) (\<lambda>ok.
      if ok then fifo_prefix_loop ask recorded len ((lo + hi + 1) div 2) hi
      else fifo_prefix_loop ask recorded len lo ((lo + hi + 1) div 2 - 1))) (1 + k) s" if "lo < hi"
    using Suc that by (intro completes_bind completes_ask) auto
  then show ?case
    unfolding fifo_prefix_loop.simps [of ask recorded len lo hi] Let_def
    by (cases "lo < hi") (simp_all only: if_True if_False plus_1_eq_Suc completes_return)
qed (simp add: fifo_prefix_loop.simps)

lemma first_failing_chunk_completes:
  "length chunks \<le> left s \<Longrightarrow> completes (first_failing_chunk ask recorded len chunks) (length chunks) s"
proof (induction chunks arbitrary: s)
  case (Cons chunk chunks)
  have "completes (first_failing_chunk ask recorded len (chunk # chunks)) (1 + length chunks) s"
    unfolding first_failing_chunk.simps
    using Cons by (intro completes_bind completes_ask) auto
  then show ?case by simp
qed simp

lemma first_failing_complement_completes:
  "length chunks \<le> left s \<Longrightarrow> completes (first_failing_complement ask recorded len kept chunks) (length chunks) s"
proof (induction chunks arbitrary: s)
  case (Cons chunk chunks)
  have "completes (sbind (ask (candidate recorded len rest)) (\<lambda>ok. if ok then sreturn (Some rest)
      else first_failing_complement ask recorded len kept chunks)) (1 + length chunks) s" for rest
    using Cons by (intro completes_bind completes_ask) auto
  moreover have "completes (first_failing_complement ask recorded len kept chunks) (1 + length chunks) s"
    using Cons.prems by (intro completes_mono [OF Cons.IH]) simp_all
  ultimately show ?case by (simp add: Let_def)
qed simp

lemma ddmin_turn_completes:
  assumes "2 * length kept \<le> left s" and "0 < g"
  shows "completes (ddmin_turn ask recorded len kept g) (2 * length kept) s"
proof -
  let ?n = "length (split kept g)"
  have "?n \<le> length (concat (split kept g))"
    using split_spec(1) [of _ kept g] by (intro length_concat_nonempty) auto
  then have n: "?n \<le> length kept" using concat_split [OF assms(2)] by simp
  have "completes (ddmin_turn ask recorded len kept g) (?n + ?n) s"
    unfolding ddmin_turn_def Let_def
  proof (rule completes_bind)
    show "completes (first_failing_chunk ask recorded len (split kept g)) ?n s"
      using n assms(1) by (intro first_failing_chunk_completes) simp
    show "?n + ?n \<le> left s" using n assms(1) by simp
    fix found s1 assume "?n \<le> left s1"
    have "completes (sbind (if g > 2 then first_failing_complement ask recorded len kept (split kept g)
        else sreturn None) f) (?n + 0) s1" if "\<And>x s. completes (f x) 0 s" for f :: "_ \<Rightarrow> (nat list \<times> nat) option searching"
      using \<open>?n \<le> left s1\<close> that by (intro completes_bind) (auto intro: first_failing_complement_completes)
    then show "completes (case found of None \<Rightarrow> sbind (if g > 2 then first_failing_complement ask recorded len kept (split kept g)
          else sreturn None) (\<lambda>rest. case rest of Some r \<Rightarrow> sreturn (Some (r, max (g - 1) 2))
            | None \<Rightarrow> if g \<ge> length kept then sreturn None else sreturn (Some (kept, min (g * 2) (length kept))))
        | Some chunk \<Rightarrow> sreturn (Some (chunk, 2))) ?n s1"
      by (auto split: option.split)
  qed
  then show ?thesis using n by (elim completes_mono) simp
qed

lemma ddmin_loop_completes:
  "length kept \<le> N \<Longrightarrow> 1 < g \<Longrightarrow> 2 * N * (length kept * (N + 1) + (N - g)) \<le> left s \<Longrightarrow>
     completes (ddmin_loop ask recorded len kept g) (2 * N * (length kept * (N + 1) + (N - g))) s"
proof (induction "(length kept, length kept - g)" arbitrary: kept g s rule: less_induct)
  case less
  let ?c = "\<lambda>kept g. 2 * N * (length kept * (N + 1) + (N - g))"
  show ?case
  proof (cases "1 < length kept")
    case True
    then have "2 * N * 1 \<le> ?c kept g" by (intro mult_le_mono2) simp
    then have "2 * length kept \<le> left s" using less.prems(1,3) by linarith
    from ddmin_turn_completes [OF this, of g recorded len] less.prems(2)
    obtain r s1 where r: "ddmin_turn ask recorded len kept g s = (Some r, s1)" "left s \<le> left s1 + 2 * length kept"
      by (auto simp: completes_def)
    show ?thesis
    proof (cases r)
      case None
      moreover have "left s \<le> left s1 + ?c kept g"
        using r(2) less.prems(1) \<open>2 * N * 1 \<le> ?c kept g\<close> by linarith
      ultimately show ?thesis
        using r(1) True less.prems(2) by (simp add: completes_def ddmin_loop.simps [of _ _ _ kept] del: mult_Suc_right)
    next
      case (Some kg)
      obtain k1 g1 where kg: "kg = (k1, g1)" by fastforce
      note turn = r(1) [unfolded Some kg]
      note dec = ddmin_turn_decreases [OF turn True less.prems(2)]
      have "length k1 * (N + 1) + (N - g1) < length kept * (N + 1) + (N - g)"
      proof (cases "length k1 < length kept")
        case True
        then have "(length k1 + 1) * (N + 1) \<le> length kept * (N + 1)" by (intro mult_le_mono1) simp
        then show ?thesis by simp
      next
        case False
        with dec have "k1 = kept" "length kept - g1 < length kept - g" by auto
        with less.prems(1) show ?thesis by simp
      qed
      then have "2 * N * (length k1 * (N + 1) + (N - g1) + 1) \<le> ?c kept g" by (intro mult_le_mono2) simp
      then have step: "?c k1 g1 + 2 * N \<le> ?c kept g" by (simp add: algebra_simps)
      have "completes (ddmin_loop ask recorded len k1 g1) (?c k1 g1) s1"
        using dec less.prems r(2) step by (intro less.hyps) auto
      moreover have "ddmin_loop ask recorded len kept g s = ddmin_loop ask recorded len k1 g1 s1"
        using turn True less.prems(2) by (simp add: ddmin_loop.simps [of _ _ _ kept])
      ultimately show ?thesis using r(2) step less.prems(1) by (fastforce simp: completes_def)
    qed
  next
    case False
    then show ?thesis by (simp add: completes_def ddmin_loop.simps [of _ _ _ kept])
  qed
qed

end

interpretation purse: funded_search "probe fails budget" fails "\<lambda>s. nat (budget - int (s_runs s))"
  for fails budget
  by unfold_locales (auto simp: probe_def Let_def)

interpretation spent: search_invariant "probe fails budget" recorded "\<lambda>s. int (s_runs s) \<le> budget"
  for fails budget recorded
  by unfold_locales (auto simp: probe_def Let_def)

section \<open>Guarantees\<close>

lemma trimmed_kept: "kept_steps (trimmed b) = kept_steps b" and trimmed_rank: "rank (trimmed b) \<le> rank b"
  and trimmed_derived: "derived recorded b \<Longrightarrow> derived recorded (trimmed b)"
proof -
  obtain k where k: "b = trimmed b @ replicate k 0" using trimmed_spec by blast
  have "kept_steps (c @ replicate k 0) = kept_steps c" for c :: schedule
  proof -
    have "filter (\<lambda>i. (c @ replicate k 0) ! i \<noteq> 0) [length c..<length c + k] = []"
      by (auto simp: filter_empty_conv nth_append)
    moreover have "[0..<length c + k] = [0..<length c] @ [length c..<length c + k]"
      using upt_add_eq_append [of 0 "length c" k] by simp
    moreover have "filter (\<lambda>i. (c @ replicate k 0) ! i \<noteq> 0) [0..<length c] = kept_steps c"
      unfolding kept_steps_def by (intro filter_cong) (auto simp: nth_append)
    ultimately show ?thesis by (simp add: kept_steps_def)
  qed
  with k show "kept_steps (trimmed b) = kept_steps b" by metis
  have "rank c \<le> rank (c @ replicate k 0)" for c :: schedule
    by (simp add: rank_def)
  with k show "rank (trimmed b) \<le> rank b" by metis
  have "derived recorded (c @ xs) \<Longrightarrow> derived recorded c" for c xs :: schedule
    by (auto simp: derived_nth nth_append split: if_splits)
  with k show "derived recorded b \<Longrightarrow> derived recorded (trimmed b)" by metis
qed

lemma shrink_schedule_spec:
  assumes pad: "\<And>c k. replay (c @ replicate k 0) = replay c"
  shows "(case shrink_schedule replay labels_at choices failure budget of
      Inl e \<Rightarrow> e = ValueError \<and> budget < 1
    | Inr None \<Rightarrow> 1 \<le> budget \<and> \<not> same_failure failure (replay choices)
    | Inr (Some r) \<Rightarrow> 1 \<le> budget \<and> same_failure failure (replay choices) \<and>
        same_failure failure (replay (sh_choices r)) \<and> derived choices (sh_choices r) \<and>
        rank (sh_choices r) \<le> rank choices \<and> sh_kept r = kept_steps (sh_choices r) \<and>
        int (oracle_runs r) \<le> budget \<and> original_len r = length choices)"
proof (cases "budget < 1")
  case False
  let ?fails = "\<lambda>c. same_failure failure (replay c)"
  let ?p = "passes (probe ?fails budget) choices search_init"
  from False have b: "1 \<le> budget" by simp
  note res = passes_result [OF b, of ?fails choices]
  show ?thesis
  proof (cases "?fails choices")
    case True
    then obtain best where best: "s_best (snd ?p) = Some best" "?fails best" "derived choices best"
      "rank best \<le> rank choices" "int (s_runs (snd ?p)) \<le> budget"
      using res(1) by (auto simp: search_inv_def split: option.splits)
    obtain k where "best = trimmed best @ replicate k 0" using trimmed_spec by blast
    then have "replay (trimmed best) = replay best" using pad by metis
    moreover have "fst ?p \<noteq> Some False" by (rule res(3) [OF True])
    ultimately show ?thesis
      using best b True trimmed_derived [OF best(3)] order_trans [OF trimmed_rank best(4)]
      by (cases ?p) (auto simp: shrink_schedule_def trimmed_kept Let_def split: option.split bool.split)
  next
    case False
    with res(2) b show ?thesis by (cases ?p) (auto simp: shrink_schedule_def)
  qed
qed (simp add: shrink_schedule_def)

text \<open>
  C9. Shrinking never changes the failure. Suppose a replay past the end of its choices runs FIFO, so
  that trailing zeros do not matter. \<open>shrink_schedule\<close> refuses a budget below 1; it returns
  nothing exactly when the recording itself does not reproduce the failure; and otherwise it returns
  a schedule that fails with the same type and the same first 80 characters of the message, holds at
  every step either the recorded choice or FIFO, is at most as hard as the recording, names exactly the steps it keeps, and was
  found within the budget, whichever pass the budget ran out in.
\<close>
theorem shrink_keeps_the_failure:
  assumes pad: "\<And>c k. replay (c @ replicate k 0) = replay c"
  shows "(case shrink_schedule replay labels_at choices failure budget of
      Inl e \<Rightarrow> e = ValueError \<and> budget < 1
    | Inr None \<Rightarrow> 1 \<le> budget \<and> \<not> same_failure failure (replay choices)
    | Inr (Some r) \<Rightarrow> 1 \<le> budget \<and> same_failure failure (replay choices) \<and>
        same_failure failure (replay (sh_choices r)) \<and> derived choices (sh_choices r) \<and>
        rank (sh_choices r) \<le> rank choices \<and> sh_kept r = kept_steps (sh_choices r) \<and>
        int (oracle_runs r) \<le> budget \<and> original_len r = length choices)"
  using pad by (rule shrink_schedule_spec)

definition demo_replay :: "schedule \<Rightarrow> failure option" where
  \<comment> \<open>a race that needs the second step to overtake\<close>
  "demo_replay c = (if 1 < length c \<and> c ! 1 = 2 then Some (''AssertionError'', ''lost update'') else None)"

lemma demo_shrink:
  "shrink_schedule demo_replay (\<lambda>_ ks. map (\<lambda>_. ''?'') ks) [3, 2, 1, 4] (''AssertionError'', ''lost update'') 500 =
    Inr (Some \<lparr>original_len = 4, sh_choices = [0, 2], sh_fifo_prefix = 1, sh_kept = [1],
      sh_labels = [''?''], oracle_runs = 5\<rparr>)"
  by code_simp

theorem shrink_keeps_the_failure_witness:
  "same_failure (''AssertionError'', ''lost update'') (demo_replay [0, 2]) \<and>
   derived [3, 2, 1, 4] [0, 2] \<and> rank [0, 2] \<le> rank [3, 2, 1, 4]"
proof -
  have "demo_replay (c @ replicate k 0) = demo_replay c" for c k
    by (auto simp: demo_replay_def nth_append split: if_splits)
  from shrink_keeps_the_failure [of demo_replay, OF this, where labels_at = "\<lambda>_ ks. map (\<lambda>_. ''?'') ks" and
      choices = "[3, 2, 1, 4]" and failure = "(''AssertionError'', ''lost update'')" and budget = 500]
  show ?thesis unfolding demo_shrink by simp
qed

text \<open>
  C28. Both binary searches end at a boundary. With \<open>2k\<close> probes left and a recording of fewer than
  \<open>2\<^sup>k\<close> choices that fails, \<open>_shortest_prefix\<close> returns a prefix that still fails and, unless it
  is empty, stops failing one choice earlier; \<open>_fifo_prefix\<close> then returns how many leading steps
  of it run FIFO with the failure still firing, and one step more stops it.
\<close>
theorem prefix_searches_find_a_boundary:
  assumes "fails recorded" and "length recorded < 2 ^ k" and "int (s_runs s) + 2 * int k \<le> budget"
  shows "\<exists>n s1 m s2. shortest_prefix (probe fails budget) recorded s = (Some n, s1) \<and>
      n \<le> length recorded \<and> fails (take n recorded) \<and> (n = 0 \<or> \<not> fails (take (n - 1) recorded)) \<and>
      fifo_prefix (probe fails budget) recorded n s1 = (Some m, s2) \<and> m \<le> n \<and>
      fails (candidate recorded n [m..<n]) \<and> (m = n \<or> \<not> fails (candidate recorded n [m + 1..<n])) \<and>
      s_runs s2 \<le> s_runs s + 2 * k"
proof -
  let ?left = "\<lambda>s. nat (budget - int (s_runs s))"
  have "k \<le> ?left s" using assms(3) by linarith
  with purse.shortest_prefix_completes [of "length recorded" 0 k budget s fails recorded] assms(2)
  obtain n s1 where n: "shortest_prefix_loop (probe fails budget) recorded 0 (length recorded) s = (Some n, s1)"
    "?left s \<le> ?left s1 + k" by (auto simp: purse.completes_def)
  have le0: "0 \<le> length recorded" by simp
  have le: "n \<le> length recorded" using shortest_prefix_bounds [OF n(1)] by simp
  note loc = judge.shortest_prefix_local [OF n(1) le0]
  have sp1: "fails (take n recorded)" using loc assms(1) le by (cases "n = length recorded") simp_all
  have sp2: "n = 0 \<or> \<not> fails (take (n - 1) recorded)" using loc by blast
  have "k \<le> ?left s1" "n - 0 < 2 ^ k" using n(2) assms(2,3) le by linarith+
  with purse.fifo_prefix_completes [of n 0 k budget s1 fails recorded n]
  obtain m s2 where m: "fifo_prefix_loop (probe fails budget) recorded n 0 n s1 = (Some m, s2)"
    "?left s1 \<le> ?left s2 + k" by (auto simp: purse.completes_def)
  have mle: "m \<le> n" using fifo_prefix_bounds [OF m(1)] by simp
  have "candidate recorded n [0..<n] = take n recorded"
    using le by (intro nth_equalityI) (auto simp: candidate_nth)
  with sp1 have fp1: "fails (candidate recorded n [m..<n])"
    using judge.fifo_prefix_local [OF m(1)] by (cases "m = 0") simp_all
  have fp2: "m = n \<or> \<not> fails (candidate recorded n [m + 1..<n])"
    using judge.fifo_prefix_local [OF m(1)] mle by auto
  have "int (s_runs s1) \<le> budget"
    using spent.shortest_prefix_keeps [of s budget fails recorded 0 "length recorded"] assms(3) n(1) by simp
  then have "int (s_runs s2) \<le> budget"
    using spent.fifo_prefix_keeps [of s1 budget n recorded fails 0 n] m(1) le by simp
  then have "s_runs s2 \<le> s_runs s + 2 * k" using n(2) m(2) assms(3) by linarith
  with n(1) m(1) le sp1 sp2 mle fp1 fp2 show ?thesis
    unfolding shortest_prefix_def fifo_prefix_def by blast
qed

definition demo_fails :: "schedule \<Rightarrow> bool" where
  "demo_fails c = same_failure (''AssertionError'', ''lost update'') (demo_replay c)"

theorem prefix_searches_find_a_boundary_witness:
  "\<exists>n s1. shortest_prefix (probe demo_fails 500) [3, 2, 1, 4] search_init = (Some n, s1) \<and>
     demo_fails (take n [3, 2, 1, 4])"
proof -
  have "demo_fails [3, 2, 1, 4]" by code_simp
  moreover have "length [3, 2, 1, 4 :: nat] < 2 ^ 3" by simp
  moreover have "int (s_runs search_init) + 2 * int 3 \<le> 500" by (simp add: search_init_def)
  ultimately show ?thesis using prefix_searches_find_a_boundary by blast
qed

text \<open>
  C11. Delta debugging ends, and ends 1-minimal. From a set of distinct steps whose candidate fails, and
  with budget for the cubic worst case, \<open>_ddmin\<close> returns a subset of them whose candidate still
  fails; when it keeps at least two steps, putting any single one of them back to FIFO stops the
  failure.
\<close>
theorem ddmin_is_one_minimal:
  assumes "fails (candidate recorded len positions)" and "distinct positions"
    and "N = length positions" and "int (s_runs s + 2 * N * (N * (N + 1) + (N - 2))) \<le> budget"
  shows "\<exists>kept s'. ddmin (probe fails budget) recorded len positions s = (Some kept, s') \<and>
    set kept \<subseteq> set positions \<and> distinct kept \<and> fails (candidate recorded len kept) \<and>
    (1 < length kept \<longrightarrow> (\<forall>x\<in>set kept. \<not> fails (candidate recorded len (filter (\<lambda>y. y \<noteq> x) kept))))"
proof -
  have "int (2 * N * (N * (N + 1) + (N - 2))) \<le> budget - int (s_runs s)"
    using assms(4) unfolding of_nat_add [of "s_runs s"] by linarith
  then have "2 * N * (length positions * (N + 1) + (N - 2)) \<le> nat (budget - int (s_runs s))"
    unfolding assms(3) [symmetric] using nat_mono [of "int (2 * N * (N * (N + 1) + (N - 2)))"]
    by (simp only: nat_int)
  with purse.ddmin_loop_completes [of positions N 2 budget s fails recorded len] assms(3)
  obtain kept s' where d: "ddmin_loop (probe fails budget) recorded len positions 2 s = (Some kept, s')"
    by (auto simp: purse.completes_def)
  from judge.ddmin_loop_result [OF d _ assms(2,1)] d show ?thesis
    by (auto simp: ddmin_def judge.one_minimal_def)
qed

theorem ddmin_is_one_minimal_witness:
  "\<exists>kept s'. ddmin (probe demo_fails 500) [3, 2, 1] 3 [0, 1, 2] search_init = (Some kept, s') \<and>
     demo_fails (candidate [3, 2, 1] 3 kept)"
proof -
  have "demo_fails (candidate [3, 2, 1] 3 [0, 1, 2])" by code_simp
  moreover have "int (s_runs search_init + 2 * 3 * (3 * (3 + 1) + (3 - 2))) \<le> 500"
    by (simp add: search_init_def)
  moreover have "distinct [0, 1, 2 :: nat]" "3 = length [0, 1, 2 :: nat]" by simp_all
  ultimately show ?thesis
    using ddmin_is_one_minimal [of demo_fails "[3, 2, 1]" 3 "[0, 1, 2]" 3 search_init 500] by blast
qed

text \<open>
  The \<open>1 < length kept\<close> above is needed: the loop stops at one step without trying none at all, so
  a failure that needs no choice may be reported with a step that can be put back to FIFO.
\<close>

lemma ddmin_single_step_not_minimal:
  "\<exists>fails. fst (ddmin (probe fails 500) [1, 1] 2 [0, 1] search_init) = Some [0] \<and>
     fails (candidate [1, 1] 2 [0]) \<and> fails (candidate [1, 1] 2 [])"
  by (rule exI [of _ "\<lambda>c. c \<in> {[1, 1], [1, 0], [0, 0]}"]) code_simp

end
