(* ===== verification/SimRunOnce.thy ===== *)
theory SimRunOnce
  imports SimRuns SimShrinkSpec
begin

text \<open>
  \<open>src/simloop/_run.py\<close>, and the parts of \<open>_shrink.py\<close> that run the loop: one run of a workload
  from start to teardown, the replay of a candidate schedule, and the labels of the kept steps. The
  tasks belong to the program, so what \<open>done\<close> and \<open>cancel\<close> answer for a task, and the future
  \<open>gather\<close> makes of several, are arguments.
\<close>

section \<open>One run\<close>

definition is_exception :: "exn \<Rightarrow> bool" where
  \<comment> \<open>caught by \<open>except Exception\<close>\<close>
  "is_exception x \<longleftrightarrow> x \<notin> {SystemExit, KeyboardInterrupt, CancelledError}"

definition run_once ::
    "('cb, 'z) loop_scheme awaited \<Rightarrow> ('cb, 'z) exec \<Rightarrow> ('cb, 'z) handler \<Rightarrow> nat \<Rightarrow> nat \<Rightarrow> nat \<Rightarrow>
     ('cb, 'z) loop_scheme \<Rightarrow> exn option \<times> ('cb, 'z) loop_scheme run" where
  \<comment> \<open>the exception it returns, and the loop it leaves; a \<open>BaseException\<close> stays in the outcome\<close>
  "run_once fut exec handler thread fuel drain_fuel s =
     (case run_until_complete fut exec handler thread fuel drain_fuel s of
        Finished (Exc x t) \<Rightarrow> if is_exception x then (Some x, Finished (Ret t)) else (None, Finished (Exc x t))
      | r \<Rightarrow> (None, r))"

definition pending_of :: "(nat \<Rightarrow> 's \<Rightarrow> bool) \<Rightarrow> ('s \<Rightarrow> (hostname, nat list) dict) \<Rightarrow> 's \<Rightarrow> nat list" where
  "pending_of is_done host_tasks s = filter (\<lambda>task. \<not> is_done task s) (concat (map snd (host_tasks s)))"

definition drain_tasks ::
    "(nat \<Rightarrow> net \<Rightarrow> bool) \<Rightarrow> (nat \<Rightarrow> net \<Rightarrow> net) \<Rightarrow> (nat list \<Rightarrow> net awaited) \<Rightarrow>
     (cb \<Rightarrow> net \<Rightarrow> net outcome) \<Rightarrow> (exn option \<Rightarrow> net \<Rightarrow> net outcome) option \<Rightarrow> nat \<Rightarrow> nat \<Rightarrow> nat \<Rightarrow> net \<Rightarrow> net run" where
  "drain_tasks is_done task_cancel gather exec handler thread fuel drain_fuel s =
     (let pending = pending_of is_done l_host_tasks s in
      if pending = [] then Finished (Ret s)
      else case run_until_complete (gather pending) exec handler thread fuel drain_fuel
                  (fold task_cancel pending s) of
          Finished (Exc x t) \<Rightarrow> if is_exception x then Finished (Ret t) else Finished (Exc x t)
        | r \<Rightarrow> r)"

definition finish ::
    "(nat \<Rightarrow> net \<Rightarrow> bool) \<Rightarrow> (nat \<Rightarrow> net \<Rightarrow> net) \<Rightarrow> (nat list \<Rightarrow> net awaited) \<Rightarrow>
     (cb \<Rightarrow> net \<Rightarrow> net outcome) \<Rightarrow> (exn option \<Rightarrow> net \<Rightarrow> net outcome) option \<Rightarrow> nat \<Rightarrow> nat \<Rightarrow> nat \<Rightarrow> net \<Rightarrow> net run" where
  "finish is_done task_cancel gather exec handler thread fuel drain_fuel s =
     (case drain_tasks is_done task_cancel gather exec handler thread fuel drain_fuel s of
        Finished (Ret t) \<Rightarrow> Finished (close_loop t)
      | r \<Rightarrow> r)"

section \<open>Replaying a candidate\<close>

text \<open>
  \<open>_replay\<close> returns the failure of the candidate's run, or raises: what \<open>_from_choices\<close> raises, and any
  exception that \<open>run_once\<close> and \<open>finish\<close> let pass; a run that does not end within the fuel is told apart.
\<close>

datatype replayed = Replayed "failure option" | Raised exn | Unfinished

record teardown =
  \<comment> \<open>what belongs to the program's tasks: whether one is done, cancelling it, awaiting several\<close>
  td_done :: "nat \<Rightarrow> net \<Rightarrow> bool"
  td_cancel :: "nat \<Rightarrow> net \<Rightarrow> net"
  td_gather :: "nat list \<Rightarrow> net awaited"

definition replay_candidate ::
    "(int \<Rightarrow> rng) \<Rightarrow> (string \<Rightarrow> rng) \<Rightarrow> (exn \<Rightarrow> failure) \<Rightarrow> program \<Rightarrow> nat \<Rightarrow> nat \<Rightarrow> nat \<Rightarrow> nat \<Rightarrow> teardown \<Rightarrow>
     cb callable \<Rightarrow> net awaited \<Rightarrow> int \<Rightarrow> schedule \<Rightarrow> replayed" where
  \<comment> \<open>\<open>_replay\<close>: \<open>describe\<close> gives an exception's type name and message\<close>
  "replay_candidate seeded stream describe prog n thread fuel drain_fuel td main fut seed choices =
     (case booted_replay seeded stream (map int choices) seed thread main of
        Inl e \<Rightarrow> Raised e
      | Inr s \<Rightarrow>
          (case run_once fut (sys_exec prog n) (sys_handler prog n) thread fuel drain_fuel s of
             (x, OutOfFuel t) \<Rightarrow> Unfinished
           | (x, Finished ended) \<Rightarrow>
               (case finish (td_done td) (td_cancel td) (td_gather td) (sys_exec prog n) (sys_handler prog n) thread
                       fuel drain_fuel (result_state ended) of
                  OutOfFuel t \<Rightarrow> Unfinished
                | Finished (Exc y t) \<Rightarrow> Raised y
                | Finished (Ret t) \<Rightarrow>
                    (case ended of Exc y t \<Rightarrow> Raised y | Ret t \<Rightarrow> Replayed (map_option describe x)))))"

section \<open>Naming the kept steps\<close>

fun marks_while ::
    "(('cb, 'z) loop_scheme \<Rightarrow> bool) \<Rightarrow> ('cb, 'z) exec \<Rightarrow> ('cb, 'z) handler \<Rightarrow> nat \<Rightarrow> ('cb, 'z) loop_scheme \<Rightarrow> nat list" where
  \<comment> \<open>what \<open>_StepMarks.at\<close> holds after the loop \<open>run_while\<close>: the length of the trace whenever the
      policy is asked\<close>
  "marks_while guard exec handler fuel s =
     (if \<not> guard s then []
      else case fuel of
        0 \<Rightarrow> []
      | Suc k \<Rightarrow> (case (if l_ready s = [] then advance_clock s else Ret s) of
            Exc x t \<Rightarrow> []
          | Ret s1 \<Rightarrow> length (l_recorder s1) #
              (case run_chosen exec handler s1 of
                 Ret s2 \<Rightarrow> marks_while guard exec handler k s2
               | Exc x t \<Rightarrow> [])))"

declare marks_while.simps [simp del]

definition label_at :: "recorder \<Rightarrow> nat list \<Rightarrow> nat \<Rightarrow> label" where
  "label_at events marks step =
     (let pos = (if step < length marks then marks ! step else length events)
      in if pos < length events then ev_label (events ! pos) else ''?'')"

definition labels_at :: "(schedule \<Rightarrow> nat list \<times> recorder) \<Rightarrow> schedule \<Rightarrow> nat list \<Rightarrow> label list" where
  \<comment> \<open>\<open>rerun\<close> is the extra run: the marks it noted and the trace it left\<close>
  "labels_at rerun choices kept =
     (if kept = [] then []
      else let (marks, events) = rerun choices in map (label_at events marks) kept)"

section \<open>Runs that make the same choices\<close>

context policy_blind_client begin

lemma loop_step_same_choices:
  assumes "\<And>p q ready. R p q \<Longrightarrow> fst (policy_choose p ready) = fst (policy_choose q ready) \<and>
      R (snd (policy_choose p ready)) (snd (policy_choose q ready))"
    and "R (l_policy s) q"
  shows "\<exists>q'. loop_step exec handler (set_policy q s) = map_outcome (set_policy q') (loop_step exec handler s) \<and>
    R (l_policy (result_state (loop_step exec handler s))) q'"
proof (cases "prepared s")
  case (Exc x s')
  with prepared_Exc [OF Exc] assms(2) show ?thesis
    by (intro exI [of _ q]) (simp add: loop_step_prepared prepared_set_policy)
next
  case (Ret s1)
  have pol: "l_policy s1 = l_policy s"
    using Ret advance_clock_keeps [of s] by (auto simp: prepared_def split: if_splits)
  let ?ready = "map (ready_view_of s1) (l_ready s1)"
  obtain i p' where c: "policy_choose (l_policy s1) ?ready = (i, p')" by fastforce
  moreover obtain q' where q': "policy_choose q ?ready = (i, q')" "R p' q'"
    using assms(1) [OF assms(2), of ?ready] c pol by (cases "policy_choose q ?ready") auto
  ultimately have "run_chosen exec handler (set_policy q s1) = map_outcome (set_policy q') (run_chosen exec handler s1)"
    by (intro run_chosen_same_choice) auto
  moreover have "l_policy (result_state (run_chosen exec handler s1)) = p'"
    using run_chosen_logs(2) [OF c] run_chosen_too_far [OF c] by (cases "i \<le> MAX_CHOICE") auto
  ultimately show ?thesis
    using Ret q'(2) by (intro exI [of _ q']) (simp add: loop_step_prepared prepared_set_policy)
qed

lemma run_while_same_choices:
  assumes step: "\<And>p q ready. R p q \<Longrightarrow> fst (policy_choose p ready) = fst (policy_choose q ready) \<and>
      R (snd (policy_choose p ready)) (snd (policy_choose q ready))"
    and blind: "\<And>p t. guard (set_policy p t) = guard t"
    and "R (l_policy s) q"
  shows "\<exists>q'. run_while guard exec handler fuel (set_policy q s) =
      map_run (set_policy q') (run_while guard exec handler fuel s) \<and>
    R (l_policy (run_state (run_while guard exec handler fuel s))) q'"
  using assms(3)
proof (induction fuel arbitrary: s q)
  case 0
  then show ?case by (intro exI [of _ q]) (simp add: run_while.simps blind)
next
  case (Suc k)
  note unfold = run_while.simps [of guard exec handler "Suc k"]
  obtain q1 where q1: "loop_step exec handler (set_policy q s) = map_outcome (set_policy q1) (loop_step exec handler s)"
    "R (l_policy (result_state (loop_step exec handler s))) q1"
    using loop_step_same_choices [of R s q, OF step Suc.prems] by blast
  show ?case
  proof (cases "guard s")
    case True
    show ?thesis
    proof (cases "loop_step exec handler s")
      case (Ret s')
      with q1 Suc.IH [of s' q1] True show ?thesis by (auto simp: unfold blind)
    next
      case (Exc x s')
      with q1 True show ?thesis by (intro exI [of _ q1]) (simp add: unfold blind)
    qed
  next
    case False
    with Suc.prems show ?thesis by (intro exI [of _ q]) (simp add: unfold blind)
  qed
qed

end

section \<open>Trailing FIFO choices\<close>

definition same_script :: "policy \<Rightarrow> policy \<Rightarrow> bool" where
  \<comment> \<open>two scripts that will answer alike: equal at every step, an exhausted one counting as zeros\<close>
  "same_script p q \<longleftrightarrow> (\<exists>a b. p = ScriptedP a \<and> q = ScriptedP b \<and> sc_step a = sc_step b \<and> script_at a = script_at b)"

lemma scripted_choose_at: "fst (scripted_choose a ready) = min (script_at a (sc_step a)) (length ready - 1)"
  by (auto simp: scripted_choose_def script_at_def Let_def min_def)

lemma script_at_choose [simp]: "script_at (snd (scripted_choose a ready)) = script_at a"
  by (simp add: fun_eq_iff script_at_def)

lemma same_script_choose:
  "same_script p q \<Longrightarrow> fst (policy_choose p ready) = fst (policy_choose q ready) \<and>
     same_script (snd (policy_choose p ready)) (snd (policy_choose q ready))"
  by (auto simp: same_script_def scripted_choose_at)

lemma same_script_pad:
  "same_script (ScriptedP \<lparr>sc_choices = cs, sc_step = k, sc_diverged_at = d\<rparr>)
     (ScriptedP \<lparr>sc_choices = cs @ replicate m 0, sc_step = k, sc_diverged_at = d\<rparr>)"
  by (auto simp: same_script_def script_at_def nth_append fun_eq_iff)

definition aw_blind :: "net awaited \<Rightarrow> bool" where
  \<comment> \<open>the awaited future does not look at the loop's private policy\<close>
  "aw_blind fut \<longleftrightarrow> (\<forall>p s. aw_done fut (set_policy p s) = aw_done fut s \<and>
     aw_cancel fut (set_policy p s) = set_policy p (aw_cancel fut s) \<and>
     aw_outcome fut (set_policy p s) = aw_outcome fut s \<and>
     aw_collect fut (set_policy p s) = set_policy p (aw_collect fut s) \<and>
     l_policy (aw_cancel fut s) = l_policy s)"

lemma run_forever_same_script:
  assumes "same_script (l_policy s) q"
  shows "\<exists>q'. run_forever (sys_exec prog n) (sys_handler prog n) thread fuel (set_policy q s) =
      map_run (set_policy q') (run_forever (sys_exec prog n) (sys_handler prog n) thread fuel s) \<and>
    same_script (l_policy (run_state (run_forever (sys_exec prog n) (sys_handler prog n) thread fuel s))) q'"
proof (cases "l_closed s \<or> l_running s")
  case True
  with assms show ?thesis by (intro exI [of _ q]) (auto simp: run_forever_def)
next
  case False
  let ?g = "\<lambda>s :: net. \<not> l_stopping s \<and> has_work s"
  let ?s0 = "s\<lparr>l_running := True, l_thread_id := thread\<rparr>"
  let ?r = "run_while ?g (sys_exec prog n) (sys_handler prog n) fuel ?s0"
  obtain q' where "run_while ?g (sys_exec prog n) (sys_handler prog n) fuel (set_policy q ?s0) = map_run (set_policy q') ?r"
    "same_script (l_policy (run_state ?r)) q'"
    using sys.run_while_same_choices [of same_script ?g ?s0 q prog n fuel] same_script_choose assms by auto
  with False show ?thesis
    by (cases ?r) (auto simp: run_forever_def finally_do_map outcome.map_comp comp_def intro!: exI [of _ q'])
qed

lemma policy_untouched:
  fixes s :: net
  assumes "\<And>p s. f (set_policy p s) = set_policy p (f s)"
  shows "l_policy (f s) = l_policy s"
  using arg_cong [OF assms [of "l_policy s" s], of l_policy] by (simp add: set_policy_def)

lemma await_verdict_state [simp]: "result_state (await_verdict b fut s) = s"
  by (simp add: await_verdict_def split: list.split option.split)

lemma await_verdict_set_policy:
  "aw_blind fut \<Longrightarrow> await_verdict b fut (set_policy p s) = map_outcome (set_policy p) (await_verdict b fut s)"
  by (auto simp: await_verdict_def aw_blind_def split: list.split option.split)

lemma run_until_complete_same_script:
  assumes "same_script (l_policy s) q" and "aw_blind fut"
  shows "\<exists>q'. run_until_complete fut (sys_exec prog n) (sys_handler prog n) thread fuel dfuel (set_policy q s) =
      map_run (set_policy q') (run_until_complete fut (sys_exec prog n) (sys_handler prog n) thread fuel dfuel s) \<and>
    same_script (l_policy (run_state (run_until_complete fut (sys_exec prog n) (sys_handler prog n) thread fuel dfuel s))) q'"
proof -
  let ?e = "sys_exec prog n" and ?h = "sys_handler prog n"
  obtain q1 where q1: "run_forever ?e ?h thread fuel (set_policy q s) = map_run (set_policy q1) (run_forever ?e ?h thread fuel s)"
    "same_script (l_policy (run_state (run_forever ?e ?h thread fuel s))) q1"
    using run_forever_same_script [OF assms(1)] by blast
  have fut: "aw_done fut (set_policy p t) = aw_done fut t" "aw_cancel fut (set_policy p t) = set_policy p (aw_cancel fut t)"
    "aw_collect fut (set_policy p t) = set_policy p (aw_collect fut t)" "l_policy (aw_cancel fut t) = l_policy t"
    "l_policy (aw_collect fut t) = l_policy t" for p t
    using assms(2) policy_untouched [of "aw_collect fut" t] by (auto simp: aw_blind_def)
  note verdict = await_verdict_set_policy [OF assms(2)]
  show ?thesis
  proof (cases "run_forever ?e ?h thread fuel s")
    case (OutOfFuel t)
    with q1 show ?thesis by (intro exI [of _ q1]) (simp add: run_until_complete_def)
  next
    case (Finished r)
    show ?thesis
    proof (cases r)
      case (Exc x t)
      with Finished q1 show ?thesis by (intro exI [of _ q1]) (simp add: run_until_complete_def)
    next
      case (Ret t)
      let ?g = "\<lambda>s. has_work s \<and> \<not> aw_done fut s"
      let ?d = "run_while ?g ?e ?h dfuel (aw_cancel fut t)"
      obtain q2 where q2: "run_while ?g ?e ?h dfuel (set_policy q1 (aw_cancel fut t)) = map_run (set_policy q2) ?d"
        "same_script (l_policy (run_state ?d)) q2"
        using sys.run_while_same_choices [of same_script ?g "aw_cancel fut t" q1 prog n dfuel]
          same_script_choose q1(2) Finished Ret fut by auto
      show ?thesis
      proof (cases "aw_done fut t")
        case True
        with Finished Ret q1 show ?thesis
          by (intro exI [of _ q1]) (simp add: run_until_complete_def fut verdict)
      next
        case False
        with Finished Ret q1(1) q2 show ?thesis
          by (intro exI [of _ q2])
            (auto simp: run_until_complete_def fut verdict split: run.split outcome.split)
      qed
    qed
  qed
qed

definition td_blind :: "teardown \<Rightarrow> bool" where
  \<comment> \<open>the program's tasks do not look at the loop's private policy\<close>
  "td_blind td \<longleftrightarrow> (\<forall>p s k. td_done td k (set_policy p s) = td_done td k s \<and>
     td_cancel td k (set_policy p s) = set_policy p (td_cancel td k s)) \<and> (\<forall>ks. aw_blind (td_gather td ks))"

lemma close_loop_set_policy: "close_loop (set_policy p s) = map_outcome (set_policy p) (close_loop s)"
proof -
  have "fold dispose_socket ks (set_policy p s) = set_policy p (fold dispose_socket ks s)" for ks s
    by (induction ks arbitrary: s) (simp_all add: dispose_socket_def upd_st_def)
  then show ?thesis by (simp add: close_loop_def) (simp add: set_policy_def)
qed

lemma finish_same_script:
  assumes "same_script (l_policy s) q" and td: "td_blind td"
  shows "\<exists>q'. finish (td_done td) (td_cancel td) (td_gather td) (sys_exec prog n) (sys_handler prog n) thread fuel dfuel (set_policy q s) =
    map_run (set_policy q') (finish (td_done td) (td_cancel td) (td_gather td) (sys_exec prog n) (sys_handler prog n) thread fuel dfuel s)"
proof -
  let ?ts = "pending_of (td_done td) l_host_tasks s"
  have ts: "pending_of (td_done td) l_host_tasks (set_policy q s) = ?ts" using td by (simp add: pending_of_def td_blind_def)
  have cancel: "fold (td_cancel td) ks (set_policy p t) = set_policy p (fold (td_cancel td) ks t)" for ks p t
    using td by (induction ks arbitrary: t) (simp_all add: td_blind_def)
  have "l_policy (fold (td_cancel td) ?ts s) = l_policy s" by (rule policy_untouched) (rule cancel)
  with assms(1) have "same_script (l_policy (fold (td_cancel td) ?ts s)) q" by simp
  moreover have "aw_blind (td_gather td ?ts)" using td by (simp add: td_blind_def)
  ultimately obtain q' where "run_until_complete (td_gather td ?ts) (sys_exec prog n) (sys_handler prog n) thread fuel dfuel
      (set_policy q (fold (td_cancel td) ?ts s)) =
    map_run (set_policy q') (run_until_complete (td_gather td ?ts) (sys_exec prog n) (sys_handler prog n) thread fuel dfuel
      (fold (td_cancel td) ?ts s))"
    using run_until_complete_same_script by blast
  then have "\<exists>q'. drain_tasks (td_done td) (td_cancel td) (td_gather td) (sys_exec prog n) (sys_handler prog n) thread fuel dfuel (set_policy q s) =
    map_run (set_policy q') (drain_tasks (td_done td) (td_cancel td) (td_gather td) (sys_exec prog n) (sys_handler prog n) thread fuel dfuel s)"
    by (intro exI [of _ "if ?ts = [] then q else q'"])
      (auto simp: drain_tasks_def ts cancel Let_def split: run.split outcome.split)
  then show ?thesis by (auto simp: finish_def close_loop_set_policy split: run.split outcome.split)
qed

lemma replay_candidate_pad:
  assumes "aw_blind fut" and td: "td_blind td"
  shows "replay_candidate seeded stream describe prog n thread fuel dfuel td main fut seed (c @ replicate k 0) =
    replay_candidate seeded stream describe prog n thread fuel dfuel td main fut seed c"
proof (cases "scripted_init (map int c)")
  case (Inl e)
  then have "scripted_init (map int (c @ replicate k 0)) = Inl e"
    by (force simp: scripted_init_def split: if_splits)
  with Inl show ?thesis by (simp add: replay_candidate_def booted_replay_eq)
next
  case (Inr a)
  let ?b = "booted seeded stream seed thread main"
  let ?p = "\<lambda>c. ScriptedP \<lparr>sc_choices = c, sc_step = 0, sc_diverged_at = None\<rparr>"
  have a: "a = \<lparr>sc_choices = c, sc_step = 0, sc_diverged_at = None\<rparr>"
    and pad: "scripted_init (map int (c @ replicate k 0)) =
      Inr \<lparr>sc_choices = c @ replicate k 0, sc_step = 0, sc_diverged_at = None\<rparr>"
    using Inr by (auto simp: scripted_init_def comp_def split: if_splits)
  let ?r = "run_until_complete fut (sys_exec prog n) (sys_handler prog n) thread fuel dfuel (set_policy (?p c) ?b)"
  have "same_script (l_policy (set_policy (?p c) ?b)) (?p (c @ replicate k 0))"
    by (simp add: same_script_pad)
  from run_until_complete_same_script [OF this assms(1), of prog n thread fuel dfuel]
  obtain q' where q': "run_until_complete fut (sys_exec prog n) (sys_handler prog n) thread fuel dfuel
      (set_policy (?p (c @ replicate k 0)) ?b) = map_run (set_policy q') ?r" "same_script (l_policy (run_state ?r)) q'" by auto
  obtain q2 where q2: "finish (td_done td) (td_cancel td) (td_gather td) (sys_exec prog n) (sys_handler prog n) thread fuel dfuel
      (set_policy q' (run_state ?r)) =
    map_run (set_policy q2) (finish (td_done td) (td_cancel td) (td_gather td) (sys_exec prog n) (sys_handler prog n) thread fuel dfuel
      (run_state ?r))"
    using finish_same_script [OF q'(2) td] by blast
  show ?thesis
    unfolding replay_candidate_def booted_replay_eq pad Inr a run_once_def sum.case q'(1)
    using q2 by (cases ?r) (auto split: outcome.split run.split)
qed

text \<open>What \<open>_from_choices\<close> accepts of a recording it accepts of every candidate made of it.\<close>

lemma candidate_not_rejected:
  assumes "derived choices c" and "\<forall>k\<in>set choices. k \<le> MAX_CHOICE"
  shows "\<exists>s. booted_replay seeded stream (map int c) seed thread main = Inr s"
proof -
  have "k \<le> MAX_CHOICE" if k: "k \<in> set c" for k
  proof -
    obtain i where i: "i < length c" "k = c ! i" using k by (auto simp: in_set_conv_nth)
    then have "k = 0 \<or> k = choices ! i" "i < length choices" using assms(1) by (auto simp: derived_nth)
    then show ?thesis using assms(2) by auto
  qed
  then have "\<not> (\<exists>k\<in>set (map int c). k < 0 \<or> int MAX_CHOICE < k)" by (auto simp: not_less)
  then show ?thesis by (simp add: booted_replay_eq scripted_init_def)
qed

text \<open>
  C10. Shrinking a recording of the simulated system is sound. Take any program on any network, with an
  awaited future and tasks that do not look at the loop's policy, and a recording for which \<open>_replay\<close>
  returns on every candidate: \<open>verdict\<close> is what it returns. Then what \<open>shrink_schedule\<close> returns,
  replayed by \<open>_from_choices\<close> on the same seed, fails with the same type and a message with the same first
  80 characters as the original (dropping the trailing FIFO choices included), and keeps only choices of
  the recording; and it returns nothing only when the recording itself does not reproduce the failure.
  \<open>_from_choices\<close> rejects no candidate of a recording it accepts (\<open>candidate_not_rejected\<close>); a
  candidate that never ends, or that lets an exception through which is not a test failure, takes the
  shrinker with it.
\<close>
theorem shrunk_schedule_fails_on_the_loop:
  assumes "aw_blind fut" and "td_blind td"
    and "\<And>c. derived choices c \<Longrightarrow> replay_candidate seeded stream describe prog n thread fuel dfuel td main fut seed c = Replayed (verdict c)"
  shows "case shrink_schedule verdict labels choices failure budget of
      Inl e \<Rightarrow> e = ValueError \<and> budget < 1
    | Inr None \<Rightarrow> \<not> same_failure failure (verdict choices)
    | Inr (Some r) \<Rightarrow> derived choices (sh_choices r) \<and>
        (\<exists>x. replay_candidate seeded stream describe prog n thread fuel dfuel td main fut seed (sh_choices r) = Replayed (Some x) \<and>
          fst x = fst failure \<and> take 80 (snd x) = take 80 (snd failure)) \<and>
        rank (sh_choices r) \<le> rank choices \<and> int (oracle_runs r) \<le> budget"
proof -
  let ?replay = "replay_candidate seeded stream describe prog n thread fuel dfuel td main fut seed"
  let ?verdict = "\<lambda>c. case ?replay c of Replayed x \<Rightarrow> x | _ \<Rightarrow> None"
  have v: "verdict c = ?verdict c" if "derived choices c" for c using assms(3) [OF that] by simp
  have shrink: "shrink_schedule verdict labels choices failure budget = shrink_schedule ?verdict labels choices failure budget"
    by (rule shrink_asks_derived) (rule v)
  have pad: "?verdict (c @ replicate k 0) = ?verdict c" for c k by (simp only: replay_candidate_pad [OF assms(1,2)])
  have whole: "verdict choices = ?verdict choices" using v derived_take [of choices "length choices"] by simp
  have fails: "\<exists>x. ?replay c = Replayed (Some x) \<and> fst x = fst failure \<and> take 80 (snd x) = take 80 (snd failure)"
    if "same_failure failure (?verdict c)" for c
    using that by (auto simp: same_failure_def MESSAGE_PREFIX_def split: replayed.splits option.splits)
  show ?thesis unfolding shrink whole
    using shrink_schedule_spec [of ?verdict, OF pad, where labels_at = labels and choices = choices and failure = failure and budget = budget] fails
    by (auto split: sum.splits option.splits)
qed

text \<open>A program that schedules two callbacks, and fails when the second overtakes the first.\<close>

definition demo_race :: program where
  "demo_race u k s = (if u = UserCode 0 \<and> k < 2 then Some (LoopA (ACallSoon (demo_user (Suc k)) None)) else None)"

definition demo_future :: "net awaited" where
  "demo_future = \<lparr>aw_done = (\<lambda>s. l_ready s = []), aw_cancel = (\<lambda>s. s),
     aw_outcome = (\<lambda>s. if 1 \<in> set (l_choice_log s) then Some AssertionError else None), aw_collect = (\<lambda>s. s)\<rparr>"

definition demo_teardown :: teardown where
  "demo_teardown = \<lparr>td_done = (\<lambda>_ _. True), td_cancel = (\<lambda>_ s. s), td_gather = (\<lambda>_. demo_future)\<rparr>"

definition demo_candidate :: "schedule \<Rightarrow> replayed" where
  "demo_candidate = replay_candidate (\<lambda>_. demo_rng) (\<lambda>_. demo_rng) (\<lambda>_. (''AssertionError'', ''overtaken'')) demo_race 3 1 3 3
     demo_teardown (demo_user 0) demo_future 7"

definition demo_verdict :: "schedule \<Rightarrow> failure option" where
  "demo_verdict c = (if 1 < length c \<and> c ! 1 = 1 then Some (''AssertionError'', ''overtaken'') else None)"

lemma one_recordable: "0 < MAX_CHOICE" "\<not> MAX_CHOICE < Suc 0" "\<not> int MAX_CHOICE < 1"
  by (simp_all add: MAX_CHOICE_def CHOICE_ITEMSIZE_def)

lemmas demo_run_defs = demo_candidate_def demo_verdict_def replay_candidate_def booted_replay_eq scripted_init_def one_recordable
  booted_def create_task_def check_closed_def call_soon_def register_task_def net_init_def net_host_def loop_init_def
  loop.extend_def net.fields_def record_at_now_def record_event_def FORBIDDEN_NAME_CHARS_def ADDRESS_LIMIT_def DRIVER_def
  run_once_def run_until_complete_def run_forever_def run_while.simps has_work_def loop_step_def run_chosen_def run_handle_def
  sys_exec_def upcalls_def is_cancelled_def record_entry_def ready_view_of_def new_entry_def label_of_def remove_nth_def
  known_context_def with_obj_def is_exception_def await_verdict_def finish_def drain_tasks_def pending_of_def close_loop_def
  set_policy_def scripted_choose_def demo_race_def demo_user_def demo_future_def demo_teardown_def

lemma demo_candidates:
  "c \<in> set [[], [0], [0, 0], [0, 1], [0, 0, 0], [0, 1, 0]] \<Longrightarrow> demo_candidate c = Replayed (demo_verdict c)"
  by (simp only: set_simps, elim insertE emptyE) (simp_all add: demo_run_defs Let_def numeral_3_eq_3)

lemma demo_derived: "derived [0, 1, 0] c \<Longrightarrow> c \<in> set [[], [0], [0, 0], [0, 1], [0, 0, 0], [0, 1, 0]]"
  by (cases c; cases "tl c"; cases "tl (tl c)"; cases "tl (tl (tl c))") (auto simp: derived_def)

theorem shrunk_schedule_fails_on_the_loop_witness:
  "shrink_schedule demo_verdict (\<lambda>_ _. []) [0, 1, 0] (''AssertionError'', ''overtaken'') 9 =
     Inr (Some \<lparr>original_len = 3, sh_choices = [0, 1], sh_fifo_prefix = 1, sh_kept = [1], sh_labels = [], oracle_runs = 5\<rparr>) \<and>
   (\<exists>x. demo_candidate [0, 1] = Replayed (Some x) \<and> fst x = ''AssertionError'')"
proof -
  have fut: "aw_blind demo_future" by (simp add: aw_blind_def demo_future_def)
  then have td: "td_blind demo_teardown" by (simp add: td_blind_def demo_teardown_def)
  have replays: "demo_candidate c = Replayed (demo_verdict c)" if "derived [0, 1, 0] c" for c
    using demo_derived [OF that] by (rule demo_candidates)
  have r: "shrink_schedule demo_verdict (\<lambda>_ _. []) [0, 1, 0] (''AssertionError'', ''overtaken'') 9 =
     Inr (Some \<lparr>original_len = 3, sh_choices = [0, 1], sh_fifo_prefix = 1, sh_kept = [1], sh_labels = [], oracle_runs = 5\<rparr>)"
    by code_simp
  show ?thesis
    using shrunk_schedule_fails_on_the_loop [where choices = "[0, 1, 0]" and labels = "\<lambda>_ _. []" and
        failure = "(''AssertionError'', ''overtaken'')" and budget = 9, OF fut td replays [unfolded demo_candidate_def]] r
    by (simp add: demo_candidate_def) blast
qed

section \<open>The marks name the steps\<close>

context loop_client begin

lemma run_chosen_settles:
  assumes "\<nexists>t. run_chosen exec handler s = Exc AssertionError t"
  shows "\<exists>e es. ev_kind e \<in> {Run, Cancel} \<and>
      l_recorder (result_state (run_chosen exec handler s)) = l_recorder s @ e # es"
    and "length (l_choice_log (result_state (run_chosen exec handler s))) = Suc (length (l_choice_log s))"
proof -
  obtain i p where c: "policy_choose (l_policy s) (map (ready_view_of s) (l_ready s)) = (i, p)" by fastforce
  have le: "\<not> MAX_CHOICE < i" using assms c by (auto simp: run_chosen_def)
  let ?s1 = "s\<lparr>l_policy := p, l_choice_log := l_choice_log s @ [i], l_ready := remove_nth i (l_ready s)\<rparr>"
  let ?e = "l_ready s ! i"
  note keep = run_handle_keeps [of ?e "record_entry Run ?e ?s1"]
  show "\<exists>e es. ev_kind e \<in> {Run, Cancel} \<and>
      l_recorder (result_state (run_chosen exec handler s)) = l_recorder s @ e # es"
    using keep le by (auto simp: run_chosen_def c Let_def record_entry_def record_at_now_def record_event_def)
  show "length (l_choice_log (result_state (run_chosen exec handler s))) = Suc (length (l_choice_log s))"
    using keep le by (auto simp: run_chosen_def c Let_def record_entry_def record_at_now_def)
qed

lemma marks_while_spec:
  assumes "\<nexists>t. run_while guard exec handler fuel s = Finished (Exc AssertionError t)"
  shows "(let ms = marks_while guard exec handler fuel s; t = run_state (run_while guard exec handler fuel s) in
     sorted_wrt (<) ms \<and> length (l_choice_log t) = length (l_choice_log s) + length ms \<and>
     (\<forall>m\<in>set ms. length (l_recorder s) \<le> m \<and> m < length (l_recorder t) \<and> ev_kind (l_recorder t ! m) \<in> {Run, Cancel}))"
  using assms
proof (induction fuel arbitrary: s)
  case 0
  then show ?case by (simp add: run_while.simps marks_while.simps)
next
  case (Suc k)
  note unfold = run_while.simps [of guard exec handler "Suc k"] marks_while.simps [of guard exec handler "Suc k"]
  show ?case
  proof (cases "guard s")
    case False
    then show ?thesis by (simp add: unfold)
  next
    case True
    show ?thesis
    proof (cases "prepared s")
      case (Exc x t)
      with True prepared_Exc [OF Exc] show ?thesis by (simp add: unfold loop_step_prepared prepared_def [symmetric])
    next
      case (Ret s1)
      have s1: "\<exists>es. l_recorder s1 = l_recorder s @ es" "l_choice_log s1 = l_choice_log s"
        using Ret advance_clock_keeps [of s] by (auto simp: prepared_def split: if_splits)
      have step: "loop_step exec handler s = run_chosen exec handler s1" using Ret by (simp add: loop_step_prepared)
      have na: "\<nexists>t. run_chosen exec handler s1 = Exc AssertionError t"
        using Suc.prems True by (auto simp: unfold step)
      obtain e es where e: "ev_kind e \<in> {Run, Cancel}"
        "l_recorder (result_state (run_chosen exec handler s1)) = l_recorder s1 @ e # es"
        using run_chosen_settles(1) [OF na] by blast
      note ch = run_chosen_settles(2) [OF na]
      show ?thesis
      proof (cases "run_chosen exec handler s1")
        case (Exc x t)
        with True Ret s1 e ch show ?thesis
          by (auto simp: unfold step prepared_def [symmetric] nth_append)
      next
        case (Ret s2)
        have "\<nexists>t. run_while guard exec handler k s2 = Finished (Exc AssertionError t)"
          using Suc.prems True Ret by (auto simp: unfold step)
        note ih = Suc.IH [OF this, unfolded Let_def]
        obtain es' where "l_recorder (run_state (run_while guard exec handler k s2)) = l_recorder s2 @ es'"
          using run_while_grows [of s2 guard k] by blast
        let ?t = "run_state (run_while guard exec handler k s2)"
        have at: "length (l_recorder s1) < length (l_recorder s2)" "length (l_recorder s2) \<le> length (l_recorder ?t)"
          "l_recorder ?t ! length (l_recorder s1) = e" "length (l_recorder s) \<le> length (l_recorder s1)"
          using e(2) Ret \<open>l_recorder ?t = l_recorder s2 @ es'\<close> s1(1) by (auto simp: nth_append)
        have ms: "marks_while guard exec handler (Suc k) s =
            length (l_recorder s1) # marks_while guard exec handler k s2"
          using True Ret \<open>prepared s = Ret s1\<close> by (simp add: unfold prepared_def [symmetric])
        have run: "run_while guard exec handler (Suc k) s = run_while guard exec handler k s2"
          using True Ret by (simp add: unfold step)
        have "length (l_choice_log s2) = Suc (length (l_choice_log s))" using ch Ret s1(2) by simp
        then show ?thesis
          unfolding ms run Let_def using ih at e(1) by fastforce
      qed
    qed
  qed
qed

end

text \<open>
  A kept step is named by what ran at it: the marks noted during a run count one event per choice,
  in increasing order, and the event at the mark of a step is the \<open>run\<close> or \<open>cancel\<close> event of the
  callback that choice picked (clock advances and their cancellations never fall on a mark).
\<close>
lemma marks_point_at_steps:
  assumes "\<nexists>t. run_while guard (sys_exec prog n) (sys_handler prog n) fuel s = Finished (Exc AssertionError t)"
  shows "(let ms = marks_while guard (sys_exec prog n) (sys_handler prog n) fuel s;
          t = run_state (run_while guard (sys_exec prog n) (sys_handler prog n) fuel s) in
     sorted_wrt (<) ms \<and> length (l_choice_log t) = length (l_choice_log s) + length ms \<and>
     (\<forall>m\<in>set ms. length (l_recorder s) \<le> m \<and> m < length (l_recorder t) \<and> ev_kind (l_recorder t ! m) \<in> {Run, Cancel}))"
  using assms by (rule sys.marks_while_spec)

end
