(* ===== verification/SimParallel.thy ===== *)
theory SimParallel
  imports SimShrink SimText
begin

text \<open>
  \<open>src/simloop/_parallel.py\<close>: the search of a list of seeds by worker processes. What a worker
  does with one seed is the argument \<open>run\<close>: the exception the run ended with, as type name and
  message, or nothing. The pool answers in whatever order the workers finish, so one turn of the
  main loop is a step relation (\<open>pool_turn\<close>): it fills the pool, and then any non-empty part of
  what is running may be done, in any order.
\<close>

section \<open>Batches\<close>

record batch_failure =
  f_at :: nat
  f_exc_type :: string
  f_message :: string

definition BATCH_SIZE :: nat where "BATCH_SIZE = 16"

definition batch_size :: "nat \<Rightarrow> nat \<Rightarrow> nat" where
  "batch_size tot jobs = max 1 (min BATCH_SIZE (tot div (jobs * 4)))"

text \<open>A batch is a Python \<open>range\<close>: its start and its stop. The step of the outer range is positive.\<close>

definition batches :: "nat \<Rightarrow> nat \<Rightarrow> (nat \<times> nat) list" where
  "batches tot sz =
     map (\<lambda>k. (k * sz, min (k * sz + sz) tot)) [0..<(tot + sz - 1) div sz]"

fun run_batch :: "(int \<Rightarrow> failure option) \<Rightarrow> nat \<Rightarrow> int list \<Rightarrow> batch_failure option" where
  "run_batch run start [] = None"
| "run_batch run start (seed # seeds) =
     (case run seed of
        Some (exc_type, message) \<Rightarrow> Some \<lparr>f_at = start, f_exc_type = exc_type, f_message = message\<rparr>
      | None \<Rightarrow> run_batch run (Suc start) seeds)"

definition block :: "int list \<Rightarrow> nat \<times> nat \<Rightarrow> int list" where
  "block seeds batch = map (\<lambda>position. seeds ! position) [fst batch..<snd batch]"

definition answer :: "(int \<Rightarrow> failure option) \<Rightarrow> int list \<Rightarrow> nat \<times> nat \<Rightarrow> batch_failure option" where
  \<comment> \<open>what the future submitted for a batch resolves to\<close>
  "answer run seeds batch = run_batch run (fst batch) (block seeds batch)"

section \<open>The frontier\<close>

record frontier =
  fr_batches :: "(nat \<times> nat) list"
  fr_next :: nat
  fr_failure :: "batch_failure option"

definition frontier_init :: "(nat \<times> nat) list \<Rightarrow> frontier" where
  "frontier_init bs = \<lparr>fr_batches = bs, fr_next = 0, fr_failure = None\<rparr>"

definition frontier_take :: "frontier \<Rightarrow> (nat \<times> nat) option \<times> frontier" where
  "frontier_take fr =
     (if fr_next fr = length (fr_batches fr) then (None, fr)
      else
        let batch = fr_batches fr ! fr_next fr in
        if (case fr_failure fr of Some f \<Rightarrow> f_at f < fst batch | None \<Rightarrow> False) then (None, fr)
        else (Some batch, fr\<lparr>fr_next := Suc (fr_next fr)\<rparr>))"

definition frontier_record :: "batch_failure option \<Rightarrow> frontier \<Rightarrow> frontier" where
  "frontier_record found fr =
     (case found of
        None \<Rightarrow> fr
      | Some f \<Rightarrow>
          if (case fr_failure fr of None \<Rightarrow> True | Some g \<Rightarrow> f_at f < f_at g)
          then fr\<lparr>fr_failure := Some f\<rparr> else fr)"

section \<open>The pool\<close>

record pool =
  po_frontier :: frontier
  po_running :: "(nat \<times> nat) list"

definition pool_init :: "int list \<Rightarrow> nat \<Rightarrow> pool" where
  "pool_init seeds sz =
     \<lparr>po_frontier = frontier_init (batches (length seeds) sz), po_running = []\<rparr>"

function fill :: "nat \<Rightarrow> pool \<Rightarrow> pool" where
  "fill jobs p =
     (if length (po_running p) < jobs then
        (case frontier_take (po_frontier p) of
           (None, _) \<Rightarrow> p
         | (Some batch, fr) \<Rightarrow> fill jobs \<lparr>po_frontier = fr, po_running = po_running p @ [batch]\<rparr>)
      else p)"
  by pat_completeness auto
termination by (relation "measure (\<lambda>(jobs, p). jobs - length (po_running p))") auto

declare fill.simps [simp del]

definition collect :: "(int \<Rightarrow> failure option) \<Rightarrow> int list \<Rightarrow> (nat \<times> nat) list \<Rightarrow> frontier \<Rightarrow> frontier" where
  "collect run seeds finished fr = fold (\<lambda>batch fr. frontier_record (answer run seeds batch) fr) finished fr"

inductive pool_turn :: "nat \<Rightarrow> (int \<Rightarrow> failure option) \<Rightarrow> int list \<Rightarrow> pool \<Rightarrow> pool \<Rightarrow> bool"
  for jobs run seeds where
  "\<lbrakk>mset (po_running (fill jobs p)) = mset finished + mset rest; finished \<noteq> []\<rbrakk> \<Longrightarrow>
   pool_turn jobs run seeds p
     \<lparr>po_frontier = collect run seeds finished (po_frontier (fill jobs p)), po_running = rest\<rparr>"

inductive_cases pool_turn_elim: "pool_turn jobs run seeds p p'"

definition pool_returns :: "nat \<Rightarrow> pool \<Rightarrow> batch_failure option \<Rightarrow> bool" where
  \<comment> \<open>the loop leaves through \<open>if not running: return frontier.failure\<close>\<close>
  "pool_returns jobs p result \<longleftrightarrow>
     po_running (fill jobs p) = [] \<and> result = fr_failure (po_frontier (fill jobs p))"

definition pool_size :: "int list \<Rightarrow> nat \<Rightarrow> nat option \<Rightarrow> nat" where
  "pool_size seeds jobs sz = (case sz of Some n \<Rightarrow> n | None \<Rightarrow> batch_size (length seeds) jobs)"

definition found_lowest_failure ::
    "nat \<Rightarrow> (int \<Rightarrow> failure option) \<Rightarrow> int list \<Rightarrow> nat option \<Rightarrow> batch_failure option \<Rightarrow> bool" where
  \<comment> \<open>a possible result of \<open>find_lowest_failure\<close>\<close>
  "found_lowest_failure jobs run seeds sz result \<longleftrightarrow>
     (\<exists>p. (pool_turn jobs run seeds)\<^sup>*\<^sup>* (pool_init seeds (pool_size seeds jobs sz)) p \<and>
        pool_returns jobs p result)"

section \<open>Did the worker's failure reproduce?\<close>

definition outcome_text :: "string option \<Rightarrow> string \<Rightarrow> string" where
  "outcome_text exc_type message =
     (case exc_type of
        None \<Rightarrow> ''passed''
      | Some t \<Rightarrow> if message \<noteq> [] then ''raised '' @ t @ '': '' @ message else ''raised '' @ t)"

definition check_reproduced :: "int \<Rightarrow> batch_failure option \<Rightarrow> failure option \<Rightarrow> string option" where
  \<comment> \<open>\<open>None\<close> when the types agree, else the text of the \<open>ParallelDeterminismError\<close>\<close>
  "check_reproduced seed worker parent =
     (let worker_type = map_option f_exc_type worker; parent_type = map_option fst parent in
      if worker_type = parent_type then None
      else
        let there = outcome_text worker_type (case worker of Some w \<Rightarrow> f_message w | None \<Rightarrow> []);
            here = outcome_text parent_type (case parent of Some p \<Rightarrow> snd p | None \<Rightarrow> [])
        in Some (''seed '' @ str_int seed @ '' '' @ there @ '' in a worker process but '' @ here @
          '' when re-run in this one: replay did not hold across processes for this workload. '' @
          ''Re-run the same seeds with jobs=1; until this is explained, no '' @
          ''parallel result from this workload means anything.''))"

section \<open>One answer, whatever finishes first\<close>

definition failure_at :: "(int \<Rightarrow> failure option) \<Rightarrow> int list \<Rightarrow> nat \<Rightarrow> batch_failure" where
  "failure_at run seeds p =
     \<lparr>f_at = p, f_exc_type = fst (the (run (seeds ! p))), f_message = snd (the (run (seeds ! p)))\<rparr>"

lemma failure_at_at [simp]: "f_at (failure_at run seeds p) = p"
  by (simp add: failure_at_def)

lemma run_batch_Some:
  "run_batch run k xs = Some f \<longleftrightarrow>
     (\<exists>i<length xs. f_at f = k + i \<and> run (xs ! i) = Some (f_exc_type f, f_message f) \<and> (\<forall>j<i. run (xs ! j) = None))"
proof (induction xs arbitrary: k)
  case (Cons x xs)
  show ?case
  proof (cases "run x")
    case None
    then show ?thesis by (auto simp: Cons.IH Ex_less_Suc2 All_less_Suc2)
  next
    case (Some e)
    then show ?thesis by (cases e; cases f) (auto simp: Ex_less_Suc2 All_less_Suc2)
  qed
qed simp

lemma run_batch_None: "run_batch run k xs = None \<longleftrightarrow> (\<forall>x\<in>set xs. run x = None)"
  by (induction xs arbitrary: k) (auto split: option.split)

text \<open>The answer of one batch, in positions of the seed list.\<close>

lemma answer_Some:
  assumes "answer run seeds b = Some f"
  shows "fst b \<le> f_at f" "f_at f < snd b" "run (seeds ! f_at f) \<noteq> None" "f = failure_at run seeds (f_at f)"
    "\<And>p. fst b \<le> p \<Longrightarrow> p < f_at f \<Longrightarrow> run (seeds ! p) = None"
proof -
  obtain i where i: "i < snd b - fst b" "f_at f = fst b + i"
    "run (seeds ! (fst b + i)) = Some (f_exc_type f, f_message f)"
    "\<forall>j<i. run (seeds ! (fst b + j)) = None"
    using assms by (auto simp: answer_def block_def run_batch_Some)
  then show "fst b \<le> f_at f" "f_at f < snd b" "run (seeds ! f_at f) \<noteq> None" "f = failure_at run seeds (f_at f)"
    by (auto simp: failure_at_def)
  show "run (seeds ! p) = None" if "fst b \<le> p" "p < f_at f" for p
    using i(2,4) that by (metis le_add_diff_inverse less_diff_conv2 add_diff_cancel_left' diff_less_mono)
qed

lemma answer_None: "answer run seeds b = None \<longleftrightarrow> (\<forall>p. fst b \<le> p \<and> p < snd b \<longrightarrow> run (seeds ! p) = None)"
  by (auto simp: answer_def block_def run_batch_None)

lemma whole_list: "run_batch run 0 seeds = answer run seeds (0, length seeds)"
  by (simp add: answer_def block_def map_nth)

lemma batches_nth:
  "i < length (batches tot sz) \<Longrightarrow> batches tot sz ! i = (i * sz, min (i * sz + sz) tot)"
  by (simp add: batches_def)

lemma batches_cover:
  assumes "p < tot" and "0 < sz"
  shows "p div sz < length (batches tot sz)" "p div sz * sz \<le> p" "p < p div sz * sz + sz"
proof -
  have "p div sz + 1 = (p + sz) div sz" using assms(2) by simp
  also have "\<dots> \<le> (tot + sz - 1) div sz" using assms by (intro div_le_mono) linarith
  finally have "p div sz < (tot + sz - 1) div sz" by simp
  then show "p div sz < length (batches tot sz)" by (simp add: batches_def)
  show "p div sz * sz \<le> p" by simp
  show "p < p div sz * sz + sz"
    using div_mult_mod_eq [of p sz] mod_less_divisor [OF assms(2), of p] by linarith
qed

lemma batches_partition: "concat (map (\<lambda>b. [fst b..<snd b]) (batches tot (Suc n))) = [0..<tot]"
proof -
  let ?s = "Suc n"
  have "concat (map (\<lambda>k. [k * ?s..<min (k * ?s + ?s) tot]) [0..<m]) = [0..<min (m * ?s) tot]" for m
  proof (induction m)
    case (Suc m)
    show ?case
    proof (cases "m * ?s \<le> tot")
      case True
      then have "[0..<m * ?s] @ [m * ?s..<min (m * ?s + ?s) tot] = [0..<min (m * ?s + ?s) tot]"
        using upt_add_eq_append [of 0 "m * ?s" "min (m * ?s + ?s) tot - m * ?s"] by simp
      with Suc True show ?thesis by (simp add: add.commute add.left_commute)
    next
      case False
      with Suc show ?thesis by simp
    qed
  qed simp
  moreover have "tot \<le> (tot + n) div ?s * ?s"
    using div_mult_mod_eq [of "tot + n" ?s] mod_less_divisor [of ?s "tot + n"] by linarith
  ultimately show ?thesis by (simp add: batches_def comp_def min_absorb2 del: mult_Suc_right)
qed

definition beaten :: "batch_failure option \<Rightarrow> batch_failure option \<Rightarrow> bool" where
  \<comment> \<open>the recorded failure is at most as late as what a batch answered\<close>
  "beaten best found \<longleftrightarrow>
     (case found of None \<Rightarrow> True
      | Some f \<Rightarrow> (case best of None \<Rightarrow> False | Some g \<Rightarrow> f_at g \<le> f_at f))"

definition pool_inv :: "(int \<Rightarrow> failure option) \<Rightarrow> int list \<Rightarrow> nat \<Rightarrow> pool \<Rightarrow> bool" where
  "pool_inv run seeds sz p \<longleftrightarrow>
     (let fr = po_frontier p; B = batches (length seeds) sz in
      fr_batches fr = B \<and> fr_next fr \<le> length B \<and>
      (\<forall>i<fr_next fr. B ! i \<in> set (po_running p) \<or> beaten (fr_failure fr) (answer run seeds (B ! i))) \<and>
      (\<forall>g. fr_failure fr = Some g \<longrightarrow> (\<exists>i<length B. answer run seeds (B ! i) = Some g)) \<and>
      set (po_running p) \<subseteq> set B)"

lemma pool_inv_init: "pool_inv run seeds sz (pool_init seeds sz)"
  by (simp add: pool_inv_def pool_init_def frontier_init_def Let_def)

lemma pool_inv_fill: "pool_inv run seeds sz p \<Longrightarrow> pool_inv run seeds sz (fill jobs p)"
proof (induction jobs p rule: fill.induct)
  case (1 jobs p)
  show ?case
  proof (cases "length (po_running p) < jobs \<and> fst (frontier_take (po_frontier p)) \<noteq> None")
    case True
    then obtain b fr where t: "frontier_take (po_frontier p) = (Some b, fr)" by (metis not_None_eq prod.collapse)
    have "pool_inv run seeds sz \<lparr>po_frontier = fr, po_running = po_running p @ [b]\<rparr>"
      using "1.prems" t
      by (auto simp: pool_inv_def frontier_take_def Let_def less_Suc_eq split: if_splits)
    with "1.IH" [OF _ t [symmetric]] True t show ?thesis by (simp add: fill.simps [of jobs p])
  next
    case False
    with "1.prems" show ?thesis by (auto simp: fill.simps [of jobs p] split: prod.splits option.splits)
  qed
qed

lemma fill_stops:
  "jobs \<le> length (po_running (fill jobs p)) \<or> fst (frontier_take (po_frontier (fill jobs p))) = None"
proof (induction jobs p rule: fill.induct)
  case (1 jobs p)
  then show ?case
    by (cases "frontier_take (po_frontier p)"; cases "fst (frontier_take (po_frontier p))")
      (auto simp: fill.simps [of jobs p])
qed

lemma beaten_record:
  "beaten (fr_failure fr) found \<Longrightarrow> beaten (fr_failure (frontier_record new fr)) found"
  "beaten (fr_failure (frontier_record new fr)) new"
  by (auto simp: beaten_def frontier_record_def split: option.splits)

lemma frontier_record_keeps [simp]:
  "fr_batches (frontier_record new fr) = fr_batches fr" "fr_next (frontier_record new fr) = fr_next fr"
  by (auto simp: frontier_record_def split: option.splits)

lemma collect_keeps:
  "fr_batches (collect run seeds finished fr) = fr_batches fr \<and>
   fr_next (collect run seeds finished fr) = fr_next fr \<and>
   (beaten (fr_failure fr) found \<longrightarrow> beaten (fr_failure (collect run seeds finished fr)) found)"
  by (induction finished arbitrary: fr) (auto simp: collect_def beaten_record(1))

lemma collect_beats:
  "b \<in> set finished \<Longrightarrow> beaten (fr_failure (collect run seeds finished fr)) (answer run seeds b)"
proof (induction finished arbitrary: fr)
  case (Cons c cs)
  show ?case
  proof (cases "b = c")
    case True
    then show ?thesis
      using collect_keeps [of run seeds cs "frontier_record (answer run seeds c) fr" "answer run seeds c"]
        beaten_record(2) by (simp add: collect_def)
  next
    case False
    with Cons show ?thesis by (simp add: collect_def)
  qed
qed simp

lemma record_source:
  "fr_failure (frontier_record new fr) = Some g \<Longrightarrow> fr_failure fr = Some g \<or> new = Some g"
  by (auto simp: frontier_record_def split: option.splits if_splits)

lemma collect_source:
  "fr_failure (collect run seeds finished fr) = Some g \<Longrightarrow>
     fr_failure fr = Some g \<or> (\<exists>b\<in>set finished. answer run seeds b = Some g)"
proof (induction finished arbitrary: fr)
  case (Cons c cs)
  then have "fr_failure (collect run seeds cs (frontier_record (answer run seeds c) fr)) = Some g"
    by (simp add: collect_def)
  from Cons.IH [OF this] record_source [of "answer run seeds c" fr g] show ?case by auto
qed (simp add: collect_def)

lemma pool_inv_turn:
  assumes "pool_turn jobs run seeds p p'" and "pool_inv run seeds sz p"
  shows "pool_inv run seeds sz p'"
  using assms(1)
proof (cases rule: pool_turn.cases)
  case (1 finished rest)
  let ?q = "fill jobs p" and ?B = "batches (length seeds) sz"
  let ?fr = "collect run seeds finished (po_frontier ?q)"
  have q: "pool_inv run seeds sz ?q" by (rule pool_inv_fill [OF assms(2)])
  have run: "set (po_running ?q) = set finished \<union> set rest"
    using arg_cong [OF 1(2), of set_mset] by simp
  note keep = collect_keeps [of run seeds finished "po_frontier ?q"]
  have "?B ! i \<in> set rest \<or> beaten (fr_failure ?fr) (answer run seeds (?B ! i))" if "i < fr_next ?fr" for i
  proof -
    have "?B ! i \<in> set finished \<or> ?B ! i \<in> set rest \<or> beaten (fr_failure (po_frontier ?q)) (answer run seeds (?B ! i))"
      using q that run keep by (auto simp: pool_inv_def Let_def)
    then show ?thesis using keep collect_beats by blast
  qed
  moreover have "\<exists>i<length ?B. answer run seeds (?B ! i) = Some g" if "fr_failure ?fr = Some g" for g
  proof (cases "fr_failure (po_frontier ?q) = Some g")
    case True
    with q show ?thesis by (simp add: pool_inv_def Let_def)
  next
    case False
    then obtain b where b: "b \<in> set finished" "answer run seeds b = Some g"
      using collect_source [of run seeds finished _ g] \<open>fr_failure ?fr = Some g\<close> by blast
    then have "b \<in> set ?B" using q run by (auto simp: pool_inv_def Let_def)
    with b(2) show ?thesis by (auto simp: in_set_conv_nth)
  qed
  ultimately show ?thesis
    using q run keep 1(1) by (auto simp: pool_inv_def Let_def)
qed

lemma pool_inv_reachable:
  "(pool_turn jobs run seeds)\<^sup>*\<^sup>* p p' \<Longrightarrow> pool_inv run seeds sz p \<Longrightarrow> pool_inv run seeds sz p'"
  by (induction rule: rtranclp_induct) (auto intro: pool_inv_turn)

text \<open>When the loop returns, nothing that could still beat the recorded failure is left.\<close>

lemma nothing_earlier_left:
  assumes "pool_inv run seeds sz p" and "0 < sz" and "po_running p = []"
    and "fst (frontier_take (po_frontier p)) = None" and "q < length seeds" and "run (seeds ! q) \<noteq> None"
  shows "\<exists>g. fr_failure (po_frontier p) = Some g \<and> f_at g \<le> q"
proof -
  let ?fr = "po_frontier p" and ?B = "batches (length seeds) sz"
  let ?i = "q div sz"
  note cover = batches_cover [OF assms(5,2)]
  have b: "fst (?B ! ?i) \<le> q" "q < snd (?B ! ?i)"
    using cover assms(5) by (auto simp: batches_nth)
  show ?thesis
  proof (cases "?i < fr_next ?fr")
    case True
    then have beat: "beaten (fr_failure ?fr) (answer run seeds (?B ! ?i))"
      using assms(1,3) by (auto simp: pool_inv_def Let_def)
    obtain f where f: "answer run seeds (?B ! ?i) = Some f"
      using answer_None [of run seeds "?B ! ?i"] b assms(6) by fastforce
    have "f_at f \<le> q" using answer_Some(5) [OF f b(1)] assms(6) by force
    with beat f show ?thesis by (auto simp: beaten_def split: option.splits)
  next
    case False
    then have nx: "fr_next ?fr < length ?B" using cover(1) by simp
    then obtain g where g: "fr_failure ?fr = Some g" "f_at g < fst (?B ! fr_next ?fr)"
      using assms(1,4) by (auto simp: frontier_take_def pool_inv_def Let_def split: option.splits if_splits)
    have "fr_next ?fr * sz \<le> ?i * sz" using False by (intro mult_le_mono1) simp
    moreover have "f_at g < fr_next ?fr * sz" using g(2) nx by (simp add: batches_nth)
    ultimately have "f_at g \<le> q" using cover(2) by linarith
    with g show ?thesis by blast
  qed
qed

lemma pool_result:
  assumes "pool_inv run seeds sz p" and "0 < sz" and "po_running p = []"
    and "fst (frontier_take (po_frontier p)) = None"
  shows "fr_failure (po_frontier p) = run_batch run 0 seeds"
proof (cases "fr_failure (po_frontier p)")
  case None
  then have "run (seeds ! q) = None" if "q < length seeds" for q
    using nothing_earlier_left [OF assms that] by (cases "run (seeds ! q)") auto
  then have "answer run seeds (0, length seeds) = None" by (simp add: answer_None)
  with None show ?thesis by (simp add: whole_list)
next
  case (Some g)
  obtain i where i: "i < length (batches (length seeds) sz)" "answer run seeds (batches (length seeds) sz ! i) = Some g"
    using assms(1) Some by (auto simp: pool_inv_def Let_def)
  note g = answer_Some [OF i(2)]
  have at: "f_at g < length seeds" using g(2) i(1) by (simp add: batches_nth)
  then obtain f where f: "answer run seeds (0, length seeds) = Some f"
    using answer_None [of run seeds "(0, length seeds)"] g(3) by fastforce
  note fs = answer_Some [OF f]
  have "f_at f \<le> f_at g" using fs(5) [of "f_at g"] g(3) by force
  moreover have "f_at g \<le> f_at f"
    using nothing_earlier_left [OF assms, of "f_at f"] fs(2,3) Some by auto
  ultimately show ?thesis using g(4) fs(4) f Some by (metis le_antisym whole_list)
qed

section \<open>The loop ends\<close>

definition pool_left :: "pool \<Rightarrow> nat" where
  "pool_left p = length (fr_batches (po_frontier p)) - fr_next (po_frontier p) + length (po_running p)"

lemma fill_left: "pool_inv run seeds sz p \<Longrightarrow> pool_left (fill jobs p) = pool_left p"
proof (induction jobs p rule: fill.induct)
  case (1 jobs p)
  show ?case
  proof (cases "length (po_running p) < jobs \<and> fst (frontier_take (po_frontier p)) \<noteq> None")
    case True
    then obtain b fr where t: "frontier_take (po_frontier p) = (Some b, fr)" by (metis not_None_eq prod.collapse)
    let ?q = "\<lparr>po_frontier = fr, po_running = po_running p @ [b]\<rparr>"
    have "pool_inv run seeds sz ?q" "pool_left ?q = pool_left p"
      using "1.prems" t
      by (auto simp: pool_inv_def pool_left_def frontier_take_def Let_def less_Suc_eq split: if_splits)
    with "1.IH" [OF _ t [symmetric]] True t show ?thesis by (simp add: fill.simps [of jobs p])
  next
    case False
    then show ?thesis by (auto simp: fill.simps [of jobs p] split: prod.splits option.splits)
  qed
qed

lemma pool_turn_left:
  assumes "pool_turn jobs run seeds p p'" and "pool_inv run seeds sz p"
  shows "pool_left p' < pool_left p"
  using assms(1)
proof (cases rule: pool_turn.cases)
  case (1 finished rest)
  have "length (po_running (fill jobs p)) = length finished + length rest"
    using arg_cong [OF 1(2), of size] by simp
  moreover have "0 < length finished" using 1(3) by simp
  moreover have "pool_left p' + length (po_running (fill jobs p)) = pool_left (fill jobs p) + length rest"
    using collect_keeps [of run seeds finished "po_frontier (fill jobs p)"] 1(1) by (simp add: pool_left_def)
  ultimately show ?thesis using fill_left [OF assms(2), of jobs] by linarith
qed

lemma pool_reaches_return:
  assumes "pool_inv run seeds sz p"
  shows "\<exists>p' r. (pool_turn jobs run seeds)\<^sup>*\<^sup>* p p' \<and> pool_returns jobs p' r"
  using assms
proof (induction "pool_left p" arbitrary: p rule: less_induct)
  case less
  show ?case
  proof (cases "po_running (fill jobs p) = []")
    case True
    then show ?thesis by (auto simp: pool_returns_def intro: exI [of _ p])
  next
    case False
    then obtain p' where t: "pool_turn jobs run seeds p p'"
      using pool_turn.intros [of jobs p "po_running (fill jobs p)" "[]"] by auto
    with less.hyps [OF pool_turn_left [OF t less.prems] pool_inv_turn [OF t less.prems]] show ?thesis
      by (meson converse_rtranclp_into_rtranclp)
  qed
qed

lemma found_lowest_failure_iff:
  assumes "0 < jobs" and "0 < pool_size seeds jobs sz"
  shows "found_lowest_failure jobs run seeds sz result \<longleftrightarrow> result = run_batch run 0 seeds"
proof -
  let ?p0 = "pool_init seeds (pool_size seeds jobs sz)" and ?n = "pool_size seeds jobs sz"
  have inv: "pool_inv run seeds ?n ?p0" by (rule pool_inv_init)
  have unique: "r = run_batch run 0 seeds"
    if "(pool_turn jobs run seeds)\<^sup>*\<^sup>* ?p0 p" "pool_returns jobs p r" for p r
    using pool_inv_fill [OF pool_inv_reachable [OF that(1) inv], of jobs] that(2) assms fill_stops [of jobs p]
    by (auto simp: pool_returns_def intro: pool_result)
  moreover obtain p r where "(pool_turn jobs run seeds)\<^sup>*\<^sup>* ?p0 p" "pool_returns jobs p r"
    using pool_reaches_return [OF inv] by blast
  ultimately show ?thesis by (auto simp: found_lowest_failure_def)
qed

lemma turns_bounded:
  "(pool_turn jobs run seeds ^^ n) p p' \<Longrightarrow> pool_inv run seeds sz p \<Longrightarrow> n + pool_left p' \<le> pool_left p"
proof (induction n arbitrary: p')
  case (Suc n)
  then obtain q where q: "(pool_turn jobs run seeds ^^ n) p q" "pool_turn jobs run seeds q p'" by auto
  have "pool_inv run seeds sz q"
    using pool_inv_reachable [OF relpowp_imp_rtranclp [OF q(1)] Suc.prems(2)] .
  with pool_turn_left [OF q(2)] Suc.IH [OF q(1) Suc.prems(2)] show ?case by force
qed simp

text \<open>
  C4. Parallelism does not change the answer: with at least one worker and batches of at least one
  seed, the search can return exactly one thing, whatever order the batches finish in: what running
  the seeds one by one in this process and stopping at the first failure reports.
\<close>
theorem parallel_search_is_sequential:
  assumes "0 < jobs" and "0 < pool_size seeds jobs sz"
  shows "found_lowest_failure jobs run seeds sz result \<longleftrightarrow> result = run_batch run 0 seeds"
  using assms by (rule found_lowest_failure_iff)

theorem parallel_search_is_sequential_witness:
  "\<forall>result. found_lowest_failure 2 (\<lambda>s. if s > 6 then Some (''E'', ''m'') else None) [5, 9, 6, 7] (Some 1) result \<longleftrightarrow>
     result = Some \<lparr>f_at = 1, f_exc_type = ''E'', f_message = ''m''\<rparr>"
  using parallel_search_is_sequential [of 2 "[5, 9, 6, 7]" "Some 1"] by (simp add: pool_size_def)

text \<open>
  C29. The search ends: the sizes the code picks itself are never zero, the batches handed out cover
  every position of the seed list exactly once and in order, and the main loop makes at most as
  many turns as there are batches before it returns.
\<close>
theorem parallel_search_ends:
  "0 < pool_size seeds jobs None \<and>
   concat (map (\<lambda>b. [fst b..<snd b]) (batches tot (Suc n))) = [0..<tot] \<and>
   {k. \<exists>p. (pool_turn jobs run seeds ^^ k) (pool_init seeds sz) p} \<subseteq> {..length (batches (length seeds) sz)}"
proof (intro conjI)
  show "0 < pool_size seeds jobs None" by (simp add: pool_size_def batch_size_def)
  show "concat (map (\<lambda>b. [fst b..<snd b]) (batches tot (Suc n))) = [0..<tot]"
    by (rule batches_partition)
  show "{k. \<exists>p. (pool_turn jobs run seeds ^^ k) (pool_init seeds sz) p} \<subseteq> {..length (batches (length seeds) sz)}"
    using turns_bounded [OF _ pool_inv_init [of run seeds sz]]
    by (fastforce simp: pool_left_def pool_init_def frontier_init_def)
qed

end
