(* ===== verification/SimExplore.thy ===== *)
theory SimExplore
  imports SimParallel SimPolicy SimTrace
begin

text \<open>
  \<open>src/simloop/_explore.py\<close>: running a workload under many seeds and reporting the first failure.
  What a fresh \<open>SimLoop\<close> does with the workload is the record \<open>workload\<close>: the facts read from the
  loop after \<open>run_once\<close> and before \<open>finish\<close>, the replay and the labels the shrinker asks for, and
  what \<open>pickle\<close> and the worker processes answer. An exception is its type name and message.
  \<open>ParallelDeterminismError\<close> is a subclass of \<open>RuntimeError\<close> and is shown as one.
\<close>

section \<open>Reports\<close>

definition POLICIES :: "string list" where "POLICIES = [''random'', ''pct'']"

definition DEFAULT_PCT_DEPTH :: int where "DEFAULT_PCT_DEPTH = 3"

definition CALIBRATION_SEED :: int where "CALIBRATION_SEED = 0"

definition HORIZON_SLACK :: rat where "HORIZON_SLACK = 3 / 2"

definition MIN_HORIZON :: int where "MIN_HORIZON = 100"

definition CONTEXT :: nat where "CONTEXT = 5"

definition MIN_PREFIX :: nat where "MIN_PREFIX = 5"

definition ANCHOR_KINDS :: "event_kind list" where "ANCHOR_KINDS = [Net, Advance]"

record pending_task =
  pt_host :: hostname
  pt_name :: string
  pt_awaiting :: string
  pt_where :: string

record divergence =
  prefix_len :: nat
  anchor_name :: "string option"
  passing_next :: "trace_event option"
  failing_next :: "trace_event option"
  passing_context :: "trace_event list"
  failing_context :: "trace_event list"

record policy_run =
  pr_name :: string
  pr_depth :: int
  pr_horizon :: "int option"

definition build_policy :: "(string \<Rightarrow> rng) \<Rightarrow> policy_run \<Rightarrow> int \<Rightarrow> exn + pct option" where
  \<comment> \<open>\<open>PolicyRun.build\<close>; \<open>stream\<close> is \<open>random.Random\<close> on a text\<close>
  "build_policy stream p seed =
     (case pr_horizon p of
        None \<Rightarrow> Inr None
      | Some horizon \<Rightarrow> map_sum id Some (pct_init (stream (str_int seed @ '':pct'')) (pr_depth p) horizon))"

definition replay_options :: "policy_run \<Rightarrow> string" where
  "replay_options p =
     '' --simloop-policy='' @ pr_name p @
     (if pr_depth p \<noteq> DEFAULT_PCT_DEPTH then '' --simloop-pct-depth='' @ str_int (pr_depth p) else [])"

record 'd seed_report =
  sr_seed :: int
  sr_seeds_passed :: nat
  sr_exception :: failure
  sr_trace_events :: "trace_event list"
  sr_trace_hash :: 'd
  sr_pending :: "pending_task list"
  sr_divergence :: "divergence option"
  sr_shrunk :: "shrink_result option"
  sr_policy :: "policy_run option"
  sr_trace :: "trace_event list"

section \<open>Where two runs part ways\<close>

definition decision :: "trace_event \<Rightarrow> event_kind \<times> label" where
  "decision e = (ev_kind e, ev_label e)"

fun split_point :: "trace_event list \<Rightarrow> trace_event list \<Rightarrow> nat" where
  "split_point (l # ls) (r # rs) = (if decision l \<noteq> decision r then 0 else Suc (split_point ls rs))"
| "split_point _ _ = 0"

definition first_of_kind :: "trace_event list \<Rightarrow> event_kind \<Rightarrow> nat option" where
  "first_of_kind events k = index_where (\<lambda>e. ev_kind e = k) events"

fun anchor_among :: "event_kind list \<Rightarrow> trace_event list \<Rightarrow> trace_event list \<Rightarrow> (string \<times> nat \<times> nat) option" where
  "anchor_among [] passing failing = None"
| "anchor_among (k # ks) passing failing =
     (case (first_of_kind passing k, first_of_kind failing k) of
        (Some a, Some b) \<Rightarrow>
          if a = 0 \<and> b = 0 then anchor_among ks passing failing
          else Some (''first '' @ kind_name k @ '' event'', a, b)
      | _ \<Rightarrow> anchor_among ks passing failing)"

definition anchor :: "trace_event list \<Rightarrow> trace_event list \<Rightarrow> (string \<times> nat \<times> nat) option" where
  "anchor passing failing = anchor_among ANCHOR_KINDS passing failing"

definition window :: "trace_event list \<Rightarrow> nat \<Rightarrow> nat \<Rightarrow> trace_event list" where
  "window events pos context = drop (pos - context) (take (pos + context) events)"

definition nth_option :: "'a list \<Rightarrow> nat \<Rightarrow> 'a option" where
  "nth_option xs i = (if i < length xs then Some (xs ! i) else None)"

definition diff_traces :: "trace_event list \<Rightarrow> trace_event list \<Rightarrow> nat \<Rightarrow> divergence option" where
  "diff_traces passing failing context =
     (if passing = [] \<or> failing = [] then None
      else
        let sp = split_point passing failing in
        if sp = length passing \<and> length passing = length failing then None
        else
          let pn = nth_option passing sp; fn = nth_option failing sp;
              marks = (if sp \<ge> MIN_PREFIX then Some (None, sp, sp)
                    else map_option (\<lambda>(name, a, b). (Some name, a, b)) (anchor passing failing))
          in Some (case marks of
               None \<Rightarrow> \<lparr>prefix_len = sp, anchor_name = None, passing_next = pn, failing_next = fn,
                  passing_context = [], failing_context = []\<rparr>
             | Some (name, a, b) \<Rightarrow> \<lparr>prefix_len = sp, anchor_name = name, passing_next = pn, failing_next = fn,
                  passing_context = window passing a context, failing_context = window failing b context\<rparr>))"

section \<open>Running one seed\<close>

record 'd run_facts =
  rf_failure :: "failure option"
  rf_trace :: "trace_event list"
  rf_hash :: 'd
  rf_choices :: schedule
  rf_pending :: "pending_task list"

record 'd workload =
  w_run :: "int \<Rightarrow> pct option \<Rightarrow> 'd run_facts"
  w_replay :: "int \<Rightarrow> schedule \<Rightarrow> failure option"
  w_labels :: "int \<Rightarrow> schedule \<Rightarrow> nat list \<Rightarrow> string list"
  w_stream :: "string \<Rightarrow> rng"
  w_picklable :: bool

definition slice_from :: "int \<Rightarrow> 'a list \<Rightarrow> 'a list" where
  \<comment> \<open>\<open>xs[i:]\<close>, counting from the end when negative\<close>
  "slice_from i xs = drop (if 0 \<le> i then nat i else length xs - nat (- i)) xs"

record explore_options =
  eo_trace_tail :: int
  eo_shrink :: bool
  eo_shrink_budget :: int
  eo_jobs :: int
  eo_policy :: string
  eo_pct_depth :: int

definition run_seed ::
    "'d workload \<Rightarrow> explore_options \<Rightarrow> int \<Rightarrow> nat \<Rightarrow> trace_event list \<Rightarrow> bool \<Rightarrow> policy_run option \<Rightarrow>
     exn + 'd seed_report option \<times> trace_event list" where
  "run_seed W opts seed seeds_passed last_pass shrink policy =
     (case (case policy of None \<Rightarrow> Inr None | Some p \<Rightarrow> build_policy (w_stream W) p seed) of
        Inl e \<Rightarrow> Inl e
      | Inr scheduler \<Rightarrow>
          let facts = w_run W seed scheduler; events = rf_trace facts in
          (case rf_failure facts of
             None \<Rightarrow> Inr (None, events)
           | Some failure \<Rightarrow>
               let report =
                 \<lparr>sr_seed = seed, sr_seeds_passed = seeds_passed, sr_exception = failure,
                  sr_trace_events = (if eo_trace_tail opts \<noteq> 0 then slice_from (- eo_trace_tail opts) events else []),
                  sr_trace_hash = rf_hash facts, sr_pending = rf_pending facts,
                  sr_divergence = diff_traces last_pass events CONTEXT, sr_shrunk = None,
                  sr_policy = policy, sr_trace = events\<rparr>
               in
                 if \<not> shrink then Inr (Some report, events)
                 else case shrink_schedule (w_replay W seed) (w_labels W seed) (rf_choices facts) failure
                             (eo_shrink_budget opts) of
                     Inl e \<Rightarrow> Inl e
                   | Inr shrunk \<Rightarrow> Inr (Some (report\<lparr>sr_shrunk := shrunk\<rparr>), events)))"

definition measure_steps :: "'d workload \<Rightarrow> nat" where
  "measure_steps W = length (rf_choices (w_run W CALIBRATION_SEED None))"

definition pct_horizon :: "nat \<Rightarrow> int \<Rightarrow> int" where
  "pct_horizon steps depth = max (max \<lceil>of_nat steps * HORIZON_SLACK\<rceil> MIN_HORIZON) (depth - 1)"

definition policy_for :: "string \<Rightarrow> int \<Rightarrow> int option \<Rightarrow> int \<Rightarrow> policy_run option" where
  "policy_for policy depth horizon seed =
     (if policy = ''random'' then None
      else Some \<lparr>pr_name = policy, pr_depth = depth,
        pr_horizon = (if seed = CALIBRATION_SEED then None else horizon)\<rparr>)"

section \<open>Exploring\<close>

fun explore_seeds ::
    "'d workload \<Rightarrow> explore_options \<Rightarrow> nat \<Rightarrow> int option \<Rightarrow> trace_event list \<Rightarrow> int list \<Rightarrow> exn + 'd seed_report option" where
  "explore_seeds W opts passed horizon last_pass [] = Inr None"
| "explore_seeds W opts passed horizon last_pass (seed # seeds) =
     (let horizon = (if eo_policy opts = ''pct'' \<and> horizon = None \<and> seed \<noteq> CALIBRATION_SEED
                     then Some (pct_horizon (measure_steps W) (eo_pct_depth opts)) else horizon)
      in case run_seed W opts seed passed last_pass (eo_shrink opts)
                (policy_for (eo_policy opts) (eo_pct_depth opts) horizon seed) of
          Inl e \<Rightarrow> Inl e
        | Inr (Some report, events) \<Rightarrow> Inr (Some report)
        | Inr (None, events) \<Rightarrow> explore_seeds W opts (Suc passed) horizon events seeds)"

definition explore_parallel ::
    "'d workload \<Rightarrow> explore_options \<Rightarrow> batch_failure option \<Rightarrow> int list \<Rightarrow> exn + 'd seed_report option" where
  \<comment> \<open>\<open>found\<close> is what \<open>find_lowest_failure\<close> returned\<close>
  "explore_parallel W opts found seeds =
     (if \<not> w_picklable W then Inl TypeError
      else case found of
          None \<Rightarrow> Inr None
        | Some f \<Rightarrow>
            (case (if f_at f > 0
                   then (case run_seed W opts (seeds ! (f_at f - 1)) (f_at f - 1) [] False None of
                           Inl e \<Rightarrow> Inl e
                         | Inr (passing, events) \<Rightarrow>
                             (case check_reproduced (seeds ! (f_at f - 1)) None (map_option sr_exception passing) of
                                Some _ \<Rightarrow> Inl RuntimeError
                              | None \<Rightarrow> Inr events))
                   else Inr []) of
               Inl e \<Rightarrow> Inl e
             | Inr last_pass \<Rightarrow>
                 (case run_seed W opts (seeds ! f_at f) (f_at f) last_pass (eo_shrink opts) None of
                    Inl e \<Rightarrow> Inl e
                  | Inr (rep, _) \<Rightarrow>
                      (case check_reproduced (seeds ! f_at f) (Some f) (map_option sr_exception rep) of
                         Some _ \<Rightarrow> Inl RuntimeError
                       | None \<Rightarrow> (case rep of None \<Rightarrow> Inl AssertionError | Some r \<Rightarrow> Inr (Some r))))))"

definition explore ::
    "'d workload \<Rightarrow> explore_options \<Rightarrow> batch_failure option \<Rightarrow> int list \<Rightarrow> exn + 'd seed_report option" where
  "explore W opts found seeds =
     (if eo_jobs opts < 1 then Inl ValueError
      else if eo_policy opts \<notin> set POLICIES then Inl ValueError
      else if eo_policy opts = ''pct'' \<and> eo_pct_depth opts < 1 then Inl ValueError
      else if eo_policy opts = ''pct'' \<and> eo_jobs opts > 1 then Inl ValueError
      else if eo_jobs opts > 1 \<and> length seeds > 1 then explore_parallel W opts found seeds
      else explore_seeds W opts 0 None [] seeds)"

section \<open>What a divergence says\<close>

lemma split_point_spec:
  "split_point ls rs \<le> length ls" "split_point ls rs \<le> length rs"
  "map decision (take (split_point ls rs) ls) = map decision (take (split_point ls rs) rs)"
  "split_point ls rs < length ls \<Longrightarrow> split_point ls rs < length rs \<Longrightarrow>
     decision (ls ! split_point ls rs) \<noteq> decision (rs ! split_point ls rs)"
  by (induction ls rs rule: split_point.induct) auto

lemma split_point_whole:
  "split_point ls rs = length ls \<and> length ls = length rs \<longleftrightarrow> map decision ls = map decision rs"
  by (induction ls rs rule: split_point.induct) auto

text \<open>
  C30. The reported divergence is the first decision two runs disagree on. There is none exactly when a
  run left no trace or both made the same decisions (kind and label of every event). Otherwise
  \<open>prefix_len\<close> events agree, the next events are those at the split point, and they differ, or
  one run ended there; it is the only point with that property.
\<close>
theorem divergence_is_first_disagreement:
  "(case diff_traces passing failing context of
      None \<Rightarrow> passing = [] \<or> failing = [] \<or> map decision passing = map decision failing
    | Some d \<Rightarrow> passing \<noteq> [] \<and> failing \<noteq> [] \<and> map decision passing \<noteq> map decision failing \<and>
        map decision (take (prefix_len d) passing) = map decision (take (prefix_len d) failing) \<and>
        prefix_len d \<le> length passing \<and> prefix_len d \<le> length failing \<and>
        passing_next d = nth_option passing (prefix_len d) \<and> failing_next d = nth_option failing (prefix_len d) \<and>
        map_option decision (passing_next d) \<noteq> map_option decision (failing_next d) \<and>
        length (passing_context d) \<le> 2 * context \<and> length (failing_context d) \<le> 2 * context)"
proof (cases "passing = [] \<or> failing = [] \<or> map decision passing = map decision failing")
  case True
  then show ?thesis
    using split_point_whole [of passing failing] by (auto simp: diff_traces_def Let_def)
next
  case False
  let ?n = "split_point passing failing"
  note sp = split_point_spec [of passing failing]
  have n: "\<not> (?n = length passing \<and> length passing = length failing)"
    using False by (simp add: split_point_whole)
  then have "map_option decision (nth_option passing ?n) \<noteq> map_option decision (nth_option failing ?n)"
    using sp(1,2,4) by (auto simp: nth_option_def)
  moreover have "length (window xs k context) \<le> 2 * context" for xs k
    by (auto simp: window_def)
  ultimately show ?thesis
    using False n sp(1-3) by (auto simp: diff_traces_def Let_def split: option.split)
qed

section \<open>What exploring reports\<close>

definition seed_policy :: "'d workload \<Rightarrow> explore_options \<Rightarrow> int \<Rightarrow> policy_run option" where
  \<comment> \<open>how a seed is scheduled, as a function of the workload and the options alone\<close>
  "seed_policy W opts seed =
     policy_for (eo_policy opts) (eo_pct_depth opts) (Some (pct_horizon (measure_steps W) (eo_pct_depth opts))) seed"

fun explore_plain ::
    "'d workload \<Rightarrow> explore_options \<Rightarrow> nat \<Rightarrow> trace_event list \<Rightarrow> int list \<Rightarrow> exn + 'd seed_report option" where
  "explore_plain W opts passed last_pass [] = Inr None"
| "explore_plain W opts passed last_pass (seed # seeds) =
     (case run_seed W opts seed passed last_pass (eo_shrink opts) (seed_policy W opts seed) of
        Inl e \<Rightarrow> Inl e
      | Inr (Some report, events) \<Rightarrow> Inr (Some report)
      | Inr (None, events) \<Rightarrow> explore_plain W opts (Suc passed) events seeds)"

lemma explore_seeds_plain:
  assumes "eo_policy opts \<in> set POLICIES"
    and "horizon = None \<or> horizon = Some (pct_horizon (measure_steps W) (eo_pct_depth opts))"
  shows "explore_seeds W opts passed horizon last_pass seeds = explore_plain W opts passed last_pass seeds"
  using assms(2)
proof (induction seeds arbitrary: passed horizon last_pass)
  case (Cons seed seeds)
  let ?h = "if eo_policy opts = ''pct'' \<and> horizon = None \<and> seed \<noteq> CALIBRATION_SEED
    then Some (pct_horizon (measure_steps W) (eo_pct_depth opts)) else horizon"
  have "policy_for (eo_policy opts) (eo_pct_depth opts) ?h seed = seed_policy W opts seed"
    using Cons.prems assms(1) by (auto simp: policy_for_def seed_policy_def POLICIES_def)
  moreover have "explore_seeds W opts p ?h l seeds = explore_plain W opts p l seeds" for p l
    using Cons.prems by (intro Cons.IH) auto
  ultimately show ?case
    by (simp only: explore_seeds.simps explore_plain.simps Let_def)
qed simp

definition seed_facts :: "'d workload \<Rightarrow> explore_options \<Rightarrow> int \<Rightarrow> 'd run_facts" where
  "seed_facts W opts seed =
     w_run W seed (case seed_policy W opts seed of
         None \<Rightarrow> None
       | Some p \<Rightarrow> (case build_policy (w_stream W) p seed of Inl _ \<Rightarrow> None | Inr sched \<Rightarrow> sched))"

lemma pct_horizon_enough: "1 \<le> pct_horizon steps depth \<and> depth - 1 \<le> pct_horizon steps depth"
  by (simp add: pct_horizon_def MIN_HORIZON_def)

lemma build_policy_succeeds:
  assumes "eo_policy opts = ''pct'' \<Longrightarrow> 1 \<le> eo_pct_depth opts" and "eo_policy opts \<in> set POLICIES"
    and "seed_policy W opts seed = Some p"
  shows "\<exists>sched. build_policy stream p seed = Inr sched"
  using assms pct_horizon_enough [of "measure_steps W" "eo_pct_depth opts"]
  by (auto simp: seed_policy_def policy_for_def build_policy_def POLICIES_def pct_init_def
      split: option.split prod.split if_splits)

lemma shrink_schedule_error:
  "shrink_schedule replay labels choices failure budget = Inl e \<longleftrightarrow> e = ValueError \<and> budget < 1"
proof (cases "budget < 1")
  case False
  let ?fails = "\<lambda>c. same_failure failure (replay c)"
  let ?p = "passes (probe ?fails budget) choices search_init"
  note res = passes_result [of budget ?fails choices]
  have "fst ?p = Some False \<or> s_best (snd ?p) \<noteq> None"
    using res False by (cases "?fails choices") (auto simp: search_inv_def split: option.splits)
  with False show ?thesis
    by (cases ?p) (auto simp: shrink_schedule_def Let_def split: option.splits bool.splits)
qed (auto simp: shrink_schedule_def)

definition valid_options :: "explore_options \<Rightarrow> bool" where
  "valid_options opts \<longleftrightarrow> eo_policy opts \<in> set POLICIES \<and> (eo_policy opts = ''pct'' \<longrightarrow> 1 \<le> eo_pct_depth opts)"

definition expected_report ::
    "'d workload \<Rightarrow> explore_options \<Rightarrow> int \<Rightarrow> nat \<Rightarrow> trace_event list \<Rightarrow> 'd seed_report" where
  "expected_report W opts seed passed last_pass =
     (let facts = seed_facts W opts seed; failure = the (rf_failure facts) in
      \<lparr>sr_seed = seed, sr_seeds_passed = passed, sr_exception = failure,
       sr_trace_events = (if eo_trace_tail opts \<noteq> 0 then slice_from (- eo_trace_tail opts) (rf_trace facts) else []),
       sr_trace_hash = rf_hash facts, sr_pending = rf_pending facts,
       sr_divergence = diff_traces last_pass (rf_trace facts) CONTEXT,
       sr_shrunk = (if eo_shrink opts then projr (shrink_schedule (w_replay W seed) (w_labels W seed)
         (rf_choices facts) failure (eo_shrink_budget opts)) else None),
       sr_policy = seed_policy W opts seed, sr_trace = rf_trace facts\<rparr>)"

definition seed_fails :: "'d workload \<Rightarrow> explore_options \<Rightarrow> int \<Rightarrow> bool" where
  "seed_fails W opts seed \<longleftrightarrow> rf_failure (seed_facts W opts seed) \<noteq> None"

lemma run_seed_eq:
  assumes "valid_options opts"
  shows "run_seed W opts seed passed last_pass (eo_shrink opts) (seed_policy W opts seed) =
    (if \<not> seed_fails W opts seed then Inr (None, rf_trace (seed_facts W opts seed))
     else if eo_shrink opts \<and> eo_shrink_budget opts < 1 then Inl ValueError
     else Inr (Some (expected_report W opts seed passed last_pass), rf_trace (seed_facts W opts seed)))"
proof -
  obtain sched where sched: "(case seed_policy W opts seed of None \<Rightarrow> Inr None
      | Some p \<Rightarrow> build_policy (w_stream W) p seed) = Inr sched"
    using build_policy_succeeds [of opts W seed _ "w_stream W"] assms
    by (cases "seed_policy W opts seed") (auto simp: valid_options_def)
  then have facts: "seed_facts W opts seed = w_run W seed sched"
    by (auto simp: seed_facts_def split: option.splits)
  show ?thesis
  proof (cases "rf_failure (w_run W seed sched)")
    case (Some failure)
    let ?sh = "shrink_schedule (w_replay W seed) (w_labels W seed) (rf_choices (w_run W seed sched)) failure (eo_shrink_budget opts)"
    have "?sh = Inl e \<longleftrightarrow> e = ValueError \<and> eo_shrink_budget opts < 1" for e
      by (rule shrink_schedule_error)
    then show ?thesis
      using Some by (cases ?sh) (auto simp: run_seed_def sched facts seed_fails_def expected_report_def Let_def)
  qed (simp add: run_seed_def sched facts seed_fails_def)
qed

lemma explore_plain_eq:
  assumes "valid_options opts"
  shows "explore_plain W opts passed last_pass seeds =
    (case index_where (seed_fails W opts) seeds of
       None \<Rightarrow> Inr None
     | Some i \<Rightarrow>
         if eo_shrink opts \<and> eo_shrink_budget opts < 1 then Inl ValueError
         else Inr (Some (expected_report W opts (seeds ! i) (passed + i)
           (if i = 0 then last_pass else rf_trace (seed_facts W opts (seeds ! (i - 1)))))))"
proof (induction seeds arbitrary: passed last_pass)
  case (Cons seed seeds)
  show ?case
  proof (cases "seed_fails W opts seed")
    case True
    then show ?thesis by (simp add: run_seed_eq [OF assms])
  next
    case False
    then show ?thesis
      by (cases "index_where (seed_fails W opts) seeds")
        (auto simp: run_seed_eq [OF assms] Cons.IH nth_Cons' )
  qed
qed simp

lemma explore_sequential:
  assumes "valid_options opts" and "eo_jobs opts = 1"
  shows "explore W opts found seeds = explore_plain W opts 0 [] seeds"
  using assms by (auto simp: explore_def valid_options_def explore_seeds_plain)

lemma explore_sequential_eq:
  assumes "valid_options opts" and "eo_jobs opts = 1"
  shows "explore W opts found seeds =
    (case index_where (seed_fails W opts) seeds of
       None \<Rightarrow> Inr None
     | Some i \<Rightarrow>
         if eo_shrink opts \<and> eo_shrink_budget opts < 1 then Inl ValueError
         else Inr (Some (expected_report W opts (seeds ! i) i
           (if i = 0 then [] else rf_trace (seed_facts W opts (seeds ! (i - 1)))))))"
  unfolding explore_sequential [OF assms] explore_plain_eq [OF assms(1)] add_0 ..

text \<open>
  C18. Exploring reports the first failing seed and nothing else. With valid options and one process, the
  search stops at the first seed whose run (under the policy the options give that seed) raises; the
  report carries that run's exception, trace, hash and pending tasks, how many seeds passed before,
  and the comparison with the last passing seed's trace. Without a failing seed there is no report;
  the only error left is a shrink budget below 1.
\<close>
theorem explore_reports_first_failure:
  assumes "valid_options opts" and "eo_jobs opts = 1"
  shows "explore W opts found seeds =
    (case index_where (seed_fails W opts) seeds of
       None \<Rightarrow> Inr None
     | Some i \<Rightarrow>
         if eo_shrink opts \<and> eo_shrink_budget opts < 1 then Inl ValueError
         else Inr (Some (expected_report W opts (seeds ! i) i
           (if i = 0 then [] else rf_trace (seed_facts W opts (seeds ! (i - 1)))))))"
  using assms by (rule explore_sequential_eq)

definition demo_workload :: "nat workload" where
  \<comment> \<open>seeds above 1 fail\<close>
  "demo_workload =
     \<lparr>w_run = (\<lambda>seed _. \<lparr>rf_failure = (if seed > 1 then Some (''ValueError'', ''boom'') else None),
        rf_trace = [mk_event Run 0 seed ''main'' ''driver''], rf_hash = 0, rf_choices = [0], rf_pending = []\<rparr>),
      w_replay = (\<lambda>_ _. None), w_labels = (\<lambda>_ _ _. []), w_stream = (\<lambda>_. demo_rng), w_picklable = True\<rparr>"

definition demo_options :: explore_options where
  "demo_options = \<lparr>eo_trace_tail = 20, eo_shrink = False, eo_shrink_budget = 500, eo_jobs = 1,
     eo_policy = ''random'', eo_pct_depth = 3\<rparr>"

lemma demo_options_valid: "valid_options demo_options \<and> eo_jobs demo_options = 1"
  by (simp add: valid_options_def demo_options_def POLICIES_def)

theorem explore_reports_first_failure_witness:
  "explore demo_workload demo_options None [0, 1, 2, 3] =
     Inr (Some (expected_report demo_workload demo_options 2 2 (rf_trace (seed_facts demo_workload demo_options 1))))"
proof -
  have "index_where (seed_fails demo_workload demo_options) [0, 1, 2, 3] = Some 2"
    by (simp add: seed_fails_def seed_facts_def demo_workload_def seed_policy_def policy_for_def demo_options_def)
  then show ?thesis
    using explore_reports_first_failure [of demo_options demo_workload None "[0, 1, 2, 3]"] demo_options_valid
    by (simp add: demo_options_def)
qed

text \<open>
  C19. A found seed replays on its own: exploring only the reported seed, with the same options, gives
  the same report (exception, trace, hash, choices kept by the shrinker, and the very same PCT
  horizon), except that no seed passed before it and there is no earlier trace to compare with.
\<close>
theorem found_seed_replays_alone:
  assumes "valid_options opts" and "eo_jobs opts = 1" and "explore W opts found seeds = Inr (Some r)"
  shows "explore W opts found' [sr_seed r] = Inr (Some (r\<lparr>sr_seeds_passed := 0, sr_divergence := None\<rparr>))"
proof -
  obtain i where i: "index_where (seed_fails W opts) seeds = Some i"
    "\<not> (eo_shrink opts \<and> eo_shrink_budget opts < 1)"
    "r = expected_report W opts (seeds ! i) i (if i = 0 then [] else rf_trace (seed_facts W opts (seeds ! (i - 1))))"
    using assms(3) unfolding explore_sequential_eq [OF assms(1,2)] by (auto split: option.splits if_splits)
  have "seed_fails W opts (seeds ! i)" using i(1) by (simp add: index_where_Some)
  moreover have "sr_seed r = seeds ! i" by (simp add: i(3) expected_report_def Let_def)
  ultimately show ?thesis
    using i(2) unfolding explore_sequential_eq [OF assms(1,2)]
    by (auto simp: i(3) expected_report_def Let_def diff_traces_def)
qed

theorem found_seed_replays_alone_witness:
  "\<exists>r. explore demo_workload demo_options None [0, 1, 2, 3] = Inr (Some r) \<and>
     explore demo_workload demo_options None [sr_seed r] = Inr (Some (r\<lparr>sr_seeds_passed := 0, sr_divergence := None\<rparr>))"
proof -
  have "index_where (seed_fails demo_workload demo_options) [0, 1, 2, 3] = Some 2"
    by (simp add: seed_fails_def seed_facts_def demo_workload_def seed_policy_def policy_for_def demo_options_def)
  then obtain r where r: "explore demo_workload demo_options None [0, 1, 2, 3] = Inr (Some r)"
    using explore_sequential_eq [of demo_options demo_workload None "[0, 1, 2, 3]"] demo_options_valid
    by (simp add: demo_options_def)
  with found_seed_replays_alone [OF _ _ r] demo_options_valid show ?thesis by blast
qed

lemma seed_policy_jobs [simp]: "seed_policy W (opts\<lparr>eo_jobs := j\<rparr>) = seed_policy W opts"
  by (simp add: fun_eq_iff seed_policy_def)

lemma seed_facts_jobs [simp]: "seed_facts W (opts\<lparr>eo_jobs := j\<rparr>) = seed_facts W opts"
  by (simp add: fun_eq_iff seed_facts_def)

lemma jobs_irrelevant [simp]:
  "seed_fails W (opts\<lparr>eo_jobs := j\<rparr>) = seed_fails W opts"
  "expected_report W (opts\<lparr>eo_jobs := j\<rparr>) = expected_report W opts"
  by (simp_all add: fun_eq_iff seed_fails_def expected_report_def Let_def)

lemma explore_parallel_eq:
  assumes "valid_options opts" and "eo_policy opts = ''random''" and "w_picklable W" and "1 < eo_jobs opts"
    and "\<And>seed. worker seed = rf_failure (w_run W seed None)"
    and "found_lowest_failure (nat (eo_jobs opts)) worker seeds None found"
  shows "explore W opts found seeds = explore W (opts\<lparr>eo_jobs := 1\<rparr>) None seeds"
proof (cases "1 < length seeds")
  case False
  let ?o = "opts\<lparr>eo_jobs := 1\<rparr>"
  have v: "valid_options ?o" "eo_jobs ?o = 1" using assms(1) by (simp_all add: valid_options_def)
  have "explore W opts found seeds = explore_seeds W opts 0 None [] seeds"
    using False assms(1,2,4) by (simp add: explore_def valid_options_def)
  also have "\<dots> = explore_plain W opts 0 [] seeds"
    using assms(1) by (intro explore_seeds_plain) (simp_all add: valid_options_def)
  finally show ?thesis
    unfolding explore_sequential_eq [OF v] explore_plain_eq [OF assms(1)] by (auto split: option.split)
next
  case True
  let ?o = "opts\<lparr>eo_jobs := 1\<rparr>"
  have v: "valid_options ?o" "eo_jobs ?o = 1" using assms(1) by (simp_all add: valid_options_def)
  have none: "seed_policy W opts seed = None" for seed
    using assms(2) by (simp add: seed_policy_def policy_for_def)
  have facts: "seed_facts W opts seed = w_run W seed None" for seed by (simp add: seed_facts_def none)
  have par: "explore W opts found seeds = explore_parallel W opts found seeds"
    using True assms(1,2,4) by (simp add: explore_def valid_options_def)
  have found: "found = run_batch worker 0 seeds"
    using assms(4,6) found_lowest_failure_iff [of "nat (eo_jobs opts)" seeds None worker found]
    by (simp add: pool_size_def batch_size_def)
  show ?thesis
  proof (cases found)
    case None
    then have "index_where (seed_fails W opts) seeds = None"
      using found [symmetric] assms(5) by (auto simp: run_batch_None index_where_None seed_fails_def facts)
    then show ?thesis
      unfolding par explore_sequential_eq [OF v] using None assms(3) by (simp add: explore_parallel_def)
  next
    case (Some f)
    let ?i = "f_at f"
    have i: "?i < length seeds" "rf_failure (w_run W (seeds ! ?i) None) = Some (f_exc_type f, f_message f)"
      "\<forall>j<?i. rf_failure (w_run W (seeds ! j) None) = None"
      using found [symmetric] Some assms(5) by (auto simp: run_batch_Some)
    then have first: "index_where (seed_fails W opts) seeds = Some ?i"
      by (simp add: index_where_Some seed_fails_def facts)
    let ?lp = "if ?i = 0 then [] else rf_trace (seed_facts W opts (seeds ! (?i - 1)))"
    let ?r = "expected_report W opts (seeds ! ?i) ?i ?lp"
    have below: "(if ?i > 0 then (case run_seed W opts (seeds ! (?i - 1)) (?i - 1) [] False None of Inl e \<Rightarrow> Inl e
        | Inr (passing, events) \<Rightarrow> (case check_reproduced (seeds ! (?i - 1)) None (map_option sr_exception passing) of
            Some _ \<Rightarrow> Inl RuntimeError | None \<Rightarrow> Inr events)) else Inr []) = Inr ?lp"
      using i(3) by (simp add: run_seed_def check_reproduced_def facts)
    have "seed_fails W opts (seeds ! ?i)" using i(2) by (simp add: seed_fails_def facts)
    then have here: "run_seed W opts (seeds ! ?i) ?i ?lp (eo_shrink opts) None =
        (if eo_shrink opts \<and> eo_shrink_budget opts < 1 then Inl ValueError
         else Inr (Some ?r, rf_trace (seed_facts W opts (seeds ! ?i))))"
      using run_seed_eq [OF assms(1), of W "seeds ! ?i" ?i ?lp] by (simp add: none)
    have "sr_exception ?r = (f_exc_type f, f_message f)" using i(2) by (simp add: expected_report_def facts Let_def)
    then have same: "check_reproduced (seeds ! ?i) (Some f) (Some (sr_exception ?r)) = None"
      by (simp add: check_reproduced_def)
    have "explore_parallel W opts found seeds =
        (if eo_shrink opts \<and> eo_shrink_budget opts < 1 then Inl ValueError else Inr (Some ?r))"
      using assms(3) same by (simp only: explore_parallel_def Some option.case below sum.case here) simp
    then show ?thesis unfolding par explore_sequential_eq [OF v] jobs_irrelevant first by simp
  qed
qed

text \<open>
  C16. Worker processes do not change the report. When every worker does with a seed what this process
  does, and \<open>find_lowest_failure\<close> returned \<open>found\<close>, exploring with several jobs gives exactly the
  report of exploring with one.
\<close>
theorem parallel_report_is_sequential:
  assumes "valid_options opts" and "eo_policy opts = ''random''" and "w_picklable W" and "1 < eo_jobs opts"
    and "\<And>seed. worker seed = rf_failure (w_run W seed None)"
    and "found_lowest_failure (nat (eo_jobs opts)) worker seeds None found"
  shows "explore W opts found seeds = explore W (opts\<lparr>eo_jobs := 1\<rparr>) None seeds"
  using assms by (rule explore_parallel_eq)

theorem parallel_report_is_sequential_witness:
  "\<exists>found. found_lowest_failure 2 (\<lambda>seed. rf_failure (w_run demo_workload seed None)) [0, 1, 2, 3] None found \<and>
     explore demo_workload (demo_options\<lparr>eo_jobs := 2\<rparr>) found [0, 1, 2, 3] =
     explore demo_workload (demo_options\<lparr>eo_jobs := 1\<rparr>) None [0, 1, 2, 3]"
proof -
  let ?w = "\<lambda>seed. rf_failure (w_run demo_workload seed None)"
  let ?f = "run_batch ?w 0 [0, 1, 2, 3]"
  have f: "found_lowest_failure 2 ?w [0, 1, 2, 3] None ?f"
    by (subst found_lowest_failure_iff) (simp_all add: pool_size_def batch_size_def)
  then have "explore demo_workload (demo_options\<lparr>eo_jobs := 2\<rparr>) ?f [0, 1, 2, 3] =
      explore demo_workload (demo_options\<lparr>eo_jobs := 2, eo_jobs := 1\<rparr>) None [0, 1, 2, 3]"
    using parallel_report_is_sequential [of "demo_options\<lparr>eo_jobs := 2\<rparr>" demo_workload ?w "[0, 1, 2, 3]" ?f]
    by (simp add: valid_options_def demo_options_def POLICIES_def demo_workload_def)
  with f show ?thesis by auto
qed


end
