(* ===== verification/SimSession.thy ===== *)
theory SimSession
  imports SimExplore
begin

text \<open>
  The test session around \<open>explore\<close>: the decorator \<open>sim_test\<close> of \<open>src/simloop/_explore.py\<close> and the
  options of \<open>src/simloop/_pytest_plugin.py\<close> that override it. The module-level object \<open>overrides\<close> is
  the state. What pytest does (parsing options, collecting tests) and what the file system and
  \<open>fnmatch\<close> answer are arguments; texts of error messages are not modelled, except what
  \<open>write_timeline\<close> reports.
\<close>

section \<open>Session state and options\<close>

record overrides =
  ov_seeds :: "int option"
  ov_replay :: "int option"
  ov_shrink :: bool
  ov_shrink_budget :: int
  ov_jobs :: int
  ov_policy :: "string option"
  ov_pct_depth :: "int option"
  ov_timeline_dir :: "string option"
  ov_node_id :: "string option"
  ov_sim_tests :: nat
  ov_seeds_explored :: nat

definition overrides_init :: overrides where
  "overrides_init =
     \<lparr>ov_seeds = None, ov_replay = None, ov_shrink = False, ov_shrink_budget = DEFAULT_BUDGET, ov_jobs = 1,
      ov_policy = None, ov_pct_depth = None, ov_timeline_dir = None, ov_node_id = None,
      ov_sim_tests = 0, ov_seeds_explored = 0\<rparr>"

record cli =
  cli_seeds :: "int option"
  cli_replay :: "int option"
  cli_shrink :: bool
  cli_shrink_budget :: int
  cli_jobs :: int
  cli_policy :: "string option"
  cli_pct_depth :: "int option"
  cli_timeline :: "string option"

definition cli_init :: cli where
  \<comment> \<open>the defaults of \<open>pytest_addoption\<close>\<close>
  "cli_init =
     \<lparr>cli_seeds = None, cli_replay = None, cli_shrink = False, cli_shrink_budget = DEFAULT_BUDGET,
      cli_jobs = 1, cli_policy = None, cli_pct_depth = None, cli_timeline = None\<rparr>"

record file_system =
  fs_isfile :: "string \<Rightarrow> bool"
  fs_isdir :: "string \<Rightarrow> bool"
  fs_walk :: "string \<Rightarrow> string list list" \<comment> \<open>the file names of every directory below\<close>
  fs_fnmatch :: "string \<Rightarrow> string \<Rightarrow> bool"

fun has_infix :: "string \<Rightarrow> string \<Rightarrow> bool" where
  \<comment> \<open>\<open>pat in s\<close>\<close>
  "has_infix pat [] = (pat = [])"
| "has_infix pat (c # s) = (take (length pat) (c # s) = pat \<or> has_infix pat s)"

definition is_test_path :: "file_system \<Rightarrow> string list \<Rightarrow> string \<Rightarrow> bool" where
  \<comment> \<open>\<open>patterns\<close> is the ini option \<open>python_files\<close>\<close>
  "is_test_path fs patterns path =
     (if has_infix ''::'' path then True
      else if fs_isfile fs path then True
      else if \<not> fs_isdir fs path then False
      else list_ex (list_ex (\<lambda>name. list_ex (fs_fnmatch fs name) patterns)) (fs_walk fs path))"

datatype usage_error = UsageError

definition timeline_dir :: "file_system \<Rightarrow> string list \<Rightarrow> string \<Rightarrow> cli \<Rightarrow> usage_error + string option" where
  "timeline_dir fs patterns invoked_in c =
     (case cli_timeline c of
        None \<Rightarrow> Inr None
      | Some d \<Rightarrow>
          if d \<noteq> [] \<and> is_test_path fs patterns d then Inl UsageError
          else Inr (Some (if d \<noteq> [] then d else invoked_in)))"

definition configure ::
    "file_system \<Rightarrow> string list \<Rightarrow> string \<Rightarrow> cli \<Rightarrow> overrides \<Rightarrow> usage_error option \<times> overrides" where
  \<comment> \<open>\<open>pytest_configure\<close>: the error it raises, and the overrides it leaves either way\<close>
  "configure fs patterns invoked_in c ov =
     (let ov = ov\<lparr>ov_seeds := cli_seeds c, ov_replay := cli_replay c, ov_shrink := cli_shrink c\<rparr> in
      if cli_shrink_budget c < 1 then (Some UsageError, ov)
      else let ov = ov\<lparr>ov_shrink_budget := cli_shrink_budget c\<rparr> in
      if cli_jobs c < 1 then (Some UsageError, ov)
      else let ov = ov\<lparr>ov_jobs := cli_jobs c\<rparr> in
      if (case cli_pct_depth c of Some depth \<Rightarrow> depth < 1 | None \<Rightarrow> False) then (Some UsageError, ov)
      else if cli_policy c = Some ''pct'' \<and> cli_jobs c > 1 then (Some UsageError, ov)
      else let ov = ov\<lparr>ov_policy := cli_policy c, ov_pct_depth := cli_pct_depth c\<rparr> in
      case timeline_dir fs patterns invoked_in c of
        Inl e \<Rightarrow> (Some e, ov)
      | Inr d \<Rightarrow> (None, ov\<lparr>ov_timeline_dir := d, ov_sim_tests := 0, ov_seeds_explored := 0\<rparr>))"

definition unconfigure :: "overrides \<Rightarrow> overrides" where
  "unconfigure ov =
     ov\<lparr>ov_seeds := None, ov_replay := None, ov_shrink := False, ov_shrink_budget := DEFAULT_BUDGET,
       ov_jobs := 1, ov_policy := None, ov_pct_depth := None, ov_timeline_dir := None, ov_node_id := None\<rparr>"

definition runtest_setup :: "string \<Rightarrow> overrides \<Rightarrow> overrides" where
  "runtest_setup nodeid ov = ov\<lparr>ov_node_id := Some nodeid\<rparr>"

definition runtest_teardown :: "overrides \<Rightarrow> overrides" where
  "runtest_teardown ov = ov\<lparr>ov_node_id := None\<rparr>"

definition terminal_summary :: "overrides \<Rightarrow> (nat \<times> string \<times> nat) option" where
  \<comment> \<open>the three parts of the summary line, if there is one\<close>
  "terminal_summary ov =
     (if ov_sim_tests ov = 0 then None
      else Some (ov_sim_tests ov, if ov_sim_tests ov = 1 then ''sim test'' else ''sim tests'', ov_seeds_explored ov))"

section \<open>The decorator\<close>

record decorated =
  dc_seeds :: int
  dc_trace_tail :: int
  dc_policy :: string
  dc_pct_depth :: int

definition sim_test :: "decorated \<Rightarrow> exn option" where
  \<comment> \<open>what decorating raises\<close>
  "sim_test d =
     (if dc_seeds d < 1 then Some ValueError
      else if dc_policy d \<notin> set POLICIES then Some ValueError
      else None)"

definition worker_workload :: "bool \<Rightarrow> string option \<Rightarrow> string \<Rightarrow> exn + string" where
  \<comment> \<open>the file to load in a worker; the first argument: the test takes arguments\<close>
  "worker_workload takes_arguments sourcefile qualname =
     (if takes_arguments then Inl TypeError
      else case sourcefile of
        None \<Rightarrow> Inl TypeError
      | Some file \<Rightarrow> if CHR ''.'' \<in> set qualname then Inl TypeError else Inr file)"

definition seed_set :: "overrides \<Rightarrow> decorated \<Rightarrow> int list" where
  "seed_set ov d =
     (case ov_replay ov of
        Some seed \<Rightarrow> [seed]
      | None \<Rightarrow> (case ov_seeds ov of Some n \<Rightarrow> [0..n - 1] | None \<Rightarrow> [0..dc_seeds d - 1]))"

definition effective :: "overrides \<Rightarrow> decorated \<Rightarrow> explore_options" where
  "effective ov d =
     \<lparr>eo_trace_tail = dc_trace_tail d, eo_shrink = ov_shrink ov, eo_shrink_budget = ov_shrink_budget ov,
      eo_jobs = ov_jobs ov,
      eo_policy = (case ov_policy ov of None \<Rightarrow> dc_policy d | Some p \<Rightarrow> p),
      eo_pct_depth = (case ov_pct_depth ov of None \<Rightarrow> dc_pct_depth d | Some n \<Rightarrow> n)\<rparr>"

record 'd failure_note =
  fn_report :: "'d seed_report"
  fn_test_id :: "string option"
  fn_timeline :: "string option"
  fn_timeline_error :: "string option"

datatype 'd verdict = Passed | Raised exn | Failed failure "'d failure_note"

definition wrapper ::
    "'d workload \<Rightarrow> exn + string \<Rightarrow> batch_failure option \<Rightarrow> ('d seed_report \<Rightarrow> string \<Rightarrow> string + string) \<Rightarrow>
     decorated \<Rightarrow> overrides \<Rightarrow> 'd verdict \<times> overrides" where
  \<comment> \<open>a decorated test that is called; \<open>write\<close> is \<open>write_timeline\<close>, an \<open>OSError\<close>'s text or a path\<close>
  "wrapper W reachable found write d ov =
     (let seeds = seed_set ov d in
      if length seeds < 1 then (Raised ValueError, ov)
      else case (if ov_jobs ov > 1 \<and> length seeds > 1 then reachable else Inr []) of
        Inl e \<Rightarrow> (Raised e, ov)
      | Inr _ \<Rightarrow>
          (case explore W (effective ov d) found seeds of
             Inl e \<Rightarrow> (Raised e, ov)
           | Inr rep \<Rightarrow>
               let ov = ov\<lparr>ov_sim_tests := ov_sim_tests ov + 1\<rparr> in
               (case rep of
                  None \<Rightarrow> (Passed, ov\<lparr>ov_seeds_explored := ov_seeds_explored ov + length seeds\<rparr>)
                | Some r \<Rightarrow>
                    let ov = ov\<lparr>ov_seeds_explored := ov_seeds_explored ov + sr_seeds_passed r + 1\<rparr>;
                        (path, problem) = (case ov_timeline_dir ov of
                            None \<Rightarrow> (None, None)
                          | Some dir \<Rightarrow> (case write r dir of Inr p \<Rightarrow> (Some p, None) | Inl e \<Rightarrow> (None, Some e)))
                    in (Failed (sr_exception r)
                          \<lparr>fn_report = r, fn_test_id = ov_node_id ov, fn_timeline = path, fn_timeline_error = problem\<rparr>, ov))))"

section \<open>What a session runs\<close>

text \<open>
  A session that passed \<open>configure\<close> reports no option error later, unless a decorator asks for PCT
  with a depth below 1 or in a session with several jobs: \<open>configure\<close> sees the command line alone.
\<close>

lemma configured_options:
  assumes "configure fs patterns invoked_in c ov0 = (None, ov)" and "sim_test d = None"
  shows "0 < eo_jobs (effective ov d)" "1 \<le> eo_shrink_budget (effective ov d)"
    "valid_options (effective ov d) \<longleftrightarrow> eo_policy (effective ov d) \<in> set POLICIES \<and>
       (eo_policy (effective ov d) = ''pct'' \<longrightarrow> 1 \<le> eo_pct_depth (effective ov d))"
    "cli_pct_depth c \<noteq> None \<Longrightarrow> 1 \<le> eo_pct_depth (effective ov d)"
    "cli_policy c = Some ''pct'' \<Longrightarrow> eo_jobs (effective ov d) = 1"
  using assms by (auto simp: configure_def effective_def valid_options_def Let_def split: if_splits sum.splits option.splits)

definition expected_verdict :: "overrides \<Rightarrow> ('d seed_report \<Rightarrow> string \<Rightarrow> string + string) \<Rightarrow> 'd seed_report \<Rightarrow> 'd verdict" where
  "expected_verdict ov write r = Failed (sr_exception r)
     \<lparr>fn_report = r, fn_test_id = ov_node_id ov,
      fn_timeline = (case ov_timeline_dir ov of None \<Rightarrow> None
        | Some dir \<Rightarrow> (case write r dir of Inr p \<Rightarrow> Some p | Inl _ \<Rightarrow> None)),
      fn_timeline_error = (case ov_timeline_dir ov of None \<Rightarrow> None
        | Some dir \<Rightarrow> (case write r dir of Inr _ \<Rightarrow> None | Inl e \<Rightarrow> Some e))\<rparr>"

lemma wrapper_eq:
  assumes "seed_set ov d \<noteq> []" and "ov_jobs ov \<le> 1"
  shows "fst (wrapper W reachable found write d ov) =
    (case explore W (effective ov d) found (seed_set ov d) of
       Inl e \<Rightarrow> Raised e | Inr None \<Rightarrow> Passed | Inr (Some r) \<Rightarrow> expected_verdict ov write r)"
  using assms by (auto simp: wrapper_def expected_verdict_def Let_def split: sum.split option.split)

section \<open>Replaying what a report prints\<close>

definition replay_session :: "'d seed_report \<Rightarrow> string option \<Rightarrow> overrides" where
  \<comment> \<open>the session of the command in the report: \<open>--simloop-replay=SEED\<close> and \<open>replay_options\<close>\<close>
  "replay_session r node =
     overrides_init\<lparr>ov_replay := Some (sr_seed r),
       ov_policy := map_option pr_name (sr_policy r),
       ov_pct_depth := (case sr_policy r of None \<Rightarrow> None
         | Some p \<Rightarrow> if pr_depth p \<noteq> DEFAULT_PCT_DEPTH then Some (pr_depth p) else None),
       ov_node_id := node\<rparr>"

text \<open>
  The command says nothing of what it takes for a default. It reproduces the run when the
  decorator's own arguments fill those gaps the way the session did.
\<close>

definition gaps_filled :: "overrides \<Rightarrow> decorated \<Rightarrow> bool" where
  "gaps_filled ov d \<longleftrightarrow>
     (let opts = effective ov d in
      (eo_policy opts = ''random'' \<longrightarrow> dc_policy d = ''random'') \<and>
      (eo_policy opts = ''pct'' \<longrightarrow> eo_pct_depth opts = DEFAULT_PCT_DEPTH \<longrightarrow> dc_pct_depth d = DEFAULT_PCT_DEPTH))"

lemma seed_policy_random: "eo_policy opts = ''random'' \<Longrightarrow> seed_policy W opts seed = None"
  by (simp add: seed_policy_def policy_for_def)

lemma sr_policy_expected: "sr_policy (expected_report W opts seed passed last_pass) = seed_policy W opts seed"
  by (simp add: expected_report_def Let_def)

lemma expected_report_replay:
  assumes "seed_policy W opts' = seed_policy W opts" and "eo_shrink opts' = False" and "eo_trace_tail opts' = eo_trace_tail opts"
  shows "expected_report W opts' seed 0 [] =
    (expected_report W opts seed passed last_pass)\<lparr>sr_seeds_passed := 0, sr_divergence := None, sr_shrunk := None\<rparr>"
proof -
  have "seed_facts W opts' = seed_facts W opts" by (simp add: fun_eq_iff seed_facts_def assms(1))
  then show ?thesis by (simp add: expected_report_def assms Let_def diff_traces_def)
qed

lemma sr_seed_expected: "sr_seed (expected_report W opts seed passed last_pass) = seed"
  by (simp add: expected_report_def Let_def)

lemma replay_effective:
  assumes "gaps_filled ov d" and "valid_options (effective ov d)" and "sr_policy r = seed_policy W (effective ov d) seed"
  shows "seed_policy W (effective (replay_session r node) d) = seed_policy W (effective ov d)"
    "valid_options (effective (replay_session r node) d)" "eo_jobs (effective (replay_session r node) d) = 1"
    "eo_shrink (effective (replay_session r node) d) = False"
    "eo_trace_tail (effective (replay_session r node) d) = eo_trace_tail (effective ov d)"
proof -
  let ?o = "effective ov d" and ?r = "effective (replay_session r node) d"
  show "eo_jobs ?r = 1" "eo_shrink ?r = False" "eo_trace_tail ?r = eo_trace_tail ?o"
    by (simp_all add: effective_def replay_session_def overrides_init_def)
  have "eo_policy ?o = ''random'' \<or> eo_policy ?o = ''pct''" using assms(2) by (auto simp: valid_options_def POLICIES_def)
  then have "seed_policy W ?r = seed_policy W ?o \<and> valid_options ?r"
  proof
    assume p: "eo_policy ?o = ''random''"
    then have "sr_policy r = None" using assms(3) by (simp add: seed_policy_random)
    then have "eo_policy ?r = ''random''" using assms(1) p by (simp add: effective_def replay_session_def overrides_init_def gaps_filled_def Let_def)
    with p show ?thesis by (simp add: fun_eq_iff seed_policy_random valid_options_def POLICIES_def)
  next
    assume p: "eo_policy ?o = ''pct''"
    then obtain q where q: "sr_policy r = Some q" "pr_name q = ''pct''" "pr_depth q = eo_pct_depth ?o"
      using assms(3) by (auto simp: seed_policy_def policy_for_def)
    then have "eo_policy ?r = ''pct'' \<and> eo_pct_depth ?r = eo_pct_depth ?o"
      using assms(1) p by (auto simp: effective_def replay_session_def overrides_init_def gaps_filled_def Let_def)
    with p assms(2) show ?thesis by (simp add: fun_eq_iff seed_policy_def valid_options_def POLICIES_def)
  qed
  then show "seed_policy W ?r = seed_policy W ?o" "valid_options ?r" by blast+
qed

lemma wrapper_failed:
  assumes "valid_options (effective ov d)" and "ov_jobs ov = 1"
    and "fst (wrapper W reachable found write d ov) = Failed failure nt"
  obtains i last_pass where "index_where (seed_fails W (effective ov d)) (seed_set ov d) = Some i"
    and "fn_report nt = expected_report W (effective ov d) (seed_set ov d ! i) i last_pass"
    and "failure = sr_exception (fn_report nt)" and "fn_test_id nt = ov_node_id ov"
    and "sr_policy (fn_report nt) = seed_policy W (effective ov d) (seed_set ov d ! i)"
proof -
  have jobs: "eo_jobs (effective ov d) = 1" using assms(2) by (simp add: effective_def)
  have seeds: "seed_set ov d \<noteq> []" using assms(3) by (auto simp: wrapper_def Let_def)
  obtain r where r: "explore W (effective ov d) found (seed_set ov d) = Inr (Some r)" "fn_report nt = r"
    "failure = sr_exception r" "fn_test_id nt = ov_node_id ov"
    using assms(2,3) wrapper_eq [OF seeds, of W reachable found "write"]
    by (auto simp: expected_verdict_def split: sum.splits option.splits)
  note e = r(1) [unfolded explore_sequential_eq [OF assms(1) jobs]]
  obtain i where i: "index_where (seed_fails W (effective ov d)) (seed_set ov d) = Some i"
    using e by (cases "index_where (seed_fails W (effective ov d)) (seed_set ov d)") simp_all
  let ?last = "if i = 0 then [] else rf_trace (seed_facts W (effective ov d) (seed_set ov d ! (i - 1)))"
  have rep: "r = expected_report W (effective ov d) (seed_set ov d ! i) i ?last"
    using e i by (cases "eo_shrink (effective ov d) \<and> eo_shrink_budget (effective ov d) < 1") simp_all
  show ?thesis
    by (rule that [OF i]) (simp_all add: r(2-4) rep sr_policy_expected)
qed

text \<open>
  When a sequential session failed with report \<open>r\<close>, the session of the command it prints fails with
  the same exception, and its report has the same seed, trace, hash, pending tasks and scheduling
  policy, PCT horizon included. Theory \<open>SimReport\<close> gets from the printed text to that session.
\<close>

lemma replay_session_reproduces_failure:
  assumes "gaps_filled ov d" and "valid_options (effective ov d)" and "ov_jobs ov = 1"
    and "fst (wrapper W reachable found write d ov) = Failed failure nt"
  shows "case fst (wrapper W reachable' found' write d (replay_session (fn_report nt) node)) of
      Failed failure' nt2 \<Rightarrow> failure' = failure \<and> fn_test_id nt2 = node \<and> fn_report nt2 =
        (fn_report nt)\<lparr>sr_seeds_passed := 0, sr_divergence := None, sr_shrunk := None\<rparr>
    | _ \<Rightarrow> False"
proof -
  let ?o = "effective ov d"
  obtain i last_pass where i: "index_where (seed_fails W ?o) (seed_set ov d) = Some i"
      "fn_report nt = expected_report W ?o (seed_set ov d ! i) i last_pass"
    and failure: "failure = sr_exception (fn_report nt)"
    and policy: "sr_policy (fn_report nt) = seed_policy W ?o (seed_set ov d ! i)"
    using wrapper_failed [OF assms(2-4)] by metis
  let ?seed = "seed_set ov d ! i" and ?s = "replay_session (fn_report nt) node"
  have seed: "sr_seed (fn_report nt) = ?seed" by (simp add: i(2) sr_seed_expected)
  note eff = replay_effective [OF assms(1,2) policy, of node]
  have set: "seed_set ?s d = [?seed]" by (simp add: seed_set_def replay_session_def seed)
  have facts: "seed_facts W (effective ?s d) = seed_facts W ?o" by (simp add: fun_eq_iff seed_facts_def eff(1))
  define r' where "r' = (fn_report nt)\<lparr>sr_seeds_passed := 0, sr_divergence := None, sr_shrunk := None\<rparr>"
  have r': "expected_report W (effective ?s d) ?seed 0 [] = r'"
    unfolding r'_def expected_report_replay [OF eff(1,4,5), of ?seed i last_pass] i(2) [symmetric] by (rule refl)
  have "index_where (seed_fails W (effective ?s d)) [?seed] = Some 0"
    using i(1) by (simp add: index_where_Some seed_fails_def facts)
  then have "explore W (effective ?s d) found' (seed_set ?s d) = Inr (Some r')"
    unfolding explore_sequential_eq [OF eff(2,3)] set by (simp add: eff(4) r')
  moreover have ne: "seed_set ?s d \<noteq> []" by (simp add: set)
  moreover have one: "ov_jobs ?s \<le> 1" by (simp add: replay_session_def overrides_init_def)
  ultimately have "fst (wrapper W reachable' found' write d ?s) = expected_verdict ?s write r'"
    using wrapper_eq [OF ne one, of W reachable' found' "write"] by simp
  then show ?thesis unfolding failure r'_def expected_verdict_def by (simp add: replay_session_def)
qed

text \<open>
  Where the session overrode a decorator back to a default, the command loses it: here
  \<open>--simloop-pct-depth=3\<close> over a decorator's depth 5, and \<open>--simloop-policy=random\<close> over \<open>pct\<close>.
\<close>

lemma replay_command_forgets_override:
  fixes W :: "'d workload"
  defines "d \<equiv> \<lparr>dc_seeds = 10, dc_trace_tail = 20, dc_policy = ''pct'', dc_pct_depth = 5\<rparr>"
  shows "let ov = overrides_init\<lparr>ov_pct_depth := Some 3\<rparr> in
      sr_policy r = seed_policy W (effective ov d) 1 \<longrightarrow>
      map_option pr_depth (seed_policy W (effective ov d) 1) = Some 3 \<and>
      map_option pr_depth (seed_policy W (effective (replay_session r node) d) 1) = Some 5"
    "let ov = overrides_init\<lparr>ov_policy := Some ''random''\<rparr> in
      sr_policy r = seed_policy W (effective ov d) 1 \<longrightarrow>
      seed_policy W (effective ov d) 1 = None \<and>
      seed_policy W (effective (replay_session r node) d) 1 \<noteq> None"
  by (auto simp: d_def Let_def effective_def replay_session_def overrides_init_def seed_policy_def policy_for_def
      DEFAULT_PCT_DEPTH_def)

end
