(* ===== verification/SimFormat.thy ===== *)
theory SimFormat
  imports SimText
begin

text \<open>
  Python's number and text formatting, as the reports and the timeline page use it: grouped digits
  (\<open>:,\<close>), fixed decimals (\<open>:.4f\<close>, correctly rounded with ties to even), padding (\<open>:<8\<close>), \<open>repr\<close> of
  a text, \<open>html.escape\<close>, and \<open>int\<close> on a text. Characters are bytes, so what \<open>repr\<close> does above code
  point 255 is outside the model.
\<close>

abbreviation quote :: char where "quote \<equiv> CHR 0x27"

abbreviation dquote :: char where "dquote \<equiv> CHR 0x22"

section \<open>Printing\<close>

definition zfill :: "nat \<Rightarrow> string \<Rightarrow> string" where
  "zfill k s = replicate (k - length s) (CHR ''0'') @ s"

definition ljust :: "nat \<Rightarrow> string \<Rightarrow> string" where
  "ljust k s = s @ replicate (k - length s) (CHR '' '')"

definition rjust :: "nat \<Rightarrow> string \<Rightarrow> string" where
  "rjust k s = replicate (k - length s) (CHR '' '') @ s"

fun group_digits :: "nat \<Rightarrow> string" where
  "group_digits n =
     (if n < 1000 then str_nat n else group_digits (n div 1000) @ CHR '','' # zfill 3 (str_nat (n mod 1000)))"

declare group_digits.simps [simp del]

definition str_commas :: "int \<Rightarrow> string" where
  "str_commas i = (if i < 0 then CHR ''-'' # group_digits (nat (- i)) else group_digits (nat i))"

definition round_half_even :: "rat \<Rightarrow> int" where
  "round_half_even x =
     (let f = \<lfloor>x\<rfloor>; r = x - of_int f in if r < 1 / 2 \<or> (r = 1 / 2 \<and> even f) then f else f + 1)"

definition str_fixed :: "nat \<Rightarrow> rat \<Rightarrow> string" where
  "str_fixed d x =
     (let n = nat (round_half_even (\<bar>x\<bar> * 10 ^ d)) in
      (if x < 0 then ''-'' else []) @ str_nat (n div 10 ^ d) @ CHR ''.'' # zfill d (str_nat (n mod 10 ^ d)))"

definition hex_digit :: "nat \<Rightarrow> char" where
  "hex_digit d = (if d < 10 then digit_char d else char_of (87 + d))"

definition repr_char :: "char \<Rightarrow> char \<Rightarrow> string" where
  "repr_char q c =
     (let n = of_char c :: nat in
      if c = q \<or> c = CHR 0x5C then [CHR 0x5C, c]
      else if n = 9 then [CHR 0x5C, CHR ''t'']
      else if n = 10 then [CHR 0x5C, CHR ''n'']
      else if n = 13 then [CHR 0x5C, CHR ''r'']
      else if n < 32 \<or> (127 \<le> n \<and> n \<le> 160) \<or> n = 173
        then [CHR 0x5C, CHR ''x'', hex_digit (n div 16), hex_digit (n mod 16)]
      else [c])"

definition str_repr :: "string \<Rightarrow> string" where
  "str_repr s =
     (let q = (if quote \<in> set s \<and> dquote \<notin> set s then dquote else quote)
      in q # concat (map (repr_char q) s) @ [q])"

fun join :: "string \<Rightarrow> string list \<Rightarrow> string" where
  "join sep [] = []"
| "join sep [x] = x"
| "join sep (x # y # zs) = x @ sep @ join sep (y # zs)"

definition html_char :: "char \<Rightarrow> string" where
  "html_char c =
     (if c = CHR 0x26 then ''&amp;'' else if c = CHR ''<'' then ''&lt;'' else if c = CHR ''>'' then ''&gt;''
      else if c = dquote then ''&quot;'' else if c = quote then ''&#x27;'' else [c])"

definition html_escape :: "string \<Rightarrow> string" where
  "html_escape s = concat (map html_char s)"

section \<open>Reading\<close>

definition read_int :: "string \<Rightarrow> int option" where
  \<comment> \<open>\<open>int(text)\<close>, but for the blanks and underscores it also takes\<close>
  "read_int s =
     (let (neg, ds) = (case s of c # cs \<Rightarrow> if c = CHR ''-'' then (True, cs) else if c = CHR ''+'' then (False, cs) else (False, s)
                        | [] \<Rightarrow> (False, []))
      in if ds \<noteq> [] \<and> list_all is_digit ds then Some (if neg then - int (parse_nat ds) else int (parse_nat ds)) else None)"

section \<open>Facts\<close>

lemma digit_chars:
  "is_digit c \<Longrightarrow> c \<noteq> quote \<and> c \<noteq> CHR '' '' \<and> c \<noteq> CHR ''='' \<and> c \<noteq> CHR ''+'' \<and> c \<noteq> CHR ''-'' \<and> c \<noteq> CHR 0x0A"
  by (auto simp: is_digit_def)

lemma str_int_plain:
  "c \<in> set (str_int i) \<Longrightarrow> c \<noteq> quote \<and> c \<noteq> CHR '' '' \<and> c \<noteq> CHR ''='' \<and> c \<noteq> CHR 0x0A"
  by (auto simp: str_int_def dest!: str_nat_digits digit_chars split: if_splits)

lemma str_int_nonempty [simp]: "str_int i \<noteq> []"
  by (simp add: str_int_def)

lemma read_str_int [simp]: "read_int (str_int i) = Some i"
proof -
  have pos: "read_int (str_nat n) = Some (int n)" for n
  proof -
    obtain c cs where s: "str_nat n = c # cs" using str_nat_nonempty [of n] by (cases "str_nat n") auto
    then have "is_digit c" "list_all is_digit (str_nat n)" using str_nat_digits [of _ n] by (auto simp: list_all_iff)
    then show ?thesis using parse_str_nat [of n] digit_chars [of c] unfolding s by (simp add: read_int_def)
  qed
  have "list_all is_digit (str_nat n)" for n using str_nat_digits by (auto simp: list_all_iff)
  then have "read_int (CHR ''-'' # str_nat n) = Some (- int n)" for n by (simp add: read_int_def)
  with pos show ?thesis by (simp add: str_int_def)
qed

lemma round_half_even_near: "\<bar>of_int (round_half_even x) - x\<bar> \<le> 1 / 2"
proof -
  define d where "d = x - of_int \<lfloor>x\<rfloor>"
  have "0 \<le> d" "d \<le> 1" unfolding d_def by linarith+
  moreover have "of_int (round_half_even x) - x = (if d < 1 / 2 \<or> (d = 1 / 2 \<and> even \<lfloor>x\<rfloor>) then - d else 1 - d)"
    by (simp add: round_half_even_def d_def Let_def)
  ultimately show ?thesis by (auto simp: abs_le_iff)
qed

lemma join_Cons: "ls \<noteq> [] \<Longrightarrow> join sep (x # ls) = x @ sep @ join sep ls"
  by (cases ls) auto

lemma join_ends: "\<exists>rest. join sep (x # ls) = x @ rest \<and> (rest = [] \<or> take (length sep) rest = sep)"
  by (cases ls) auto

end
