(* ===== verification/SimReport.thy ===== *)
theory SimReport
  imports SimSession SimFormat
begin

text \<open>
  The text of a failure report (\<open>SeedReport.render\<close> of \<open>src/simloop/_explore.py\<close>) and the way back
  from it: the command it prints, split into words as a shell does and read as the options
  \<open>pytest_addoption\<close> declares. The last section puts the two together: whoever pastes the printed
  command gets the failure again.
\<close>

section \<open>The printed report\<close>

definition KEPT_SHOWN :: nat where "KEPT_SHOWN = 12"

definition format_event :: "trace_event \<Rightarrow> string" where
  "format_event e =
     (let host = (if ev_host e \<noteq> [] then ev_host e @ ''  '' else []) in
      ''  [t='' @ str_fixed 4 (ev_when e) @ ''] '' @ ljust 8 (kind_name (ev_kind e)) @
      '' seq='' @ str_int (ev_seq e) @ ''  '' @ host @ ev_label e)"

definition render_policy :: "policy_run \<Rightarrow> string" where
  "render_policy p =
     (case pr_horizon p of
        None \<Rightarrow> ''policy: '' @ pr_name p @ '' (depth '' @ str_int (pr_depth p) @
          ''); this seed ran the default schedule, which is what sized the horizon''
      | Some horizon \<Rightarrow> ''policy: '' @ pr_name p @ '' (depth '' @ str_int (pr_depth p) @
          '', horizon '' @ str_commas horizon @ '')'')"

definition describe_next :: "trace_event option \<Rightarrow> string \<Rightarrow> string" where
  "describe_next e subject =
     (case e of
        None \<Rightarrow> subject @ '' ended''
      | Some e \<Rightarrow> subject @ '' ran '' @ (if ev_label e \<noteq> [] then ev_label e else kind_name (ev_kind e)))"

definition render_divergence :: "divergence \<Rightarrow> string list" where
  "render_divergence d =
     (if passing_context d = [] \<and> failing_context d = [] then [''schedules diverge immediately'']
      else
        let noun = (if prefix_len d = 1 then ''event'' else ''events'') in
        [''runs agree for '' @ str_commas (int (prefix_len d)) @ '' '' @ noun @ ''; '' @
           describe_next (passing_next d) ''passing then'' @ '', '' @
           describe_next (failing_next d) ''failing''] @
        (case anchor_name d of None \<Rightarrow> [] | Some a \<Rightarrow> [''context anchored at the '' @ a]) @
        [''passing run:''] @ map format_event (passing_context d) @
        [''failing run:''] @ map format_event (failing_context d))"

definition render_shrink :: "shrink_result \<Rightarrow> string list" where
  "render_shrink r =
     (let noun = (if original_len r = 1 then ''step'' else ''steps'');
          runs = (if oracle_runs r = 1 then ''run'' else ''runs'');
          head = ''schedule shrink (experimental): '' @ str_commas (int (original_len r)) @ '' '' @ noun @
            '' recorded, '' @ str_commas (int (oracle_runs r)) @ '' '' @ runs @ '' to minimize''
      in case sh_kept r of
           [] \<Rightarrow> [head, ''minimized: FIFO throughout'']
         | first # later \<Rightarrow>
             let final = last (first # later);
                 shown = zip (take KEPT_SHOWN (sh_kept r)) (sh_labels r);
                 hidden = int (length (sh_kept r)) - int KEPT_SHOWN;
                 span = (if first = final then ''step '' @ str_commas (int first)
                         else ''steps '' @ str_commas (int first) @ ''-'' @ str_commas (int final))
             in [head, ''minimized: FIFO except '' @ span] @
                map (\<lambda>(step, label). ''  step '' @ str_commas (int step) @ ''  '' @ label) shown @
                (if hidden > 0 then [''  ... and '' @ str_commas hidden @ '' more''] else []))"

definition replay_line :: "'d seed_report \<Rightarrow> string \<Rightarrow> string" where
  "replay_line r test_id =
     ''replay: pytest '' @ quote # test_id @ quote # '' --simloop-replay='' @ str_int (sr_seed r) @
     (case sr_policy r of None \<Rightarrow> [] | Some p \<Rightarrow> replay_options p)"

definition pending_line :: "pending_task \<Rightarrow> string" where
  "pending_line t = ''  '' @ pt_host t @ ''  Task '' @ str_repr (pt_name t) @
     ''  awaiting '' @ pt_awaiting t @ ''  at '' @ pt_where t"

definition report_lines :: "'d seed_report \<Rightarrow> string option \<Rightarrow> string option \<Rightarrow> string option \<Rightarrow> string list" where
  "report_lines r test_id timeline timeline_error =
     [''simloop: failed at seed '' @ str_int (sr_seed r) @ '' ('' @ str_nat (sr_seeds_passed r) @ '' seeds passed first)''] @
     (case test_id of None \<Rightarrow> [] | Some t \<Rightarrow> [replay_line r t]) @
     (case timeline of
        Some path \<Rightarrow> [''timeline: '' @ path]
      | None \<Rightarrow> (case timeline_error of None \<Rightarrow> [] | Some e \<Rightarrow> [''timeline not written: '' @ e])) @
     (case sr_policy r of None \<Rightarrow> [] | Some p \<Rightarrow> [render_policy p]) @
     (if sr_trace_events r = [] then []
      else [[], ''last '' @ str_nat (length (sr_trace_events r)) @ '' trace events:''] @
        map format_event (sr_trace_events r)) @
     (case sr_divergence r of None \<Rightarrow> [] | Some d \<Rightarrow> [] # render_divergence d) @
     (case sr_shrunk r of None \<Rightarrow> [] | Some k \<Rightarrow> [] # render_shrink k) @
     (if sr_pending r = [] then [] else ''pending tasks by host:'' # map pending_line (sr_pending r))"

definition render :: "'d seed_report \<Rightarrow> string option \<Rightarrow> string option \<Rightarrow> string option \<Rightarrow> string" where
  "render r test_id timeline timeline_error = join [newline] (report_lines r test_id timeline timeline_error)"

section \<open>Reading a command\<close>

fun shell_scan :: "bool \<Rightarrow> string option \<Rightarrow> string \<Rightarrow> string list option" where
  \<comment> \<open>a POSIX shell on text whose only special characters are blanks and single quotes; the first
      arguments: inside quotes, and the word read so far\<close>
  "shell_scan quoted acc [] =
     (if quoted then None else Some (case acc of None \<Rightarrow> [] | Some w \<Rightarrow> [w]))"
| "shell_scan True acc (c # s) =
     (let w = (case acc of None \<Rightarrow> [] | Some w \<Rightarrow> w) in
      if c = quote then shell_scan False (Some w) s else shell_scan True (Some (w @ [c])) s)"
| "shell_scan False acc (c # s) =
     (let w = (case acc of None \<Rightarrow> [] | Some w \<Rightarrow> w) in
      if c = quote then shell_scan True (Some w) s
      else if c = CHR '' '' then
        (case acc of None \<Rightarrow> shell_scan False None s | Some w \<Rightarrow> map_option ((#) w) (shell_scan False None s))
      else shell_scan False (Some (w @ [c])) s)"

definition shell_words :: "string \<Rightarrow> string list option" where
  "shell_words s = shell_scan False None s"

definition set_option :: "string \<Rightarrow> string \<Rightarrow> cli \<Rightarrow> cli option" where
  \<comment> \<open>the options with a value, as \<open>pytest_addoption\<close> declares them\<close>
  "set_option name v c =
     (if name = ''--simloop-seeds'' then map_option (\<lambda>n. c\<lparr>cli_seeds := Some n\<rparr>) (read_int v)
      else if name = ''--simloop-replay'' then map_option (\<lambda>n. c\<lparr>cli_replay := Some n\<rparr>) (read_int v)
      else if name = ''--simloop-shrink-budget'' then map_option (\<lambda>n. c\<lparr>cli_shrink_budget := n\<rparr>) (read_int v)
      else if name = ''--simloop-jobs'' then map_option (\<lambda>n. c\<lparr>cli_jobs := n\<rparr>) (read_int v)
      else if name = ''--simloop-policy'' then (if v \<in> set POLICIES then Some (c\<lparr>cli_policy := Some v\<rparr>) else None)
      else if name = ''--simloop-pct-depth'' then map_option (\<lambda>n. c\<lparr>cli_pct_depth := Some n\<rparr>) (read_int v)
      else if name = ''--simloop-timeline'' then Some (c\<lparr>cli_timeline := Some v\<rparr>)
      else None)"

definition split_equals :: "string \<Rightarrow> string \<times> string option" where
  "split_equals w =
     (takeWhile (\<lambda>c. c \<noteq> CHR ''='') w,
      if CHR ''='' \<in> set w then Some (tl (dropWhile (\<lambda>c. c \<noteq> CHR ''='') w)) else None)"

definition is_option :: "string \<Rightarrow> bool" where
  "is_option w \<longleftrightarrow> take 1 w = ''-''"

fun parse_args :: "string list \<Rightarrow> cli \<Rightarrow> (cli \<times> string list) option" where
  \<comment> \<open>simloop's options and the positional arguments, the options of pytest itself left out\<close>
  "parse_args [] c = Some (c, [])"
| "parse_args (w # ws) c =
     (if \<not> is_option w then map_option (\<lambda>(c, rest). (c, w # rest)) (parse_args ws c)
      else case split_equals w of
        (name, Some v) \<Rightarrow> Option.bind (set_option name v c) (parse_args ws)
      | (name, None) \<Rightarrow>
          if name = ''--simloop-shrink'' then parse_args ws (c\<lparr>cli_shrink := True\<rparr>)
          else (case ws of
              v # vs \<Rightarrow>
                if \<not> is_option v then Option.bind (set_option name v c) (parse_args vs)
                else if name = ''--simloop-timeline'' then parse_args ws (c\<lparr>cli_timeline := Some []\<rparr>)
                else None
            | [] \<Rightarrow> if name = ''--simloop-timeline'' then Some (c\<lparr>cli_timeline := Some []\<rparr>, []) else None))"

declare parse_args.simps(2) [simp del]

definition run_command ::
    "file_system \<Rightarrow> string list \<Rightarrow> string \<Rightarrow> string \<Rightarrow> (string list \<times> overrides) option" where
  \<comment> \<open>the tests a pasted command collects and the session it sets up, if it is accepted\<close>
  "run_command fs patterns invoked_in command =
     (case shell_words command of
        Some (program # arguments) \<Rightarrow>
          if program \<noteq> ''pytest'' then None
          else (case parse_args arguments cli_init of
              None \<Rightarrow> None
            | Some (c, tests) \<Rightarrow>
                (case configure fs patterns invoked_in c overrides_init of
                   (None, ov) \<Rightarrow> Some (tests, ov)
                 | _ \<Rightarrow> None))
      | _ \<Rightarrow> None)"

definition printed_command :: "string \<Rightarrow> string" where
  \<comment> \<open>what a reader copies: the second line, after its heading\<close>
  "printed_command text =
     drop (length ''replay: '') (takeWhile (\<lambda>c. c \<noteq> newline) (tl (dropWhile (\<lambda>c. c \<noteq> newline) text)))"


section \<open>A command reads back as it was printed\<close>

text \<open>Text a shell takes as it stands, and text it takes as it stands between quotes.\<close>

definition plain :: "string \<Rightarrow> bool" where
  "plain s \<longleftrightarrow> quote \<notin> set s \<and> CHR '' '' \<notin> set s"

definition quotable :: "string \<Rightarrow> bool" where
  "quotable s \<longleftrightarrow> quote \<notin> set s \<and> newline \<notin> set s \<and> s \<noteq> [] \<and> \<not> is_option s"

lemma scan_plain: "plain w \<Longrightarrow> shell_scan False (Some v) (w @ s) = shell_scan False (Some (v @ w)) s"
  by (induction w arbitrary: v) (auto simp: plain_def)

lemma scan_plain_end: "plain w \<Longrightarrow> shell_scan False (Some v) w = Some [v @ w]"
  using scan_plain [of w v "[]"] by simp

lemma scan_quoted: "quote \<notin> set w \<Longrightarrow> shell_scan True (Some v) (w @ quote # s) = shell_scan False (Some (v @ w)) s"
  by (induction w arbitrary: v) auto

lemma words_plain: "plain w \<Longrightarrow> w \<noteq> [] \<Longrightarrow> shell_scan False None (w @ CHR '' '' # s) = map_option ((#) w) (shell_scan False None s)"
  using scan_plain [of "tl w" "[hd w]" "CHR '' '' # s"] by (cases w) (auto simp: plain_def)

lemma words_plain_end: "plain w \<Longrightarrow> w \<noteq> [] \<Longrightarrow> shell_scan False None w = Some [w]"
  using scan_plain_end [of "tl w" "[hd w]"] by (cases w) (auto simp: plain_def)

lemma words_quoted:
  "quote \<notin> set w \<Longrightarrow> shell_scan False None (quote # w @ quote # CHR '' '' # s) = map_option ((#) w) (shell_scan False None s)"
  using scan_quoted [of w "[]" "CHR '' '' # s"] by simp

definition option_word :: "string \<Rightarrow> string \<Rightarrow> string" where
  "option_word name v = name @ CHR ''='' # v"

lemma plain_option: "plain name \<Longrightarrow> plain v \<Longrightarrow> plain (option_word name v)" and option_word_nonempty [simp]: "option_word name v \<noteq> []"
  by (auto simp: plain_def option_word_def)

lemma plain_str_int: "plain (str_int i)"
  by (auto simp: plain_def dest: str_int_plain)

lemma split_equals_option: "CHR ''='' \<notin> set name \<Longrightarrow> split_equals (option_word name v) = (name, Some v)"
  by (auto simp: split_equals_def option_word_def takeWhile_append dropWhile_append)

lemma parse_option:
  assumes "is_option name" and "CHR ''='' \<notin> set name"
  shows "parse_args (option_word name v # ws) c = Option.bind (set_option name v c) (parse_args ws)"
proof -
  have "is_option (option_word name v)" using assms(1) by (cases name) (auto simp: is_option_def option_word_def)
  then show ?thesis by (simp add: parse_args.simps(2) split_equals_option [OF assms(2)])
qed

lemma parse_positional: "\<not> is_option w \<Longrightarrow> parse_args (w # ws) c = map_option (\<lambda>(c, rest). (c, w # rest)) (parse_args ws c)"
  by (simp add: parse_args.simps(2))

definition replay_words :: "'d seed_report \<Rightarrow> string \<Rightarrow> string list" where
  "replay_words r node =
     [''pytest'', node, option_word ''--simloop-replay'' (str_int (sr_seed r))] @
     (case sr_policy r of None \<Rightarrow> []
      | Some p \<Rightarrow> option_word ''--simloop-policy'' (pr_name p) #
          (if pr_depth p \<noteq> DEFAULT_PCT_DEPTH then [option_word ''--simloop-pct-depth'' (str_int (pr_depth p))] else []))"

definition replay_cli :: "'d seed_report \<Rightarrow> cli" where
  "replay_cli r =
     cli_init\<lparr>cli_replay := Some (sr_seed r), cli_policy := map_option pr_name (sr_policy r),
       cli_pct_depth := (case sr_policy r of None \<Rightarrow> None
         | Some p \<Rightarrow> if pr_depth p \<noteq> DEFAULT_PCT_DEPTH then Some (pr_depth p) else None)\<rparr>"

text \<open>What the policy of a report is when the session's options were valid.\<close>

definition known_policy :: "'d seed_report \<Rightarrow> bool" where
  "known_policy r \<longleftrightarrow> (\<forall>p. sr_policy r = Some p \<longrightarrow> pr_name p \<in> set POLICIES \<and> 1 \<le> pr_depth p)"

lemma plain_policies: "name \<in> set POLICIES \<Longrightarrow> plain name \<and> newline \<notin> set name"
  by (auto simp: POLICIES_def plain_def)

lemma shell_reads_replay_line:
  assumes "quotable node" and "known_policy r"
  shows "shell_words (drop (length ''replay: '') (replay_line r node)) = Some (replay_words r node)"
proof -
  have names: "plain ''pytest''" "plain ''--simloop-replay''" "plain ''--simloop-policy''" "plain ''--simloop-pct-depth''"
    by (simp_all add: plain_def)
  let ?seed = "option_word ''--simloop-replay'' (str_int (sr_seed r))"
  let ?tail = "?seed @ (case sr_policy r of None \<Rightarrow> [] | Some p \<Rightarrow> replay_options p)"
  note seed = plain_option [OF names(2) plain_str_int]
  have tail: "shell_scan False None ?tail = Some (drop 2 (replay_words r node))"
  proof (cases "sr_policy r")
    case None
    then show ?thesis by (simp add: words_plain_end seed replay_words_def)
  next
    case (Some p)
    let ?policy = "option_word ''--simloop-policy'' (pr_name p)"
    let ?depth = "option_word ''--simloop-pct-depth'' (str_int (pr_depth p))"
    have "plain (pr_name p)" using assms(2) Some plain_policies by (auto simp: known_policy_def)
    note options = plain_option [OF names(3) this] plain_option [OF names(4) plain_str_int]
    have "replay_options p = CHR '' '' # ?policy @ (if pr_depth p \<noteq> DEFAULT_PCT_DEPTH then CHR '' '' # ?depth else [])"
      by (simp add: replay_options_def option_word_def)
    then show ?thesis using Some by (simp add: words_plain words_plain_end seed options replay_words_def)
  qed
  have "drop (length ''replay: '') (replay_line r node) = ''pytest'' @ CHR '' '' # quote # node @ quote # CHR '' '' # ?tail"
    by (simp add: replay_line_def option_word_def)
  moreover have "shell_scan False None (''pytest'' @ CHR '' '' # quote # node @ quote # CHR '' '' # ?tail) =
      Some (''pytest'' # node # drop 2 (replay_words r node))"
    using words_plain [OF names(1), of "quote # node @ quote # CHR '' '' # ?tail"] words_quoted [of node ?tail] assms(1) tail
    by (simp add: quotable_def)
  ultimately show ?thesis by (simp add: shell_words_def replay_words_def)
qed

lemma options_read_back:
  assumes "quotable node" and "known_policy r"
  shows "parse_args (tl (replay_words r node)) cli_init = Some (replay_cli r, [node])"
  using assms
  by (auto simp: replay_words_def replay_cli_def quotable_def known_policy_def parse_positional parse_option set_option_def
      is_option_def [of "c # cs" for c cs] cli_init_def split: option.split)


lemma printed_command_second_line:
  assumes "newline \<notin> set a" and "newline \<notin> set b" and "s = [] \<or> take 1 s = [newline]"
  shows "printed_command (a @ newline # b @ s) = drop (length ''replay: '') b"
proof -
  have "takeWhile (\<lambda>c. c \<noteq> newline) s = []" using assms(3) by (cases s) auto
  moreover have "dropWhile (\<lambda>c. c \<noteq> newline) (a @ newline # t) = newline # t" for t
    using assms(1) by (induction a) auto
  moreover have "takeWhile (\<lambda>c. c \<noteq> newline) (b @ t) = b @ takeWhile (\<lambda>c. c \<noteq> newline) t" for t
    using assms(2) by (induction b) auto
  ultimately show ?thesis by (simp add: printed_command_def)
qed

lemma printed_command_eq:
  assumes "quotable node" and "known_policy r"
  shows "printed_command (render r (Some node) timeline timeline_error) = drop (length ''replay: '') (replay_line r node)"
proof -
  let ?first = "''simloop: failed at seed '' @ str_int (sr_seed r) @ '' ('' @ str_nat (sr_seeds_passed r) @ '' seeds passed first)''"
  have "newline \<notin> set (str_int i)" "newline \<notin> set (str_nat n)" for i n
    using str_int_chars str_nat_digits digit_not_special by blast+
  moreover have "newline \<notin> set (replay_options p)" if "sr_policy r = Some p" for p
    using that assms(2) plain_policies calculation by (auto simp: known_policy_def replay_options_def)
  ultimately have first: "newline \<notin> set ?first" and line: "newline \<notin> set (replay_line r node)"
    using assms(1) by (auto simp: replay_line_def quotable_def split: option.split)
  obtain rest where "report_lines r (Some node) timeline timeline_error = ?first # replay_line r node # rest"
    by (simp add: report_lines_def)
  moreover obtain tail where "join [newline] (replay_line r node # rest) = replay_line r node @ tail"
      "tail = [] \<or> take 1 tail = [newline]"
    using join_ends [of "[newline]" "replay_line r node" rest] by auto
  ultimately have "render r (Some node) timeline timeline_error = ?first @ newline # replay_line r node @ tail"
    by (simp add: render_def)
  then show ?thesis using printed_command_second_line [OF first line \<open>tail = [] \<or> _\<close>] by (simp only:)
qed

lemma replay_session_configured:
  assumes "known_policy r"
  shows "\<exists>ov. configure fs patterns invoked_in (replay_cli r) overrides_init = (None, ov) \<and>
    runtest_setup node ov = replay_session r (Some node)"
  using assms
  by (auto simp: configure_def replay_cli_def cli_init_def overrides_init_def DEFAULT_BUDGET_def timeline_dir_def
      runtest_setup_def replay_session_def known_policy_def Let_def split: option.split)

definition note_text :: "'d failure_note \<Rightarrow> string" where
  \<comment> \<open>the note \<open>sim_test\<close> adds to the exception\<close>
  "note_text nt = render (fn_report nt) (fn_test_id nt) (fn_timeline nt) (fn_timeline_error nt)"

lemma wrapper_known_policy:
  assumes "valid_options (effective ov d)" and "ov_jobs ov = 1"
    and "fst (wrapper W reachable found write d ov) = Failed failure nt"
  shows "known_policy (fn_report nt)"
proof -
  obtain seed where "sr_policy (fn_report nt) = seed_policy W (effective ov d) seed"
    using wrapper_failed [OF assms] by metis
  then show ?thesis
    using assms(1) by (auto simp: known_policy_def seed_policy_def policy_for_def valid_options_def POLICIES_def split: if_splits)
qed

text \<open>
  C20. The replay command of a failure report works. When a sequential session failed, the second line
  of the note it adds is a command: split into words by a shell and read as pytest's options, it
  collects just the failing test, passes every check of the command line, and sets up a session in
  which the test fails with the same exception and a report with the same seed, trace, hash,
  pending tasks and scheduling policy, PCT horizon included. The test's id must survive single
  quotes, and the decorator's arguments must agree with what the command leaves out.
\<close>
theorem printed_replay_reproduces_failure:
  assumes "gaps_filled ov d" and "valid_options (effective ov d)" and "ov_jobs ov = 1"
    and "fst (wrapper W reachable found write d ov) = Failed failure nt"
    and "fn_test_id nt = Some node" and "quotable node"
  shows "\<exists>ov'. run_command fs patterns invoked_in (printed_command (note_text nt)) = Some ([node], ov') \<and>
    (case fst (wrapper W reachable' found' write d (runtest_setup node ov')) of
       Failed failure' nt' \<Rightarrow> failure' = failure \<and> fn_test_id nt' = Some node \<and> fn_report nt' =
         (fn_report nt)\<lparr>sr_seeds_passed := 0, sr_divergence := None, sr_shrunk := None\<rparr>
     | _ \<Rightarrow> False)"
proof -
  note policy = wrapper_known_policy [OF assms(2-4)]
  obtain ov' where ov': "configure fs patterns invoked_in (replay_cli (fn_report nt)) overrides_init = (None, ov')"
    "runtest_setup node ov' = replay_session (fn_report nt) (Some node)"
    using replay_session_configured [OF policy] by metis
  obtain ws where ws: "replay_words (fn_report nt) node = ''pytest'' # ws" by (simp add: replay_words_def)
  have "shell_words (printed_command (note_text nt)) = Some (''pytest'' # ws)"
    using printed_command_eq [OF assms(6) policy] shell_reads_replay_line [OF assms(6) policy]
    by (simp add: note_text_def assms(5) ws)
  moreover have "parse_args ws cli_init = Some (replay_cli (fn_report nt), [node])"
    using options_read_back [OF assms(6) policy] by (simp add: ws)
  ultimately have "run_command fs patterns invoked_in (printed_command (note_text nt)) = Some ([node], ov')"
    using ov'(1) by (simp add: run_command_def)
  with ov'(2) replay_session_reproduces_failure [OF assms(1-4)] show ?thesis by auto
qed

text \<open>
  A test id is put between single quotes as it is. A parametrised test whose id holds one prints a
  command that no shell accepts.
\<close>

lemma scan_unclosed: "quote \<notin> set w \<Longrightarrow> shell_scan True acc w = None"
  by (induction w arbitrary: acc) auto

lemma quoted_test_id_breaks_command:
  "sr_policy r = None \<Longrightarrow>
   run_command fs patterns invoked_in (drop (length ''replay: '') (replay_line r (''t.py::test_name[it'' @ quote # ''s]''))) = None"
  by (simp add: replay_line_def run_command_def shell_words_def scan_unclosed plain_str_int [unfolded plain_def])

definition demo_test :: decorated where
  "demo_test = \<lparr>dc_seeds = 10, dc_trace_tail = 20, dc_policy = ''random'', dc_pct_depth = 3\<rparr>"

definition demo_session :: overrides where
  "demo_session = runtest_setup ''t.py::test_demo'' overrides_init"

theorem printed_replay_reproduces_failure_witness:
  "\<exists>nt ov'. fst (wrapper demo_workload (Inr []) None (\<lambda>_ _. Inr []) demo_test demo_session) = Failed (''ValueError'', ''boom'') nt \<and>
     run_command \<lparr>fs_isfile = (\<lambda>_. False), fs_isdir = (\<lambda>_. False), fs_walk = (\<lambda>_. []), fs_fnmatch = (\<lambda>_ _. False)\<rparr> [] ''/''
       (printed_command (note_text nt)) = Some ([''t.py::test_demo''], ov') \<and>
     (case fst (wrapper demo_workload (Inr []) None (\<lambda>_ _. Inr []) demo_test (runtest_setup ''t.py::test_demo'' ov')) of
        Failed failure' nt' \<Rightarrow> failure' = (''ValueError'', ''boom'') | _ \<Rightarrow> False)"
proof -
  let ?opts = "effective demo_session demo_test"
  have set: "seed_set demo_session demo_test = [0, 1, 2, 3, 4, 5, 6, 7, 8, 9]"
    by (simp add: seed_set_def demo_session_def runtest_setup_def overrides_init_def demo_test_def upto_rec1)
  have valid: "valid_options ?opts" "gaps_filled demo_session demo_test" "eo_jobs ?opts = 1" "ov_jobs demo_session = 1" "\<not> eo_shrink ?opts"
    by (simp_all add: valid_options_def effective_def demo_session_def runtest_setup_def overrides_init_def demo_test_def
        POLICIES_def gaps_filled_def Let_def)
  have none: "seed_policy demo_workload ?opts s = None" for s
    by (rule seed_policy_random) (simp add: effective_def demo_session_def runtest_setup_def overrides_init_def demo_test_def)
  have first: "index_where (seed_fails demo_workload ?opts) (seed_set demo_session demo_test) = Some 2"
    by (simp add: set seed_fails_def seed_facts_def none demo_workload_def)
  let ?r = "expected_report demo_workload ?opts 2 2 (rf_trace (seed_facts demo_workload ?opts 1))"
  have r: "explore demo_workload ?opts None (seed_set demo_session demo_test) = Inr (Some ?r)"
    unfolding explore_sequential_eq [OF valid(1,3)] first unfolding set
    by (simp add: valid(5))
  have boom: "sr_exception ?r = (''ValueError'', ''boom'')"
    by (simp add: expected_report_def Let_def seed_facts_def none demo_workload_def)
  have "fst (wrapper demo_workload (Inr []) None (\<lambda>_ _. Inr []) demo_test demo_session) =
      expected_verdict demo_session (\<lambda>_ _. Inr []) ?r"
    using r wrapper_eq [of demo_session demo_test demo_workload "Inr []" None "\<lambda>_ _. Inr []"] valid(4) by (simp add: set)
  then obtain nt where nt: "fst (wrapper demo_workload (Inr []) None (\<lambda>_ _. Inr []) demo_test demo_session) = Failed (''ValueError'', ''boom'') nt"
    and id: "fn_test_id nt = Some ''t.py::test_demo''"
    using boom by (auto simp: expected_verdict_def demo_session_def runtest_setup_def)
  have quotable: "quotable ''t.py::test_demo''" by (simp add: quotable_def is_option_def)
  show ?thesis
    by (rule exI [of _ nt], use nt in simp,
      use printed_replay_reproduces_failure [OF valid(2,1,4) nt id quotable, of _ _ _ "Inr []" None] in \<open>force split: verdict.splits\<close>)
qed

end
