(* ===== verification/SimSurface.thy ===== *)
theory SimSurface
  imports SimNetState "HOL-Library.Word"
begin

unbundle bit_operations_syntax

text \<open>
  The edge of the simulation. From \<open>src/simloop/_loop.py\<close>: the fence, work submitted to an executor,
  the rules \<open>create_connection\<close> and \<open>create_server\<close> check before any packet moves, and sockets parked
  by \<open>sock_connect\<close>. From \<open>_tls.py\<close>: which context an \<open>ssl=\<close> argument asks for, and what happens to
  the connection underneath when a handshake ends. From \<open>_sim.py\<close>: the facade that hands a program
  the loop's own entropy and clock. A user object of which only the truth value matters is a
  \<open>bool\<close>; a descriptor is a number.
\<close>

section \<open>The fence\<close>

definition fence :: "exn" where
  \<comment> \<open>what \<open>_fence\<close> raises, as every unsupported method does\<close>
  "fence = FenceError"

definition reject_kwargs :: "(string \<times> bool) list \<Rightarrow> exn option" where
  \<comment> \<open>the arguments nobody took, each with its truth value\<close>
  "reject_kwargs kwargs = (if list_ex snd kwargs then Some fence else None)"

definition FENCED :: "string list" where
  \<comment> \<open>the methods whose whole body is a call of \<open>_fence\<close>\<close>
  "FENCED =
     [''add_reader'', ''add_writer'', ''add_signal_handler'', ''set_default_executor'', ''shutdown_asyncgens'',
      ''shutdown_default_executor'', ''sendfile'', ''sock_sendfile'', ''connect_read_pipe'', ''connect_write_pipe'',
      ''subprocess_shell'', ''subprocess_exec'', ''remove_reader'', ''remove_writer'', ''remove_signal_handler'',
      ''sock_recv'', ''sock_recv_into'', ''sock_sendall'']"

definition FENCED_SOCKETS :: "string list" where
  "FENCED_SOCKETS = [''sock_accept'', ''sock_sendto'', ''sock_recvfrom'', ''sock_recvfrom_into'']"

definition unsupported :: "string \<Rightarrow> exn option" where
  \<comment> \<open>what calling the method of this name raises, if it is one of them\<close>
  "unsupported name = (if name \<in> set (FENCED @ FENCED_SOCKETS) then Some fence else None)"

section \<open>Executor jobs\<close>

datatype 'r future_state = Pending | Cancelled | Resolved 'r | Rejected exn

definition executor_label :: "'cb callable \<Rightarrow> label" where
  "executor_label f = ''executor:'' @ label_of f"

definition run_in_executor ::
    "bool \<Rightarrow> 'cb callable \<Rightarrow> 'cb \<Rightarrow> ('cb, 'z) loop_scheme \<Rightarrow> ('cb, 'z) loop_scheme outcome" where
  \<comment> \<open>\<open>job\<close> is the code of the \<open>_ExecutorJob\<close> made for the function\<close>
  "run_in_executor is_callable f job s =
     andthen (check_closed s) (\<lambda>s.
       if \<not> is_callable then Exc TypeError s
       else call_soon \<lparr>c_qualname = Some (executor_label f), c_typename = ''_ExecutorJob'', c_self = None, c_code = job\<rparr> None s)"

definition executor_job :: "('s \<Rightarrow> (exn + 'r) \<times> 's) \<Rightarrow> 'r future_state \<Rightarrow> 's \<Rightarrow> 'r future_state \<times> 's" where
  \<comment> \<open>the step that runs it: \<open>func\<close> is the submitted call\<close>
  "executor_job func fut s =
     (case fut of
        Cancelled \<Rightarrow> (fut, s)
      | _ \<Rightarrow> (case func s of (Inl e, s') \<Rightarrow> (Rejected e, s') | (Inr r, s') \<Rightarrow> (Resolved r, s')))"

section \<open>Handlers and factories\<close>

definition set_callable_or_none :: "(bool \<times> 'f) option \<Rightarrow> 'f option \<Rightarrow> exn + 'f option" where
  \<comment> \<open>\<open>set_task_factory\<close> and \<open>set_exception_handler\<close>: an object is whether it is callable and itself\<close>
  "set_callable_or_none new old =
     (case new of None \<Rightarrow> Inr None | Some (is_callable, f) \<Rightarrow> if is_callable then Inr (Some f) else Inl TypeError)"

section \<open>Parked sockets and connection rules\<close>

datatype addr_item = HostItem host_arg | IntItem int | BoolItem bool | OtherItem

datatype sock_address = PairAddress addr_item addr_item | OtherAddress

type_synonym sock_targets = "(nat, host_arg \<times> int) dict"

definition sock_connect ::
    "(host_arg \<Rightarrow> exn + hostname) \<Rightarrow> bool \<Rightarrow> nat \<Rightarrow> sock_address \<Rightarrow> sock_targets \<Rightarrow> exn + sock_targets" where
  \<comment> \<open>\<open>lookup\<close> is the network's \<open>_resolve\<close>; the flag: an \<open>AF_INET\<close> stream socket\<close>
  "sock_connect lookup inet_stream sock address targets =
     (if \<not> inet_stream then Inl FenceError
      else case address of
        PairAddress (HostItem host) (IntItem port) \<Rightarrow>
          if host = HNone \<or> host = HOther then Inl OSError
          else (case lookup host of Inl e \<Rightarrow> Inl e | Inr _ \<Rightarrow> Inr (dict_set sock (host, port) targets))
      | _ \<Rightarrow> Inl OSError)"

datatype ssl_value = NoSsl | SslTrue | SslContext nat | SslOther \<comment> \<open>\<open>NoSsl\<close>: a false value\<close>

definition tls_context :: "bool \<Rightarrow> ssl_value \<Rightarrow> exn + nat option" where
  "tls_context server_side v =
     (case v of
        SslContext c \<Rightarrow> Inr (Some c)
      | SslOther \<Rightarrow> Inl TypeError
      | _ \<Rightarrow> if server_side then Inl ValueError else Inr None)"

record connection_args =
  ca_host :: host_arg
  ca_port :: "int option"
  ca_ssl :: ssl_value
  ca_server_hostname :: "host_arg option"
  ca_handshake_timeout :: "time option"
  ca_shutdown_timeout :: "time option"
  ca_sock :: "nat option"
  ca_kwargs :: "(string \<times> bool) list"

definition truthy_host :: "host_arg \<Rightarrow> bool" where
  "truthy_host h \<longleftrightarrow> h \<noteq> HNone \<and> h \<noteq> HStr []"

definition tls_name :: "connection_args \<Rightarrow> exn + host_arg option" where
  \<comment> \<open>the rules on \<open>server_hostname\<close> and the timeouts, and the name a certificate is checked against\<close>
  "tls_name a =
     (if ca_server_hostname a \<noteq> None \<and> ca_ssl a = NoSsl then Inl ValueError
      else if ca_server_hostname a = None \<and> ca_ssl a \<noteq> NoSsl \<and> \<not> truthy_host (ca_host a) then Inl ValueError
      else if ca_handshake_timeout a \<noteq> None \<and> ca_ssl a = NoSsl then Inl ValueError
      else if ca_shutdown_timeout a \<noteq> None \<and> ca_ssl a = NoSsl then Inl ValueError
      else Inr (if ca_server_hostname a = None \<and> ca_ssl a \<noteq> NoSsl then Some (ca_host a) else ca_server_hostname a))"

datatype endpoint = Plain host_arg "int option" | Secured host_arg "int option" "nat option" "host_arg option"

definition create_connection :: "connection_args \<Rightarrow> sock_targets \<Rightarrow> (exn + endpoint) \<times> sock_targets" where
  \<comment> \<open>what is opened, plain or under TLS; the parked target of a socket is claimed\<close>
  "create_connection a targets =
     (case reject_kwargs (ca_kwargs a) of
        Some e \<Rightarrow> (Inl e, targets)
      | None \<Rightarrow>
          (case tls_name a of
             Inl e \<Rightarrow> (Inl e, targets)
           | Inr name \<Rightarrow>
               let finish = (\<lambda>host port.
                     if ca_ssl a = NoSsl then Inr (Plain host port)
                     else map_sum id (\<lambda>c. Secured host port c name) (tls_context False (ca_ssl a))) in
               (case ca_sock a of
                  None \<Rightarrow> (finish (ca_host a) (ca_port a), targets)
                | Some sock \<Rightarrow>
                    if ca_host a \<noteq> HNone \<or> ca_port a \<noteq> None then (Inl ValueError, targets)
                    else (case dict_get targets sock of
                        None \<Rightarrow> (Inl OSError, targets)
                      | Some (host, port) \<Rightarrow> (finish host (Some port), dict_pop sock targets)))))"

section \<open>TLS\<close>

definition create_server ::
    "(string \<times> bool) list \<Rightarrow> ssl_value \<Rightarrow> time option \<Rightarrow> time option \<Rightarrow> exn + nat option option" where
  \<comment> \<open>\<open>Some c\<close>: the factory is wrapped with that context\<close>
  "create_server kwargs ssl handshake_timeout shutdown_timeout =
     (case reject_kwargs kwargs of
        Some e \<Rightarrow> Inl e
      | None \<Rightarrow>
          if handshake_timeout \<noteq> None \<and> ssl = NoSsl then Inl ValueError
          else if shutdown_timeout \<noteq> None \<and> ssl = NoSsl then Inl ValueError
          else if ssl \<noteq> NoSsl then map_sum id Some (tls_context True ssl)
          else Inr None)"

datatype tls_act = CancelWaiter | CloseRaw | PauseReading | FeedEngine bytes | ClearReader | SetProtocol
  | MadeSoon | ResumeSoon | CancelMade | CancelResumed

definition tls_connect :: "exn option \<Rightarrow> exn option \<Rightarrow> exn option \<times> tls_act list" where
  \<comment> \<open>how opening the raw connection and then the handshake ended, and what is done about it\<close>
  "tls_connect opening handshake =
     (case opening of
        Some e \<Rightarrow> (Some e, [CancelWaiter])
      | None \<Rightarrow> (case handshake of Some e \<Rightarrow> (Some e, [CloseRaw]) | None \<Rightarrow> (None, [])))"

definition migrate_buffered :: "bool \<Rightarrow> bytes option \<Rightarrow> tls_act list" where
  \<comment> \<open>\<open>buffered\<close>: what a stream reader holds, \<open>None\<close> for a protocol without one\<close>
  "migrate_buffered server_side buffered =
     (if \<not> server_side then []
      else case buffered of
        None \<Rightarrow> []
      | Some b \<Rightarrow> if b \<noteq> [] then [FeedEngine b, ClearReader] else [])"

definition tls_upgrade ::
    "ssl_value \<Rightarrow> bool \<Rightarrow> bool \<Rightarrow> bytes option \<Rightarrow> exn option \<Rightarrow> exn option \<times> tls_act list" where
  "tls_upgrade sslcontext compatible server_side buffered handshake =
     (case sslcontext of
        SslContext _ \<Rightarrow>
          if \<not> compatible then (Some TypeError, [])
          else
            let acts = PauseReading # migrate_buffered server_side buffered @ [SetProtocol, MadeSoon, ResumeSoon] in
            (case handshake of
               None \<Rightarrow> (None, acts)
             | Some e \<Rightarrow> (Some e, acts @ [CloseRaw, CancelMade, CancelResumed]))
      | _ \<Rightarrow> (Some TypeError, []))"

section \<open>The facade\<close>

datatype source = RealSource | LoopSource

definition running_sim_loop :: "bool option \<Rightarrow> source" where
  \<comment> \<open>the running loop, if any, and whether it is a \<open>SimLoop\<close>\<close>
  "running_sim_loop running = (if running = Some True then LoopSource else RealSource)"

definition uuid4_of :: "128 word \<Rightarrow> 128 word" where
  \<comment> \<open>\<open>uuid.UUID(int=n, version=4)\<close>: the variant and version bits of RFC 4122\<close>
  "uuid4_of n =
     (((n AND NOT (push_bit 48 0xc000)) OR push_bit 48 0x8000) AND NOT (push_bit 64 0xf000)) OR push_bit 76 4"

definition sim_time :: "bool option \<Rightarrow> time \<Rightarrow> ('cb, 'z) loop_scheme \<Rightarrow> time" where
  "sim_time running wall_clock s =
     (case running_sim_loop running of RealSource \<Rightarrow> wall_clock | LoopSource \<Rightarrow> loop_time s)"

definition sim_random :: "bool option \<Rightarrow> rng \<Rightarrow> ('cb, 'z) loop_scheme \<Rightarrow> rng" where
  "sim_random running fallback s =
     (case running_sim_loop running of RealSource \<Rightarrow> fallback | LoopSource \<Rightarrow> l_user_random s)"

definition getrandbits128 :: "rng \<Rightarrow> 128 word \<times> rng" where
  "getrandbits128 r = (let (x, r') = rng_raw r in (word_of_nat x, r'))"

definition sim_uuid4 :: "bool option \<Rightarrow> 128 word \<Rightarrow> ('cb, 'z) loop_scheme \<Rightarrow> 128 word \<times> ('cb, 'z) loop_scheme" where
  \<comment> \<open>\<open>fallback\<close> is what the real \<open>uuid.uuid4\<close> would return\<close>
  "sim_uuid4 running fallback s =
     (case running_sim_loop running of
        RealSource \<Rightarrow> (fallback, s)
      | LoopSource \<Rightarrow> (let (n, r) = getrandbits128 (l_uuid_random s) in (uuid4_of n, s\<lparr>l_uuid_random := r\<rparr>)))"

section \<open>What the edge promises\<close>

lemma uuid4_fields:
  "take_bit 4 (drop_bit 76 (uuid4_of n)) = 4" "take_bit 2 (drop_bit 62 (uuid4_of n)) = 2"
  by (rule bit_word_eqI; auto simp: uuid4_of_def bit_simps)+

text \<open>
  A parked socket is claimed once: \<open>create_connection\<close> on it opens exactly the address it was connected
  to, and the next one on it, with nothing parked in between, is refused.
\<close>

lemma parked_socket_claimed_once:
  assumes "sock_connect lookup inet_stream sock (PairAddress (HostItem host) (IntItem port)) targets = Inr targets'"
    and "ca_sock a = Some sock" and "ca_host a = HNone" and "ca_port a = None" and "ca_ssl a = NoSsl"
    and "fst (create_connection a targets') = Inr opened"
  shows "opened = Plain host (Some port)" "fst (create_connection a (snd (create_connection a targets'))) = Inl OSError"
  using assms by (auto simp: sock_connect_def create_connection_def Let_def split: if_splits option.splits sum.splits)

lemma cancelled_job_never_runs: "executor_job func Cancelled s = (Cancelled, s)"
  by (simp add: executor_job_def)

end
