(* ===== verification/SimTimeline.thy ===== *)
theory SimTimeline
  imports SimTrace "HOL-Library.Product_Lexorder" "HOL-Library.Multiset"
begin

text \<open>
  \<open>src/simloop/_timeline.py\<close>: how a trace is sorted into what the timeline page draws (lanes, dots,
  marks and packets), and where on the page it stands; theory \<open>SimPage\<close> holds the page itself.
  Floats are rationals, as everywhere.
\<close>

section \<open>Labels\<close>

definition SEND :: string where "SEND = ''send''"

definition DELIVER :: string where "DELIVER = ''deliver''"

definition FATES :: "string set" where "FATES = {''drop'', ''lost'', ''hold''}"

definition ARRIVAL_FATES :: "string set" where "ARRIVAL_FATES = {''lost''}"

definition str_partition :: "char \<Rightarrow> string \<Rightarrow> string \<times> bool \<times> string" where
  \<comment> \<open>\<open>s.partition(c)\<close>; the middle part is the separator or empty\<close>
  "str_partition c s =
     (let a = takeWhile (\<lambda>x. x \<noteq> c) s in (a, c \<in> set s, drop (Suc (length a)) s))"

definition label_ends :: "label \<Rightarrow> string \<times> hostname \<times> hostname" where
  "label_ends label =
     (let (verb, _, rest) = str_partition (CHR '' '') label; (src, link, dst) = str_partition (CHR ''>'') rest
      in (verb, src, if link then dst else []))"

section \<open>Bucketing\<close>

record tl_packet =
  pa_uid :: int
  pa_src :: hostname
  pa_dst :: hostname
  pa_start :: time
  pa_end :: time
  pa_fate :: string

definition delivered :: "tl_packet \<Rightarrow> bool" where "delivered p \<longleftrightarrow> pa_fate p = DELIVER"

record tl_mark =
  mk_host :: hostname
  mk_verb :: string
  mk_when :: time
  mk_label :: label

record scene =
  sc_hosts :: "hostname list"
  sc_dots :: "(hostname, trace_event list) dict"
  sc_marks :: "(hostname, tl_mark list) dict"
  sc_packets :: "tl_packet list"
  sc_start :: time
  sc_end :: time
  sc_shown :: nat

definition setdefault :: "hostname \<Rightarrow> hostname list \<Rightarrow> hostname list" where
  \<comment> \<open>\<open>order.setdefault(name, None)\<close> on a dict used as an ordered set\<close>
  "setdefault name order = (if name \<in> set order then order else order @ [name])"

definition note_event :: "trace_event \<Rightarrow> hostname list \<times> bool \<Rightarrow> hostname list \<times> bool" where
  "note_event e acc =
     (case acc of (order, hostless) \<Rightarrow>
        if ev_kind e = Net then
          (case label_ends (ev_label e) of (_, src, dst) \<Rightarrow>
             let named = filter (\<lambda>n. n \<noteq> []) [src, dst] in (fold setdefault named order, hostless \<or> named = []))
        else if ev_host e \<noteq> [] then (setdefault (ev_host e) order, hostless)
        else (order, True))"

definition lane_hosts :: "trace_event list \<Rightarrow> hostname list" where
  "lane_hosts events =
     (case fold note_event events ([], False) of (names, hostless) \<Rightarrow> if hostless then names @ [[]] else names)"

type_synonym sends = "(time \<times> hostname \<times> hostname) list"

record pairing =
  pg_queued :: "(int, sends) dict"
  pg_packets :: "tl_packet list"
  pg_marks :: "tl_mark list"

definition queue_of :: "(int, sends) dict \<Rightarrow> int \<Rightarrow> sends" where
  "queue_of d uid = (case dict_get d uid of Some q \<Rightarrow> q | None \<Rightarrow> [])"

definition pair_event :: "trace_event \<Rightarrow> pairing \<Rightarrow> pairing" where
  "pair_event e g =
     (if ev_kind e \<noteq> Net then g
      else case label_ends (ev_label e) of (verb, src, dst) \<Rightarrow>
        if dst = [] then
          g\<lparr>pg_marks := pg_marks g @ [\<lparr>mk_host = src, mk_verb = verb, mk_when = ev_when e, mk_label = ev_label e\<rparr>]\<rparr>
        else
          let q = queue_of (pg_queued g) (ev_seq e) in
          if verb = SEND then
            g\<lparr>pg_queued := dict_set (ev_seq e) (q @ [(ev_when e, src, dst)]) (pg_queued g)\<rparr>
          else if verb = DELIVER then
            g\<lparr>pg_queued := dict_set (ev_seq e) (tl q) (pg_queued g),
              pg_packets := pg_packets g @ [\<lparr>pa_uid = ev_seq e, pa_src = src, pa_dst = dst,
                pa_start = (if q = [] then ev_when e else fst (hd q)), pa_end = ev_when e, pa_fate = DELIVER\<rparr>]\<rparr>
          else if verb \<in> FATES \<and> q \<noteq> [] then
            g\<lparr>pg_queued := dict_set (ev_seq e) (tl q) (pg_queued g),
              pg_packets := pg_packets g @ [\<lparr>pa_uid = ev_seq e, pa_src = src, pa_dst = dst,
                pa_start = fst (hd q), pa_end = ev_when e, pa_fate = verb\<rparr>]\<rparr>
          else
            g\<lparr>pg_queued := dict_set (ev_seq e) q (pg_queued g),
              pg_marks := pg_marks g @ [\<lparr>mk_host = (if verb \<in> ARRIVAL_FATES then dst else src),
                mk_verb = verb, mk_when = ev_when e, mk_label = ev_label e\<rparr>]\<rparr>)"

definition in_flight :: "int \<times> sends \<Rightarrow> tl_packet list" where
  "in_flight uq = (case uq of (uid, q) \<Rightarrow>
     map (\<lambda>(w, src, dst). \<lparr>pa_uid = uid, pa_src = src, pa_dst = dst, pa_start = w, pa_end = w, pa_fate = ''inflight''\<rparr>) q)"

definition packets_of :: "trace_event list \<Rightarrow> tl_packet list \<times> tl_mark list" where
  "packets_of events =
     (let g = fold pair_event events \<lparr>pg_queued = [], pg_packets = [], pg_marks = []\<rparr>
      in (sort_key (\<lambda>p. (pa_start p, pa_end p, pa_uid p)) (pg_packets g @ concat (map in_flight (pg_queued g))), pg_marks g))"

definition entries_at :: "('k, 'a list) dict \<Rightarrow> 'k \<Rightarrow> 'a list" where
  "entries_at d k = (case dict_get d k of Some xs \<Rightarrow> xs | None \<Rightarrow> [])"

definition group_into :: "('a \<Rightarrow> hostname) \<Rightarrow> hostname list \<Rightarrow> 'a list \<Rightarrow> (hostname, 'a list) dict" where
  "group_into key hosts xs = fold (\<lambda>x d. dict_set (key x) (entries_at d (key x) @ [x]) d) xs (map (\<lambda>h. (h, [])) hosts)"

definition bucket :: "trace_event list \<Rightarrow> scene" where
  "bucket events =
     (let hosts = lane_hosts events; (packets, marks) = packets_of events; moments = map ev_when events in
      \<lparr>sc_hosts = hosts,
       sc_dots = group_into ev_host hosts (filter (\<lambda>e. ev_kind e \<noteq> Net) events),
       sc_marks = group_into mk_host hosts marks,
       sc_packets = packets,
       sc_start = (if moments = [] then 0 else Min (set moments)),
       sc_end = (if moments = [] then 0 else Max (set moments)),
       sc_shown = length events\<rparr>)"

definition timeline_scene :: "trace_event list \<Rightarrow> int option \<Rightarrow> exn + scene \<times> nat" where
  \<comment> \<open>what \<open>timeline_html\<close> renders, and the total it names\<close>
  "timeline_scene events limit =
     (case limit of
        None \<Rightarrow> Inr (bucket events, length events)
      | Some n \<Rightarrow>
          if n < 1 then Inl ValueError
          else Inr (bucket (drop (length events - nat n) events), length events))"

section \<open>Layout\<close>

definition GUTTER :: time where "GUTTER = 160"
definition PLOT :: time where "PLOT = 1120"
definition RIGHT :: time where "RIGHT = 48"
definition HEAD :: time where "HEAD = 56"
definition FOOT :: time where "FOOT = 40"
definition LANE :: time where "LANE = 64"

definition page_width :: time where "page_width = GUTTER + PLOT + RIGHT"

definition page_height :: "scene \<Rightarrow> time" where
  "page_height sc = HEAD + of_nat (length (sc_hosts sc)) * LANE + FOOT"

definition x_of :: "scene \<Rightarrow> time \<Rightarrow> time" where
  "x_of sc w =
     (let span = sc_end sc - sc_start sc in
      if span \<le> 0 then GUTTER + PLOT / 2 else GUTTER + (w - sc_start sc) / span * PLOT)"

definition row_of :: "nat \<Rightarrow> time" where
  "row_of index = HEAD + of_nat index * LANE + LANE / 2"

definition kind_offset :: "event_kind \<Rightarrow> time" where
  "kind_offset k = (case k of Schedule \<Rightarrow> -13 | Cancel \<Rightarrow> 13 | _ \<Rightarrow> 0)"

definition dot_at :: "scene \<Rightarrow> nat \<Rightarrow> trace_event \<Rightarrow> time \<times> time" where
  "dot_at sc index e = (x_of sc (ev_when e), row_of index + kind_offset (ev_kind e))"

section \<open>Lanes\<close>

lemma set_setdefault [simp]: "set (setdefault n order) = insert n (set order)"
  by (auto simp: setdefault_def)

lemma distinct_setdefault [simp]: "distinct (setdefault n order) = distinct order"
  by (simp add: setdefault_def)

definition named_hosts :: "trace_event \<Rightarrow> hostname set" where
  "named_hosts e = (if ev_kind e = Net then (case label_ends (ev_label e) of (_, src, dst) \<Rightarrow> {src, dst}) else {ev_host e}) - {[]}"

lemma note_event_spec:
  "note_event e (order, hostless) = (order', hostless') \<Longrightarrow> set order' = set order \<union> named_hosts e \<and>
     (hostless' \<longleftrightarrow> hostless \<or> named_hosts e = {}) \<and> distinct order' = distinct order"
  by (cases "label_ends (ev_label e)") (auto simp: note_event_def named_hosts_def split: if_splits)

lemma fold_note_event:
  "fold note_event events (order, hostless) = (order', hostless') \<Longrightarrow>
     set order' = set order \<union> \<Union> (named_hosts ` set events) \<and>
     (hostless' \<longleftrightarrow> hostless \<or> (\<exists>e\<in>set events. named_hosts e = {})) \<and> distinct order' = distinct order"
proof (induction events arbitrary: order hostless)
  case (Cons e events)
  obtain o1 h1 where "note_event e (order, hostless) = (o1, h1)" by fastforce
  with Cons note_event_spec [OF this] show ?case by auto
qed simp

lemma lane_hosts_spec:
  "distinct (lane_hosts events)"
  "set (lane_hosts events) = \<Union> (named_hosts ` set events) \<union> (if \<exists>e\<in>set events. named_hosts e = {} then {[]} else {})"
proof -
  obtain names hostless where f: "fold note_event events ([], False) = (names, hostless)" by fastforce
  note spec = fold_note_event [OF f]
  have "[] \<notin> set names" using spec by (auto simp: named_hosts_def)
  with f spec show "distinct (lane_hosts events)" by (simp add: lane_hosts_def)
  show "set (lane_hosts events) = \<Union> (named_hosts ` set events) \<union> (if \<exists>e\<in>set events. named_hosts e = {} then {[]} else {})"
    using f spec by (auto simp: lane_hosts_def)
qed

lemma named_lane: "e \<in> set events \<Longrightarrow> h \<in> named_hosts e \<Longrightarrow> h \<in> set (lane_hosts events)"
  unfolding lane_hosts_spec by blast

lemma hostless_lane: "e \<in> set events \<Longrightarrow> named_hosts e = {} \<Longrightarrow> [] \<in> set (lane_hosts events)"
  unfolding lane_hosts_spec by auto

lemma lane_of_callback: "e \<in> set events \<Longrightarrow> ev_kind e \<noteq> Net \<Longrightarrow> ev_host e \<in> set (lane_hosts events)"
  by (cases "ev_host e = []") (auto simp: named_hosts_def intro: hostless_lane [of e] named_lane [of e])

lemma lane_of_machine:
  assumes "e \<in> set events" and "ev_kind e = Net" and "label_ends (ev_label e) = (verb, src, dst)" and "src = [] \<Longrightarrow> dst = []"
  shows "src \<in> set (lane_hosts events)"
  using assms by (cases "src = []") (auto simp: named_hosts_def intro: hostless_lane [of e] named_lane [of e])

lemma lane_of_destination:
  "e \<in> set events \<Longrightarrow> ev_kind e = Net \<Longrightarrow> label_ends (ev_label e) = (verb, src, dst) \<Longrightarrow> dst \<noteq> [] \<Longrightarrow>
     dst \<in> set (lane_hosts events)"
  by (rule named_lane [of e]) (simp_all add: named_hosts_def)

section \<open>Grouping by lane\<close>

lemma entries_at_set [simp]: "entries_at (dict_set k xs d) k' = (if k' = k then xs else entries_at d k')"
  by (simp add: entries_at_def)

lemma entries_at_fold:
  "entries_at (fold (\<lambda>x d. dict_set (key x) (entries_at d (key x) @ [x]) d) xs d) h =
     entries_at d h @ filter (\<lambda>x. key x = h) xs"
  by (induction xs arbitrary: d) auto

lemma entries_at_group: "entries_at (group_into key hosts xs) h = filter (\<lambda>x. key x = h) xs"
proof -
  have "entries_at (map (\<lambda>h. (h, [])) hosts) h = []" by (induction hosts) (auto simp: entries_at_def)
  then show ?thesis by (simp add: group_into_def entries_at_fold)
qed

lemma mset_by_lane:
  "distinct hosts \<Longrightarrow> mset (concat (map (\<lambda>h. filter (\<lambda>x. key x = h) xs) hosts)) = mset (filter (\<lambda>x. key x \<in> set hosts) xs)"
proof (induction hosts)
  case (Cons h hosts)
  have "mset (filter (\<lambda>x. key x = h) xs) + mset (filter (\<lambda>x. key x \<in> set hosts) xs) =
      mset (filter (\<lambda>x. key x \<in> set (h # hosts)) xs)"
    using Cons.prems by (induction xs) auto
  with Cons show ?case by simp
qed simp

lemma mset_grouped:
  assumes "distinct hosts" and "\<And>x. x \<in> set xs \<Longrightarrow> key x \<in> set hosts"
  shows "mset (concat (map (entries_at (group_into key hosts xs)) hosts)) = mset xs"
proof -
  have "mset (concat (map (entries_at (group_into key hosts xs)) hosts)) = mset (filter (\<lambda>x. key x \<in> set hosts) xs)"
    using mset_by_lane [OF assms(1), of key xs] unfolding entries_at_group [abs_def] .
  also have "filter (\<lambda>x. key x \<in> set hosts) xs = xs" using assms(2) by (simp add: filter_id_conv)
  finally show ?thesis .
qed

section \<open>Pairing\<close>

definition is_send :: "trace_event \<Rightarrow> bool" where
  "is_send e \<longleftrightarrow> ev_kind e = Net \<and> (case label_ends (ev_label e) of (verb, _, dst) \<Rightarrow> dst \<noteq> [] \<and> verb = SEND)"

definition is_delivery :: "trace_event \<Rightarrow> bool" where
  "is_delivery e \<longleftrightarrow> ev_kind e = Net \<and> (case label_ends (ev_label e) of (verb, _, dst) \<Rightarrow> dst \<noteq> [] \<and> verb = DELIVER)"

definition verb_of :: "trace_event \<Rightarrow> string" where
  "verb_of e = fst (label_ends (ev_label e))"

definition journey :: "trace_event \<Rightarrow> int \<times> hostname \<times> hostname \<times> time" where
  "journey e = (case label_ends (ev_label e) of (_, src, dst) \<Rightarrow> (ev_seq e, src, dst, ev_when e))"

primrec waiting :: "(int, sends) dict \<Rightarrow> (int \<times> time) multiset" where
  "waiting [] = {#}"
| "waiting (uq # d) = mset (map (\<lambda>s. (fst uq, fst s)) (snd uq)) + waiting d"

lemma waiting_set:
  "waiting (dict_set u q d) + mset (map (\<lambda>s. (u, fst s)) (queue_of d u)) = waiting d + mset (map (\<lambda>s. (u, fst s)) q)"
  by (induction d) (auto simp: queue_of_def)

lemma waiting_push: "waiting (dict_set u (queue_of d u @ [(w, a, b)]) d) = add_mset (u, w) (waiting d)"
  using waiting_set [of u "queue_of d u @ [(w, a, b)]" d] by simp

lemma waiting_pop: "queue_of d u = s # q \<Longrightarrow> waiting d = add_mset (u, fst s) (waiting (dict_set u q d))"
  using waiting_set [of u q d] by simp

lemma waiting_same: "waiting (dict_set u (queue_of d u) d) = waiting d"
  using waiting_set [of u "queue_of d u" d] by simp

lemma verbs_differ [simp]: "SEND \<noteq> DELIVER" "DELIVER \<noteq> SEND" "SEND \<notin> FATES" "DELIVER \<notin> FATES" "''inflight'' \<notin> FATES"
  "''inflight'' \<noteq> DELIVER"
  by (simp_all add: SEND_def DELIVER_def FATES_def)

text \<open>What the loop has made of the events so far.\<close>

definition paired :: "trace_event list \<Rightarrow> pairing \<Rightarrow> bool" where
  "paired events g \<longleftrightarrow>
     mset (map (\<lambda>p. (pa_uid p, pa_src p, pa_dst p, pa_end p)) (filter delivered (pg_packets g))) =
       mset (map journey (filter is_delivery events)) \<and>
     (\<exists>U. U \<subseteq># mset (map (\<lambda>e. (ev_seq e, ev_when e)) (filter is_delivery events)) \<and>
        mset (map (\<lambda>p. (pa_uid p, pa_start p)) (pg_packets g)) + waiting (pg_queued g) =
          mset (map (\<lambda>e. (ev_seq e, ev_when e)) (filter is_send events)) + U) \<and>
     mset (map (\<lambda>p. (pa_fate p, pa_end p)) (filter (\<lambda>p. \<not> delivered p) (pg_packets g))) +
       mset (map (\<lambda>m. (mk_verb m, mk_when m)) (pg_marks g)) =
       mset (map (\<lambda>e. (verb_of e, ev_when e))
         (filter (\<lambda>e. ev_kind e = Net \<and> \<not> is_send e \<and> \<not> is_delivery e) events)) \<and>
     (\<forall>p\<in>set (pg_packets g). pa_fate p \<in> insert DELIVER FATES)"

lemma paired_step:
  assumes "paired events g" shows "paired (events @ [e]) (pair_event e g)"
proof (cases "ev_kind e = Net")
  case False
  with assms show ?thesis by (simp add: pair_event_def paired_def is_send_def is_delivery_def)
next
  case True
  obtain verb src dst where l: "label_ends (ev_label e) = (verb, src, dst)" by (cases "label_ends (ev_label e)")
  obtain U where U: "U \<subseteq># mset (map (\<lambda>e. (ev_seq e, ev_when e)) (filter is_delivery events))"
    "mset (map (\<lambda>p. (pa_uid p, pa_start p)) (pg_packets g)) + waiting (pg_queued g) =
          mset (map (\<lambda>e. (ev_seq e, ev_when e)) (filter is_send events)) + U"
    using assms by (auto simp: paired_def)
  let ?q = "queue_of (pg_queued g) (ev_seq e)"
  let ?D = "mset (map (\<lambda>e. (ev_seq e, ev_when e)) (filter is_delivery events))"
  have U': "U \<subseteq># add_mset (ev_seq e, ev_when e) ?D" "add_mset (ev_seq e, ev_when e) U \<subseteq># add_mset (ev_seq e, ev_when e) ?D"
    using U(1) by (simp_all add: subset_mset.order_trans)
  note simps = pair_event_def paired_def True l is_send_def is_delivery_def verb_of_def journey_def delivered_def
  consider (mark) "dst = [] \<or> verb \<noteq> SEND \<and> verb \<noteq> DELIVER \<and> \<not> (verb \<in> FATES \<and> ?q \<noteq> [])"
    | (send) "dst \<noteq> []" "verb = SEND" | (new) "dst \<noteq> []" "verb = DELIVER" "?q = []"
    | (landed) s q where "dst \<noteq> []" "verb = DELIVER" "?q = s # q"
    | (fate) s q where "dst \<noteq> []" "verb \<in> FATES" "?q = s # q"
    by (cases "dst = []"; cases "verb = SEND"; cases "verb = DELIVER"; cases ?q) auto
  then show ?thesis
  proof cases
    case mark
    with assms U U' show ?thesis by (auto simp: simps waiting_same Let_def)
  next
    case send
    with assms U U' show ?thesis by (auto simp: simps waiting_push Let_def)
  next
    case new
    have "waiting (dict_set (ev_seq e) [] (pg_queued g)) = waiting (pg_queued g)"
      using waiting_same [of "ev_seq e" "pg_queued g"] unfolding new(3) .
    with assms U U' new show ?thesis
      by (auto simp: simps Let_def intro!: exI [of _ "add_mset (ev_seq e, ev_when e) U"])
  next
    case landed
    with assms U U' waiting_pop [OF landed(3)] show ?thesis
      by (auto simp: simps Let_def)
  next
    case fate
    with assms U U' waiting_pop [OF fate(3)] show ?thesis
      by (auto simp: simps Let_def)
  qed
qed

lemma paired_fold: "paired events (fold pair_event events \<lparr>pg_queued = [], pg_packets = [], pg_marks = []\<rparr>)"
proof (induction events rule: rev_induct)
  case Nil
  show ?case by (simp add: paired_def)
next
  case (snoc e events)
  then show ?case using paired_step by simp
qed

lemma in_flight_waiting:
  "mset (map (\<lambda>p. (pa_uid p, pa_start p)) (concat (map in_flight d))) = waiting d"
  "\<forall>p\<in>set (concat (map in_flight d)). pa_fate p = ''inflight'' \<and> pa_end p = pa_start p"
  by (induction d) (auto simp: in_flight_def comp_def case_prod_unfold)

definition on_a_lane :: "trace_event list \<Rightarrow> tl_mark \<Rightarrow> bool" where
  "on_a_lane events m \<longleftrightarrow> (\<exists>e\<in>set events. ev_kind e = Net \<and> (case label_ends (ev_label e) of (_, src, dst) \<Rightarrow>
     mk_host m = src \<or> mk_host m = dst \<and> dst \<noteq> []))"

lemma marks_step:
  assumes "\<forall>m\<in>set (pg_marks g). on_a_lane events m"
  shows "\<forall>m\<in>set (pg_marks (pair_event e g)). on_a_lane (events @ [e]) m"
proof -
  have "on_a_lane (events @ [e]) m" if "on_a_lane events m" for m using that by (auto simp: on_a_lane_def)
  with assms show ?thesis by (auto simp: pair_event_def on_a_lane_def Let_def split: prod.split)
qed

lemma marks_fold:
  "\<forall>m\<in>set (pg_marks (fold pair_event events \<lparr>pg_queued = [], pg_packets = [], pg_marks = []\<rparr>)). on_a_lane events m"
proof (induction events rule: rev_induct)
  case (snoc e events)
  then show ?case using marks_step by simp
qed simp

text \<open>
  C32. Nothing in a trace goes undrawn and nothing is drawn twice. On the page made of any events
  (a link in a label names both its ends): the lanes' dots are exactly the events that are not the
  network's; the arrows are exactly the deliveries; every send starts exactly one packet, and so do
  some deliveries, those that no send answers for; and every other network event is either the end
  of a stub or a mark on a drawn lane.
\<close>
theorem timeline_draws_every_event:
  assumes "\<And>e. e \<in> set events \<Longrightarrow> case label_ends (ev_label e) of (_, src, dst) \<Rightarrow> src = [] \<longrightarrow> dst = []"
  shows "let sc = bucket events; hosts = sc_hosts sc in
    mset (concat (map (entries_at (sc_dots sc)) hosts)) = mset (filter (\<lambda>e. ev_kind e \<noteq> Net) events) \<and>
    mset (map (\<lambda>p. (pa_uid p, pa_src p, pa_dst p, pa_end p)) (filter delivered (sc_packets sc))) =
      mset (map journey (filter is_delivery events)) \<and>
    (\<exists>U. U \<subseteq># mset (map (\<lambda>e. (ev_seq e, ev_when e)) (filter is_delivery events)) \<and>
      mset (map (\<lambda>p. (pa_uid p, pa_start p)) (sc_packets sc)) =
        mset (map (\<lambda>e. (ev_seq e, ev_when e)) (filter is_send events)) + U) \<and>
    mset (map (\<lambda>p. (pa_fate p, pa_end p)) (filter (\<lambda>p. pa_fate p \<in> FATES) (sc_packets sc))) +
      mset (map (\<lambda>m. (mk_verb m, mk_when m)) (concat (map (entries_at (sc_marks sc)) hosts))) =
      mset (map (\<lambda>e. (verb_of e, ev_when e))
        (filter (\<lambda>e. ev_kind e = Net \<and> \<not> is_send e \<and> \<not> is_delivery e) events))"
proof -
  define g where "g = fold pair_event events \<lparr>pg_queued = [], pg_packets = [], pg_marks = []\<rparr>"
  define rest where "rest = concat (map in_flight (pg_queued g))"
  note paired = paired_fold [of events, folded g_def, unfolded paired_def]
  have packets: "mset (sc_packets (bucket events)) = mset (pg_packets g) + mset rest"
    and marks: "sc_marks (bucket events) = group_into mk_host (lane_hosts events) (pg_marks g)"
    by (simp_all add: bucket_def packets_of_def Let_def g_def rest_def)
  have rest: "mset (map (\<lambda>p. (pa_uid p, pa_start p)) rest) = waiting (pg_queued g)"
    "\<And>p. p \<in> set rest \<Longrightarrow> pa_fate p = ''inflight''"
    using in_flight_waiting [of "pg_queued g"] unfolding rest_def by blast+
  have dots: "mset (concat (map (entries_at (sc_dots (bucket events))) (lane_hosts events))) =
      mset (filter (\<lambda>e. ev_kind e \<noteq> Net) events)"
  proof -
    have "sc_dots (bucket events) = group_into ev_host (lane_hosts events) (filter (\<lambda>e. ev_kind e \<noteq> Net) events)"
      by (simp add: bucket_def Let_def split: prod.split)
    moreover have "mset (concat (map (entries_at (group_into ev_host (lane_hosts events)
        (filter (\<lambda>e. ev_kind e \<noteq> Net) events))) (lane_hosts events))) = mset (filter (\<lambda>e. ev_kind e \<noteq> Net) events)"
      by (rule mset_grouped [OF lane_hosts_spec(1)]) (auto simp: lane_of_callback)
    ultimately show ?thesis by (simp only:)
  qed
  have "mk_host m \<in> set (lane_hosts events)" if "m \<in> set (pg_marks g)" for m
  proof -
    have "on_a_lane events m" using marks_fold [of events, folded g_def] that by (rule bspec)
    then obtain e where e: "e \<in> set events" "ev_kind e = Net" and m: "case label_ends (ev_label e) of (_, src, dst) \<Rightarrow>
        mk_host m = src \<or> mk_host m = dst \<and> dst \<noteq> []"
      unfolding on_a_lane_def by (elim bexE conjE)
    obtain verb src dst where l: "label_ends (ev_label e) = (verb, src, dst)" by (cases "label_ends (ev_label e)")
    have h: "mk_host m = src \<or> mk_host m = dst \<and> dst \<noteq> []" using m by (simp add: l)
    have "src = [] \<Longrightarrow> dst = []" using assms [OF e(1)] l by simp
    then have "src \<in> set (lane_hosts events)" by (rule lane_of_machine [OF e l])
    moreover have "dst \<noteq> [] \<Longrightarrow> dst \<in> set (lane_hosts events)" by (rule lane_of_destination [OF e l])
    ultimately show ?thesis using h by auto
  qed
  then have placed: "mset (concat (map (entries_at (sc_marks (bucket events))) (lane_hosts events))) = mset (pg_marks g)"
    unfolding marks by (intro mset_grouped lane_hosts_spec(1))
  have none: "filter_mset delivered (mset rest) = {#}" "filter_mset (\<lambda>p. pa_fate p \<in> FATES) (mset rest) = {#}"
    using rest(2) by (auto simp: delivered_def filter_mset_eq_mempty_iff)
  have fates: "filter_mset (\<lambda>p. pa_fate p \<in> FATES) (mset (pg_packets g)) = filter_mset (\<lambda>p. \<not> delivered p) (mset (pg_packets g))"
    using paired by (intro filter_mset_cong) (auto simp: delivered_def)
  have drawn: "filter_mset (\<lambda>p. pa_fate p \<in> FATES) (mset (sc_packets (bucket events))) =
      filter_mset (\<lambda>p. \<not> delivered p) (mset (pg_packets g))"
    "filter_mset delivered (mset (sc_packets (bucket events))) = filter_mset delivered (mset (pg_packets g))"
    unfolding packets filter_union_mset none fates by simp_all
  have starts: "image_mset (\<lambda>p. (pa_uid p, pa_start p)) (mset (sc_packets (bucket events))) =
      mset (map (\<lambda>p. (pa_uid p, pa_start p)) (pg_packets g)) + waiting (pg_queued g)"
    unfolding packets rest(1) [symmetric] by simp
  have hosts: "sc_hosts (bucket events) = lane_hosts events" by (simp add: bucket_def Let_def split: prod.split)
  from paired obtain U where U: "U \<subseteq># mset (map (\<lambda>e. (ev_seq e, ev_when e)) (filter is_delivery events))"
    "mset (map (\<lambda>p. (pa_uid p, pa_start p)) (pg_packets g)) + waiting (pg_queued g) =
      mset (map (\<lambda>e. (ev_seq e, ev_when e)) (filter is_send events)) + U" by blast
  have placed': "image_mset (\<lambda>m. (mk_verb m, mk_when m)) (mset (concat (map (entries_at (sc_marks (bucket events))) (lane_hosts events)))) =
    mset (map (\<lambda>m. (mk_verb m, mk_when m)) (pg_marks g))" unfolding placed by simp
  show ?thesis
    unfolding Let_def hosts
  proof (intro conjI exI)
    show "mset (concat (map (entries_at (sc_dots (bucket events))) (lane_hosts events))) =
      mset (filter (\<lambda>e. ev_kind e \<noteq> Net) events)" by (rule dots)
  qed (use paired U starts placed' in \<open>simp_all add: drawn\<close>)
qed

definition demo_events :: "trace_event list" where
  "demo_events = [mk_event Net 0 1 ''send a>b'' '''', mk_event Run 1 2 ''task'' ''a'', mk_event Net 2 1 ''deliver a>b'' '''',
     mk_event Net 2 3 ''send b>a'' '''', mk_event Net 3 3 ''drop b>a'' '''', mk_event Net 3 4 ''crash b'' '''']"

lemma demo_events_named: "e \<in> set demo_events \<Longrightarrow> case label_ends (ev_label e) of (_, src, dst) \<Rightarrow> src = [] \<longrightarrow> dst = []"
  by (auto simp: demo_events_def label_ends_def str_partition_def)

theorem timeline_draws_every_event_witness:
  "mset (map (\<lambda>p. (pa_uid p, pa_src p, pa_dst p, pa_end p)) (filter delivered (sc_packets (bucket demo_events)))) =
   {#(1, ''a'', ''b'', 2)#}"
proof -
  have "mset (map (\<lambda>p. (pa_uid p, pa_src p, pa_dst p, pa_end p)) (filter delivered (sc_packets (bucket demo_events)))) =
      mset (map journey (filter is_delivery demo_events))"
    using timeline_draws_every_event [OF demo_events_named] unfolding Let_def by blast
  also have "map journey (filter is_delivery demo_events) = [(1, ''a'', ''b'', 2)]"
    by (simp add: demo_events_def is_delivery_def journey_def label_ends_def str_partition_def DELIVER_def)
  finally show ?thesis by simp
qed

section \<open>The layout\<close>

text \<open>Every time a packet carries is the time of an event, and a queue holds times that have passed.\<close>

definition timed :: "trace_event list \<Rightarrow> pairing \<Rightarrow> bool" where
  "timed events g \<longleftrightarrow>
     (\<forall>p\<in>set (pg_packets g). pa_start p \<in> ev_when ` set events \<and> pa_end p \<in> ev_when ` set events \<and>
        (sorted (map ev_when events) \<longrightarrow> pa_start p \<le> pa_end p)) \<and>
     (\<forall>u. \<forall>s\<in>set (queue_of (pg_queued g) u). fst s \<in> ev_when ` set events)"

lemma queue_of_set [simp]: "queue_of (dict_set u q d) u' = (if u' = u then q else queue_of d u')"
  by (simp add: queue_of_def)

lemma timed_step:
  assumes "timed events g" shows "timed (events @ [e]) (pair_event e g)"
proof (cases "ev_kind e = Net")
  case False
  with assms show ?thesis by (auto simp: pair_event_def timed_def sorted_append)
next
  case True
  obtain verb src dst where l: "label_ends (ev_label e) = (verb, src, dst)" by (cases "label_ends (ev_label e)")
  let ?q = "queue_of (pg_queued g) (ev_seq e)"
  have tail: "set (tl ?q) \<subseteq> set ?q" by (cases ?q) auto
  have passed: "\<forall>s\<in>set ?q. fst s \<in> ev_when ` set events" using assms by (simp add: timed_def)
  then have start: "?q \<noteq> [] \<Longrightarrow> fst (hd ?q) \<in> ev_when ` set events" by simp
  then have order: "?q \<noteq> [] \<Longrightarrow> sorted (map ev_when (events @ [e])) \<Longrightarrow> fst (hd ?q) \<le> ev_when e"
    by (auto simp: sorted_append)
  have old: "p \<in> set (pg_packets g) \<Longrightarrow> pa_start p \<in> ev_when ` set events \<and> pa_end p \<in> ev_when ` set events \<and>
      (sorted (map ev_when (events @ [e])) \<longrightarrow> pa_start p \<le> pa_end p)" for p
    using assms by (auto simp: timed_def sorted_append)
  have waits: "s \<in> set (queue_of (pg_queued g) u) \<Longrightarrow> fst s \<in> ev_when ` set events" for s u
    using assms by (simp add: timed_def)
  show ?thesis
    unfolding timed_def
  proof (intro conjI ballI allI)
    fix p assume "p \<in> set (pg_packets (pair_event e g))"
    then have "p \<in> set (pg_packets g) \<or> (pa_end p = ev_when e \<and>
        (?q = [] \<and> pa_start p = ev_when e \<or> ?q \<noteq> [] \<and> pa_start p = fst (hd ?q)))"
      by (auto simp: pair_event_def True l Let_def split: if_splits)
    then show "pa_start p \<in> ev_when ` set (events @ [e])" "pa_end p \<in> ev_when ` set (events @ [e])"
      "sorted (map ev_when (events @ [e])) \<longrightarrow> pa_start p \<le> pa_end p"
      using old [of p] start order by auto
  next
    fix u s assume "s \<in> set (queue_of (pg_queued (pair_event e g)) u)"
    then have "s \<in> set (queue_of (pg_queued g) u) \<or> s \<in> set ?q \<or> fst s = ev_when e"
      using tail by (auto simp: pair_event_def True l Let_def split: if_splits)
    with waits [of s] have "fst s \<in> ev_when ` set events \<or> fst s = ev_when e" by blast
    then show "fst s \<in> ev_when ` set (events @ [e])" by auto
  qed
qed

lemma timed_fold: "timed events (fold pair_event events \<lparr>pg_queued = [], pg_packets = [], pg_marks = []\<rparr>)"
proof (induction events rule: rev_induct)
  case Nil
  show ?case by (simp add: timed_def queue_of_def)
next
  case (snoc e events)
  then show ?case using timed_step by simp
qed

lemma x_of_spec:
  assumes "events \<noteq> []" and "w \<in> ev_when ` set events" and "w' \<in> ev_when ` set events"
  shows "GUTTER \<le> x_of (bucket events) w" "x_of (bucket events) w \<le> GUTTER + PLOT"
    "x_of (bucket events) w \<le> x_of (bucket events) w' \<longleftrightarrow> w \<le> w'"
proof -
  let ?sc = "bucket events"
  have "sc_start ?sc = Min (ev_when ` set events)" "sc_end ?sc = Max (ev_when ` set events)"
    using assms(1) by (simp_all add: bucket_def Let_def split: prod.split)
  then have b: "sc_start ?sc \<le> v" "v \<le> sc_end ?sc" if "v \<in> ev_when ` set events" for v
    using that by simp_all
  note w = b [OF assms(2)] b [OF assms(3)]
  have "GUTTER \<le> x_of ?sc w \<and> x_of ?sc w \<le> GUTTER + PLOT \<and> (x_of ?sc w \<le> x_of ?sc w' \<longleftrightarrow> w \<le> w')"
  proof (cases "sc_end ?sc - sc_start ?sc \<le> 0")
    case True
    with w show ?thesis by (simp add: x_of_def Let_def PLOT_def)
  next
    case False
    define k where "k = sc_end ?sc - sc_start ?sc"
    have k: "0 < k" using False by (simp add: k_def)
    have x: "x_of ?sc v = GUTTER + (v - sc_start ?sc) / k * PLOT" for v
      using False by (simp add: x_of_def k_def)
    define f f' where "f = (w - sc_start ?sc) / k" and "f' = (w' - sc_start ?sc) / k"
    have "0 \<le> f" "f \<le> 1" using w k by (simp_all add: f_def k_def)
    moreover have "f \<le> f' \<longleftrightarrow> w \<le> w'" using k by (simp add: f_def f'_def divide_le_cancel)
    ultimately show ?thesis unfolding x f_def [symmetric] f'_def [symmetric] by (simp add: PLOT_def)
  qed
  then show "GUTTER \<le> x_of ?sc w" "x_of ?sc w \<le> GUTTER + PLOT" "x_of ?sc w \<le> x_of ?sc w' \<longleftrightarrow> w \<le> w'" by blast+
qed

lemma packet_times:
  assumes "p \<in> set (sc_packets (bucket events))"
  shows "pa_start p \<in> ev_when ` set events" "pa_end p \<in> ev_when ` set events"
    "sorted (map ev_when events) \<Longrightarrow> pa_start p \<le> pa_end p"
proof -
  define g where "g = fold pair_event events \<lparr>pg_queued = [], pg_packets = [], pg_marks = []\<rparr>"
  note timed = timed_fold [of events, folded g_def, unfolded timed_def]
  have keys: "distinct (map fst (pg_queued g))"
  proof -
    have "distinct (map fst (pg_queued (pair_event e h)))" if "distinct (map fst (pg_queued h))" for e h
      using that by (auto simp: pair_event_def Let_def distinct_update split: prod.split)
    then have "distinct (map fst (pg_queued (fold pair_event es h)))" if "distinct (map fst (pg_queued h))" for es h
      using that by (induction es arbitrary: h) auto
    then show ?thesis by (simp add: g_def)
  qed
  have "p \<in> set (pg_packets g) \<or> p \<in> set (concat (map in_flight (pg_queued g)))"
    using assms by (auto simp: bucket_def packets_of_def Let_def g_def)
  then have "pa_start p \<in> ev_when ` set events \<and> pa_end p \<in> ev_when ` set events \<and>
    (sorted (map ev_when events) \<longrightarrow> pa_start p \<le> pa_end p)"
  proof
    assume "p \<in> set (concat (map in_flight (pg_queued g)))"
    then obtain u q s where q: "(u, q) \<in> set (pg_queued g)" "s \<in> set q" "pa_start p = fst s" "pa_end p = fst s"
      by (auto simp: in_flight_def)
    then have "queue_of (pg_queued g) u = q" using keys by (simp add: queue_of_def map_of_eq_Some_iff [THEN iffD2])
    with timed q show ?thesis by auto
  qed (use timed in auto)
  then show "pa_start p \<in> ev_when ` set events" "pa_end p \<in> ev_when ` set events"
    "sorted (map ev_when events) \<Longrightarrow> pa_start p \<le> pa_end p" by blast+
qed

lemma kind_offset_bound: "\<bar>kind_offset k\<bar> < LANE / 2"
  by (cases k) (simp_all add: kind_offset_def LANE_def)

lemma row_bounds:
  assumes "i < length (sc_hosts sc)"
  shows "HEAD \<le> row_of i - LANE / 2" "row_of i + LANE / 2 \<le> page_height sc - FOOT"
    "i < j \<Longrightarrow> row_of i + LANE / 2 \<le> row_of j - LANE / 2"
proof -
  have "of_nat (Suc i) * LANE \<le> of_nat (length (sc_hosts sc)) * LANE"
    using assms by (intro mult_right_mono) (simp_all add: LANE_def del: of_nat_Suc)
  then show "row_of i + LANE / 2 \<le> page_height sc - FOOT"
    by (simp add: row_of_def page_height_def LANE_def FOOT_def)
  show "HEAD \<le> row_of i - LANE / 2" by (simp add: row_of_def LANE_def)
  show "row_of i + LANE / 2 \<le> row_of j - LANE / 2" if "i < j"
  proof -
    have "of_nat (Suc i) * LANE \<le> of_nat j * LANE"
      using that by (intro mult_right_mono) (simp_all add: LANE_def del: of_nat_Suc)
    then show ?thesis by (simp add: row_of_def LANE_def algebra_simps)
  qed
qed

lemma mark_times: "m \<in> set (entries_at (sc_marks (bucket events)) h) \<Longrightarrow> mk_when m \<in> ev_when ` set events"
proof -
  let ?none = "\<lparr>pg_queued = [], pg_packets = [], pg_marks = []\<rparr>"
  have "\<forall>m\<in>set (pg_marks (fold pair_event events ?none)). mk_when m \<in> ev_when ` set events"
  proof (induction events rule: rev_induct)
    case (snoc e events)
    then show ?case by (auto simp: pair_event_def Let_def split: prod.split)
  qed simp
  moreover assume "m \<in> set (entries_at (sc_marks (bucket events)) h)"
  ultimately show ?thesis by (auto simp: bucket_def packets_of_def Let_def entries_at_group)
qed

text \<open>
  C33. What is drawn stays on the page and in its lane, and the time axis tells the truth, in every
  trace, with packets or without. Every event and every mark lies within the plot, an event further right
  than another exactly when it is later; a dot stays inside the band of its lane; the band of a lane
  is on the page and apart from the next lane's; both ends of every packet lie within the plot; and if
  the times of the trace do not decrease, as those of a run do not, no arrow points back in time.
\<close>
theorem timeline_stays_on_the_page:
  "let sc = bucket events in
    (\<forall>e\<in>set events. \<forall>i. case dot_at sc i e of (x, y) \<Rightarrow>
       GUTTER \<le> x \<and> x \<le> page_width - RIGHT \<and> row_of i - LANE / 2 < y \<and> y < row_of i + LANE / 2 \<and>
       (\<forall>e'\<in>set events. x \<le> x_of sc (ev_when e') \<longleftrightarrow> ev_when e \<le> ev_when e')) \<and>
    (\<forall>i<length (sc_hosts sc). HEAD \<le> row_of i - LANE / 2 \<and> row_of i + LANE / 2 \<le> page_height sc - FOOT \<and>
       row_of (Suc i) = row_of i + LANE) \<and>
    (\<forall>h. \<forall>m\<in>set (entries_at (sc_marks sc) h). GUTTER \<le> x_of sc (mk_when m) \<and> x_of sc (mk_when m) \<le> page_width - RIGHT) \<and>
    (\<forall>p\<in>set (sc_packets sc). \<forall>w\<in>{pa_start p, pa_end p}. GUTTER \<le> x_of sc w \<and> x_of sc w \<le> page_width - RIGHT) \<and>
    (sorted (map ev_when events) \<longrightarrow> (\<forall>p\<in>set (sc_packets sc). x_of sc (pa_start p) \<le> x_of sc (pa_end p)))"
proof -
  let ?sc = "bucket events"
  have some: "events \<noteq> []" if "w \<in> ev_when ` set events" for w using that by auto
  have plot: "GUTTER \<le> x_of ?sc w" "x_of ?sc w \<le> page_width - RIGHT" if "w \<in> ev_when ` set events" for w
    using x_of_spec(1,2) [OF some [OF that] that that] by (simp_all add: page_width_def)
  have dots: "case dot_at ?sc i e of (x, y) \<Rightarrow>
       GUTTER \<le> x \<and> x \<le> page_width - RIGHT \<and> row_of i - LANE / 2 < y \<and> y < row_of i + LANE / 2 \<and>
       (\<forall>e'\<in>set events. x \<le> x_of ?sc (ev_when e') \<longleftrightarrow> ev_when e \<le> ev_when e')" if e: "e \<in> set events" for e i
  proof -
    have w: "ev_when e \<in> ev_when ` set events" using e by simp
    have "\<bar>kind_offset (ev_kind e)\<bar> < LANE / 2" by (rule kind_offset_bound)
    then show ?thesis using plot [OF w] x_of_spec(3) [OF some [OF w] w] by (auto simp: dot_at_def)
  qed
  have lanes: "row_of (Suc i) = row_of i + LANE" for i by (simp add: row_of_def algebra_simps)
  have arrows: "x_of ?sc (pa_start p) \<le> x_of ?sc (pa_end p)" if "sorted (map ev_when events)" "p \<in> set (sc_packets ?sc)" for p
    using packet_times [OF that(2)] that(1) x_of_spec(3) some by blast
  show ?thesis unfolding Let_def
  proof (intro conjI)
    show "\<forall>e\<in>set events. \<forall>i. case dot_at ?sc i e of (x, y) \<Rightarrow>
       GUTTER \<le> x \<and> x \<le> page_width - RIGHT \<and> row_of i - LANE / 2 < y \<and> y < row_of i + LANE / 2 \<and>
       (\<forall>e'\<in>set events. x \<le> x_of ?sc (ev_when e') \<longleftrightarrow> ev_when e \<le> ev_when e')" by (intro ballI allI dots)
  qed (use row_bounds(1,2) lanes plot mark_times packet_times(1,2) arrows in auto)
qed

definition quiet_events :: "trace_event list" where
  \<comment> \<open>a trace with no packet\<close>
  "quiet_events = [mk_event Schedule 1 1 ''task'' ''a'', mk_event Run 3 1 ''task'' ''a'']"

theorem timeline_stays_on_the_page_witness:
  "x_of (bucket demo_events) 0 \<le> x_of (bucket demo_events) 2 \<and> x_of (bucket demo_events) 2 \<le> page_width - RIGHT \<and>
   sc_packets (bucket quiet_events) = [] \<and> fst (dot_at (bucket quiet_events) 0 (quiet_events ! 1)) \<le> page_width - RIGHT"
proof -
  let ?p = "\<lparr>pa_uid = 1, pa_src = ''a'', pa_dst = ''b'', pa_start = 0, pa_end = 2, pa_fate = DELIVER\<rparr>"
  have p: "?p \<in> set (sc_packets (bucket demo_events))"
    by (simp add: bucket_def packets_of_def demo_events_def pair_event_def label_ends_def str_partition_def queue_of_def
        SEND_def DELIVER_def FATES_def Let_def in_flight_def set_insort_key)
  have "sorted (map ev_when demo_events)" by (simp add: demo_events_def)
  with p timeline_stays_on_the_page [of demo_events]
  have "x_of (bucket demo_events) 0 \<le> x_of (bucket demo_events) 2 \<and> x_of (bucket demo_events) 2 \<le> page_width - RIGHT"
    by (fastforce simp: Let_def)
  moreover have "quiet_events ! 1 \<in> set quiet_events" by (simp add: quiet_events_def)
  then have "fst (dot_at (bucket quiet_events) 0 (quiet_events ! 1)) \<le> page_width - RIGHT"
    using timeline_stays_on_the_page [of quiet_events] by (auto simp: Let_def dot_at_def)
  moreover have "sc_packets (bucket quiet_events) = []"
    by (simp add: bucket_def packets_of_def quiet_events_def pair_event_def Let_def)
  ultimately show ?thesis by blast
qed

end
