(* ===== verification/SimPage.thy ===== *)
theory SimPage
  imports SimTimeline SimFormat
begin

text \<open>
  The page \<open>src/simloop/_timeline.py\<close> writes around the scene of theory \<open>SimTimeline\<close>: \<open>_render\<close> and its
  parts, line by line. The style sheet, the script and the legend are constant texts of the module
  and stay arguments, and so does \<open>repr\<close> of a float. What a reader's browser makes of the page is
  its markup: the tags without the values of their attributes and without the text between them.
  The markup of the drawing depends on the scene's shape alone, whatever the texts of the program
  under test hold.
\<close>

section \<open>Elements\<close>

definition attribute :: "string \<times> string \<Rightarrow> string" where
  "attribute av = '' '' @ fst av @ ''='' @ dquote # snd av @ [dquote]"

definition open_tag :: "string \<Rightarrow> (string \<times> string) list \<Rightarrow> string" where
  "open_tag tag attrs = ''<'' @ tag @ concat (map attribute attrs) @ ''>''"

definition close_tag :: "string \<Rightarrow> string" where
  "close_tag tag = ''</'' @ tag @ ''>''"

definition page_num :: "time \<Rightarrow> string" where "page_num v = str_fixed 2 v"

definition page_clock :: "time \<Rightarrow> string" where "page_clock w = str_fixed 4 w"

definition lane_name :: "hostname \<Rightarrow> string" where
  "lane_name host = (if host \<noteq> [] then host else ''the simulation'')"

definition title_of :: "string list \<Rightarrow> string" where
  "title_of parts = ''<title>'' @ html_escape (join ''  '' (filter (\<lambda>p. p \<noteq> []) parts)) @ ''</title>''"

section \<open>The drawing\<close>

definition MACHINE_FATES :: "string list" where "MACHINE_FATES = [''crash'', ''restart'']"
definition MARK_REACH :: time where "MARK_REACH = 17"
definition FATE_REACH :: time where "FATE_REACH = 6"
definition STUB_REACH :: time where "STUB_REACH = 30"
definition ARROW_INSET :: time where "ARROW_INSET = 9"
definition TICKS :: nat where "TICKS = 8"

definition axis_lines :: "scene \<Rightarrow> string list" where
  "axis_lines sc =
     [open_tag ''g'' [(''class'', ''axis'')]] @
     concat (map (\<lambda>i.
        let w = sc_start sc + (sc_end sc - sc_start sc) * of_nat i / of_nat TICKS; x = x_of sc w in
        [open_tag ''line'' [(''class'', ''grid''), (''x1'', page_num x), (''y1'', page_num (HEAD - 18)),
           (''x2'', page_num x), (''y2'', page_num (page_height sc - FOOT + 8))] @ close_tag ''line'',
         open_tag ''text'' [(''class'', ''tick''), (''x'', page_num x), (''y'', page_num (HEAD - 26))] @
           ''t='' @ page_clock w @ close_tag ''text'']) [0..<Suc TICKS]) @
     [close_tag ''g'']"

definition dot_line :: "scene \<Rightarrow> hostname \<Rightarrow> time \<Rightarrow> trace_event \<Rightarrow> string" where
  "dot_line sc host row e =
     open_tag ''circle'' [(''class'', ''dot''), (''data-kind'', html_escape (kind_name (ev_kind e))),
       (''cx'', page_num (x_of sc (ev_when e))), (''cy'', page_num (row + kind_offset (ev_kind e))), (''r'', ''3.0'')] @
     title_of [''t='' @ page_clock (ev_when e), kind_name (ev_kind e), host, ev_label e] @ close_tag ''circle''"

definition mark_line :: "(time \<Rightarrow> string) \<Rightarrow> scene \<Rightarrow> hostname \<Rightarrow> time \<Rightarrow> tl_mark \<Rightarrow> string" where
  "mark_line repr sc host row m =
     (let x = x_of sc (mk_when m);
          (css, reach) = (if mk_verb m \<in> set MACHINE_FATES then (''mark'', MARK_REACH) else (''fate'', FATE_REACH))
      in open_tag ''line'' [(''class'', css), (''data-mark'', html_escape (mk_verb m)), (''data-host'', html_escape host),
           (''data-when'', repr (mk_when m)), (''x1'', page_num x), (''y1'', page_num (row - reach)),
           (''x2'', page_num x), (''y2'', page_num (row + reach))] @
         title_of [''t='' @ page_clock (mk_when m), mk_label m] @ close_tag ''line'')"

definition lane_lines :: "(time \<Rightarrow> string) \<Rightarrow> scene \<Rightarrow> hostname \<Rightarrow> nat \<Rightarrow> time \<Rightarrow> string list" where
  "lane_lines repr sc host index row =
     (let shade = (if index mod 2 \<noteq> 0 then '' lane-odd'' else []); sim = (if host = [] then '' lane-sim'' else []) in
      [open_tag ''g'' [(''class'', ''lane''), (''data-host'', html_escape host), (''data-row'', str_nat index)],
       open_tag ''rect'' [(''class'', ''lane-bg'' @ shade @ sim), (''x'', ''0''), (''y'', page_num (row - LANE / 2)),
         (''width'', page_num page_width), (''height'', page_num LANE)] @ close_tag ''rect'',
       open_tag ''line'' [(''class'', ''lane-line''), (''x1'', page_num GUTTER), (''y1'', page_num row),
         (''x2'', page_num (page_width - RIGHT / 2)), (''y2'', page_num row)] @ close_tag ''line'',
       open_tag ''text'' [(''class'', ''lane-name''), (''x'', ''14''), (''y'', page_num (row + 4))] @
         html_escape (lane_name host) @ close_tag ''text''] @
      map (dot_line sc host row) (entries_at (sc_dots sc) host) @
      map (mark_line repr sc host row) (entries_at (sc_marks sc) host) @
      [close_tag ''g''])"

definition rows_of :: "hostname list \<Rightarrow> (hostname, time) dict" where
  "rows_of hosts = fold (\<lambda>(index, host) d. dict_set host (row_of index) d) (enumerate 0 hosts) []"

definition row_or :: "(hostname, time) dict \<Rightarrow> hostname \<Rightarrow> time \<Rightarrow> time" where
  "row_or rows host d = (case dict_get rows host of Some r \<Rightarrow> r | None \<Rightarrow> d)"

definition packet_line :: "(time \<Rightarrow> string) \<Rightarrow> scene \<Rightarrow> tl_packet \<Rightarrow> string" where
  "packet_line repr sc p =
     (let rows = rows_of (sc_hosts sc);
          src = row_or rows (pa_src p) 0; dst = row_or rows (pa_dst p) src;
          heading = (if dst > src then 1 else 0) - (if dst < src then 1 else 0) :: time;
          left = x_of sc (pa_start p);
          link = pa_src p @ ''>'' @ pa_dst p;
          common = [(''data-uid'', str_int (pa_uid p)), (''data-src'', html_escape (pa_src p)),
            (''data-dst'', html_escape (pa_dst p)), (''data-start'', repr (pa_start p)), (''data-end'', repr (pa_end p))];
          w = ''t='' @ page_clock (pa_start p)
      in if delivered p then
           let inset = (if heading \<noteq> 0 then ARROW_INSET * heading else - ARROW_INSET) in
           open_tag ''line'' ([(''class'', ''arrow'')] @ common @ [(''x1'', page_num left), (''y1'', page_num (src + inset)),
             (''x2'', page_num (x_of sc (pa_end p))), (''y2'', page_num (if heading \<noteq> 0 then dst - inset else src + inset)),
             (''marker-end'', ''url(#sl-arrow)'')]) @
           title_of [w, link, ''delivered t='' @ page_clock (pa_end p)] @ close_tag ''line''
         else
           let fate = (if pa_fate p = ''inflight'' then ''still in flight when the run ended''
                       else pa_fate p @ '' t='' @ page_clock (pa_end p));
               drift = STUB_REACH / 2 * (if heading \<noteq> 0 then heading else -1)
           in open_tag ''line'' ([(''class'', ''stub''), (''data-fate'', html_escape (pa_fate p))] @ common @
                [(''x1'', page_num left), (''y1'', page_num src), (''x2'', page_num (left + STUB_REACH)),
                 (''y2'', page_num (src + drift))]) @
              title_of [w, link, fate] @ close_tag ''line'')"

definition drawing_lines :: "(time \<Rightarrow> string) \<Rightarrow> scene \<Rightarrow> string list" where
  \<comment> \<open>what \<open>_render\<close> puts inside the \<open>svg\<close> element, after the marker definition\<close>
  "drawing_lines repr sc =
     axis_lines sc @
     concat (map (\<lambda>(index, host). lane_lines repr sc host index (row_of index)) (enumerate 0 (sc_hosts sc))) @
     [open_tag ''g'' [(''class'', ''packets'')]] @ map (packet_line repr sc) (sc_packets sc) @ [close_tag ''g'']"

section \<open>The page\<close>

definition meta_text :: "scene \<Rightarrow> string" where
  "meta_text sc =
     (let lanes = length (sc_hosts sc);
          events = (if sc_shown sc = 1 then ''event'' else ''events'');
          noun = (if lanes = 1 then ''lane'' else ''lanes'');
          arrows = length (filter delivered (sc_packets sc))
      in html_escape (str_commas (int (sc_shown sc)) @ '' '' @ events @ '' across '' @ str_nat lanes @ '' '' @ noun @ '', '' @
           str_commas (int arrows) @ '' delivered, virtual time '' @ page_clock (sc_start sc) @ '' to '' @ page_clock (sc_end sc)))"

definition page_lines :: "(time \<Rightarrow> string) \<Rightarrow> string \<Rightarrow> string \<Rightarrow> string \<Rightarrow> scene \<Rightarrow> nat \<Rightarrow> string list" where
  \<comment> \<open>\<open>_render\<close>; \<open>css\<close>, \<open>legend\<close> and \<open>js\<close> are the module's constants\<close>
  "page_lines repr css legend js sc seen =
     [''<!doctype html>'', open_tag ''html'' [(''lang'', ''en'')], ''<head>'', open_tag ''meta'' [(''charset'', ''utf-8'')],
      open_tag ''meta'' [(''name'', ''viewport''), (''content'', ''width=device-width, initial-scale=1'')],
      ''<title>simloop timeline</title>'', ''<style>'' @ css @ ''</style>'', ''</head>'', ''<body>'', ''<header>'',
      ''<h1>simloop timeline</h1>'', open_tag ''p'' [(''class'', ''meta'')] @ meta_text sc @ ''</p>''] @
     (if sc_shown sc < seen then
        [open_tag ''p'' [(''class'', ''banner'')] @ ''showing the last '' @ str_commas (int (sc_shown sc)) @ '' of '' @
         str_commas (int seen) @ '' events; everything earlier was dropped. Render with '' @
         ''timeline_html(events, limit=None) for the whole run.</p>''] else []) @
     [legend, ''</header>'',
      open_tag ''svg'' [(''id'', ''sl-view''), (''viewBox'', ''0 0 '' @ page_num page_width @ '' '' @ page_num (page_height sc)),
        (''data-events'', str_nat (sc_shown sc)), (''data-total'', str_nat seen)],
      ''<defs>'' @ open_tag ''marker'' [(''id'', ''sl-arrow''), (''viewBox'', ''0 0 8 8''), (''refX'', ''7''), (''refY'', ''4''),
        (''markerWidth'', ''7''), (''markerHeight'', ''7''), (''orient'', ''auto-start-reverse'')] @
        open_tag ''path'' [(''d'', ''M 0 0 L 8 4 L 0 8 z'')] @ ''</path></marker></defs>''] @
     drawing_lines repr sc @ [''</svg>''] @
     (if sc_shown sc = 0 then [open_tag ''p'' [(''class'', ''empty'')] @ ''no events: nothing was recorded</p>''] else []) @
     [''<script>'' @ js @ ''</script>'', ''</body>'', ''</html>'']"

definition timeline_html ::
    "(time \<Rightarrow> string) \<Rightarrow> string \<Rightarrow> string \<Rightarrow> string \<Rightarrow> trace_event list \<Rightarrow> int option \<Rightarrow> exn + string" where
  "timeline_html repr css legend js events limit =
     map_sum id (\<lambda>(sc, seen). join [newline] (page_lines repr css legend js sc seen) @ [newline])
       (timeline_scene events limit)"

section \<open>What a browser makes of it\<close>

datatype reading = InText | InTag | InValue

fun markup_char :: "reading \<Rightarrow> char \<Rightarrow> reading \<times> string" where
  "markup_char InText c = (if c = CHR ''<'' then (InTag, [c]) else (InText, []))"
| "markup_char InTag c = (if c = CHR ''>'' then (InText, [c]) else if c = dquote then (InValue, [c]) else (InTag, [c]))"
| "markup_char InValue c = (if c = dquote then (InTag, [c]) else (InValue, []))"

fun markup :: "reading \<Rightarrow> string \<Rightarrow> reading \<times> string" where
  "markup r [] = (r, [])"
| "markup r (c # s) =
     (let (r, out) = markup_char r c; (r, outs) = markup r s in (r, out @ outs))"

definition blank :: "string \<Rightarrow> string list \<Rightarrow> string" where
  "blank tag names = open_tag tag (map (\<lambda>n. (n, [])) names)"

definition empty_title :: string where "empty_title = ''<title></title>''"

definition axis_markup :: string where
  "axis_markup =
     blank ''g'' [''class''] @
     concat (replicate (Suc TICKS) (blank ''line'' [''class'', ''x1'', ''y1'', ''x2'', ''y2''] @ close_tag ''line'' @
       blank ''text'' [''class'', ''x'', ''y''] @ close_tag ''text'')) @
     close_tag ''g''"

definition dot_markup :: string where
  "dot_markup = blank ''circle'' [''class'', ''data-kind'', ''cx'', ''cy'', ''r''] @ empty_title @ close_tag ''circle''"

definition mark_markup :: string where
  "mark_markup = blank ''line'' [''class'', ''data-mark'', ''data-host'', ''data-when'', ''x1'', ''y1'', ''x2'', ''y2''] @
     empty_title @ close_tag ''line''"

definition lane_markup :: "nat \<Rightarrow> nat \<Rightarrow> string" where
  "lane_markup dots marks =
     blank ''g'' [''class'', ''data-host'', ''data-row''] @
     blank ''rect'' [''class'', ''x'', ''y'', ''width'', ''height''] @ close_tag ''rect'' @
     blank ''line'' [''class'', ''x1'', ''y1'', ''x2'', ''y2''] @ close_tag ''line'' @
     blank ''text'' [''class'', ''x'', ''y''] @ close_tag ''text'' @
     concat (replicate dots dot_markup) @ concat (replicate marks mark_markup) @ close_tag ''g''"

definition packet_markup :: "bool \<Rightarrow> string" where
  "packet_markup arrived =
     blank ''line'' ((if arrived then [''class''] else [''class'', ''data-fate'']) @
       [''data-uid'', ''data-src'', ''data-dst'', ''data-start'', ''data-end'', ''x1'', ''y1'', ''x2'', ''y2''] @
       (if arrived then [''marker-end''] else [])) @ empty_title @ close_tag ''line''"

definition drawing_markup :: "(nat \<times> nat) list \<Rightarrow> bool list \<Rightarrow> string" where
  "drawing_markup lanes packets =
     axis_markup @ concat (map (\<lambda>(dots, marks). lane_markup dots marks) lanes) @
     blank ''g'' [''class''] @ concat (map packet_markup packets) @ close_tag ''g''"

subsection \<open>Pieces of markup\<close>

text \<open>\<open>shows_as s m\<close>: read from outside any tag, \<open>s\<close> ends outside any tag and its markup is \<open>m\<close>.\<close>

definition shows_as :: "string \<Rightarrow> string \<Rightarrow> bool" where
  "shows_as s m \<longleftrightarrow> markup InText s = (InText, m)"

lemma markup_append: "markup r (s @ t) = (let (q, a) = markup r s; (p, b) = markup q t in (p, a @ b))"
  by (induction s arbitrary: r) (auto simp: Let_def split: prod.split)

lemma shows_as_append: "shows_as s m \<Longrightarrow> shows_as t n \<Longrightarrow> shows_as (s @ t) (m @ n)"
  by (simp add: shows_as_def markup_append)

lemma shows_as_nil [simp]: "shows_as [] []"
  by (simp add: shows_as_def)

lemma shows_as_text: "CHR ''<'' \<notin> set s \<Longrightarrow> shows_as s []"
  by (induction s) (auto simp: shows_as_def)

text \<open>Lines are joined by newlines, which are text, so their markup is put together.\<close>

definition lines_show :: "string list \<Rightarrow> string \<Rightarrow> bool" where
  "lines_show ls m \<longleftrightarrow> (\<exists>ms. list_all2 shows_as ls ms \<and> m = concat ms)"

lemma lines_show_nil: "lines_show [] []"
  by (simp add: lines_show_def)

lemma lines_show_Cons: "shows_as l m \<Longrightarrow> lines_show ls n \<Longrightarrow> lines_show (l # ls) (m @ n)"
  unfolding lines_show_def by (force intro: list_all2_Cons [THEN iffD2])

lemma lines_show_append: "lines_show ls m \<Longrightarrow> lines_show ks n \<Longrightarrow> lines_show (ls @ ks) (m @ n)"
  unfolding lines_show_def by (metis concat_append list_all2_appendI)

lemma lines_show_map: "(\<And>x. x \<in> set xs \<Longrightarrow> shows_as (f x) (g x)) \<Longrightarrow> lines_show (map f xs) (concat (map g xs))"
  by (induction xs) (auto intro: lines_show_nil lines_show_Cons)

lemma lines_show_concat: "(\<And>x. x \<in> set xs \<Longrightarrow> lines_show (f x) (g x)) \<Longrightarrow> lines_show (concat (map f xs)) (concat (map g xs))"
  by (induction xs) (auto intro: lines_show_nil lines_show_append)

lemma concat_map_const: "concat (map (\<lambda>x. m) xs) = concat (replicate (length xs) m)"
  by (induction xs) auto

lemma shows_as_join: "lines_show ls m \<Longrightarrow> shows_as (join [newline] ls) m"
proof (induction ls arbitrary: m)
  case (Cons l ls)
  then obtain a ms where all: "list_all2 shows_as ls ms" and m: "shows_as l a" "m = a @ concat ms"
    by (auto simp: lines_show_def list_all2_Cons1)
  then have ls: "lines_show ls (concat ms)" by (auto simp: lines_show_def)
  show ?case
  proof (cases "ls = []")
    case True
    with m all show ?thesis by simp
  next
    case False
    have "shows_as [newline] []" by (simp add: shows_as_def)
    from shows_as_append [OF m(1) shows_as_append [OF this Cons.IH [OF ls]]] show ?thesis
      by (simp only: m(2) join_Cons [OF False] append_Nil)
  qed
qed (simp add: lines_show_def)

definition in_value :: "string \<Rightarrow> bool" where "in_value s \<longleftrightarrow> dquote \<notin> set s"

definition in_name :: "string \<Rightarrow> bool" where "in_name s \<longleftrightarrow> dquote \<notin> set s \<and> CHR ''>'' \<notin> set s"

lemma in_value_simps [simp]:
  "in_value []" "in_value (c # s) \<longleftrightarrow> c \<noteq> dquote \<and> in_value s" "in_value (s @ t) \<longleftrightarrow> in_value s \<and> in_value t"
  by (auto simp: in_value_def)

lemma in_name_simps [simp]: "in_name []" "in_name (c # s) \<longleftrightarrow> c \<noteq> dquote \<and> c \<noteq> CHR ''>'' \<and> in_name s"
  by (auto simp: in_name_def)

lemma markup_value: "in_value s \<Longrightarrow> markup InValue s = (InValue, [])"
  by (induction s) (auto simp: in_value_def)

lemma markup_name: "in_name s \<Longrightarrow> markup InTag s = (InTag, s)"
  by (induction s) (auto simp: in_name_def)

lemma markup_attribute: "in_name n \<Longrightarrow> in_value v \<Longrightarrow> markup InTag (attribute (n, v)) = (InTag, attribute (n, []))"
  by (simp add: attribute_def markup_append markup_name markup_value)

lemma markup_attributes:
  "\<forall>(n, v)\<in>set attrs. in_name n \<and> in_value v \<Longrightarrow>
   markup InTag (concat (map attribute attrs)) = (InTag, concat (map (\<lambda>(n, v). attribute (n, [])) attrs))"
  by (induction attrs) (auto simp: markup_append markup_attribute)

lemma shows_as_open:
  assumes "in_name tag" and "\<forall>(n, v)\<in>set attrs. in_name n \<and> in_value v" and "names = map fst attrs"
  shows "shows_as (open_tag tag attrs) (blank tag names)"
proof -
  have "concat (map (\<lambda>(n, v). attribute (n, [])) attrs) = concat (map attribute (map (\<lambda>n. (n, [])) names))"
    by (simp add: assms(3) comp_def case_prod_unfold)
  then show ?thesis
    using markup_attributes [OF assms(2)]
    by (simp add: shows_as_def open_tag_def blank_def markup_append markup_name assms(1))
qed

lemma shows_as_close: "in_name tag \<Longrightarrow> shows_as (close_tag tag) (close_tag tag)"
  by (simp add: shows_as_def close_tag_def markup_append markup_name)

subsection \<open>Texts that fit\<close>

lemma html_escape_clean: "c \<in> set (html_escape s) \<Longrightarrow> c \<noteq> CHR ''<'' \<and> c \<noteq> CHR ''>'' \<and> c \<noteq> dquote"
  by (auto simp: html_escape_def html_char_def split: if_splits)

lemma in_value_escape [simp]: "in_value (html_escape s)"
  using html_escape_clean by (auto simp: in_value_def)

lemma shows_as_escape: "shows_as (html_escape s) []"
  using html_escape_clean by (intro shows_as_text) auto

lemma str_nat_clean: "c \<in> set (str_nat n) \<Longrightarrow> c \<noteq> CHR ''<'' \<and> c \<noteq> dquote"
  by (auto simp: is_digit_def dest: str_nat_digits)

lemma str_fixed_clean: "c \<in> set (str_fixed d v) \<Longrightarrow> c \<noteq> CHR ''<'' \<and> c \<noteq> dquote"
  by (auto simp: str_fixed_def zfill_def Let_def dest: str_nat_clean split: if_splits)

lemma in_value_numbers [simp]: "in_value (str_nat n)" "in_value (str_int i)" "in_value (page_num v)"
  by (auto simp: in_value_def str_int_def page_num_def dest: str_nat_clean str_fixed_clean split: if_splits)

lemma shows_as_clock: "shows_as (''t='' @ page_clock w) []"
  using str_fixed_clean by (intro shows_as_text) (auto simp: page_clock_def)

lemma shows_as_title: "shows_as (title_of parts) empty_title"
proof -
  have "shows_as ''<title>'' ''<title>''" "shows_as ''</title>'' ''</title>''" by (simp_all add: shows_as_def)
  from shows_as_append [OF this(1) shows_as_append [OF shows_as_escape this(2)]] show ?thesis
    by (simp add: title_of_def empty_title_def)
qed

text \<open>An element with a title is its tags and an empty title.\<close>

lemma shows_as_titled:
  assumes "in_name tag" and "\<forall>(n, v)\<in>set attrs. in_name n \<and> in_value v" and "names = map fst attrs"
  shows "shows_as (open_tag tag attrs @ title_of parts @ close_tag tag) (blank tag names @ empty_title @ close_tag tag)"
  by (intro shows_as_append shows_as_open shows_as_title shows_as_close assms)

lemma shows_as_element:
  assumes "in_name tag" and "\<forall>(n, v)\<in>set attrs. in_name n \<and> in_value v" and "names = map fst attrs" and "shows_as s []"
  shows "shows_as (open_tag tag attrs @ s @ close_tag tag) (blank tag names @ close_tag tag)"
  using shows_as_append [OF shows_as_open [OF assms(1-3)] shows_as_append [OF assms(4) shows_as_close [OF assms(1)]]] by simp

subsection \<open>The drawing's markup\<close>

lemma shows_as_dot: "shows_as (dot_line sc host row e) dot_markup"
  unfolding dot_line_def dot_markup_def by (rule shows_as_titled) auto

lemma shows_as_mark: "(\<And>w. in_value (repr w)) \<Longrightarrow> shows_as (mark_line repr sc host row m) mark_markup"
  unfolding mark_line_def mark_markup_def Let_def by (auto intro!: shows_as_titled simp del: append.simps)

lemma shows_as_packet: "(\<And>w. in_value (repr w)) \<Longrightarrow> shows_as (packet_line repr sc p) (packet_markup (delivered p))"
  unfolding packet_line_def packet_markup_def Let_def
  by (cases "delivered p"; simp only: if_True if_False; rule shows_as_titled; simp)

lemma lines_show_lane:
  assumes "\<And>w. in_value (repr w)"
  shows "lines_show (lane_lines repr sc host index row)
    (lane_markup (length (entries_at (sc_dots sc) host)) (length (entries_at (sc_marks sc) host)))"
proof -
  have g: "shows_as (open_tag ''g'' [(''class'', ''lane''), (''data-host'', html_escape host), (''data-row'', str_nat index)])
      (blank ''g'' [''class'', ''data-host'', ''data-row''])"
    by (rule shows_as_open) auto
  have rect: "shows_as (open_tag ''rect'' [(''class'', ''lane-bg'' @ shade @ sim), (''x'', ''0''), (''y'', page_num y),
         (''width'', page_num w), (''height'', page_num h)] @ close_tag ''rect'')
      (blank ''rect'' [''class'', ''x'', ''y'', ''width'', ''height''] @ close_tag ''rect'')"
    if "in_value shade" "in_value sim" for shade sim y w h
    using that by (intro shows_as_append shows_as_open shows_as_close) auto
  have line: "shows_as (open_tag ''line'' [(''class'', ''lane-line''), (''x1'', page_num x1), (''y1'', page_num y1),
         (''x2'', page_num x2), (''y2'', page_num y2)] @ close_tag ''line'')
      (blank ''line'' [''class'', ''x1'', ''y1'', ''x2'', ''y2''] @ close_tag ''line'')" for x1 y1 x2 y2
    by (intro shows_as_append shows_as_open shows_as_close) auto
  have name: "shows_as (open_tag ''text'' [(''class'', ''lane-name''), (''x'', ''14''), (''y'', page_num y)] @
         html_escape (lane_name host) @ close_tag ''text'') (blank ''text'' [''class'', ''x'', ''y''] @ close_tag ''text'')" for y
    by (rule shows_as_element) (auto simp: shows_as_escape)
  note dots = lines_show_map [of "entries_at (sc_dots sc) host" "dot_line sc host row" "\<lambda>_. dot_markup", OF shows_as_dot]
  note marks = lines_show_map [of "entries_at (sc_marks sc) host" "mark_line repr sc host row" "\<lambda>_. mark_markup", OF shows_as_mark [OF assms]]
  have close: "shows_as (close_tag ''g'') (close_tag ''g'')" by (rule shows_as_close) simp
  have shade: "in_value (if index mod 2 \<noteq> 0 then '' lane-odd'' else [])" "in_value (if host = [] then '' lane-sim'' else [])"
    by auto
  show ?thesis
    using lines_show_Cons [OF g lines_show_Cons [OF rect [OF shade] lines_show_Cons [OF line lines_show_Cons [OF name
        lines_show_append [OF dots lines_show_append [OF marks lines_show_Cons [OF close lines_show_nil]]]]]]]
    unfolding lane_lines_def lane_markup_def Let_def concat_map_const append_assoc append_Nil append_Nil2 append_Cons .
qed

lemma lines_show_axis: "lines_show (axis_lines sc) axis_markup"
proof -
  let ?mark = "blank ''line'' [''class'', ''x1'', ''y1'', ''x2'', ''y2''] @ close_tag ''line'' @
    blank ''text'' [''class'', ''x'', ''y''] @ close_tag ''text''"
  have tick: "lines_show
      [open_tag ''line'' [(''class'', ''grid''), (''x1'', page_num x), (''y1'', page_num (HEAD - 18)),
           (''x2'', page_num x), (''y2'', page_num (page_height sc - FOOT + 8))] @ close_tag ''line'',
       open_tag ''text'' [(''class'', ''tick''), (''x'', page_num x), (''y'', page_num (HEAD - 26))] @
           ''t='' @ page_clock w @ close_tag ''text''] ?mark" for x w
  proof -
    have line: "shows_as (open_tag ''line'' [(''class'', ''grid''), (''x1'', page_num x), (''y1'', page_num (HEAD - 18)),
           (''x2'', page_num x), (''y2'', page_num (page_height sc - FOOT + 8))] @ close_tag ''line'')
        (blank ''line'' [''class'', ''x1'', ''y1'', ''x2'', ''y2''] @ close_tag ''line'')"
      by (intro shows_as_append shows_as_open shows_as_close) auto
    have "shows_as (open_tag ''text'' [(''class'', ''tick''), (''x'', page_num x), (''y'', page_num (HEAD - 26))] @
        (''t='' @ page_clock w) @ close_tag ''text'') (blank ''text'' [''class'', ''x'', ''y''] @ close_tag ''text'')"
      by (rule shows_as_element) (auto simp: shows_as_clock [unfolded append_Cons append_Nil])
    from lines_show_Cons [OF line lines_show_Cons [OF this lines_show_nil]] show ?thesis
      by (simp only: append_assoc append_Nil2)
  qed
  have g: "shows_as (open_tag ''g'' [(''class'', ''axis'')]) (blank ''g'' [''class''])" "shows_as (close_tag ''g'') (close_tag ''g'')"
    by (rule shows_as_open shows_as_close; simp)+
  note ticks = lines_show_concat [where xs = "[0..<Suc TICKS]", OF tick]
  note all = lines_show_Cons [OF g(1) lines_show_append [OF ticks lines_show_Cons [OF g(2) lines_show_nil]]]
  have count: "length [0..<Suc TICKS] = Suc TICKS" by simp
  show ?thesis
    using all
    unfolding axis_lines_def axis_markup_def Let_def concat_map_const count append_assoc append_Cons append_Nil append_Nil2 .
qed

lemma map_enumerate_values: "map (\<lambda>(index, x). f x) (enumerate n xs) = map f xs"
  by (induction xs arbitrary: n) auto

text \<open>
  C34. No text of the program under test can change the timeline's markup. For every scene (whatever
  its host names, labels and verbs hold), the markup of the drawing is the one its shape asks for:
  the axis, for each lane its frame, one circle for each dot and one line for each mark, and for each
  packet an arrow if it was delivered and a stub otherwise.
\<close>
theorem page_markup_is_the_scenes:
  assumes "\<And>w. dquote \<notin> set (repr w)"
  shows "markup InText (join [newline] (drawing_lines repr sc)) =
    (InText, drawing_markup
       (map (\<lambda>h. (length (entries_at (sc_dots sc) h), length (entries_at (sc_marks sc) h))) (sc_hosts sc))
       (map delivered (sc_packets sc)))"
proof -
  have clean: "in_value (repr w)" for w using assms by (simp add: in_value_def)
  let ?shape = "\<lambda>h. (length (entries_at (sc_dots sc) h), length (entries_at (sc_marks sc) h))"
  have lanes: "lines_show (concat (map (\<lambda>(index, host). lane_lines repr sc host index (row_of index)) (enumerate 0 (sc_hosts sc))))
      (concat (map (\<lambda>(dots, marks). lane_markup dots marks) (map ?shape (sc_hosts sc))))"
  proof -
    have "map (\<lambda>(dots, marks). lane_markup dots marks) (map ?shape (sc_hosts sc)) =
        map (\<lambda>(index, h). lane_markup (fst (?shape h)) (snd (?shape h))) (enumerate 0 (sc_hosts sc))"
      unfolding map_enumerate_values by simp
    then show ?thesis
      by (simp only:) (rule lines_show_concat, auto simp: lines_show_lane [of repr, OF clean])
  qed
  have open_packets: "shows_as (open_tag ''g'' [(''class'', ''packets'')]) (blank ''g'' [''class''])"
    and close_packets: "shows_as (close_tag ''g'') (close_tag ''g'')"
    by (rule shows_as_open shows_as_close; simp)+
  have packets: "lines_show (map (packet_line repr sc) (sc_packets sc)) (concat (map packet_markup (map delivered (sc_packets sc))))"
    unfolding map_map comp_def by (rule lines_show_map) (rule shows_as_packet [OF clean])
  have "lines_show (drawing_lines repr sc) (drawing_markup (map ?shape (sc_hosts sc)) (map delivered (sc_packets sc)))"
    using lines_show_append [OF lines_show_axis lines_show_append [OF lanes lines_show_Cons [OF open_packets
        lines_show_append [OF packets lines_show_Cons [OF close_packets lines_show_nil]]]]]
    unfolding drawing_lines_def drawing_markup_def append_assoc append_Cons append_Nil append_Nil2 .
  from shows_as_join [OF this] show ?thesis by (simp add: shows_as_def)
qed

theorem page_markup_is_the_scenes_witness:
  "let host = dquote # ''><script>''; sc = \<lparr>sc_hosts = [host], sc_dots = [], sc_marks = [], sc_packets =
       [\<lparr>pa_uid = 1, pa_src = host, pa_dst = host, pa_start = 0, pa_end = 1, pa_fate = DELIVER\<rparr>],
       sc_start = 0, sc_end = 1, sc_shown = 0\<rparr> in
   markup InText (join [newline] (drawing_lines (\<lambda>w. ''0.0'') sc)) = (InText, drawing_markup [(0, 0)] [True])"
  using page_markup_is_the_scenes [of "\<lambda>w. ''0.0''"] by (simp add: Let_def entries_at_def delivered_def)

end
