(* ===== verification/JobBroker.thy ===== *)
theory JobBroker
  imports SimText
begin

text \<open>
  \<open>examples/jobqueue/jobqueue/broker.py\<close>: the job state machine. \<open>loop.time()\<close> is the argument
  \<open>now\<close>; the timers the broker sets with \<open>call_later\<close> are kept in \<open>b_timers\<close> under the handle
  they were given, and a fired timer leaves the list. A response the code builds as a dictionary is a
  constructor; \<open>RaisedR\<close> is a call that raises instead of answering. Payloads are arbitrary data.
\<close>

section \<open>State\<close>

datatype job_state = Queued | Leased | Done | Dead

record 'p job =
  jb_id :: string
  jb_key :: string
  jb_payload :: 'p
  jb_state :: job_state
  jb_attempts :: nat
  jb_token :: nat
  jb_ready_at :: time
  jb_expiry :: "nat option"

datatype timer_act = ExpireT string nat | ReadySetT

record 'p broker =
  b_lease_s :: time
  b_max_attempts :: "nat option"
  b_backoff_base_s :: time
  b_fencing :: bool
  b_jobs :: "(string, 'p job) dict"
  b_by_key :: "(string, string) dict"
  b_order :: "string list"
  b_ready :: bool
  b_next_id :: nat
  b_timers :: "(nat \<times> time \<times> timer_act) list"
  b_cancelled :: "nat list"
  b_next_handle :: nat

datatype 'p response =
    JobIdR string
  | NoJobR
  | LeaseR string nat 'p time
  | OkR bool
  | StateR "job_state option"
  | ErrorR string
  | WaitR time \<comment> \<open>no answer yet: the call waits for \<open>_ready\<close>, at most this long\<close>
  | RaisedR exn

definition broker_init :: "time \<Rightarrow> nat option \<Rightarrow> time \<Rightarrow> bool \<Rightarrow> 'p broker" where
  "broker_init lease_s max_attempts backoff_base_s fencing =
     \<lparr>b_lease_s = lease_s, b_max_attempts = max_attempts, b_backoff_base_s = backoff_base_s,
      b_fencing = fencing, b_jobs = [], b_by_key = [], b_order = [], b_ready = False, b_next_id = 0,
      b_timers = [], b_cancelled = [], b_next_handle = 0\<rparr>"

definition set_timer :: "time \<Rightarrow> time \<Rightarrow> timer_act \<Rightarrow> 'p broker \<Rightarrow> nat \<times> 'p broker" where
  \<comment> \<open>\<open>loop.call_later(delay, ...)\<close>\<close>
  "set_timer now delay act b =
     (b_next_handle b, b\<lparr>b_timers := b_timers b @ [(b_next_handle b, now + delay, act)],
        b_next_handle := Suc (b_next_handle b)\<rparr>)"

definition cancel_timer :: "nat option \<Rightarrow> 'p broker \<Rightarrow> 'p broker" where
  "cancel_timer h b = (case h of Some k \<Rightarrow> b\<lparr>b_cancelled := k # b_cancelled b\<rparr> | None \<Rightarrow> b)"

definition put_job :: "'p job \<Rightarrow> 'p broker \<Rightarrow> 'p broker" where
  \<comment> \<open>assignments to the fields of a job object, seen through \<open>_jobs\<close>\<close>
  "put_job job b = b\<lparr>b_jobs := dict_set (jb_id job) job (b_jobs b)\<rparr>"

section \<open>Operations\<close>

definition broker_submit :: "string \<Rightarrow> 'p \<Rightarrow> 'p broker \<Rightarrow> 'p response \<times> 'p broker" where
  "broker_submit key payload b =
     (case dict_get (b_by_key b) key of
        Some job_id \<Rightarrow> (JobIdR job_id, b)
      | None \<Rightarrow>
          let n = Suc (b_next_id b); job_id = ''j'' @ str_nat n;
              job = \<lparr>jb_id = job_id, jb_key = key, jb_payload = payload, jb_state = Queued, jb_attempts = 0,
                     jb_token = 0, jb_ready_at = 0, jb_expiry = None\<rparr>
          in (JobIdR job_id,
              (put_job job b)\<lparr>b_next_id := n, b_by_key := dict_set key job_id (b_by_key b),
                 b_order := b_order b @ [job_id], b_ready := True\<rparr>))"

fun first_ready :: "time \<Rightarrow> (string, 'p job) dict \<Rightarrow> string list \<Rightarrow> exn + 'p job option" where
  "first_ready now jobs [] = Inr None"
| "first_ready now jobs (job_id # ids) =
     (case dict_get jobs job_id of
        None \<Rightarrow> Inl KeyError
      | Some job \<Rightarrow>
          if jb_state job = Queued \<and> jb_ready_at job \<le> now then Inr (Some job) else first_ready now jobs ids)"

definition next_ready :: "time \<Rightarrow> 'p broker \<Rightarrow> exn + 'p job option" where
  "next_ready now b = first_ready now (b_jobs b) (b_order b)"

definition broker_lease :: "time \<Rightarrow> 'p job \<Rightarrow> 'p broker \<Rightarrow> 'p response \<times> 'p broker" where
  "broker_lease now job b =
     (let job1 = job\<lparr>jb_state := Leased, jb_token := Suc (jb_token job), jb_attempts := Suc (jb_attempts job)\<rparr> in
      if jb_id job \<notin> set (b_order b) then (RaisedR ValueError, put_job job1 b)
      else
        let (handle, b1) = set_timer now (b_lease_s b) (ExpireT (jb_id job) (jb_token job1))
              (b\<lparr>b_order := remove1 (jb_id job) (b_order b)\<rparr>)
        in (LeaseR (jb_id job) (jb_token job1) (jb_payload job) (b_lease_s b),
            put_job (job1\<lparr>jb_expiry := Some handle\<rparr>) b1))"

definition broker_acquire :: "time \<Rightarrow> time \<Rightarrow> 'p broker \<Rightarrow> 'p response \<times> 'p broker" where
  \<comment> \<open>one pass of the \<open>while True\<close> of \<open>_acquire\<close>: the first with \<open>deadline = now + wait_s\<close>, and one
      more each time the event wakes it\<close>
  "broker_acquire deadline now b =
     (case next_ready now b of
        Inl e \<Rightarrow> (RaisedR e, b)
      | Inr (Some job) \<Rightarrow> broker_lease now job b
      | Inr None \<Rightarrow>
          if deadline - now \<le> 0 then (NoJobR, b) else (WaitR (deadline - now), b\<lparr>b_ready := False\<rparr>))"

definition broker_expire :: "time \<Rightarrow> string \<Rightarrow> nat \<Rightarrow> 'p broker \<Rightarrow> 'p broker" where
  "broker_expire now job_id token b =
     (case dict_get (b_jobs b) job_id of
        None \<Rightarrow> b
      | Some job \<Rightarrow>
          if jb_state job \<noteq> Leased \<or> jb_token job \<noteq> token then b
          else if (case b_max_attempts b of Some m \<Rightarrow> m \<le> jb_attempts job | None \<Rightarrow> False)
          then put_job (job\<lparr>jb_state := Dead\<rparr>) b
          else
            let delay = b_backoff_base_s b * 2 ^ (jb_attempts job - 1) in
            snd (set_timer now delay ReadySetT
              ((put_job (job\<lparr>jb_state := Queued, jb_ready_at := now + delay\<rparr>) b)\<lparr>b_order := b_order b @ [job_id]\<rparr>)))"

definition broker_renew :: "time \<Rightarrow> string \<Rightarrow> nat \<Rightarrow> 'p broker \<Rightarrow> 'p response \<times> 'p broker" where
  "broker_renew now job_id token b =
     (case dict_get (b_jobs b) job_id of
        None \<Rightarrow> (OkR False, b)
      | Some job \<Rightarrow>
          if jb_state job \<noteq> Leased then (OkR False, b)
          else if b_fencing b \<and> token \<noteq> jb_token job then (OkR False, b)
          else
            let (handle, b1) = set_timer now (b_lease_s b) (ExpireT (jb_id job) (jb_token job))
                  (cancel_timer (jb_expiry job) b)
            in (OkR True, put_job (job\<lparr>jb_expiry := Some handle\<rparr>) b1))"

definition broker_complete :: "string \<Rightarrow> nat \<Rightarrow> 'p broker \<Rightarrow> 'p response \<times> 'p broker" where
  "broker_complete job_id token b =
     (case dict_get (b_jobs b) job_id of
        None \<Rightarrow> (OkR False, b)
      | Some job \<Rightarrow>
          if jb_state job = Dead then (OkR False, b)
          else if jb_state job = Done then (OkR True, b)
          else if b_fencing b \<and> (jb_state job \<noteq> Leased \<or> token \<noteq> jb_token job) then (OkR False, b)
          else
            let b1 = cancel_timer (jb_expiry job) b in
            if jb_state job = Queued \<and> jb_id job \<notin> set (b_order b1) then (RaisedR ValueError, b1)
            else (OkR True, put_job (job\<lparr>jb_state := Done\<rparr>)
              (if jb_state job = Queued then b1\<lparr>b_order := remove1 (jb_id job) (b_order b1)\<rparr> else b1)))"

definition broker_status :: "string \<Rightarrow> 'p broker \<Rightarrow> 'p response" where
  "broker_status job_id b = StateR (map_option jb_state (dict_get (b_jobs b) job_id))"

definition snapshot :: "'p broker \<Rightarrow> (string \<times> job_state \<times> nat) list" where
  "snapshot b = map (\<lambda>(_, j). (jb_id j, jb_state j, jb_attempts j)) (b_jobs b)"

datatype 'p message =
    SubmitM string 'p | AcquireM string time | RenewM string nat | CompleteM string nat | StatusM string
  | OtherM string

fun broker_handle :: "(string \<Rightarrow> string) \<Rightarrow> time \<Rightarrow> 'p message \<Rightarrow> 'p broker \<Rightarrow> 'p response \<times> 'p broker" where
  \<comment> \<open>\<open>repr_str\<close> is Python's \<open>repr\<close> of a string\<close>
  "broker_handle repr_str now (SubmitM key payload) b = broker_submit key payload b"
| "broker_handle repr_str now (AcquireM worker_id wait_s) b = broker_acquire (now + wait_s) now b"
| "broker_handle repr_str now (RenewM job_id token) b = broker_renew now job_id token b"
| "broker_handle repr_str now (CompleteM job_id token) b = broker_complete job_id token b"
| "broker_handle repr_str now (StatusM job_id) b = (broker_status job_id b, b)"
| "broker_handle repr_str now (OtherM op) b = (ErrorR (''unknown op '' @ repr_str op), b)"

fun fire :: "time \<Rightarrow> timer_act \<Rightarrow> 'p broker \<Rightarrow> 'p broker" where
  "fire now (ExpireT job_id token) b = broker_expire now job_id token b"
| "fire now ReadySetT b = b\<lparr>b_ready := True\<rparr>"

section \<open>Everything that can happen to a broker\<close>

inductive broker_step :: "time \<times> 'p broker \<Rightarrow> time \<times> 'p broker \<Rightarrow> bool" where
  message: "broker_step (now, b) (now, snd (broker_handle repr_str now m b))"
| retry: "broker_step (now, b) (now, snd (broker_acquire deadline now b))"
| timer: "\<lbrakk>(h, due, act) \<in> set (b_timers b); h \<notin> set (b_cancelled b); due \<le> now\<rbrakk> \<Longrightarrow>
    broker_step (now, b) (now, fire now act (b\<lparr>b_timers := filter (\<lambda>t. fst t \<noteq> h) (b_timers b)\<rparr>))"
| passes: "now \<le> later \<Longrightarrow> broker_step (now, b) (later, b)"

inductive_cases broker_step_elim: "broker_step (now, b) (now', b')"

section \<open>The invariant\<close>

definition live :: "'p broker \<Rightarrow> (nat \<times> time \<times> timer_act) set" where
  "live b = {t \<in> set (b_timers b). fst t \<notin> set (b_cancelled b)}"

definition timers_ok :: "'p broker \<Rightarrow> bool" where
  "timers_ok b \<longleftrightarrow> distinct (map fst (b_timers b)) \<and>
     (\<forall>t\<in>set (b_timers b). fst t < b_next_handle b) \<and> (\<forall>h\<in>set (b_cancelled b). h < b_next_handle b)"

definition attempts_left :: "'p broker \<Rightarrow> 'p job \<Rightarrow> bool" where
  "attempts_left b job \<longleftrightarrow>
     (case b_max_attempts b of None \<Rightarrow> True
      | Some m \<Rightarrow> if jb_state job = Queued then jb_attempts job < max 1 m else jb_attempts job \<le> max 1 m)"

text \<open>A leased job has its expiry timer pending; a job backing off has its wake-up pending.\<close>

definition watched :: "time \<Rightarrow> 'p broker \<Rightarrow> 'p job \<Rightarrow> bool" where
  "watched now b job \<longleftrightarrow>
     (jb_state job = Leased \<longrightarrow>
        (\<exists>h due. jb_expiry job = Some h \<and> (h, due, ExpireT (jb_id job) (jb_token job)) \<in> live b \<and> due \<le> now + b_lease_s b)) \<and>
     (jb_state job = Queued \<longrightarrow> jb_ready_at job \<le> now \<or> (\<exists>h. (h, jb_ready_at job, ReadySetT) \<in> live b))"

definition expiry_ok :: "'p broker \<Rightarrow> 'p job \<Rightarrow> bool" where
  "expiry_ok b job \<longleftrightarrow> (\<forall>h. jb_expiry job = Some h \<longrightarrow> h < b_next_handle b \<and>
     (\<forall>due act. (h, due, act) \<in> set (b_timers b) \<longrightarrow> (\<exists>t. act = ExpireT (jb_id job) t)))"

definition job_ok :: "time \<Rightarrow> 'p broker \<Rightarrow> string \<Rightarrow> 'p job \<Rightarrow> bool" where
  "job_ok now b j job \<longleftrightarrow> jb_id job = j \<and> dict_get (b_by_key b) (jb_key job) = Some j \<and>
     (\<exists>i. j = ''j'' @ str_nat i \<and> 1 \<le> i \<and> i \<le> b_next_id b) \<and> jb_attempts job = jb_token job \<and>
     attempts_left b job \<and> expiry_ok b job \<and> watched now b job"

definition order_ok :: "'p broker \<Rightarrow> bool" where
  "order_ok b \<longleftrightarrow> distinct (b_order b) \<and>
     (\<forall>j. j \<in> set (b_order b) \<longleftrightarrow> (\<exists>job. dict_get (b_jobs b) j = Some job \<and> jb_state job = Queued))"

definition broker_inv :: "time \<Rightarrow> 'p broker \<Rightarrow> bool" where
  "broker_inv now b \<longleftrightarrow> 0 \<le> now \<and> timers_ok b \<and> order_ok b \<and>
     (\<forall>j job. dict_get (b_jobs b) j = Some job \<longrightarrow> job_ok now b j job) \<and>
     (\<forall>k j. dict_get (b_by_key b) k = Some j \<longrightarrow> (\<exists>job. dict_get (b_jobs b) j = Some job \<and> jb_key job = k))"

lemma broker_inv_init: "0 \<le> now \<Longrightarrow> broker_inv now (broker_init l m bo f)"
  by (simp add: broker_inv_def broker_init_def timers_ok_def order_ok_def)

lemma watched_transfer:
  assumes "watched now b job" and "now \<le> now'" and "b_lease_s b' = b_lease_s b"
    and "\<And>h due. jb_state job = Leased \<Longrightarrow> (h, due, ExpireT (jb_id job) (jb_token job)) \<in> live b \<Longrightarrow>
      jb_expiry job = Some h \<Longrightarrow> (h, due, ExpireT (jb_id job) (jb_token job)) \<in> live b'"
    and "\<And>h due. jb_state job = Queued \<Longrightarrow> now' < due \<Longrightarrow> (h, due, ReadySetT) \<in> live b \<Longrightarrow> (h, due, ReadySetT) \<in> live b'"
  shows "watched now' b' job"
proof -
  have "\<exists>h due. jb_expiry job = Some h \<and> (h, due, ExpireT (jb_id job) (jb_token job)) \<in> live b' \<and> due \<le> now' + b_lease_s b'"
    if L: "jb_state job = Leased"
  proof -
    obtain h due where "jb_expiry job = Some h" "(h, due, ExpireT (jb_id job) (jb_token job)) \<in> live b" "due \<le> now + b_lease_s b"
      using assms(1) L by (auto simp: watched_def)
    with assms(2,3) assms(4) [OF L] show ?thesis
      by (intro exI [of _ h] exI [of _ due]) (auto intro: order_trans)
  qed
  moreover have "jb_ready_at job \<le> now' \<or> (\<exists>h. (h, jb_ready_at job, ReadySetT) \<in> live b')" if Q: "jb_state job = Queued"
  proof (cases "jb_ready_at job \<le> now'")
    case False
    with assms(1,2) Q obtain h where "(h, jb_ready_at job, ReadySetT) \<in> live b" by (auto simp: watched_def)
    with assms(5) [OF Q] False show ?thesis by (auto simp: not_le)
  qed simp
  ultimately show ?thesis by (simp add: watched_def)
qed

text \<open>What an operation on one job may change, so that every other job stays as it should.\<close>

definition harmless :: "'p broker \<Rightarrow> string \<Rightarrow> 'p broker \<Rightarrow> bool" where
  "harmless b j b' \<longleftrightarrow> b_lease_s b' = b_lease_s b \<and> b_max_attempts b' = b_max_attempts b \<and>
     (\<forall>k i. dict_get (b_by_key b) k = Some i \<longrightarrow> dict_get (b_by_key b') k = Some i) \<and>
     b_next_id b \<le> b_next_id b' \<and> b_next_handle b \<le> b_next_handle b' \<and>
     (\<forall>t\<in>set (b_timers b'). t \<in> set (b_timers b) \<or> b_next_handle b \<le> fst t) \<and>
     (\<forall>h due act. (h, due, act) \<in> live b \<longrightarrow> (\<forall>t. act \<noteq> ExpireT j t) \<longrightarrow> (h, due, act) \<in> live b')"

lemma job_ok_harmless:
  assumes "job_ok now b k job" and "harmless b j b'" and "k \<noteq> j"
  shows "job_ok now b' k job"
proof -
  have k: "jb_id job = k" using assms(1) by (simp add: job_ok_def)
  have "watched now b' job"
    using assms k by (intro watched_transfer [of now b job now b']) (auto simp: job_ok_def harmless_def)
  moreover have "expiry_ok b' job"
    using assms(1,2) by (fastforce simp: job_ok_def harmless_def expiry_ok_def)
  ultimately show ?thesis
    using assms(1,2) by (fastforce simp: job_ok_def harmless_def attempts_left_def)
qed

lemma broker_inv_touch:
  assumes inv: "broker_inv now b" and "harmless b j b'" and "timers_ok b'" and "order_ok b'"
    and jobs: "b_jobs b' = dict_set j job' (b_jobs b)" and "dict_get (b_jobs b) j = Some job"
    and "jb_key job' = jb_key job" and "b_by_key b' = b_by_key b" and "job_ok now b' j job'"
  shows "broker_inv now b'"
proof -
  have "job_ok now b' k job2" if "dict_get (b_jobs b') k = Some job2" for k job2
    using that assms job_ok_harmless [of now b k job2 j b'] by (auto simp: broker_inv_def split: if_splits)
  moreover have "\<exists>job. dict_get (b_jobs b') i = Some job \<and> jb_key job = k" if "dict_get (b_by_key b') k = Some i" for k i
    using that assms(6-8) inv jobs by (fastforce simp: broker_inv_def)
  ultimately show ?thesis using inv assms(3,4) by (simp add: broker_inv_def)
qed

lemma order_ok_leave:
  assumes "order_ok b" and "b_order b' = remove1 j (b_order b)" and "b_jobs b' = dict_set j job' (b_jobs b)"
    and "jb_state job' \<noteq> Queued"
  shows "order_ok b'"
  using assms by (auto simp: order_ok_def)

lemma order_ok_stay:
  assumes "order_ok b" and "b_order b' = b_order b" and "b_jobs b' = dict_set j job' (b_jobs b)"
    and "dict_get (b_jobs b) j = Some job" and "jb_state job \<noteq> Queued" and "jb_state job' \<noteq> Queued"
  shows "order_ok b'"
  using assms by (auto simp: order_ok_def)

lemma order_ok_enter:
  assumes "order_ok b" and "b_order b' = b_order b @ [j]" and "b_jobs b' = dict_set j job' (b_jobs b)"
    and "jb_state job' = Queued" and "\<And>job. dict_get (b_jobs b) j = Some job \<Longrightarrow> jb_state job \<noteq> Queued"
  shows "order_ok b'"
proof -
  have "j \<notin> set (b_order b)" using assms(1,5) by (auto simp: order_ok_def)
  then show ?thesis using assms(1-4) by (auto simp: order_ok_def)
qed

lemma fresh_handle: "timers_ok b \<Longrightarrow> b_next_handle b \<notin> set (b_cancelled b)"
  by (auto simp: timers_ok_def)

lemma timers_ok_set:
  assumes "timers_ok b" and "b_timers b' = b_timers b @ [(b_next_handle b, d, a)]"
    and "b_next_handle b' = Suc (b_next_handle b)" and "b_cancelled b' = b_cancelled b"
  shows "timers_ok b'"
  using assms by (fastforce simp: timers_ok_def)

lemma job_found:
  assumes "broker_inv now b" and "dict_get (b_jobs b) j = Some job"
  shows "job_ok now b j job" "jb_id job = j"
  using assms by (auto simp: broker_inv_def job_ok_def)

lemma broker_lease_inv:
  assumes inv: "broker_inv now b" and j: "dict_get (b_jobs b) j = Some job" and q: "jb_state job = Queued"
  shows "broker_inv now (snd (broker_lease now job b))"
proof -
  note ok = job_found [OF inv j]
  let ?n = "b_next_handle b"
  let ?job = "job\<lparr>jb_state := Leased, jb_token := Suc (jb_token job), jb_attempts := Suc (jb_attempts job), jb_expiry := Some ?n\<rparr>"
  let ?b = "snd (broker_lease now job b)"
  have "j \<in> set (b_order b)" using inv j q by (auto simp: broker_inv_def order_ok_def)
  then have b': "?b = b\<lparr>b_order := remove1 j (b_order b),
      b_timers := b_timers b @ [(?n, now + b_lease_s b, ExpireT j (Suc (jb_token job)))], b_next_handle := Suc ?n,
      b_jobs := dict_set j ?job (b_jobs b)\<rparr>"
    using ok by (simp add: broker_lease_def set_timer_def put_job_def Let_def)
  have t: "timers_ok b" using inv by (simp add: broker_inv_def)
  show ?thesis
  proof (rule broker_inv_touch [OF inv _ _ _ _ j])
    show "harmless b j ?b" unfolding b' by (auto simp: harmless_def live_def)
    show "timers_ok ?b" by (rule timers_ok_set [OF t]) (auto simp: b')
    show "order_ok ?b" using inv by (intro order_ok_leave [of b ?b j ?job]) (auto simp: b' broker_inv_def)
    show "job_ok now ?b j ?job"
      using ok(1) t fresh_handle [OF t] q
      by (auto simp: b' job_ok_def attempts_left_def expiry_ok_def watched_def live_def timers_ok_def
          split: option.splits)
  qed (auto simp: b')
qed

lemma first_ready_some:
  "first_ready now jobs ids = Inr (Some job) \<Longrightarrow>
     \<exists>j\<in>set ids. dict_get jobs j = Some job \<and> jb_state job = Queued \<and> jb_ready_at job \<le> now"
  by (induction ids) (auto split: option.splits if_splits)

lemma broker_inv_ready [simp]: "broker_inv now (b\<lparr>b_ready := r\<rparr>) = broker_inv now b"
  by (simp add: broker_inv_def timers_ok_def order_ok_def job_ok_def attempts_left_def expiry_ok_def watched_def live_def)

lemma broker_acquire_inv: "broker_inv now b \<Longrightarrow> broker_inv now (snd (broker_acquire deadline now b))"
  using broker_lease_inv [of now b] first_ready_some [of now "b_jobs b" "b_order b"]
  by (fastforce simp: broker_acquire_def next_ready_def split: sum.splits option.splits)

lemma broker_expire_inv:
  assumes inv: "broker_inv now b"
  shows "broker_inv now (broker_expire now j token b)"
proof (cases "\<exists>job. dict_get (b_jobs b) j = Some job \<and> jb_state job = Leased \<and> jb_token job = token")
  case False
  then have "broker_expire now j token b = b" by (auto simp: broker_expire_def split: option.split)
  with inv show ?thesis by simp
next
  case True
  then obtain job where j: "dict_get (b_jobs b) j = Some job" and l: "jb_state job = Leased" "jb_token job = token" by blast
  note ok = job_found [OF inv j]
  have t: "timers_ok b" "order_ok b" using inv by (simp_all add: broker_inv_def)
  show ?thesis
  proof (cases "case b_max_attempts b of Some m \<Rightarrow> m \<le> jb_attempts job | None \<Rightarrow> False")
    case True
    let ?job = "job\<lparr>jb_state := Dead\<rparr>"
    let ?b = "b\<lparr>b_jobs := dict_set j ?job (b_jobs b)\<rparr>"
    have b': "broker_expire now j token b = ?b"
      using True j l ok by (simp add: broker_expire_def put_job_def)
    show ?thesis unfolding b'
    proof (rule broker_inv_touch [OF inv _ _ _ _ j])
      show "harmless b j ?b" by (auto simp: harmless_def live_def)
      show "timers_ok ?b" using t by (simp add: timers_ok_def)
      show "order_ok ?b" using t l by (intro order_ok_stay [of b ?b j ?job job]) (auto simp: j)
      show "job_ok now ?b j ?job" using ok(1) l
        by (auto simp: job_ok_def attempts_left_def expiry_ok_def watched_def split: option.splits)
    qed auto
  next
    case False
    let ?delay = "b_backoff_base_s b * 2 ^ (jb_attempts job - 1)"
    let ?job = "job\<lparr>jb_state := Queued, jb_ready_at := now + ?delay\<rparr>"
    let ?b = "b\<lparr>b_jobs := dict_set j ?job (b_jobs b), b_order := b_order b @ [j],
        b_timers := b_timers b @ [(b_next_handle b, now + ?delay, ReadySetT)], b_next_handle := Suc (b_next_handle b)\<rparr>"
    have b': "broker_expire now j token b = ?b"
      using False j l ok by (simp add: broker_expire_def put_job_def set_timer_def Let_def)
    show ?thesis unfolding b'
    proof (rule broker_inv_touch [OF inv _ _ _ _ j])
      show "harmless b j ?b" by (auto simp: harmless_def live_def)
      show "timers_ok ?b" by (rule timers_ok_set [OF t(1)]) auto
      show "order_ok ?b" using t l by (intro order_ok_enter [of b ?b j ?job]) (auto simp: j)
      show "job_ok now ?b j ?job" using ok(1) l False fresh_handle [OF t(1)]
        by (fastforce simp: job_ok_def attempts_left_def expiry_ok_def watched_def live_def split: option.splits)
    qed auto
  qed
qed

lemma harmless_cancel:
  assumes "expiry_ok b job" and "jb_id job = j"
  shows "harmless b j (cancel_timer (jb_expiry job) b)"
  using assms by (fastforce simp: harmless_def cancel_timer_def live_def expiry_ok_def split: option.splits)

lemma timers_ok_cancel: "timers_ok b \<Longrightarrow> expiry_ok b job \<Longrightarrow> timers_ok (cancel_timer (jb_expiry job) b)"
  by (auto simp: timers_ok_def cancel_timer_def expiry_ok_def split: option.split)

lemma cancel_timer_sel [simp]:
  "b_jobs (cancel_timer h b) = b_jobs b" "b_order (cancel_timer h b) = b_order b"
  "b_timers (cancel_timer h b) = b_timers b" "b_next_handle (cancel_timer h b) = b_next_handle b"
  "b_by_key (cancel_timer h b) = b_by_key b" "b_next_id (cancel_timer h b) = b_next_id b"
  "b_lease_s (cancel_timer h b) = b_lease_s b" "b_max_attempts (cancel_timer h b) = b_max_attempts b"
  by (simp_all add: cancel_timer_def split: option.split)

lemma broker_renew_inv:
  assumes inv: "broker_inv now b"
  shows "broker_inv now (snd (broker_renew now j token b))"
proof (cases "\<exists>job. dict_get (b_jobs b) j = Some job \<and> jb_state job = Leased \<and> (b_fencing b \<longrightarrow> token = jb_token job)")
  case False
  then have "snd (broker_renew now j token b) = b" by (auto simp: broker_renew_def split: option.split)
  with inv show ?thesis by simp
next
  case True
  then obtain job where j: "dict_get (b_jobs b) j = Some job" and l: "jb_state job = Leased"
    and f: "b_fencing b \<longrightarrow> token = jb_token job" by blast
  note ok = job_found [OF inv j]
  have ex: "expiry_ok b job" using ok(1) by (simp add: job_ok_def)
  have t: "timers_ok b" "order_ok b" using inv by (simp_all add: broker_inv_def)
  let ?c = "cancel_timer (jb_expiry job) b"
  let ?job = "job\<lparr>jb_expiry := Some (b_next_handle b)\<rparr>"
  let ?b = "?c\<lparr>b_timers := b_timers b @ [(b_next_handle b, now + b_lease_s b, ExpireT j (jb_token job))],
      b_next_handle := Suc (b_next_handle b), b_jobs := dict_set j ?job (b_jobs b)\<rparr>"
  have b': "snd (broker_renew now j token b) = ?b"
    using j l f ok by (auto simp: broker_renew_def set_timer_def put_job_def Let_def)
  have c: "timers_ok ?c" "harmless b j ?c" using t ex ok(2) by (simp_all add: timers_ok_cancel harmless_cancel)
  show ?thesis unfolding b'
  proof (rule broker_inv_touch [OF inv _ _ _ _ j])
    show "harmless b j ?b" using c(2) by (auto simp: harmless_def live_def)
    show "timers_ok ?b" by (rule timers_ok_set [OF c(1)]) auto
    show "order_ok ?b" using t l by (intro order_ok_stay [of b ?b j ?job job]) (auto simp: j)
    show "job_ok now ?b j ?job"
      using ok(1) l fresh_handle [OF c(1)] c(1)
      by (auto simp: job_ok_def attempts_left_def expiry_ok_def watched_def live_def timers_ok_def split: option.splits)
  qed auto
qed

lemma broker_complete_inv:
  assumes inv: "broker_inv now b"
  shows "broker_inv now (snd (broker_complete j token b))"
proof (cases "\<exists>job. dict_get (b_jobs b) j = Some job \<and> jb_state job \<notin> {Dead, Done} \<and>
    \<not> (b_fencing b \<and> (jb_state job \<noteq> Leased \<or> token \<noteq> jb_token job))")
  case False
  then have "snd (broker_complete j token b) = b" by (auto simp: broker_complete_def split: option.split)
  with inv show ?thesis by simp
next
  case True
  then obtain job where j: "dict_get (b_jobs b) j = Some job" and l: "jb_state job \<noteq> Dead" "jb_state job \<noteq> Done"
    and f: "\<not> (b_fencing b \<and> (jb_state job \<noteq> Leased \<or> token \<noteq> jb_token job))" by blast
  note ok = job_found [OF inv j]
  have ex: "expiry_ok b job" using ok(1) by (simp add: job_ok_def)
  have t: "timers_ok b" "order_ok b" using inv by (simp_all add: broker_inv_def)
  let ?c = "cancel_timer (jb_expiry job) b"
  let ?job = "job\<lparr>jb_state := Done\<rparr>"
  let ?b = "?c\<lparr>b_order := (if jb_state job = Queued then remove1 j (b_order b) else b_order b),
      b_jobs := dict_set j ?job (b_jobs b)\<rparr>"
  have "jb_state job = Queued \<Longrightarrow> j \<in> set (b_order b)" using t(2) j by (auto simp: order_ok_def)
  then have b': "snd (broker_complete j token b) = ?b"
    using j l f ok by (auto simp: broker_complete_def put_job_def Let_def)
  have c: "timers_ok ?c" "harmless b j ?c" using t ex ok(2) by (simp_all add: timers_ok_cancel harmless_cancel)
  show ?thesis unfolding b'
  proof (rule broker_inv_touch [OF inv _ _ _ _ j])
    show "harmless b j ?b" using c(2) by (auto simp: harmless_def live_def)
    show "timers_ok ?b" using c(1) by (simp add: timers_ok_def)
    show "order_ok ?b"
    proof (cases "jb_state job = Queued")
      case True
      then show ?thesis by (intro order_ok_leave [OF t(2), of _ j ?job]) auto
    next
      case False
      then show ?thesis by (intro order_ok_stay [OF t(2), of _ j ?job job]) (auto simp: j)
    qed
    show "job_ok now ?b j ?job"
      using ok(1) l by (auto simp: job_ok_def attempts_left_def expiry_ok_def watched_def split: option.splits if_splits)
  qed auto
qed

lemma broker_submit_inv:
  assumes inv: "broker_inv now b"
  shows "broker_inv now (snd (broker_submit key payload b))"
proof (cases "dict_get (b_by_key b) key")
  case (Some j)
  with inv show ?thesis by (simp add: broker_submit_def)
next
  case None
  let ?j = "''j'' @ str_nat (Suc (b_next_id b))"
  let ?job = "\<lparr>jb_id = ?j, jb_key = key, jb_payload = payload, jb_state = Queued, jb_attempts = 0,
    jb_token = 0, jb_ready_at = 0, jb_expiry = None\<rparr>"
  let ?b = "b\<lparr>b_jobs := dict_set ?j ?job (b_jobs b), b_next_id := Suc (b_next_id b),
      b_by_key := dict_set key ?j (b_by_key b), b_order := b_order b @ [?j]\<rparr>"
  have new: "dict_get (b_jobs b) ?j = None"
  proof (rule ccontr)
    assume "dict_get (b_jobs b) ?j \<noteq> None"
    then obtain y where "dict_get (b_jobs b) ?j = Some y" by blast
    then have "job_ok now b ?j y" by (rule job_found(1) [OF inv])
    then show False by (auto simp: job_ok_def)
  qed
  have h: "harmless b ?j ?b" using None by (auto simp: harmless_def live_def)
  have "job_ok now ?b k job" if "dict_get (b_jobs ?b) k = Some job" for k job
  proof (cases "k = ?j")
    case True
    with that inv show ?thesis
      by (auto simp: job_ok_def attempts_left_def expiry_ok_def watched_def broker_inv_def split: option.split)
  next
    case False
    with that inv have "job_ok now b k job" by (auto simp: broker_inv_def split: if_splits)
    from job_ok_harmless [OF this h False] show ?thesis .
  qed
  moreover have "order_ok ?b"
    using inv new by (intro order_ok_enter [of b ?b ?j ?job]) (auto simp: broker_inv_def)
  moreover have "\<exists>job. dict_get (b_jobs ?b) i = Some job \<and> jb_key job = k" if "dict_get (b_by_key ?b) k = Some i" for k i
    using that inv new by (fastforce simp: broker_inv_def split: if_splits)
  ultimately have "broker_inv now ?b" using inv by (simp add: broker_inv_def timers_ok_def)
  then have "broker_inv now (?b\<lparr>b_ready := True\<rparr>)" by simp
  with None show ?thesis by (simp add: broker_submit_def put_job_def Let_def)
qed

definition drop_timer :: "nat \<Rightarrow> 'p broker \<Rightarrow> 'p broker" where
  "drop_timer h b = b\<lparr>b_timers := filter (\<lambda>t. fst t \<noteq> h) (b_timers b)\<rparr>"

lemma b_jobs_drop_timer [simp]: "b_jobs (drop_timer h b) = b_jobs b"
  by (simp add: drop_timer_def)

lemma handle_unique:
  "timers_ok b \<Longrightarrow> (h, d, a) \<in> set (b_timers b) \<Longrightarrow> (h, d', a') \<in> set (b_timers b) \<Longrightarrow> d' = d \<and> a' = a"
  unfolding timers_ok_def by (metis eq_key_imp_eq_value prod.inject)

lemma broker_inv_drop:
  assumes inv: "broker_inv now b" and t: "(h, due, act) \<in> set (b_timers b)"
    and spent: "act = ReadySetT \<and> due \<le> now \<or> (\<exists>j k. act = ExpireT j k \<and>
      (\<nexists>job. dict_get (b_jobs b) j = Some job \<and> jb_state job = Leased \<and> jb_token job = k))"
  shows "broker_inv now (drop_timer h b)"
proof -
  let ?b = "drop_timer h b"
  have tok: "timers_ok b" using inv by (simp add: broker_inv_def)
  have "job_ok now ?b j job" if "dict_get (b_jobs b) j = Some job" for j job
  proof -
    note ok = job_found [OF inv that]
    have "watched now ?b job"
    proof (rule watched_transfer [of now b])
      show "watched now b job" using ok(1) by (simp add: job_ok_def)
      show "(h', d, ExpireT (jb_id job) (jb_token job)) \<in> live ?b"
        if "jb_state job = Leased" "(h', d, ExpireT (jb_id job) (jb_token job)) \<in> live b" for h' d
      proof (cases "h' = h")
        case True
        then have "act = ExpireT (jb_id job) (jb_token job)"
          using handle_unique [OF tok t] that(2) by (auto simp: live_def)
        with spent that(1) \<open>dict_get (b_jobs b) j = Some job\<close> ok(2) show ?thesis by auto
      next
        case False
        with that(2) show ?thesis by (auto simp: live_def drop_timer_def)
      qed
      show "(h', d, ReadySetT) \<in> live ?b" if "now < d" "(h', d, ReadySetT) \<in> live b" for h' d
      proof (cases "h' = h")
        case True
        then have "act = ReadySetT" "due = d" using handle_unique [OF tok t] that(2) by (auto simp: live_def)
        with spent that(1) show ?thesis by auto
      next
        case False
        with that(2) show ?thesis by (auto simp: live_def drop_timer_def)
      qed
    qed (simp_all add: drop_timer_def)
    with ok(1) show ?thesis
      by (auto simp: job_ok_def attempts_left_def expiry_ok_def drop_timer_def)
  qed
  moreover have "timers_ok ?b" using tok by (auto simp: timers_ok_def drop_timer_def distinct_map_filter)
  ultimately show ?thesis using inv by (simp add: broker_inv_def order_ok_def drop_timer_def)
qed

lemma broker_expire_drop:
  assumes "h < b_next_handle b"
  shows "broker_expire now j k (drop_timer h b) = drop_timer h (broker_expire now j k b)"
  using assms by (auto simp: broker_expire_def drop_timer_def put_job_def set_timer_def Let_def split: option.split)

lemma broker_fire_inv:
  assumes inv: "broker_inv now b" and t: "(h, due, act) \<in> set (b_timers b)" and "due \<le> now"
  shows "broker_inv now (fire now act (drop_timer h b))"
proof (cases act)
  case ReadySetT
  with broker_inv_drop [OF inv t] assms(3) show ?thesis by simp
next
  case (ExpireT j k)
  let ?e = "broker_expire now j k b"
  have lt: "h < b_next_handle b" using inv t by (auto simp: broker_inv_def timers_ok_def)
  have "(h, due, act) \<in> set (b_timers ?e)"
    using t by (auto simp: broker_expire_def put_job_def set_timer_def Let_def split: option.split)
  moreover have "\<nexists>job. dict_get (b_jobs ?e) j = Some job \<and> jb_state job = Leased \<and> jb_token job = k"
    using inv by (auto simp: broker_expire_def put_job_def set_timer_def Let_def broker_inv_def job_ok_def split: option.splits if_splits)
  ultimately have "broker_inv now (drop_timer h ?e)"
    using ExpireT by (intro broker_inv_drop [OF broker_expire_inv [OF inv]]) auto
  then show ?thesis using ExpireT by (simp add: broker_expire_drop [OF lt])
qed

lemma broker_inv_later: "broker_inv now b \<Longrightarrow> now \<le> later \<Longrightarrow> broker_inv later b"
  by (fastforce simp: broker_inv_def job_ok_def intro: watched_transfer)

lemma broker_handle_inv: "broker_inv now b \<Longrightarrow> broker_inv now (snd (broker_handle repr_str now m b))"
  by (cases m) (simp_all add: broker_submit_inv broker_acquire_inv broker_renew_inv broker_complete_inv)

lemma broker_step_inv:
  assumes "broker_step (now, b) (now', b')" and "broker_inv now b" shows "broker_inv now' b'"
  using assms
  by (cases rule: broker_step_elim)
    (auto simp: broker_handle_inv broker_acquire_inv broker_inv_later
      dest: broker_fire_inv [of _ b] simp flip: drop_timer_def)

section \<open>Properties of the broker\<close>

lemma broker_reachable_inv:
  assumes "broker_step\<^sup>*\<^sup>* (0, broker_init lease_s m backoff fencing) (now, b)"
  shows "broker_inv now b"
  using assms
proof (induction "(now, b)" arbitrary: now b rule: rtranclp_induct)
  case base
  show ?case by (rule broker_inv_init) simp
next
  case (step y)
  then show ?case by (cases y) (auto intro: broker_step_inv)
qed

lemma count_list_distinct: "distinct xs \<Longrightarrow> count_list xs x = (if x \<in> set xs then 1 else 0)"
  by (induction xs) auto

text \<open>
  C12. No job is lost. In every state a broker reaches, whatever requests arrive and timers fire in
  whatever order: a queued job stands in the order exactly once, and it can be leased now or its
  wake-up timer is pending; a leased job is not in the order and has a live expiry timer for its
  current token, due within one lease; a finished or dead job is not in the order; attempts never
  exceed the budget; and there is exactly one job per submitted key.
\<close>
theorem no_job_is_lost:
  assumes "broker_step\<^sup>*\<^sup>* (0, broker_init lease_s m backoff fencing) (now, b)"
    and "dict_get (b_jobs b) j = Some job"
  shows "count_list (b_order b) j = (if jb_state job = Queued then 1 else 0) \<and> watched now b job \<and>
    attempts_left b job \<and> jb_attempts job = jb_token job \<and>
    (\<forall>j' job'. dict_get (b_jobs b) j' = Some job' \<longrightarrow> jb_key job' = jb_key job \<longrightarrow> j' = j)"
proof -
  have inv: "broker_inv now b" by (rule broker_reachable_inv [OF assms(1)])
  note ok = job_found(1) [OF inv assms(2)]
  have "order_ok b" using inv by (simp add: broker_inv_def)
  then have "count_list (b_order b) j = (if jb_state job = Queued then 1 else 0)"
    using assms(2) by (auto simp: order_ok_def count_list_distinct)
  moreover have "j' = j" if "dict_get (b_jobs b) j' = Some job'" "jb_key job' = jb_key job" for j' job'
    using job_found(1) [OF inv that(1)] ok that(2) by (simp add: job_ok_def)
  ultimately show ?thesis using ok by (auto simp: job_ok_def)
qed

definition demo_broker :: "nat broker" where
  "demo_broker = snd (broker_acquire 1 0 (snd (broker_submit ''k'' 7 (broker_init 2 (Some 3) (1 / 2) True))))"

lemma demo_broker_reachable: "broker_step\<^sup>*\<^sup>* (0, broker_init 2 (Some 3) (1 / 2) True) (0, demo_broker)"
proof -
  have "broker_step (0, broker_init 2 (Some 3) (1 / 2) True) (0, snd (broker_submit ''k'' 7 (broker_init 2 (Some 3) (1 / 2) True)) :: nat broker)"
    using broker_step.message [of 0 "broker_init 2 (Some 3) (1 / 2) True" id "SubmitM ''k'' 7"] by simp
  then have "broker_step\<^sup>*\<^sup>* (0, broker_init 2 (Some 3) (1 / 2) True) (0, snd (broker_submit ''k'' 7 (broker_init 2 (Some 3) (1 / 2) True)) :: nat broker)"
    by (rule r_into_rtranclp)
  from rtranclp.rtrancl_into_rtrancl [OF this broker_step.retry] show ?thesis unfolding demo_broker_def .
qed

theorem no_job_is_lost_witness:
  "\<exists>job. dict_get (b_jobs demo_broker) ''j1'' = Some job \<and> jb_state job = Leased \<and>
     count_list (b_order demo_broker) ''j1'' = 0 \<and> watched 0 demo_broker job"
proof -
  have "str_nat (Suc 0) = ''1''" by code_simp
  then have "map_option jb_state (dict_get (b_jobs demo_broker) ''j1'') = Some Leased"
    by (simp add: demo_broker_def broker_submit_def broker_acquire_def next_ready_def broker_lease_def put_job_def
        set_timer_def broker_init_def Let_def)
  then obtain job where job: "dict_get (b_jobs demo_broker) ''j1'' = Some job" "jb_state job = Leased" by auto
  have "count_list (b_order demo_broker) ''j1'' = (if jb_state job = Queued then 1 else 0)" "watched 0 demo_broker job"
    using no_job_is_lost [OF demo_broker_reachable job(1)] by blast+
  with job show ?thesis by (intro exI [of _ job]) simp
qed

text \<open>How a job changes when anything but a completion happens.\<close>

definition evolves :: "'p job \<Rightarrow> 'p job \<Rightarrow> bool" where
  "evolves job job' \<longleftrightarrow> jb_payload job' = jb_payload job \<and> jb_key job' = jb_key job \<and> jb_token job \<le> jb_token job' \<and>
     (jb_state job' = Done \<longleftrightarrow> jb_state job = Done) \<and> (jb_state job = Dead \<longrightarrow> jb_state job' = Dead)"

definition jobs_evolve :: "'p broker \<Rightarrow> 'p broker \<Rightarrow> bool" where
  "jobs_evolve b b' \<longleftrightarrow>
     (\<forall>j. case dict_get (b_jobs b) j of
        Some job \<Rightarrow> (\<exists>job'. dict_get (b_jobs b') j = Some job' \<and> evolves job job')
      | None \<Rightarrow> (\<forall>job'. dict_get (b_jobs b') j = Some job' \<longrightarrow> jb_state job' \<noteq> Done))"

lemma jobs_evolve_refl [simp]: "jobs_evolve b b"
  by (auto simp: jobs_evolve_def evolves_def split: option.split)

lemma jobs_evolve_same: "b_jobs b' = b_jobs b \<Longrightarrow> jobs_evolve b b'"
  by (auto simp: jobs_evolve_def evolves_def split: option.split)

lemma jobs_evolve_cong:
  assumes "jobs_evolve b c" and jobs: "b_jobs b' = b_jobs c" shows "jobs_evolve b b'"
  using assms(1) unfolding jobs_evolve_def jobs .

lemma jobs_evolve_put:
  assumes "dict_get (b_jobs b) j = Some job" and "b_jobs b' = dict_set j job' (b_jobs b)" and "evolves job job'"
  shows "jobs_evolve b b'"
  using assms by (auto simp: jobs_evolve_def evolves_def split: option.split)

lemma broker_submit_evolves: "broker_inv now b \<Longrightarrow> jobs_evolve b (snd (broker_submit key payload b))"
proof (cases "dict_get (b_by_key b) key")
  case None
  assume inv: "broker_inv now b"
  have "dict_get (b_jobs b) (''j'' @ str_nat (Suc (b_next_id b))) = None"
  proof (rule ccontr)
    assume "dict_get (b_jobs b) (''j'' @ str_nat (Suc (b_next_id b))) \<noteq> None"
    then obtain y where "dict_get (b_jobs b) (''j'' @ str_nat (Suc (b_next_id b))) = Some y" by blast
    from job_found(1) [OF inv this] show False by (auto simp: job_ok_def)
  qed
  with None show ?thesis
    by (auto simp: broker_submit_def put_job_def jobs_evolve_def evolves_def Let_def split: option.split)
qed (simp add: broker_submit_def)

lemma broker_acquire_evolves:
  assumes inv: "broker_inv now b" shows "jobs_evolve b (snd (broker_acquire deadline now b))"
proof (cases "next_ready now b")
  case (Inr r)
  show ?thesis
  proof (cases r)
    case (Some job)
    with Inr first_ready_some [of now "b_jobs b" "b_order b" job] obtain j where j:
      "j \<in> set (b_order b)" "dict_get (b_jobs b) j = Some job" "jb_state job = Queued"
      by (auto simp: next_ready_def)
    with job_found(2) [OF inv j(2)] Inr Some show ?thesis
      by (intro jobs_evolve_put [OF j(2)])
        (auto simp: broker_acquire_def broker_lease_def put_job_def set_timer_def Let_def evolves_def)
  qed (use Inr in \<open>auto simp: broker_acquire_def intro: jobs_evolve_same\<close>)
qed (simp add: broker_acquire_def)

lemma broker_expire_evolves:
  assumes inv: "broker_inv now b" shows "jobs_evolve b (broker_expire now' j token b)"
proof (cases "\<exists>job. dict_get (b_jobs b) j = Some job \<and> jb_state job = Leased \<and> jb_token job = token")
  case False
  then show ?thesis by (auto simp: broker_expire_def split: option.split)
next
  case True
  then obtain job where j: "dict_get (b_jobs b) j = Some job" "jb_state job = Leased" "jb_token job = token" by blast
  with job_found(2) [OF inv j(1)] show ?thesis
    by (auto simp: broker_expire_def put_job_def set_timer_def Let_def evolves_def
        intro!: jobs_evolve_put [OF j(1)] split: option.split)
qed

lemma broker_renew_evolves:
  assumes inv: "broker_inv now b" shows "jobs_evolve b (snd (broker_renew now' j token b))"
proof (cases "dict_get (b_jobs b) j")
  case (Some job)
  with job_found(2) [OF inv Some] show ?thesis
    by (auto simp: broker_renew_def put_job_def set_timer_def Let_def evolves_def intro!: jobs_evolve_put [OF Some])
qed (simp add: broker_renew_def)

lemma broker_fire_evolves:
  assumes "broker_inv now b" and "h < b_next_handle b" shows "jobs_evolve b (fire now act (drop_timer h b))"
proof (cases act)
  case (ExpireT j k)
  with broker_expire_evolves [OF assms(1), of now j k] show ?thesis
    by (auto simp: broker_expire_drop [OF assms(2)] elim: jobs_evolve_cong)
qed (simp add: jobs_evolve_same)

end
