(* ===== verification/JobLiveness.thy ===== *)
theory JobLiveness
  imports JobBroker
begin

text \<open>
  Progress of the job queue's broker: no wake-up of a waiting \<open>_acquire\<close> is lost, and a job whose
  worker went silent comes back. A call to \<open>_acquire\<close> that finds nothing clears the event \<open>_ready\<close> and
  sleeps until it is set, so what matters is that the event is set, or a timer that sets it is
  pending, whenever there is a queued job to wait for.
\<close>

section \<open>The event and its timers\<close>

definition woken_for :: "'p broker \<Rightarrow> 'p job \<Rightarrow> bool" where
  "woken_for b job \<longleftrightarrow> b_ready b \<or> (\<exists>h. (h, jb_ready_at job, ReadySetT) \<in> live b)"

definition awake :: "'p broker \<Rightarrow> bool" where
  "awake b \<longleftrightarrow> (\<forall>j job. dict_get (b_jobs b) j = Some job \<longrightarrow> jb_state job = Queued \<longrightarrow> woken_for b job)"

lemma awake_kept:
  assumes "awake b" and "b_ready b' = b_ready b"
    and "\<And>h due. (h, due, ReadySetT) \<in> live b \<Longrightarrow> (h, due, ReadySetT) \<in> live b'"
    and "\<And>j job'. dict_get (b_jobs b') j = Some job' \<Longrightarrow> jb_state job' = Queued \<Longrightarrow>
      dict_get (b_jobs b) j = Some job' \<or> (\<exists>h. (h, jb_ready_at job', ReadySetT) \<in> live b')"
  shows "awake b'"
  using assms unfolding awake_def woken_for_def by metis

lemma awake_ready [simp]: "b_ready b \<Longrightarrow> awake b"
  by (simp add: awake_def woken_for_def)

lemma live_harmless: "harmless b j b' \<Longrightarrow> (h, due, ReadySetT) \<in> live b \<Longrightarrow> (h, due, ReadySetT) \<in> live b'"
  by (auto simp: harmless_def)

lemma awake_cancel:
  assumes "awake b" and "expiry_ok b job" and "jb_id job = j"
  shows "awake (cancel_timer (jb_expiry job) b)"
proof (rule awake_kept [OF assms(1)])
  show "b_ready (cancel_timer (jb_expiry job) b) = b_ready b"
    by (simp add: cancel_timer_def split: option.split)
qed (use live_harmless [OF harmless_cancel [OF assms(2,3)]] in simp_all)

lemma awake_submit: "awake b \<Longrightarrow> awake (snd (broker_submit key payload b))"
  by (auto simp: broker_submit_def Let_def split: option.split)

lemma awake_lease:
  assumes "awake b" and "jb_id job = j" shows "awake (snd (broker_lease now job b))"
  by (rule awake_kept [OF assms(1)])
     (auto simp: broker_lease_def set_timer_def put_job_def live_def Let_def split: if_splits)

text \<open>
  The event is cleared only by a call that found no job ready: each queued job is then backing off,
  and its wake-up is pending.
\<close>

lemma first_ready_none:
  "first_ready now jobs ids = Inr None \<Longrightarrow> j \<in> set ids \<Longrightarrow> dict_get jobs j = Some job \<Longrightarrow>
     jb_state job = Queued \<Longrightarrow> now < jb_ready_at job"
  by (induction ids) (auto split: option.splits if_splits)

lemma queued_in_order: "broker_inv now b \<Longrightarrow> dict_get (b_jobs b) j = Some job \<Longrightarrow> jb_state job = Queued \<Longrightarrow> j \<in> set (b_order b)"
  by (auto simp: broker_inv_def order_ok_def)

lemma awake_acquire:
  assumes inv: "broker_inv now b" and "awake b" shows "awake (snd (broker_acquire deadline now b))"
proof (cases "next_ready now b")
  case (Inr r)
  show ?thesis
  proof (cases r)
    case None
    have "\<exists>h. (h, jb_ready_at job, ReadySetT) \<in> live b"
      if "dict_get (b_jobs b) j = Some job" "jb_state job = Queued" for j job
    proof -
      have "now < jb_ready_at job"
        using first_ready_none [OF _ queued_in_order [OF inv that] that] Inr None by (simp add: next_ready_def)
      with job_found(1) [OF inv that(1)] that(2) show ?thesis by (auto simp: job_ok_def watched_def)
    qed
    then have "awake (b\<lparr>b_ready := False\<rparr>)" by (auto simp: awake_def woken_for_def live_def)
    with Inr None assms(2) show ?thesis by (simp add: broker_acquire_def)
  next
    case (Some job)
    with Inr awake_lease [OF assms(2) refl] show ?thesis by (simp add: broker_acquire_def)
  qed
qed (simp add: broker_acquire_def assms(2))

lemma awake_expire:
  assumes inv: "broker_inv now b" and a: "awake b" shows "awake (broker_expire now j token b)"
proof (cases "dict_get (b_jobs b) j")
  case (Some job)
  note ok = job_found [OF inv Some]
  have "b_next_handle b \<notin> set (b_cancelled b)" using inv by (simp add: broker_inv_def fresh_handle)
  with ok show ?thesis
    by (intro awake_kept [OF a]) (auto simp: broker_expire_def Some set_timer_def put_job_def live_def Let_def split: option.splits if_splits)
qed (simp add: broker_expire_def a)

lemma awake_renew:
  assumes inv: "broker_inv now b" and a: "awake b" shows "awake (snd (broker_renew now' j token b))"
proof (cases "dict_get (b_jobs b) j")
  case (Some job)
  note ok = job_found [OF inv Some]
  have "awake (cancel_timer (jb_expiry job) b)" using a ok by (intro awake_cancel) (simp_all add: job_ok_def)
  note c = awake_kept [OF this]
  show ?thesis
    by (cases "jb_state job = Leased \<and> \<not> (b_fencing b \<and> token \<noteq> jb_token job)", rule c)
       (auto simp: broker_renew_def Some set_timer_def put_job_def live_def ok(2) a Let_def split: if_splits)
qed (simp add: broker_renew_def a)

lemma awake_complete:
  assumes inv: "broker_inv now b" and a: "awake b" shows "awake (snd (broker_complete j token b))"
proof (cases "dict_get (b_jobs b) j")
  case (Some job)
  note ok = job_found [OF inv Some]
  have c: "awake (cancel_timer (jb_expiry job) b)" using a ok by (intro awake_cancel) (simp_all add: job_ok_def)
  let ?done = "put_job (job\<lparr>jb_state := Done\<rparr>)"
  have "awake (?done (cancel_timer (jb_expiry job) b\<lparr>b_order := ids\<rparr>))" for ids
    by (rule awake_kept [OF c]) (auto simp: put_job_def live_def ok(2) split: if_splits)
  moreover have "awake (?done (cancel_timer (jb_expiry job) b))"
    by (rule awake_kept [OF c]) (auto simp: put_job_def live_def ok(2) split: if_splits)
  ultimately show ?thesis using a c by (simp add: broker_complete_def Some Let_def)
qed (simp add: broker_complete_def a)

lemma awake_fire:
  assumes inv: "broker_inv now b" and a: "awake b" and t: "(h, due, act) \<in> set (b_timers b)"
  shows "awake (fire now act (drop_timer h b))"
proof (cases act)
  case (ExpireT j k)
  have tok: "timers_ok b" using inv by (simp add: broker_inv_def)
  then have lt: "h < b_next_handle b" using t by (auto simp: timers_ok_def)
  have e: "awake (broker_expire now j k b)" by (rule awake_expire [OF inv a])
  have "timers_ok (broker_expire now j k b)" using broker_expire_inv [OF inv] by (simp add: broker_inv_def)
  moreover have "(h, due, ExpireT j k) \<in> set (b_timers (broker_expire now j k b))"
    using t ExpireT by (auto simp: broker_expire_def put_job_def set_timer_def Let_def split: option.split)
  ultimately have other: "h' \<noteq> h" if "(h', d, ReadySetT) \<in> set (b_timers (broker_expire now j k b))" for h' d
    using handle_unique that by blast
  have "awake (drop_timer h (broker_expire now j k b))"
    by (rule awake_kept [OF e]) (auto simp: drop_timer_def live_def dest: other)
  then show ?thesis using ExpireT by (simp add: broker_expire_drop [OF lt])
qed simp

lemma awake_handle: "broker_inv now b \<Longrightarrow> awake b \<Longrightarrow> awake (snd (broker_handle repr_str now m b))"
  by (cases m) (simp_all add: awake_submit awake_acquire awake_renew awake_complete)

lemma awake_step:
  assumes "broker_step (now, b) (now', b')" and "broker_inv now b" and "awake b" shows "awake b'"
  using assms
  by (cases rule: broker_step_elim)
    (auto simp: awake_handle awake_acquire intro: awake_fire [of now b] simp flip: drop_timer_def)

lemma broker_reachable_awake:
  assumes "broker_step\<^sup>*\<^sup>* (0, broker_init lease_s m backoff fencing) (now, b)"
  shows "awake b"
  using assms
proof (induction "(now, b)" arbitrary: now b rule: rtranclp_induct)
  case base
  show ?case by (simp add: awake_def broker_init_def)
next
  case (step y)
  obtain t c where y: "y = (t, c)" by (cases y)
  with step broker_reachable_inv [of lease_s m backoff fencing t c] show ?case by (auto intro: awake_step)
qed

section \<open>Progress\<close>

lemma first_ready_finds:
  assumes "j \<in> set ids" and "dict_get jobs j = Some job" and "jb_state job = Queued" and "jb_ready_at job \<le> now"
    and "\<And>i. i \<in> set ids \<Longrightarrow> dict_get jobs i \<noteq> None"
  shows "\<exists>first. first_ready now jobs ids = Inr (Some first)"
  using assms by (induction ids) (auto split: option.splits)

lemma acquire_answers:
  assumes inv: "broker_inv now b" and j: "dict_get (b_jobs b) j = Some job" "jb_state job = Queued" "jb_ready_at job \<le> now"
  shows "\<exists>i token payload. fst (broker_acquire deadline now b) = LeaseR i token payload (b_lease_s b)"
proof -
  have known: "dict_get (b_jobs b) i \<noteq> None" if "i \<in> set (b_order b)" for i
    using inv that by (auto simp: broker_inv_def order_ok_def)
  obtain first where first: "next_ready now b = Inr (Some first)"
    using first_ready_finds [OF queued_in_order [OF inv j(1,2)] j known] by (auto simp: next_ready_def)
  then obtain i where i: "i \<in> set (b_order b)" "dict_get (b_jobs b) i = Some first"
    using first_ready_some by (fastforce simp: next_ready_def)
  with job_found(2) [OF inv i(2)] first show ?thesis
    by (simp add: broker_acquire_def broker_lease_def set_timer_def Let_def)
qed

text \<open>What the expiry of a lease makes of its job.\<close>

definition expired :: "'p broker \<Rightarrow> time \<Rightarrow> 'p job \<Rightarrow> 'p job" where
  "expired b t job =
     (if (case b_max_attempts b of Some m \<Rightarrow> m \<le> jb_attempts job | None \<Rightarrow> False) then job\<lparr>jb_state := Dead\<rparr>
      else job\<lparr>jb_state := Queued, jb_ready_at := t + b_backoff_base_s b * 2 ^ (jb_attempts job - 1)\<rparr>)"

text \<open>
  C13. No job waits for ever on a worker or on a lost wake-up. In every state a broker reaches: while a
  job is queued, the event waiting workers sleep on is set or the timer that sets it when the job is
  ready is pending, and once the job is ready any request for work is answered with a lease. While a
  job is leased, its expiry is due within one lease, and when it fires the job is queued again after
  its backoff, or dead when its attempts are used up.
\<close>
theorem silent_worker_frees_job:
  assumes "broker_step\<^sup>*\<^sup>* (0, broker_init lease_s m backoff fencing) (now, b)"
    and "dict_get (b_jobs b) j = Some job"
  shows "case jb_state job of
      Queued \<Rightarrow> woken_for b job \<and> (jb_ready_at job \<le> now \<longrightarrow>
        (\<exists>i token payload. fst (broker_acquire deadline now b) = LeaseR i token payload (b_lease_s b)))
    | Leased \<Rightarrow> \<exists>h due. (h, due, ExpireT j (jb_token job)) \<in> live b \<and> due \<le> now + b_lease_s b \<and>
        (\<forall>t. dict_get (b_jobs (fire t (ExpireT j (jb_token job)) (drop_timer h b))) j = Some (expired b t job))
    | _ \<Rightarrow> True"
proof -
  have inv: "broker_inv now b" by (rule broker_reachable_inv [OF assms(1)])
  note ok = job_found [OF inv assms(2)]
  show ?thesis
  proof (cases "jb_state job")
    case Queued
    have "woken_for b job" using broker_reachable_awake [OF assms(1)] assms(2) Queued by (auto simp: awake_def)
    with Queued acquire_answers [OF inv assms(2) Queued] show ?thesis by simp
  next
    case Leased
    then obtain h due where h: "(h, due, ExpireT j (jb_token job)) \<in> live b" "due \<le> now + b_lease_s b"
      using ok by (auto simp: job_ok_def watched_def)
    have "dict_get (b_jobs (fire t (ExpireT j (jb_token job)) (drop_timer h b))) j = Some (expired b t job)" for t
      using Leased assms(2) ok(2)
      by (auto simp: broker_expire_def expired_def drop_timer_def put_job_def set_timer_def Let_def split: option.split)
    with Leased h show ?thesis by auto
  qed simp_all
qed

theorem silent_worker_frees_job_witness:
  "\<exists>job h due. dict_get (b_jobs demo_broker) ''j1'' = Some job \<and> jb_state job = Leased \<and>
     (h, due, ExpireT ''j1'' (jb_token job)) \<in> live demo_broker \<and>
     dict_get (b_jobs (fire 2 (ExpireT ''j1'' (jb_token job)) (drop_timer h demo_broker))) ''j1'' = Some (expired demo_broker 2 job)"
proof -
  have "str_nat (Suc 0) = ''1''" by code_simp
  then have "map_option jb_state (dict_get (b_jobs demo_broker) ''j1'') = Some Leased"
    by (simp add: demo_broker_def broker_submit_def broker_acquire_def next_ready_def broker_lease_def put_job_def
        set_timer_def broker_init_def Let_def)
  then obtain job where job: "dict_get (b_jobs demo_broker) ''j1'' = Some job" "jb_state job = Leased" by auto
  from silent_worker_frees_job [OF demo_broker_reachable job(1)] job show ?thesis by auto
qed

end
