(* ===== verification/JobStore.thy ===== *)
theory JobStore
  imports SimPrelude
begin

text \<open>
  \<open>examples/jobqueue/jobqueue/store.py\<close>: the effect store of the job queue demo, with its two
  checks (fencing tokens, idempotence) as switches. The set \<open>_committed\<close> is a list without
  repetitions.
\<close>

record commit =
  cm_job :: string
  cm_token :: int
  cm_value :: string
  cm_stale :: bool

record store =
  st_fenced :: bool
  st_idempotent :: bool
  st_begun :: "(string \<times> int) list"
  st_commits :: "commit list"
  st_rejected :: "(string \<times> int \<times> string) list"
  st_newest :: "(string, int) dict"
  st_committed :: "string list"

definition store_init :: "bool \<Rightarrow> bool \<Rightarrow> store" where
  "store_init fenced idempotent =
     \<lparr>st_fenced = fenced, st_idempotent = idempotent, st_begun = [], st_commits = [], st_rejected = [],
      st_newest = [], st_committed = []\<rparr>"

definition newest_of :: "store \<Rightarrow> string \<Rightarrow> int" where
  "newest_of s job_id = (case dict_get (st_newest s) job_id of Some t \<Rightarrow> t | None \<Rightarrow> 0)"

definition store_begin :: "string \<Rightarrow> int \<Rightarrow> store \<Rightarrow> bool \<times> store" where
  "store_begin job_id token s =
     (let newest = newest_of s job_id in
      if st_fenced s \<and> token < newest
      then (False, s\<lparr>st_rejected := st_rejected s @ [(job_id, token, ''stale-begin'')]\<rparr>)
      else (True, s\<lparr>st_newest := dict_set job_id (max newest token) (st_newest s),
                    st_begun := st_begun s @ [(job_id, token)]\<rparr>))"

definition store_commit :: "string \<Rightarrow> int \<Rightarrow> string \<Rightarrow> store \<Rightarrow> string \<times> store" where
  "store_commit job_id token val s =
     (let newest = newest_of s job_id in
      if st_fenced s \<and> token < newest
      then (''stale'', s\<lparr>st_rejected := st_rejected s @ [(job_id, token, ''stale'')]\<rparr>)
      else if st_idempotent s \<and> job_id \<in> set (st_committed s)
      then (''duplicate'', s\<lparr>st_rejected := st_rejected s @ [(job_id, token, ''duplicate'')]\<rparr>)
      else (''ok'', s\<lparr>st_newest := dict_set job_id (max newest token) (st_newest s),
                     st_committed := List.insert job_id (st_committed s),
                     st_commits := st_commits s @
                       [\<lparr>cm_job = job_id, cm_token = token, cm_value = val, cm_stale = (token < newest)\<rparr>]\<rparr>))"

section \<open>Every sequence of calls\<close>

datatype store_call = BeginCall string int | CommitCall string int string

fun store_step :: "store_call \<Rightarrow> store \<Rightarrow> store" where
  "store_step (BeginCall j t) s = snd (store_begin j t s)"
| "store_step (CommitCall j t v) s = snd (store_commit j t v s)"

definition store_inv :: "store \<Rightarrow> bool" where
  "store_inv s \<longleftrightarrow> set (st_committed s) = cm_job ` set (st_commits s) \<and>
     (st_idempotent s \<longrightarrow> distinct (map cm_job (st_commits s))) \<and>
     (st_fenced s \<longrightarrow> (\<forall>c\<in>set (st_commits s). \<not> cm_stale c)) \<and>
     (\<forall>j t. (j, t) \<in> set (st_begun s) \<longrightarrow> t \<le> newest_of s j) \<and>
     (\<forall>c\<in>set (st_commits s). cm_token c \<le> newest_of s (cm_job c))"

lemma newest_of_set [simp]:
  "newest_of (s\<lparr>st_newest := dict_set j t (st_newest s)\<rparr>) k = (if k = j then t else newest_of s k)"
  by (simp add: newest_of_def)

lemma newest_of_frame [simp]:
  "newest_of (s\<lparr>st_rejected := r\<rparr>) = newest_of s" "newest_of (s\<lparr>st_begun := b\<rparr>) = newest_of s"
  "newest_of (s\<lparr>st_commits := c\<rparr>) = newest_of s" "newest_of (s\<lparr>st_committed := d\<rparr>) = newest_of s"
  "newest_of (s\<lparr>st_newest := n, st_begun := b\<rparr>) = newest_of (s\<lparr>st_newest := n\<rparr>)"
  "newest_of (s\<lparr>st_newest := n, st_committed := d, st_commits := c\<rparr>) = newest_of (s\<lparr>st_newest := n\<rparr>)"
  by (simp_all add: newest_of_def fun_eq_iff)

lemma store_begin_inv: "store_inv s \<Longrightarrow> store_inv (snd (store_begin j t s))"
  by (auto simp: store_inv_def store_begin_def Let_def intro: max.coboundedI1)

lemma store_commit_inv: "store_inv s \<Longrightarrow> store_inv (snd (store_commit j t v s))"
  by (auto simp: store_inv_def store_commit_def Let_def image_iff intro: max.coboundedI1)

lemma store_init_inv: "store_inv (store_init f i)"
  by (simp add: store_inv_def store_init_def)

lemma store_calls_inv:
  "store_inv s \<Longrightarrow> store_inv (fold store_step calls s) \<and> st_fenced (fold store_step calls s) = st_fenced s \<and>
     st_idempotent (fold store_step calls s) = st_idempotent s"
proof (induction calls arbitrary: s)
  case (Cons c calls)
  have "store_inv (store_step c s)"
    using Cons.prems by (cases c) (simp_all add: store_begin_inv store_commit_inv)
  moreover have "st_fenced (store_step c s) = st_fenced s" "st_idempotent (store_step c s) = st_idempotent s"
    by (cases c; simp add: store_begin_def store_commit_def Let_def)+
  ultimately show ?case using Cons.IH [of "store_step c s"] by simp
qed simp

text \<open>
  The store makes effects happen once. Whatever calls are made, in whatever order and with whatever
  tokens: an idempotent store accepts at most one commit per job; a fenced store accepts no stale
  write, and it refuses a commit or a begin exactly when a newer token was already accepted for the
  job.
\<close>
lemma store_accepts_once_and_never_stale:
  "(let s = fold store_step calls (store_init fenced idempotent) in
    (idempotent \<longrightarrow> distinct (map cm_job (st_commits s))) \<and>
    (fenced \<longrightarrow> list_all (\<lambda>c. \<not> cm_stale c) (st_commits s)) \<and>
    list_all (\<lambda>(j, t). t \<le> newest_of s j) (st_begun s) \<and>
    fst (store_begin j t s) = (\<not> (fenced \<and> t < newest_of s j)) \<and>
    (fst (store_commit j t v s) = ''stale'') = (fenced \<and> t < newest_of s j) \<and>
    (fst (store_commit j t v s) = ''duplicate'') =
      (\<not> (fenced \<and> t < newest_of s j) \<and> idempotent \<and> j \<in> cm_job ` set (st_commits s)))"
proof -
  let ?s = "fold store_step calls (store_init fenced idempotent)"
  have "store_inv ?s" "st_fenced ?s = fenced" "st_idempotent ?s = idempotent"
    using store_calls_inv [OF store_init_inv] by (simp_all add: store_init_def)
  then show ?thesis
    unfolding Let_def list_all_iff
    by (intro conjI) (auto simp: store_inv_def store_begin_def store_commit_def Let_def)
qed

end
