(* ===== verification/JobQueue.thy ===== *)
theory JobQueue
  imports JobStore JobBroker
begin

text \<open>
  \<open>examples/jobqueue/jobqueue/worker.py\<close> and \<open>client.py\<close>, and the whole queue: a broker, the
  effect store and any number of workers and clients. The network may delay, lose or repeat what
  workers ask for, and a worker may stop at any point, so \<open>queue_step\<close> lets every action that some
  worker could still take happen at any later time, any number of times, or never.
\<close>

section \<open>Workers and clients\<close>

record payload =
  py_value :: string
  py_duration :: time
  py_poison :: bool

type_synonym lease = "string \<times> nat \<times> payload"

definition worker_execute :: "payload \<Rightarrow> exn option" where
  \<comment> \<open>what \<open>_execute\<close> raises once its sleep is over\<close>
  "worker_execute p = (if py_poison p then Some RuntimeError else None)"

definition worker_begin :: "lease \<Rightarrow> store \<Rightarrow> bool \<times> store" where
  "worker_begin l s = (case l of (job_id, token, p) \<Rightarrow> store_begin job_id (int token) s)"

definition worker_finish :: "lease \<Rightarrow> store \<Rightarrow> payload message option \<times> store" where
  \<comment> \<open>\<open>_work\<close> from the end of \<open>_execute\<close> on: the completion it then sends, if any\<close>
  "worker_finish l s =
     (case l of (job_id, token, p) \<Rightarrow>
        if worker_execute p \<noteq> None then (None, s)
        else
          let (r, s') = store_commit job_id (int token) (py_value p) s in
          if r = ''stale'' then (None, s') else (Some (CompleteM job_id token), s'))"

fun retry_call :: "nat \<Rightarrow> time \<Rightarrow> nat \<Rightarrow> (nat \<Rightarrow> 'r option) \<Rightarrow> 'r option \<times> time list" where
  \<comment> \<open>\<open>Worker._rpc\<close>: \<open>calls k\<close> is what the call of attempt \<open>k\<close> returned; also the sleeps between\<close>
  "retry_call 0 base attempt calls = (None, [])"
| "retry_call (Suc n) base attempt calls =
     (case calls attempt of
        Some r \<Rightarrow> (Some r, [])
      | None \<Rightarrow> (case retry_call n base (Suc attempt) calls of (r, sleeps) \<Rightarrow> (r, base * 2 ^ attempt # sleeps)))"

record client =
  cl_id :: string
  cl_idempotency :: bool
  cl_counter :: nat
  cl_acknowledged :: "(string, string) dict"

definition client_key :: "client \<Rightarrow> string" where
  "client_key c = cl_id c @ ''.'' @ str_nat (cl_counter c)"

definition wire_key :: "client \<Rightarrow> nat \<Rightarrow> string" where
  "wire_key c attempt =
     (if cl_idempotency c then client_key c else client_key c @ ''.try'' @ str_nat attempt)"

definition client_submit ::
    "nat \<Rightarrow> time \<Rightarrow> (string \<Rightarrow> nat \<Rightarrow> string option) \<Rightarrow> client \<Rightarrow> string option \<times> client" where
  \<comment> \<open>\<open>calls key k\<close> is the job id the broker answered to attempt \<open>k\<close>, sent under that key\<close>
  "client_submit retries base calls c =
     (let c1 = c\<lparr>cl_counter := Suc (cl_counter c)\<rparr> in
      case fst (retry_call retries base 0 (\<lambda>k. calls (wire_key c1 k) k)) of
        Some job_id \<Rightarrow> (Some job_id, c1\<lparr>cl_acknowledged := dict_set (client_key c1) job_id (cl_acknowledged c1)\<rparr>)
      | None \<Rightarrow> (None, c1))"

fun client_wait :: "job_state option option list \<Rightarrow> job_state option" where
  \<comment> \<open>\<open>wait\<close>: what each poll came back with, \<open>None\<close> for no answer; a result of \<open>None\<close> is still polling\<close>
  "client_wait [] = None"
| "client_wait (reply # replies) =
     (case reply of
        Some (Some Done) \<Rightarrow> Some Done
      | Some (Some Dead) \<Rightarrow> Some Dead
      | _ \<Rightarrow> client_wait replies)"

section \<open>The whole queue\<close>

record queue =
  q_now :: time
  q_broker :: "payload broker"
  q_store :: store
  q_granted :: "lease list"
  q_working :: "lease list"
  q_completing :: "lease list"

definition queue_init :: "payload broker \<Rightarrow> store \<Rightarrow> queue" where
  "queue_init b s = \<lparr>q_now = 0, q_broker = b, q_store = s, q_granted = [], q_working = [], q_completing = []\<rparr>"

definition grant :: "payload response \<Rightarrow> lease list \<Rightarrow> lease list" where
  "grant r ls = (case r of LeaseR job_id token p _ \<Rightarrow> (job_id, token, p) # ls | _ \<Rightarrow> ls)"

inductive queue_step :: "queue \<Rightarrow> queue \<Rightarrow> bool" where
  submit: "queue_step q (q\<lparr>q_broker := snd (broker_submit key p (q_broker q))\<rparr>)"
| acquire: "broker_acquire deadline (q_now q) (q_broker q) = (r, b) \<Longrightarrow>
    queue_step q (q\<lparr>q_broker := b, q_granted := grant r (q_granted q)\<rparr>)"
| start: "\<lbrakk>l \<in> set (q_granted q); worker_begin l (q_store q) = (ok, s)\<rbrakk> \<Longrightarrow>
    queue_step q (q\<lparr>q_store := s, q_working := (if ok then l # q_working q else q_working q)\<rparr>)"
| renew: "(j, t, p) \<in> set (q_working q) \<Longrightarrow>
    queue_step q (q\<lparr>q_broker := snd (broker_renew (q_now q) j t (q_broker q))\<rparr>)"
| commit: "\<lbrakk>l \<in> set (q_working q); worker_finish l (q_store q) = (m, s)\<rbrakk> \<Longrightarrow>
    queue_step q (q\<lparr>q_store := s, q_completing := (if m \<noteq> None then l # q_completing q else q_completing q)\<rparr>)"
| complete: "(j, t, p) \<in> set (q_completing q) \<Longrightarrow>
    queue_step q (q\<lparr>q_broker := snd (broker_complete j t (q_broker q))\<rparr>)"
| timer: "\<lbrakk>(h, due, act) \<in> set (b_timers (q_broker q)); h \<notin> set (b_cancelled (q_broker q)); due \<le> q_now q\<rbrakk> \<Longrightarrow>
    queue_step q (q\<lparr>q_broker := fire (q_now q) act (drop_timer h (q_broker q))\<rparr>)"
| passes: "q_now q \<le> later \<Longrightarrow> queue_step q (q\<lparr>q_now := later\<rparr>)"

inductive_cases queue_step_elim: "queue_step q q'"

section \<open>Exactly once\<close>

definition committed :: "store \<Rightarrow> string set" where
  "committed s = cm_job ` set (st_commits s)"

definition known_lease :: "payload broker \<Rightarrow> lease \<Rightarrow> bool" where
  "known_lease b l = (case l of (j, t, p) \<Rightarrow>
     (\<exists>job. dict_get (b_jobs b) j = Some job \<and> jb_payload job = p \<and> t \<le> jb_token job))"

definition known_commit :: "payload broker \<Rightarrow> commit \<Rightarrow> bool" where
  "known_commit b c \<longleftrightarrow> (\<exists>job. dict_get (b_jobs b) (cm_job c) = Some job \<and>
     cm_value c = py_value (jb_payload job) \<and> cm_token c \<le> int (jb_token job))"

definition done_committed :: "payload broker \<Rightarrow> store \<Rightarrow> bool" where
  "done_committed b s \<longleftrightarrow>
     (\<forall>j job. dict_get (b_jobs b) j = Some job \<longrightarrow> jb_state job = Done \<longrightarrow> j \<in> committed s)"

definition queue_inv :: "queue \<Rightarrow> bool" where
  "queue_inv q \<longleftrightarrow> broker_inv (q_now q) (q_broker q) \<and> store_inv (q_store q) \<and>
     st_fenced (q_store q) \<and> st_idempotent (q_store q) \<and>
     (\<forall>l\<in>set (q_granted q). known_lease (q_broker q) l) \<and> set (q_working q) \<subseteq> set (q_granted q) \<and>
     (\<forall>l\<in>set (q_completing q). fst l \<in> committed (q_store q)) \<and>
     (\<forall>c\<in>set (st_commits (q_store q)). known_commit (q_broker q) c) \<and>
     done_committed (q_broker q) (q_store q)"

text \<open>What the rest of the queue relies on of a change to the broker.\<close>

lemma queue_inv_broker:
  assumes inv: "queue_inv q" and "broker_inv (q_now q) b" and ev: "jobs_evolve (q_broker q) b"
  shows "queue_inv (q\<lparr>q_broker := b\<rparr>)"
proof -
  have job: "\<exists>job'. dict_get (b_jobs b) j = Some job' \<and> evolves job job'"
    if "dict_get (b_jobs (q_broker q)) j = Some job" for j job
    using ev [unfolded jobs_evolve_def, rule_format, of j] that by simp
  have "known_lease b l" if "known_lease (q_broker q) l" for l
    using that job by (force simp: known_lease_def evolves_def split: prod.splits)
  moreover have "known_commit b c" if "known_commit (q_broker q) c" for c
    using that job by (force simp: known_commit_def evolves_def)
  moreover have "done_committed b (q_store q)"
    unfolding done_committed_def
  proof (intro allI impI)
    fix j job' assume j: "dict_get (b_jobs b) j = Some job'" "jb_state job' = Done"
    show "j \<in> committed (q_store q)"
    proof (cases "dict_get (b_jobs (q_broker q)) j")
      case None
      with ev [unfolded jobs_evolve_def, rule_format, of j] j show ?thesis by simp
    next
      case (Some job)
      with job [OF Some] j inv show ?thesis by (auto simp: queue_inv_def done_committed_def evolves_def)
    qed
  qed
  ultimately show ?thesis using inv assms(2) by (simp add: queue_inv_def)
qed

lemma acquire_grants_known:
  assumes inv: "broker_inv now b" and "broker_acquire deadline now b = (LeaseR j t p d, b')"
  shows "known_lease b' (j, t, p)"
proof -
  obtain job where job: "next_ready now b = Inr (Some job)" "broker_lease now job b = (LeaseR j t p d, b')"
    using assms(2) by (auto simp: broker_acquire_def split: sum.splits option.splits if_splits)
  obtain k where k: "dict_get (b_jobs b) k = Some job"
    using job(1) first_ready_some [of now "b_jobs b" "b_order b" job] by (auto simp: next_ready_def)
  show ?thesis
    using job(2) job_found(2) [OF inv k]
    by (auto simp: broker_lease_def put_job_def set_timer_def Let_def known_lease_def split: if_splits)
qed

lemma broker_complete_others:
  assumes "broker_inv now b"
  shows "case dict_get (b_jobs b) k of
      None \<Rightarrow> dict_get (b_jobs (snd (broker_complete j t b))) k = None
    | Some job \<Rightarrow> \<exists>job'. dict_get (b_jobs (snd (broker_complete j t b))) k = Some job' \<and>
        jb_payload job' = jb_payload job \<and> jb_token job' = jb_token job \<and>
        (jb_state job' = Done \<longrightarrow> jb_state job = Done \<or> k = j)"
proof (cases "dict_get (b_jobs b) j")
  case (Some job)
  with job_found(2) [OF assms Some] show ?thesis
    by (auto simp: broker_complete_def put_job_def Let_def split: option.split)
qed (simp add: broker_complete_def split: option.split)

lemma queue_inv_complete:
  assumes inv: "queue_inv q" and "j \<in> committed (q_store q)"
  shows "queue_inv (q\<lparr>q_broker := snd (broker_complete j t (q_broker q))\<rparr>)"
proof -
  let ?b = "snd (broker_complete j t (q_broker q))"
  have b: "broker_inv (q_now q) (q_broker q)" using inv by (simp add: queue_inv_def)
  note oth = broker_complete_others [OF b, where j = j and t = t]
  have job: "\<exists>job'. dict_get (b_jobs ?b) k = Some job' \<and> jb_payload job' = jb_payload job \<and> jb_token job' = jb_token job \<and>
      (jb_state job' = Done \<longrightarrow> jb_state job = Done \<or> k = j)"
    if "dict_get (b_jobs (q_broker q)) k = Some job" for k job
    using oth [where k = k] that by simp
  have "known_lease ?b l" if "known_lease (q_broker q) l" for l
    using that job by (force simp: known_lease_def split: prod.splits)
  moreover have "known_commit ?b c" if "known_commit (q_broker q) c" for c
    using that job by (force simp: known_commit_def)
  moreover have "done_committed ?b (q_store q)"
    unfolding done_committed_def
  proof (intro allI impI)
    fix k job' assume k: "dict_get (b_jobs ?b) k = Some job'" "jb_state job' = Done"
    obtain job where "dict_get (b_jobs (q_broker q)) k = Some job"
      using oth [where k = k] k(1) by (cases "dict_get (b_jobs (q_broker q)) k") auto
    with job [OF this] k inv assms(2) show "k \<in> committed (q_store q)"
      by (auto simp: queue_inv_def done_committed_def)
  qed
  ultimately show ?thesis using inv broker_complete_inv [OF b] by (simp add: queue_inv_def)
qed

lemma store_switches [simp]:
  "st_fenced (snd (store_begin j t s)) = st_fenced s" "st_idempotent (snd (store_begin j t s)) = st_idempotent s"
  "st_commits (snd (store_begin j t s)) = st_commits s"
  "st_fenced (snd (store_commit j t v s)) = st_fenced s" "st_idempotent (snd (store_commit j t v s)) = st_idempotent s"
  by (simp_all add: store_begin_def store_commit_def Let_def)

lemma queue_inv_begin:
  assumes "queue_inv q" and "l \<in> set (q_granted q)" and "worker_begin l (q_store q) = (ok, s)"
  shows "queue_inv (q\<lparr>q_store := s, q_working := (if ok then l # q_working q else q_working q)\<rparr>)"
proof -
  obtain j t p where l: "l = (j, t, p)" by (cases l)
  have "s = snd (store_begin j (int t) (q_store q))" using assms(3) by (simp add: worker_begin_def l)
  then show ?thesis
    using assms(1,2) by (auto simp: queue_inv_def committed_def done_committed_def store_begin_inv)
qed

lemma store_commit_commits:
  "set (st_commits (snd (store_commit j t v s))) \<subseteq>
     insert \<lparr>cm_job = j, cm_token = t, cm_value = v, cm_stale = (t < newest_of s j)\<rparr> (set (st_commits s))"
  "committed s \<subseteq> committed (snd (store_commit j t v s))"
  "store_inv s \<Longrightarrow> fst (store_commit j t v s) \<noteq> ''stale'' \<Longrightarrow> j \<in> committed (snd (store_commit j t v s))"
  by (auto simp: store_commit_def Let_def committed_def store_inv_def)

lemma queue_inv_commit:
  assumes inv: "queue_inv q" and "l \<in> set (q_working q)" and "worker_finish l (q_store q) = (m, s)"
  shows "queue_inv (q\<lparr>q_store := s, q_completing := (if m \<noteq> None then l # q_completing q else q_completing q)\<rparr>)"
proof -
  obtain j t p where l: "l = (j, t, p)" by (cases l)
  show ?thesis
  proof (cases "worker_execute p = None")
    case False
    with assms(3) have "m = None" "s = q_store q" by (simp_all add: worker_finish_def l)
    with inv show ?thesis by (simp add: queue_inv_def)
  next
    case True
    let ?c = "store_commit j (int t) (py_value p) (q_store q)"
    have s: "s = snd ?c" and m: "m \<noteq> None \<longleftrightarrow> fst ?c \<noteq> ''stale''"
      using assms(3) True by (auto simp: worker_finish_def l Let_def split: prod.splits if_splits)
    note sc = store_commit_commits [where j = j and t = "int t" and v = "py_value p" and s = "q_store q"]
    have st: "store_inv (q_store q)" using inv by (simp add: queue_inv_def)
    have "known_lease (q_broker q) (j, t, p)" using inv assms(2) l by (auto simp: queue_inv_def)
    then have "known_commit (q_broker q) c" if "c \<in> set (st_commits s)" for c
      using that sc(1) inv unfolding s by (auto simp: queue_inv_def known_lease_def known_commit_def)
    moreover have "fst l' \<in> committed s" if "l' \<in> set (if m \<noteq> None then l # q_completing q else q_completing q)" for l'
      using that inv sc(2,3) st m by (auto simp: s l queue_inv_def split: if_splits)
    moreover have "done_committed (q_broker q) s"
      using inv sc(2) by (auto simp: s queue_inv_def done_committed_def)
    ultimately show ?thesis using inv st by (auto simp: queue_inv_def s store_commit_inv)
  qed
qed

lemma queue_step_inv: "queue_step q q' \<Longrightarrow> queue_inv q \<Longrightarrow> queue_inv q'"
proof (induction rule: queue_step.induct)
  case (submit q key p)
  then have "broker_inv (q_now q) (q_broker q)" by (simp add: queue_inv_def)
  with submit show ?case by (intro queue_inv_broker broker_submit_inv broker_submit_evolves [of "q_now q"])
next
  case (acquire deadline q r b)
  have b: "broker_inv (q_now q) (q_broker q)" using acquire.prems by (simp add: queue_inv_def)
  have "queue_inv (q\<lparr>q_broker := b\<rparr>)"
    using broker_acquire_inv [OF b, of deadline] broker_acquire_evolves [OF b, of deadline] acquire
    by (intro queue_inv_broker) simp_all
  moreover have "known_lease b l" if "l \<in> set (grant r (q_granted q))" "l \<notin> set (q_granted q)" for l
    using that acquire_grants_known [OF b] acquire.hyps by (cases r) (auto simp: grant_def)
  moreover have "set (q_granted q) \<subseteq> set (grant r (q_granted q))" by (cases r) (auto simp: grant_def)
  ultimately show ?case by (fastforce simp: queue_inv_def)
next
  case (start l q ok s)
  then show ?case by (intro queue_inv_begin)
next
  case (renew j t p q)
  then have "broker_inv (q_now q) (q_broker q)" by (simp add: queue_inv_def)
  with renew show ?case by (intro queue_inv_broker broker_renew_inv broker_renew_evolves [of "q_now q"])
next
  case (commit l q m s)
  then show ?case by (intro queue_inv_commit)
next
  case (complete j t p q)
  then show ?case by (intro queue_inv_complete) (auto simp: queue_inv_def)
next
  case (timer h due act q)
  have b: "broker_inv (q_now q) (q_broker q)" using timer.prems by (simp add: queue_inv_def)
  then have "h < b_next_handle (q_broker q)" using timer.hyps(1) by (auto simp: broker_inv_def timers_ok_def)
  with timer b show ?case by (intro queue_inv_broker broker_fire_inv broker_fire_evolves) simp_all
next
  case (passes q later)
  then show ?case by (auto simp: queue_inv_def intro: broker_inv_later)
qed

lemma queue_reachable_inv:
  assumes "queue_step\<^sup>*\<^sup>* (queue_init (broker_init lease_s m backoff fencing) (store_init True True)) q"
  shows "queue_inv q"
  using assms
proof (induction rule: rtranclp_induct)
  case base
  show ?case
    by (simp add: queue_inv_def queue_init_def broker_inv_init store_init_inv committed_def done_committed_def)
      (simp add: store_init_def broker_init_def)
qed (rule queue_step_inv)

text \<open>
  C5. Exactly once, end to end. Take a broker with any settings (fencing on or off), a fenced and
  idempotent store, and any number of clients and workers that may crash, pause past their lease,
  retry, or have their messages lost or delayed. In every state reached: no job's effect is
  committed twice, no stale write was accepted, every commit belongs to a submitted job and carries
  its payload's value, and a job the broker reports done has exactly one commit.
\<close>
theorem effects_happen_exactly_once:
  assumes "queue_step\<^sup>*\<^sup>* (queue_init (broker_init lease_s m backoff fencing) (store_init True True)) q"
  shows "distinct (map cm_job (st_commits (q_store q))) \<and>
    (\<forall>c\<in>set (st_commits (q_store q)). \<not> cm_stale c \<and>
       (\<exists>job. dict_get (b_jobs (q_broker q)) (cm_job c) = Some job \<and> cm_value c = py_value (jb_payload job) \<and>
          cm_token c \<le> int (jb_token job))) \<and>
    (\<forall>j job. dict_get (b_jobs (q_broker q)) j = Some job \<longrightarrow> jb_state job = Done \<longrightarrow>
       count_list (map cm_job (st_commits (q_store q))) j = 1)"
proof -
  have inv: "queue_inv q" by (rule queue_reachable_inv [OF assms])
  then have "distinct (map cm_job (st_commits (q_store q)))" by (simp add: queue_inv_def store_inv_def)
  with inv show ?thesis
    by (auto simp: queue_inv_def store_inv_def known_commit_def done_committed_def committed_def count_list_distinct)
qed

theorem effects_happen_exactly_once_witness:
  "\<exists>q. queue_step\<^sup>*\<^sup>* (queue_init (broker_init 2 (Some 3) (1 / 2) True) (store_init True True)) q \<and>
     dict_get (b_jobs (q_broker q)) ''j1'' \<noteq> None \<and> distinct (map cm_job (st_commits (q_store q)))"
proof -
  let ?q0 = "queue_init (broker_init 2 (Some 3) (1 / 2) True) (store_init True True)"
  let ?p = "\<lparr>py_value = ''v'', py_duration = 0, py_poison = False\<rparr>"
  let ?q1 = "?q0\<lparr>q_broker := snd (broker_submit ''k'' ?p (q_broker ?q0))\<rparr>"
  have "queue_step\<^sup>*\<^sup>* ?q0 ?q1" by (rule r_into_rtranclp) (rule queue_step.submit)
  moreover have "dict_get (b_jobs (q_broker ?q1)) ''j1'' \<noteq> None"
  proof -
    have "str_nat (Suc 0) = ''1''" by code_simp
    then show ?thesis by (simp add: queue_init_def broker_init_def broker_submit_def put_job_def Let_def)
  qed
  ultimately show ?thesis using effects_happen_exactly_once by blast
qed

end
