(* ===== verification/JobWire.thy ===== *)
theory JobWire
  imports SimPrelude
begin

text \<open>
  \<open>examples/jobqueue/jobqueue/wire.py\<close>: messages as frames of a byte stream, a four byte big-endian
  length and the JSON text, and the one-shot request. \<open>json\<close> is a parameter: \<open>dumps\<close> and \<open>loads\<close>
  (with the coding to bytes; \<open>None\<close> is a \<open>UnicodeDecodeError\<close> or a \<open>JSONDecodeError\<close>), and
  \<open>as_object\<close> tells an object from another value. A reader is what has arrived so far and whether
  the stream has ended; a coroutine waiting in \<open>readexactly\<close> is one that starts over on what has
  arrived, as nothing it did before has an effect.
\<close>

datatype wire_error = IncompleteRead | FrameError

datatype 'a reading = Arrived 'a bytes | Waiting | Broken wire_error

definition MAX_FRAME :: nat where "MAX_FRAME = push_bit 20 1"

definition HEADER_SIZE :: nat where "HEADER_SIZE = 4"

definition pack_length :: "nat \<Rightarrow> bytes option" where
  \<comment> \<open>\<open>struct.error\<close> beyond 32 bits\<close>
  "pack_length n = (if n < 2 ^ 32 then Some (map (\<lambda>i. char_of (n div 256 ^ i)) [3, 2, 1, 0]) else None)"

definition unpack_length :: "bytes \<Rightarrow> nat" where
  "unpack_length bs = foldl (\<lambda>n b. n * 256 + of_char b) 0 bs"

definition readexactly :: "nat \<Rightarrow> bytes \<Rightarrow> bool \<Rightarrow> bytes reading" where
  "readexactly n buf eof =
     (if n \<le> length buf then Arrived (take n buf) (drop n buf) else if eof then Broken IncompleteRead else Waiting)"

definition read_message :: "(bytes \<Rightarrow> 'json option) \<Rightarrow> ('json \<Rightarrow> 'msg option) \<Rightarrow> bytes \<Rightarrow> bool \<Rightarrow> 'msg reading" where
  "read_message loads as_object buf eof =
     (case readexactly HEADER_SIZE buf eof of
        Waiting \<Rightarrow> Waiting
      | Broken e \<Rightarrow> Broken e
      | Arrived header buf \<Rightarrow>
          let n = unpack_length header in
          if n > MAX_FRAME then Broken FrameError
          else (case readexactly n buf eof of
              Waiting \<Rightarrow> Waiting
            | Broken e \<Rightarrow> Broken e
            | Arrived body buf \<Rightarrow>
                (case loads body of
                   None \<Rightarrow> Broken FrameError
                 | Some value \<Rightarrow> (case as_object value of None \<Rightarrow> Broken FrameError | Some m \<Rightarrow> Arrived m buf))))"

definition write_message :: "('msg \<Rightarrow> bytes) \<Rightarrow> 'msg \<Rightarrow> bytes option" where
  "write_message dumps m = (let body = dumps m in map_option (\<lambda>header. header @ body) (pack_length (length body)))"

datatype 'msg call_end = Replied 'msg | NoReply | StructError

definition wire_call :: "('msg \<Rightarrow> bytes) \<Rightarrow> (bytes \<Rightarrow> 'json option) \<Rightarrow> ('json \<Rightarrow> 'msg option) \<Rightarrow>
    'msg \<Rightarrow> bool \<Rightarrow> bytes \<Rightarrow> bool \<Rightarrow> 'msg call_end" where
  \<comment> \<open>\<open>call\<close>: whether the connection opened in time, and what had come back by the timeout\<close>
  "wire_call dumps loads as_object m opened buf eof =
     (if \<not> opened then NoReply
      else case write_message dumps m of
        None \<Rightarrow> StructError
      | Some _ \<Rightarrow>
          (case read_message loads as_object buf eof of
             Arrived reply _ \<Rightarrow> Replied reply
           | Waiting \<Rightarrow> NoReply
           | Broken _ \<Rightarrow> NoReply))"

section \<open>The header\<close>

lemma length_pack: "pack_length n = Some h \<Longrightarrow> length h = HEADER_SIZE"
  by (auto simp: pack_length_def HEADER_SIZE_def split: if_splits)

lemma unpack_pack: "pack_length n = Some h \<Longrightarrow> unpack_length h = n"
proof -
  assume "pack_length n = Some h"
  then have n: "n < 2 ^ 32" and h: "h = map (\<lambda>i. char_of (n div 256 ^ i)) [3, 2, 1, 0]"
    by (auto simp: pack_length_def split: if_splits)
  define p q r where "p = n div 256" and "q = p div 256" and "r = q div 256"
  have "n div 65536 = q" "n div 16777216 = r" "r < 256"
    using n by (simp_all add: p_def q_def r_def div_mult2_eq [symmetric])
  moreover have "p * 256 + n mod 256 = n" "q * 256 + p mod 256 = p" "r * 256 + q mod 256 = q"
    by (simp_all only: p_def q_def r_def div_mult_mod_eq)
  ultimately have "((n div 16777216 mod 256 * 256 + n div 65536 mod 256) * 256 + n div 256 mod 256) * 256 + n mod 256 = n"
    by (simp add: p_def)
  moreover have "n div 16777216 < 256" using n by (simp add: less_mult_imp_div_less)
  ultimately show ?thesis by (simp add: h unpack_length_def)
qed

section \<open>Frames survive the network\<close>

lemma read_message_consumes:
  "read_message loads as_object buf eof = Arrived m rest \<Longrightarrow> length rest < length buf"
  by (auto simp: read_message_def readexactly_def HEADER_SIZE_def Let_def split: if_splits option.splits)

function read_messages ::
    "(bytes \<Rightarrow> 'json option) \<Rightarrow> ('json \<Rightarrow> 'msg option) \<Rightarrow> bytes \<Rightarrow> bool \<Rightarrow> 'msg list \<times> wire_error option" where
  \<comment> \<open>what a reader that loops gets out of what has arrived, and the error that stops it (\<open>None\<close>: it waits)\<close>
  "read_messages loads as_object buf eof =
     (case read_message loads as_object buf eof of
        Waiting \<Rightarrow> ([], None)
      | Broken e \<Rightarrow> ([], Some e)
      | Arrived m rest \<Rightarrow>
          (case read_messages loads as_object rest eof of (ms, e) \<Rightarrow> (m # ms, e)))"
  by pat_completeness auto
termination
  by (relation "measure (\<lambda>(_, _, buf, _). length buf)") (auto simp: read_message_consumes)

declare read_messages.simps [simp del]

fun complete_frames :: "nat \<Rightarrow> bytes list \<Rightarrow> nat" where
  \<comment> \<open>how many of these frames lie whole within the first \<open>k\<close> bytes of the stream\<close>
  "complete_frames k [] = 0"
| "complete_frames k (f # fs) = (if length f \<le> k then Suc (complete_frames (k - length f) fs) else 0)"

lemma read_message_frame:
  assumes "loads (dumps m) = Some v" and "as_object v = Some m" and "length (dumps m) \<le> MAX_FRAME"
    and "write_message dumps m = Some f"
  shows "read_message loads as_object (f @ rest) eof = Arrived m rest"
    "k < length f \<Longrightarrow> read_message loads as_object (take k (f @ rest)) eof =
       (if eof then Broken IncompleteRead else Waiting)"
proof -
  obtain h where h: "pack_length (length (dumps m)) = Some h" "f = h @ dumps m"
    using assms(4) by (auto simp: write_message_def Let_def)
  note hs = length_pack [OF h(1)] unpack_pack [OF h(1)]
  show "read_message loads as_object (f @ rest) eof = Arrived m rest"
    using assms(1-3) h(2) hs by (simp add: read_message_def readexactly_def Let_def)
  assume k: "k < length f"
  have "take (length h) (take k f) = h" if "length h \<le> k" using that h(2) by (simp add: min_def)
  with assms(3) k h(2) hs show "read_message loads as_object (take k (f @ rest)) eof =
       (if eof then Broken IncompleteRead else Waiting)"
    by (auto simp: read_message_def readexactly_def Let_def min_def)
qed

lemma read_messages_cut:
  assumes "list_all2 (\<lambda>m f. write_message dumps m = Some f) ms fs"
    and "\<And>m. m \<in> set ms \<Longrightarrow> length (dumps m) \<le> MAX_FRAME \<and> (\<exists>v. loads (dumps m) = Some v \<and> as_object v = Some m)"
  shows "read_messages loads as_object (take k (concat fs)) eof =
    (take (complete_frames k fs) ms, if eof then Some IncompleteRead else None)"
  using assms
proof (induction arbitrary: k rule: list_all2_induct)
  case Nil
  then show ?case by (simp add: read_messages.simps [of loads as_object "[]"] read_message_def readexactly_def HEADER_SIZE_def)
next
  case (Cons m ms f fs)
  then obtain v where v: "loads (dumps m) = Some v" "as_object v = Some m" "length (dumps m) \<le> MAX_FRAME" by auto
  note frame = read_message_frame [of loads dumps m v as_object f, OF v Cons.hyps(1)]
  show ?case
  proof (cases "length f \<le> k")
    case True
    then have "take k (concat (f # fs)) = f @ take (k - length f) (concat fs)" by simp
    then show ?thesis using True frame(1) Cons by (subst read_messages.simps) simp
  next
    case False
    then show ?thesis using frame(2) [of k "concat fs"] by (subst read_messages.simps) simp
  qed
qed

text \<open>
  C37. Framing: when objects within the size limit are written to a stream and the stream is cut at
  any byte, a reader gets exactly the messages whose frames arrived whole, in order, and then waits,
  or fails with \<open>IncompleteReadError\<close> if the stream has ended there; it never gets another
  message. (JSON text is read back as the object it was made from.)
\<close>
theorem frames_survive_any_cut:
  assumes "list_all2 (\<lambda>m f. write_message dumps m = Some f) ms fs"
    and "\<And>m. m \<in> set ms \<Longrightarrow> length (dumps m) \<le> MAX_FRAME \<and> (\<exists>v. loads (dumps m) = Some v \<and> as_object v = Some m)"
  shows "read_messages loads as_object (take k (concat fs)) eof =
    (take (complete_frames k fs) ms, if eof then Some IncompleteRead else None)"
  by (rule read_messages_cut [OF assms])

theorem frames_survive_any_cut_witness:
  "read_messages (\<lambda>b. Some b) (\<lambda>v. if hd v = CHR ''{'' then Some v else None)
     (take 9 (CHR 0x00 # CHR 0x00 # CHR 0x00 # CHR 0x02 # ''{}'' @ CHR 0x00 # CHR 0x00 # CHR 0x00 # CHR 0x03 # ''{1}'')) True =
   ([''{}''], Some IncompleteRead)"
proof -
  have w: "list_all2 (\<lambda>m f. write_message id m = Some f) [''{}'', ''{1}'']
    [CHR 0x00 # CHR 0x00 # CHR 0x00 # CHR 0x02 # ''{}'', CHR 0x00 # CHR 0x00 # CHR 0x00 # CHR 0x03 # ''{1}'']"
    by (simp add: write_message_def pack_length_def char_of_def bit_iff_odd)
  have j: "length (id m) \<le> MAX_FRAME \<and> (\<exists>v. Some (id m) = Some v \<and> (if hd v = CHR ''{'' then Some v else None) = Some m)"
    if "m \<in> set [''{}'', ''{1}'']" for m
    using that by (auto simp: MAX_FRAME_def)
  show ?thesis
    using frames_survive_any_cut [OF w, of "\<lambda>b. Some b" "\<lambda>v. if hd v = CHR ''{'' then Some v else None" 9 True] j by simp
qed

text \<open>A writer does not check the limit its reader enforces.\<close>

lemma oversized_frame_is_refused:
  assumes "MAX_FRAME < length (dumps m)" and "write_message dumps m = Some f"
  shows "read_message loads as_object (f @ rest) eof = Broken FrameError"
proof -
  obtain h where h: "pack_length (length (dumps m)) = Some h" "f = h @ dumps m"
    using assms(2) by (auto simp: write_message_def Let_def)
  with assms(1) length_pack [OF h(1)] unpack_pack [OF h(1)] show ?thesis
    by (simp add: read_message_def readexactly_def Let_def)
qed

end
