(* ===== verification/RaftStorage.thy ===== *)
theory RaftStorage
  imports SimDisk
begin

text \<open>
  \<open>examples/raft/raft/storage.py\<close>: what a Raft peer must remember, and the two places it can keep
  it. The locale \<open>raft_storage\<close> is the contract the node relies on (a save is read back, a sync
  makes it survive a crash); it is interpreted on the in-memory storage and on the storage over a
  simulated disk.
\<close>

section \<open>State\<close>

record entry =
  en_term :: nat
  en_command :: string

record pstate =
  ps_term :: nat
  ps_voted_for :: "string option"
  ps_log :: "entry list"

definition pstate_init :: pstate where
  "pstate_init = \<lparr>ps_term = 0, ps_voted_for = None, ps_log = []\<rparr>"

text \<open>The methods of a \<open>Storage\<close>.\<close>

record 'st storage =
  so_load :: "'st \<Rightarrow> pstate"
  so_save :: "pstate \<Rightarrow> 'st \<Rightarrow> 'st"
  so_sync :: "'st \<Rightarrow> 'st"

definition memory_storage :: "pstate storage" where
  "memory_storage = \<lparr>so_load = (\<lambda>saved. saved), so_save = (\<lambda>state _. state), so_sync = (\<lambda>saved. saved)\<rparr>"

type_synonym stored = "nat \<times> string option \<times> (nat \<times> string) list"

definition STORAGE_KEY :: key where "STORAGE_KEY = ''raft-state''"

definition disk_load :: "stored disk \<Rightarrow> pstate" where
  "disk_load d =
     (case disk_get d STORAGE_KEY of
        Inl _ \<Rightarrow> pstate_init
      | Inr (term, voted_for, lg) \<Rightarrow>
          \<lparr>ps_term = term, ps_voted_for = voted_for,
           ps_log = map (\<lambda>(entry_term, command). \<lparr>en_term = entry_term, en_command = command\<rparr>) lg\<rparr>)"

definition disk_save :: "pstate \<Rightarrow> stored disk \<Rightarrow> stored disk" where
  "disk_save state d =
     disk_set STORAGE_KEY (ps_term state, ps_voted_for state, map (\<lambda>e. (en_term e, en_command e)) (ps_log state)) d"

definition disk_storage :: "stored disk storage" where
  "disk_storage = \<lparr>so_load = disk_load, so_save = disk_save, so_sync = disk_sync\<rparr>"

section \<open>The contract\<close>

locale raft_storage =
  fixes ops :: "'st storage" and crash :: "rng \<Rightarrow> 'st \<Rightarrow> 'st" and inv :: "'st \<Rightarrow> bool" and clean :: "'st \<Rightarrow> bool"
    \<comment> \<open>\<open>clean\<close>: nothing is waiting to be written\<close>
  assumes load_save: "inv s \<Longrightarrow> so_load ops (so_save ops p s) = p"
    and load_sync: "inv s \<Longrightarrow> so_load ops (so_sync ops s) = so_load ops s"
    and inv_save: "inv s \<Longrightarrow> inv (so_save ops p s)" and inv_sync: "inv s \<Longrightarrow> inv (so_sync ops s)"
    and inv_crash: "inv s \<Longrightarrow> inv (crash r s)"
    and clean_sync: "inv s \<Longrightarrow> clean (so_sync ops s)" and clean_crash: "inv s \<Longrightarrow> clean (crash r s)"
    and crash_clean: "inv s \<Longrightarrow> clean s \<Longrightarrow> so_load ops (crash r s) = so_load ops s"
begin

lemma synced_save_survives:
  assumes "inv s"
  shows "so_load ops (crash r (so_sync ops (so_save ops p s))) = p"
  using assms by (simp add: crash_clean clean_sync inv_save inv_sync load_sync load_save)

end

interpretation memory: raft_storage memory_storage "\<lambda>_ s. s" "\<lambda>_. True" "\<lambda>_. True"
  by unfold_locales (simp_all add: memory_storage_def)

lemma disk_load_view:
  "disk_load d = (case disk_view d STORAGE_KEY of
     None \<Rightarrow> pstate_init
   | Some (term, voted_for, lg) \<Rightarrow>
       \<lparr>ps_term = term, ps_voted_for = voted_for,
        ps_log = map (\<lambda>(entry_term, command). \<lparr>en_term = entry_term, en_command = command\<rparr>) lg\<rparr>)"
  by (simp add: disk_load_def disk_get_view split: option.split)

lemma entries_round_trip:
  "map ((\<lambda>(t, c). \<lparr>en_term = t, en_command = c\<rparr>) \<circ> (\<lambda>e. (en_term e, en_command e))) lg = lg"
  by (rule map_idI) simp

lemma disk_load_stored:
  assumes "disk_view d STORAGE_KEY = Some (ps_term p, ps_voted_for p, map (\<lambda>e. (en_term e, en_command e)) (ps_log p))"
  shows "disk_load d = p"
  by (simp add: disk_load_view assms entries_round_trip)

lemma disk_view_set: "disk_inv d \<Longrightarrow> disk_view (disk_set k v d) = (disk_view d)(k \<mapsto> v)"
proof -
  assume inv: "disk_inv d"
  have "disk_view (disk_set k v d) = fold apply_op (d_journal (disk_set k v d)) (disk_durable (disk_set k v d))"
    by (rule disk_view_journal [OF disk_inv_set [OF inv]])
  also have "\<dots> = (disk_view d)(k \<mapsto> v)"
    unfolding disk_view_journal [OF inv] using inv
    by (cases "d_buffered d")
      (auto simp: disk_set_def disk_durable_def apply_op_def disk_inv_def fun_eq_iff)
  finally show ?thesis .
qed

lemma disk_view_sync: "disk_inv d \<Longrightarrow> disk_view (disk_sync d) = disk_view d"
  by (simp add: disk_view_journal disk_inv_sync) (simp add: disk_sync_def disk_durable_def apply_journal_get)

lemma disk_load_save: "disk_inv d \<Longrightarrow> disk_load (disk_save p d) = p"
  by (rule disk_load_stored) (simp add: disk_save_def disk_view_set)

lemma disk_save_sel:
  "disk_inv d \<Longrightarrow> disk_inv (disk_save p d)" "d_buffered (disk_save p d) = d_buffered d"
  "d_buffered d \<Longrightarrow> d_journal (disk_save p d) = d_journal d @
     [(STORAGE_KEY, Some (ps_term p, ps_voted_for p, map (\<lambda>e. (en_term e, en_command e)) (ps_log p)))]"
  "d_buffered d \<Longrightarrow> disk_durable (disk_save p d) = disk_durable d"
  by (simp add: disk_save_def disk_inv_set, simp_all add: disk_save_def disk_set_def disk_durable_def)

interpretation ondisk: raft_storage disk_storage "\<lambda>r d. fst (disk_crash r d)" disk_inv "\<lambda>d. d_journal d = []"
proof (unfold_locales, goal_cases)
  case (1 s p)
  then show ?case by (simp add: disk_storage_def disk_load_save)
next
  case (2 s)
  then show ?case by (simp add: disk_storage_def disk_load_view disk_view_sync)
next
  case (7 s r)
  then show ?case using disk_crash_cases [of r s] by auto
next
  case (8 s r)
  then have "disk_view (fst (disk_crash r s)) = disk_view s"
    using disk_crash_cases [of r s] by (auto simp: disk_view_journal fun_eq_iff disk_view_overlay disk_durable_def apply_journal_def)
  then show ?case by (simp add: disk_storage_def disk_load_view)
next
  case (6 s)
  then show ?case by (simp add: disk_storage_def disk_sync_def)
qed (auto simp: disk_storage_def disk_save_sel disk_inv_sync disk_inv_crash)

text \<open>
  C14. A save is atomic against a power cut: after any number of saves on a flushed disk, a crash
  leaves the node's record as one of those saves or as the flushed one, whole, never a mixture of
  two; and a save that was synced is exactly what the next boot loads.
\<close>
theorem raft_record_never_tears:
  assumes "disk_inv d" and "d_journal d = []"
  shows "disk_load (fst (disk_crash r (fold disk_save ps d))) \<in> set (disk_load d # ps) \<and>
    disk_load (fst (disk_crash r (disk_sync (disk_save p (fold disk_save ps d))))) = p"
proof -
  let ?enc = "\<lambda>p. (STORAGE_KEY, Some (ps_term p, ps_voted_for p, map (\<lambda>e. (en_term e, en_command e)) (ps_log p)))"
  have inv: "disk_inv (fold disk_save ps d) \<and> d_buffered (fold disk_save ps d) = d_buffered d" for ps
  proof (induction ps rule: rev_induct)
    case (snoc p ps)
    then show ?case by (simp add: disk_save_sel)
  qed (simp add: assms)
  have view: "disk_load (fst (disk_crash r (fold disk_save ps d))) \<in> set (disk_load d # ps)"
  proof (cases "d_buffered d")
    case False
    have "d_journal (fold disk_save ps d) = []" using inv [of ps] False by (auto simp: disk_inv_def)
    then have "disk_load (fst (disk_crash r (fold disk_save ps d))) = disk_load (fold disk_save ps d)"
      using ondisk.crash_clean [of "fold disk_save ps d" r] inv by (simp add: disk_storage_def)
    moreover have "disk_load (fold disk_save ps d) \<in> set (disk_load d # ps)"
      using inv by (induction ps rule: rev_induct) (auto simp: disk_load_save)
    ultimately show ?thesis by simp
  next
    case True
    have j: "d_journal (fold disk_save ps d) = map ?enc ps \<and> disk_durable (fold disk_save ps d) = disk_durable d" for ps
    proof (induction ps rule: rev_induct)
      case (snoc p ps)
      with inv [of ps] True show ?case by (simp add: disk_save_sel)
    qed (simp add: assms)
    have base: "disk_view d = disk_durable d" using disk_view_journal [OF assms(1)] assms(2) by simp
    obtain n where n: "fst (disk_crash r (fold disk_save ps d)) = (fold disk_save ps d)\<lparr>d_data :=
        apply_journal (take n (map ?enc ps)) (d_data (fold disk_save ps d)), d_journal := [], d_overlay := []\<rparr>"
      using disk_crash_cases [of r "fold disk_save ps d"] j [of ps] by auto
    have "disk_view (fst (disk_crash r (fold disk_save ps d))) STORAGE_KEY =
        fold apply_op (map ?enc (take n ps)) (disk_view d) STORAGE_KEY"
      using j [of ps] by (simp add: n base disk_view_overlay disk_durable_def apply_journal_get take_map)
    moreover have "fold apply_op (map ?enc qs) m STORAGE_KEY = (if qs = [] then m STORAGE_KEY else snd (?enc (last qs)))" for qs m
      by (induction qs arbitrary: m) (auto simp: apply_op_def)
    ultimately have v: "disk_view (fst (disk_crash r (fold disk_save ps d))) STORAGE_KEY =
        (if take n ps = [] then disk_view d STORAGE_KEY else snd (?enc (last (take n ps))))" by (simp only:)
    show ?thesis
    proof (cases "take n ps = []")
      case True
      with v have "disk_load (fst (disk_crash r (fold disk_save ps d))) = disk_load d" by (simp add: disk_load_view)
      then show ?thesis by simp
    next
      case False
      then have "disk_load (fst (disk_crash r (fold disk_save ps d))) = last (take n ps)"
        using v by (intro disk_load_stored) simp
      moreover have "last (take n ps) \<in> set ps" using False by (meson in_set_takeD last_in_set)
      ultimately show ?thesis by simp
    qed
  qed
  with ondisk.synced_save_survives [of "fold disk_save ps d" r p] inv [of ps] show ?thesis
    by (simp add: disk_storage_def)
qed

theorem raft_record_never_tears_witness:
  "disk_load (fst (disk_crash demo_rng (disk_sync (disk_save \<lparr>ps_term = 2, ps_voted_for = Some ''b'', ps_log = []\<rparr>
     (disk_configure True True disk_init))))) = \<lparr>ps_term = 2, ps_voted_for = Some ''b'', ps_log = []\<rparr>"
proof -
  have "disk_inv (disk_configure True True disk_init :: stored disk)" by (rule disk_inv_configure [OF disk_inv_init])
  moreover have "d_journal (disk_configure True True disk_init :: stored disk) = []"
    by (simp add: disk_configure_def disk_sync_def)
  ultimately show ?thesis
    using raft_record_never_tears [of "disk_configure True True disk_init" demo_rng "[]"] by simp
qed

end
