(* ===== verification/RaftNode.thy ===== *)
theory RaftNode
  imports RaftStorage SimText
begin

text \<open>
  \<open>examples/raft/raft/node.py\<close>: one Raft peer. The handlers are synchronous, so each is one
  function; a coroutine is cut at its awaits: \<open>_campaign\<close> into its start, the reply of one
  solicitor and its end, \<open>_push\<close> into the request it sends and the reply it gets. What the
  coroutine keeps in local variables between its awaits (the term it runs for, the votes granted so
  far, which solicitors are still out) is part of the node. A dictionary message is a record or a
  constructor, \<open>None\<close> for a request that got no answer. Terms and indices are naturals: no peer sends a
  negative one.
\<close>

section \<open>State\<close>

record safeguards =
  sg_reject_stale_term :: bool
  sg_one_vote_per_term :: bool
  sg_check_log_up_to_date :: bool
  sg_persist_before_reply :: bool
  sg_sync_before_vote :: bool
  sg_sync_before_ack :: bool
  sg_commit_own_term_only :: bool
  sg_leader_noop :: bool

definition all_safeguards :: safeguards where
  "all_safeguards = \<lparr>sg_reject_stale_term = True, sg_one_vote_per_term = True, sg_check_log_up_to_date = True,
     sg_persist_before_reply = True, sg_sync_before_vote = True, sg_sync_before_ack = True,
     sg_commit_own_term_only = True, sg_leader_noop = True\<rparr>"

datatype role = Follower | Candidate | Leader

datatype event =
    LeaderEv string nat "entry list"
  | ApplyEv string nat nat string nat

record 'st node =
  nd_name :: string
  nd_peers :: "string list"
  nd_storage :: 'st
  nd_safeguards :: safeguards
  nd_events :: "event list"
  nd_state :: pstate
  nd_quorum :: nat
  nd_role :: role
  nd_commit_index :: nat
  nd_applied :: "entry list"
  nd_applied_index :: nat
  nd_next_index :: "(string, nat) dict"
  nd_match_index :: "(string, nat) dict"
  nd_reset :: bool
  nd_campaign_term :: "nat option" \<comment> \<open>\<open>term\<close> of the campaign that is running\<close>
  nd_granted :: nat
  nd_solicitors :: "string list" \<comment> \<open>the peers whose answer is still out\<close>
  nd_settled :: bool
  nd_lead_term :: "nat option" \<comment> \<open>\<open>term\<close> of the leadership whose pushers are running\<close>

definition node_init :: "'st storage \<Rightarrow> string \<Rightarrow> string list \<Rightarrow> 'st \<Rightarrow> safeguards \<Rightarrow> 'st node" where
  "node_init ops name peers st sg =
     \<lparr>nd_name = name, nd_peers = peers, nd_storage = st, nd_safeguards = sg, nd_events = [],
      nd_state = so_load ops st, nd_quorum = (length peers + 1) div 2 + 1, nd_role = Follower,
      nd_commit_index = 0, nd_applied = [], nd_applied_index = 0, nd_next_index = [], nd_match_index = [],
      nd_reset = False, nd_campaign_term = None, nd_granted = 0, nd_solicitors = [], nd_settled = False,
      nd_lead_term = None\<rparr>"

abbreviation nd_term :: "'st node \<Rightarrow> nat" where "nd_term n \<equiv> ps_term (nd_state n)"

abbreviation nd_voted_for :: "'st node \<Rightarrow> string option" where "nd_voted_for n \<equiv> ps_voted_for (nd_state n)"

abbreviation nd_log :: "'st node \<Rightarrow> entry list" where "nd_log n \<equiv> ps_log (nd_state n)"

section \<open>Shared transitions and bookkeeping\<close>

definition persist :: "'st storage \<Rightarrow> bool \<Rightarrow> 'st node \<Rightarrow> 'st node" where
  "persist ops sync n =
     (if sg_persist_before_reply (nd_safeguards n)
      then let st = so_save ops (nd_state n) (nd_storage n) in
        n\<lparr>nd_storage := (if sync then so_sync ops st else st)\<rparr>
      else n)"

definition become_follower :: "'st storage \<Rightarrow> nat \<Rightarrow> 'st node \<Rightarrow> 'st node" where
  "become_follower ops term n =
     (persist ops True (n\<lparr>nd_state := (nd_state n)\<lparr>ps_term := term, ps_voted_for := None\<rparr>\<rparr>))\<lparr>nd_role := Follower\<rparr>"

definition last_log_term :: "entry list \<Rightarrow> nat" where
  "last_log_term lg = (if lg = [] then 0 else en_term (last lg))"

definition apply_one :: "nat \<Rightarrow> 'st node \<Rightarrow> 'st node" where
  \<comment> \<open>one turn of the loop of \<open>_apply\<close>, for the entry at this list position\<close>
  "apply_one i n =
     (let e = nd_log n ! i; n1 = n\<lparr>nd_applied_index := Suc i\<rparr> in
      if en_command e \<noteq> [] then
        n1\<lparr>nd_events := nd_events n @ [ApplyEv (nd_name n) (Suc i) (en_term e) (en_command e) (nd_term n)],
           nd_applied := nd_applied n @ [e]\<rparr>
      else n1)"

definition apply_committed :: "'st node \<Rightarrow> 'st node" where
  "apply_committed n = fold apply_one [nd_applied_index n..<min (nd_commit_index n) (length (nd_log n))] n"

section \<open>Requests\<close>

record vote_request =
  vr_term :: nat
  vr_candidate :: string
  vr_last_log_index :: nat
  vr_last_log_term :: nat

definition handle_request_vote :: "'st storage \<Rightarrow> vote_request \<Rightarrow> 'st node \<Rightarrow> (nat \<times> bool) \<times> 'st node" where
  \<comment> \<open>the reply is the term and whether the vote is granted\<close>
  "handle_request_vote ops m n =
     (let n1 = (if vr_term m > nd_term n then become_follower ops (vr_term m) n else n);
          refused = ((nd_term n1, False), n1) in
      if sg_reject_stale_term (nd_safeguards n1) \<and> vr_term m < nd_term n1 then refused
      else if sg_one_vote_per_term (nd_safeguards n1) \<and> nd_voted_for n1 \<notin> {None, Some (vr_candidate m)} then refused
      else if sg_check_log_up_to_date (nd_safeguards n1) \<and>
          (vr_last_log_term m < last_log_term (nd_log n1) \<or>
           vr_last_log_term m = last_log_term (nd_log n1) \<and> vr_last_log_index m < length (nd_log n1)) then refused
      else
        let n2 = persist ops (sg_sync_before_vote (nd_safeguards n1))
              (n1\<lparr>nd_state := (nd_state n1)\<lparr>ps_voted_for := Some (vr_candidate m)\<rparr>\<rparr>)
        in ((nd_term n2, True), n2\<lparr>nd_reset := True\<rparr>))"

record append_request =
  ar_term :: nat
  ar_leader :: string
  ar_prev_log_index :: nat
  ar_prev_log_term :: nat
  ar_entries :: "entry list"
  ar_leader_commit :: nat

fun merge_entries :: "nat \<Rightarrow> entry list \<Rightarrow> entry list \<Rightarrow> entry list" where
  \<comment> \<open>the loop over the received entries; \<open>index\<close> is 1-based\<close>
  "merge_entries index [] lg = lg"
| "merge_entries index (e # es) lg =
     (let lg1 = (if index \<le> length lg \<and> en_term (lg ! (index - 1)) \<noteq> en_term e then take (index - 1) lg else lg);
          lg2 = (if index > length lg1 then lg1 @ [e] else lg1)
      in merge_entries (Suc index) es lg2)"

definition handle_append_entries :: "'st storage \<Rightarrow> append_request \<Rightarrow> 'st node \<Rightarrow> (nat \<times> bool) \<times> 'st node" where
  "handle_append_entries ops m n =
     (let n1 = (if ar_term m > nd_term n then become_follower ops (ar_term m) n else n) in
      if sg_reject_stale_term (nd_safeguards n1) \<and> ar_term m < nd_term n1 then ((nd_term n1, False), n1)
      else
        let n2 = n1\<lparr>nd_role := (if nd_role n1 = Candidate then Follower else nd_role n1), nd_reset := True\<rparr>;
            lg = nd_log n2; prev = ar_prev_log_index m in
        if prev > length lg \<or> prev > 0 \<and> en_term (lg ! (prev - 1)) \<noteq> ar_prev_log_term m
        then ((nd_term n2, False), n2)
        else
          let n3 = persist ops (sg_sync_before_ack (nd_safeguards n2))
                (n2\<lparr>nd_state := (nd_state n2)\<lparr>ps_log := merge_entries (prev + 1) (ar_entries m) lg\<rparr>\<rparr>);
              n4 = (if ar_leader_commit m > nd_commit_index n3
                    then apply_committed (n3\<lparr>nd_commit_index :=
                      max (nd_commit_index n3) (min (ar_leader_commit m) (prev + length (ar_entries m)))\<rparr>)
                    else n3)
          in ((nd_term n4, True), n4))"

datatype propose_reply = ProposeRefused | ProposeOk nat nat

definition handle_propose :: "'st storage \<Rightarrow> string \<Rightarrow> 'st node \<Rightarrow> propose_reply \<times> 'st node" where
  "handle_propose ops command n =
     (if nd_role n \<noteq> Leader then (ProposeRefused, n)
      else if command = [] then (ProposeRefused, n)
      else
        let n1 = persist ops True (n\<lparr>nd_state := (nd_state n)\<lparr>ps_log := nd_log n @
              [\<lparr>en_term = nd_term n, en_command = command\<rparr>]\<rparr>\<rparr>)
        in (ProposeOk (length (nd_log n1)) (nd_term n1), n1))"

datatype raft_message = RequestVoteM vote_request | AppendEntriesM append_request | ProposeM string | UnknownM string

datatype raft_reply = VoteR nat bool | AppendR nat bool | ProposeR propose_reply | ErrorReply string

fun node_handle :: "'st storage \<Rightarrow> (string \<Rightarrow> string) \<Rightarrow> raft_message \<Rightarrow> 'st node \<Rightarrow> raft_reply \<times> 'st node" where
  "node_handle ops repr_str (RequestVoteM m) n =
     (case handle_request_vote ops m n of ((t, g), n') \<Rightarrow> (VoteR t g, n'))"
| "node_handle ops repr_str (AppendEntriesM m) n =
     (case handle_append_entries ops m n of ((t, g), n') \<Rightarrow> (AppendR t g, n'))"
| "node_handle ops repr_str (ProposeM c) n = (case handle_propose ops c n of (r, n') \<Rightarrow> (ProposeR r, n'))"
| "node_handle ops repr_str (UnknownM op) n = (ErrorReply (''unknown op '' @ repr_str op), n)"

section \<open>Following and campaigning\<close>

definition follow_timeout :: "'st node \<Rightarrow> 'st node" where
  \<comment> \<open>the \<open>except TimeoutError\<close> of \<open>_follow\<close>\<close>
  "follow_timeout n = n\<lparr>nd_role := Candidate\<rparr>"

definition start_campaign :: "'st storage \<Rightarrow> 'st node \<Rightarrow> 'st node" where
  "start_campaign ops n =
     (let n1 = persist ops True (n\<lparr>nd_state := (nd_state n)\<lparr>ps_term := Suc (nd_term n), ps_voted_for := Some (nd_name n)\<rparr>\<rparr>)
      in n1\<lparr>nd_campaign_term := Some (nd_term n1), nd_granted := 1, nd_solicitors := nd_peers n1, nd_settled := False\<rparr>)"

definition solicitation :: "nat \<Rightarrow> 'st node \<Rightarrow> vote_request" where
  \<comment> \<open>what a solicitor of the campaign for \<open>term\<close> sends\<close>
  "solicitation term n =
     \<lparr>vr_term = term, vr_candidate = nd_name n, vr_last_log_index = length (nd_log n),
      vr_last_log_term = last_log_term (nd_log n)\<rparr>"

definition solicit_reply :: "'st storage \<Rightarrow> nat \<Rightarrow> string \<Rightarrow> (nat \<times> bool) option \<Rightarrow> 'st node \<Rightarrow> 'st node" where
  \<comment> \<open>the rest of \<open>solicit(peer)\<close> once the call has returned\<close>
  "solicit_reply ops term peer reply n =
     (let n1 = n\<lparr>nd_solicitors := remove1 peer (nd_solicitors n)\<rparr> in
      case reply of
        None \<Rightarrow> n1
      | Some (t, g) \<Rightarrow>
          if t > nd_term n1 then (become_follower ops t n1)\<lparr>nd_settled := True\<rparr>
          else if nd_role n1 \<noteq> Candidate \<or> nd_term n1 \<noteq> term then n1
          else if g then
            n1\<lparr>nd_granted := Suc (nd_granted n1),
               nd_settled := (nd_settled n1 \<or> Suc (nd_granted n1) \<ge> nd_quorum n1)\<rparr>
          else n1)"

definition become_leader :: "'st storage \<Rightarrow> 'st node \<Rightarrow> 'st node" where
  "become_leader ops n =
     (let n1 = n\<lparr>nd_role := Leader, nd_next_index := map (\<lambda>p. (p, length (nd_log n) + 1)) (nd_peers n),
            nd_match_index := map (\<lambda>p. (p, 0)) (nd_peers n)\<rparr>;
          n2 = (if sg_leader_noop (nd_safeguards n1)
                then persist ops True (n1\<lparr>nd_state := (nd_state n1)\<lparr>ps_log := nd_log n1 @
                  [\<lparr>en_term = nd_term n1, en_command = []\<rparr>]\<rparr>\<rparr>)
                else n1)
      in n2\<lparr>nd_events := nd_events n2 @ [LeaderEv (nd_name n2) (nd_term n2) (nd_log n2)]\<rparr>)"

definition end_campaign :: "'st storage \<Rightarrow> bool \<Rightarrow> 'st node \<Rightarrow> 'st node" where
  \<comment> \<open>after the wait: \<open>timed_out\<close>, or settled; the solicitors still out are cancelled\<close>
  "end_campaign ops timed_out n =
     (let n1 = n\<lparr>nd_campaign_term := None, nd_solicitors := []\<rparr> in
      if timed_out then n1
      else if nd_role n = Candidate \<and> nd_campaign_term n = Some (nd_term n) then become_leader ops n1
      else n1)"

section \<open>Leading\<close>

definition start_lead :: "'st node \<Rightarrow> 'st node" where
  "start_lead n = n\<lparr>nd_lead_term := Some (nd_term n)\<rparr>"

definition end_lead :: "'st node \<Rightarrow> 'st node" where
  "end_lead n = n\<lparr>nd_lead_term := None\<rparr>"

definition push_request :: "string \<Rightarrow> nat \<Rightarrow> 'st node \<Rightarrow> exn + nat \<times> append_request" where
  \<comment> \<open>the request a pusher sends, with its \<open>prev\<close>; a log that has shrunk makes it raise\<close>
  "push_request peer term n =
     (case dict_get (nd_next_index n) peer of
        None \<Rightarrow> Inl KeyError
      | Some nx \<Rightarrow>
          let prev = nx - 1 in
          if prev > length (nd_log n) then Inl IndexError
          else Inr (prev,
            \<lparr>ar_term = term, ar_leader = nd_name n, ar_prev_log_index = prev,
             ar_prev_log_term = (if prev > 0 then en_term (nd_log n ! (prev - 1)) else 0),
             ar_entries = drop prev (nd_log n), ar_leader_commit = nd_commit_index n\<rparr>))"

fun commit_scan :: "nat \<Rightarrow> 'st node \<Rightarrow> nat list \<Rightarrow> nat option" where
  \<comment> \<open>the descending scan of \<open>_advance_commit\<close>: the index to commit, if any\<close>
  "commit_scan term n [] = None"
| "commit_scan term n (index # rest) =
     (let replicas = 1 + length (filter (\<lambda>(_, match). match \<ge> index) (nd_match_index n)) in
      if replicas < nd_quorum n then commit_scan term n rest
      else if sg_commit_own_term_only (nd_safeguards n) \<and> en_term (nd_log n ! (index - 1)) \<noteq> term then None
      else Some index)"

definition advance_commit :: "nat \<Rightarrow> 'st node \<Rightarrow> 'st node" where
  "advance_commit term n =
     (case commit_scan term n (rev [nd_commit_index n + 1..<length (nd_log n) + 1]) of
        None \<Rightarrow> n
      | Some index \<Rightarrow> apply_committed (n\<lparr>nd_commit_index := index\<rparr>))"

datatype push_next = Stops | Retries | Pauses

definition push_reply ::
    "'st storage \<Rightarrow> string \<Rightarrow> nat \<Rightarrow> nat \<Rightarrow> nat \<Rightarrow> (nat \<times> bool) option \<Rightarrow> 'st node \<Rightarrow> push_next \<times> 'st node" where
  \<comment> \<open>the rest of one turn of \<open>_push\<close>: \<open>prev\<close> and \<open>len\<close> are what the request carried\<close>
  "push_reply ops peer term prev len reply n =
     (case reply of
        Some (t, g) \<Rightarrow>
          if t > nd_term n then (Stops, become_follower ops t n)
          else if nd_role n \<noteq> Leader \<or> nd_term n \<noteq> term then (Stops, n)
          else if g then
            (Pauses, advance_commit term
              (n\<lparr>nd_match_index := dict_set peer (prev + len) (nd_match_index n),
                 nd_next_index := dict_set peer (prev + len + 1) (nd_next_index n)\<rparr>))
          else (Retries, n\<lparr>nd_next_index := dict_set peer
              (max 1 ((case dict_get (nd_next_index n) peer of Some nx \<Rightarrow> nx | None \<Rightarrow> 0) - 1)) (nd_next_index n)\<rparr>)
      | None \<Rightarrow> if nd_role n \<noteq> Leader \<or> nd_term n \<noteq> term then (Stops, n) else (Pauses, n))"

section \<open>What the shared transitions leave alone\<close>

lemma persist_sel [simp]:
  "nd_state (persist ops s n) = nd_state n" "nd_name (persist ops s n) = nd_name n"
  "nd_peers (persist ops s n) = nd_peers n" "nd_quorum (persist ops s n) = nd_quorum n"
  "nd_safeguards (persist ops s n) = nd_safeguards n" "nd_role (persist ops s n) = nd_role n"
  "nd_events (persist ops s n) = nd_events n" "nd_campaign_term (persist ops s n) = nd_campaign_term n"
  "nd_granted (persist ops s n) = nd_granted n" "nd_solicitors (persist ops s n) = nd_solicitors n"
  "nd_settled (persist ops s n) = nd_settled n" "nd_commit_index (persist ops s n) = nd_commit_index n"
  "nd_match_index (persist ops s n) = nd_match_index n" "nd_lead_term (persist ops s n) = nd_lead_term n"
  "nd_applied_index (persist ops s n) = nd_applied_index n" "nd_applied (persist ops s n) = nd_applied n"
  "nd_next_index (persist ops s n) = nd_next_index n" "nd_reset (persist ops s n) = nd_reset n"
  by (simp_all add: persist_def Let_def)

lemma become_follower_sel [simp]:
  "nd_state (become_follower ops t n) = (nd_state n)\<lparr>ps_term := t, ps_voted_for := None\<rparr>"
  "nd_name (become_follower ops t n) = nd_name n" "nd_peers (become_follower ops t n) = nd_peers n"
  "nd_quorum (become_follower ops t n) = nd_quorum n" "nd_safeguards (become_follower ops t n) = nd_safeguards n"
  "nd_role (become_follower ops t n) = Follower" "nd_events (become_follower ops t n) = nd_events n"
  "nd_campaign_term (become_follower ops t n) = nd_campaign_term n" "nd_granted (become_follower ops t n) = nd_granted n"
  "nd_solicitors (become_follower ops t n) = nd_solicitors n" "nd_settled (become_follower ops t n) = nd_settled n"
  "nd_commit_index (become_follower ops t n) = nd_commit_index n" "nd_lead_term (become_follower ops t n) = nd_lead_term n"
  by (simp_all add: become_follower_def)

lemma apply_committed_sel [simp]:
  "nd_state (apply_committed n) = nd_state n" "nd_name (apply_committed n) = nd_name n"
  "nd_peers (apply_committed n) = nd_peers n" "nd_quorum (apply_committed n) = nd_quorum n"
  "nd_safeguards (apply_committed n) = nd_safeguards n" "nd_role (apply_committed n) = nd_role n"
  "nd_campaign_term (apply_committed n) = nd_campaign_term n" "nd_granted (apply_committed n) = nd_granted n"
  "nd_solicitors (apply_committed n) = nd_solicitors n" "nd_settled (apply_committed n) = nd_settled n"
  "nd_storage (apply_committed n) = nd_storage n" "nd_commit_index (apply_committed n) = nd_commit_index n"
proof -
  have "f (fold apply_one is n) = f n" if "\<And>i n. f (apply_one i n) = f n" for f :: "'a node \<Rightarrow> 'c" and "is"
    using that by (induction "is" arbitrary: n) auto
  note keep = this
  show "nd_state (apply_committed n) = nd_state n" "nd_name (apply_committed n) = nd_name n"
    "nd_peers (apply_committed n) = nd_peers n" "nd_quorum (apply_committed n) = nd_quorum n"
    "nd_safeguards (apply_committed n) = nd_safeguards n" "nd_role (apply_committed n) = nd_role n"
    "nd_campaign_term (apply_committed n) = nd_campaign_term n" "nd_granted (apply_committed n) = nd_granted n"
    "nd_solicitors (apply_committed n) = nd_solicitors n" "nd_settled (apply_committed n) = nd_settled n"
    "nd_storage (apply_committed n) = nd_storage n" "nd_commit_index (apply_committed n) = nd_commit_index n"
    unfolding apply_committed_def by (rule keep; simp add: apply_one_def Let_def)+
qed

lemma advance_commit_state [simp]: "nd_state (advance_commit term n) = nd_state n"
  by (simp add: advance_commit_def split: option.split)

end
