(* ===== verification/RaftElection.thy ===== *)
theory RaftElection
  imports RaftNode
begin

text \<open>
  A cluster of Raft peers and its election safety. A step is one atomic piece of one node: handling
  a request, one await of a coroutine ending, a timeout, or a crash and restart from what the
  storage kept. Requests for votes, appends and proposals may hold anything and arrive at any time,
  any number of times; only the answer a solicitor gets is tied to the request it sent: it is an
  answer the peer gave to that candidate in that term. \<open>cl_votes\<close> is a history variable: every
  vote a node has put on record.
\<close>

section \<open>The cluster\<close>

record 'st cluster =
  cl_nodes :: "string \<Rightarrow> 'st node"
  cl_answers :: "(nat \<times> string \<times> string \<times> nat \<times> bool) set" \<comment> \<open>term asked for, candidate, voter, reply\<close>
  cl_votes :: "(nat \<times> string \<times> string) set" \<comment> \<open>term, voter, candidate\<close>
  cl_events :: "event list" \<comment> \<open>events of earlier incarnations\<close>

definition with_node :: "string \<Rightarrow> 'st node \<Rightarrow> 'st cluster \<Rightarrow> 'st cluster" where
  "with_node v n c = c\<lparr>cl_nodes := (cl_nodes c)(v := n)\<rparr>"

definition cluster_init :: "'st storage \<Rightarrow> string list \<Rightarrow> (string \<Rightarrow> 'st) \<Rightarrow> safeguards \<Rightarrow> 'st cluster" where
  "cluster_init ops members st sg =
     \<lparr>cl_nodes = (\<lambda>v. node_init ops v (remove1 v members) (st v) sg), cl_answers = {}, cl_votes = {}, cl_events = []\<rparr>"

inductive cluster_step :: "'st storage \<Rightarrow> (rng \<Rightarrow> 'st \<Rightarrow> 'st) \<Rightarrow> string list \<Rightarrow> 'st cluster \<Rightarrow> 'st cluster \<Rightarrow> bool"
  for ops crash members where
  request_vote: "\<lbrakk>v \<in> set members; n = cl_nodes c v; handle_request_vote ops m n = ((t, g), n')\<rbrakk> \<Longrightarrow>
    cluster_step ops crash members c ((with_node v n' c)
      \<lparr>cl_answers := insert (vr_term m, vr_candidate m, v, t, g) (cl_answers c),
       cl_votes := (if g then insert (vr_term m, v, vr_candidate m) (cl_votes c) else cl_votes c)\<rparr>)"
| append_entries: "\<lbrakk>v \<in> set members; handle_append_entries ops m (cl_nodes c v) = (r, n')\<rbrakk> \<Longrightarrow>
    cluster_step ops crash members c (with_node v n' c)"
| propose: "\<lbrakk>v \<in> set members; handle_propose ops cmd (cl_nodes c v) = (r, n')\<rbrakk> \<Longrightarrow>
    cluster_step ops crash members c (with_node v n' c)"
| follow_timeout: "\<lbrakk>v \<in> set members; nd_role (cl_nodes c v) = Follower; nd_campaign_term (cl_nodes c v) = None;
      nd_lead_term (cl_nodes c v) = None\<rbrakk> \<Longrightarrow>
    cluster_step ops crash members c (with_node v (RaftNode.follow_timeout (cl_nodes c v)) c)"
| campaign: "\<lbrakk>v \<in> set members; nd_role (cl_nodes c v) = Candidate; nd_campaign_term (cl_nodes c v) = None;
      nd_lead_term (cl_nodes c v) = None; n' = start_campaign ops (cl_nodes c v)\<rbrakk> \<Longrightarrow>
    cluster_step ops crash members c ((with_node v n' c)\<lparr>cl_votes := insert (nd_term n', v, v) (cl_votes c)\<rparr>)"
| solicited: "\<lbrakk>v \<in> set members; nd_campaign_term (cl_nodes c v) = Some term; peer \<in> set (nd_solicitors (cl_nodes c v));
      reply = None \<or> (\<exists>t g. reply = Some (t, g) \<and> (term, v, peer, t, g) \<in> cl_answers c)\<rbrakk> \<Longrightarrow>
    cluster_step ops crash members c (with_node v (solicit_reply ops term peer reply (cl_nodes c v)) c)"
| campaign_over: "\<lbrakk>v \<in> set members; nd_campaign_term (cl_nodes c v) = Some term; timed_out \<or> nd_settled (cl_nodes c v)\<rbrakk> \<Longrightarrow>
    cluster_step ops crash members c (with_node v (end_campaign ops timed_out (cl_nodes c v)) c)"
| lead: "\<lbrakk>v \<in> set members; nd_role (cl_nodes c v) = Leader; nd_campaign_term (cl_nodes c v) = None;
      nd_lead_term (cl_nodes c v) = None\<rbrakk> \<Longrightarrow>
    cluster_step ops crash members c (with_node v (start_lead (cl_nodes c v)) c)"
| lead_over: "\<lbrakk>v \<in> set members; nd_lead_term (cl_nodes c v) = Some term;
      nd_role (cl_nodes c v) \<noteq> Leader \<or> nd_term (cl_nodes c v) \<noteq> term\<rbrakk> \<Longrightarrow>
    cluster_step ops crash members c (with_node v (end_lead (cl_nodes c v)) c)"
| pushed: "\<lbrakk>v \<in> set members; nd_lead_term (cl_nodes c v) = Some term;
      push_reply ops peer term prev len reply (cl_nodes c v) = (what, n')\<rbrakk> \<Longrightarrow>
    cluster_step ops crash members c (with_node v n' c)"
| restart: "v \<in> set members \<Longrightarrow>
    cluster_step ops crash members c
      ((with_node v (node_init ops v (nd_peers (cl_nodes c v)) (crash r (nd_storage (cl_nodes c v))) (nd_safeguards (cl_nodes c v))) c)
        \<lparr>cl_events := cl_events c @ nd_events (cl_nodes c v)\<rparr>)"

definition leader_events :: "string list \<Rightarrow> 'st cluster \<Rightarrow> (string \<times> nat) set" where
  "leader_events members c = {(name, term). \<exists>lg. LeaderEv name term lg \<in> set (cl_events c) \<or>
     (\<exists>v\<in>set members. LeaderEv name term lg \<in> set (nd_events (cl_nodes c v)))}"

section \<open>What one node keeps\<close>

text \<open>
  What the election argument needs of a node: its record is on the storage, it follows its own
  rules, and its campaign counts only answers it got.
\<close>

definition node_ok :: "'st storage \<Rightarrow> ('st \<Rightarrow> bool) \<Rightarrow> ('st \<Rightarrow> bool) \<Rightarrow> string list \<Rightarrow> string \<Rightarrow> 'st node \<Rightarrow> bool" where
  "node_ok ops sound clean members v n \<longleftrightarrow> nd_name n = v \<and> nd_peers n = remove1 v members \<and>
     nd_quorum n = length members div 2 + 1 \<and> nd_safeguards n = all_safeguards \<and>
     sound (nd_storage n) \<and> clean (nd_storage n) \<and> so_load ops (nd_storage n) = nd_state n"

text \<open>Votes on record: they bind the voter until it moves to a later term.\<close>

definition vote_kept :: "'st node \<Rightarrow> nat \<Rightarrow> string \<Rightarrow> bool" where
  "vote_kept n t cand \<longleftrightarrow> t < nd_term n \<or> t = nd_term n \<and> nd_voted_for n = Some cand"

definition monotone :: "'st node \<Rightarrow> 'st node \<Rightarrow> bool" where
  \<comment> \<open>a node never goes back in term, and never changes its vote within one\<close>
  "monotone n n' \<longleftrightarrow> nd_term n < nd_term n' \<or>
     nd_term n = nd_term n' \<and> (nd_voted_for n = None \<or> nd_voted_for n' = nd_voted_for n)"

lemma vote_kept_monotone: "vote_kept n t cand \<Longrightarrow> monotone n n' \<Longrightarrow> vote_kept n' t cand"
  by (auto simp: vote_kept_def monotone_def)

lemma monotone_refl [simp]: "monotone n n"
  by (simp add: monotone_def)

context raft_storage begin

lemma persist_ok:
  assumes "inv (nd_storage n)" and "sg_persist_before_reply (nd_safeguards n)"
  shows "inv (nd_storage (persist ops True n))" "clean (nd_storage (persist ops True n))"
    "so_load ops (nd_storage (persist ops True n)) = nd_state n"
  using assms by (simp_all add: persist_def Let_def inv_save inv_sync clean_sync load_sync load_save)

end

section \<open>The invariant\<close>

definition ballots :: "(nat \<times> string \<times> string) set \<Rightarrow> string list \<Rightarrow> nat \<Rightarrow> string \<Rightarrow> string set" where
  "ballots V members t cand = {u \<in> set members. (t, u, cand) \<in> V}"

definition campaign_ok :: "(nat \<times> string \<times> string) set \<Rightarrow> string list \<Rightarrow> string \<Rightarrow> 'st node \<Rightarrow> bool" where
  "campaign_ok V members v n \<longleftrightarrow> distinct (nd_solicitors n) \<and> v \<notin> set (nd_solicitors n) \<and>
     set (nd_solicitors n) \<subseteq> set members \<and>
     (\<forall>t. nd_campaign_term n = Some t \<longrightarrow> t \<le> nd_term n \<and>
       (nd_role n = Candidate \<longrightarrow> nd_term n = t \<longrightarrow>
         nd_granted n \<le> card (ballots V members t v - set (nd_solicitors n)) \<and>
         (nd_settled n \<longrightarrow> nd_quorum n \<le> nd_granted n)))"

definition elected :: "(nat \<times> string \<times> string) set \<Rightarrow> string list \<Rightarrow> string \<Rightarrow> nat \<Rightarrow> bool" where
  "elected V members name t \<longleftrightarrow> length members div 2 + 1 \<le> card (ballots V members t name)"

lemma finite_ballots [simp]: "finite (ballots V members t cand)"
  by (simp add: ballots_def)

lemma ballots_mono: "V \<subseteq> V' \<Longrightarrow> ballots V members t cand \<subseteq> ballots V' members t cand"
  by (auto simp: ballots_def)

lemma elected_mono: "elected V members name t \<Longrightarrow> V \<subseteq> V' \<Longrightarrow> elected V' members name t"
  unfolding elected_def by (meson ballots_mono card_mono finite_ballots order_trans)

lemma campaign_ok_mono:
  assumes "campaign_ok V members v n" and "V \<subseteq> V'" shows "campaign_ok V' members v n"
proof -
  have "card (ballots V members t v - S) \<le> card (ballots V' members t v - S)" for t S
    using ballots_mono [OF assms(2)] by (intro card_mono) auto
  then have "nd_granted n \<le> card (ballots V' members t v - S)" if "nd_granted n \<le> card (ballots V members t v - S)" for t S
    using that order_trans by blast
  with assms(1) show ?thesis unfolding campaign_ok_def by simp
qed

text \<open>Changes of a node that leave a campaign as it is, or end it.\<close>

lemma campaign_ok_frame:
  assumes "campaign_ok V members v n" and "nd_solicitors n' = nd_solicitors n" and "nd_campaign_term n' = nd_campaign_term n"
    and "nd_granted n' = nd_granted n" and "nd_settled n' = nd_settled n" and "nd_quorum n' = nd_quorum n"
    and "nd_term n \<le> nd_term n'" and "nd_role n' = Candidate \<Longrightarrow> nd_role n = Candidate"
  shows "campaign_ok V members v n'"
  using assms unfolding campaign_ok_def by (metis le_antisym order_trans)

definition cluster_inv :: "'st storage \<Rightarrow> ('st \<Rightarrow> bool) \<Rightarrow> ('st \<Rightarrow> bool) \<Rightarrow> string list \<Rightarrow> 'st cluster \<Rightarrow> bool" where
  "cluster_inv ops sound clean members c \<longleftrightarrow>
     (\<forall>v\<in>set members. node_ok ops sound clean members v (cl_nodes c v) \<and>
        campaign_ok (cl_votes c) members v (cl_nodes c v)) \<and>
     (\<forall>t v cand. (t, v, cand) \<in> cl_votes c \<longrightarrow> vote_kept (cl_nodes c v) t cand) \<and>
     (\<forall>t v cand cand'. (t, v, cand) \<in> cl_votes c \<longrightarrow> (t, v, cand') \<in> cl_votes c \<longrightarrow> cand = cand') \<and>
     (\<forall>t cand v rt. (t, cand, v, rt, True) \<in> cl_answers c \<longrightarrow> (t, v, cand) \<in> cl_votes c) \<and>
     (\<forall>name t. (name, t) \<in> leader_events members c \<longrightarrow> elected (cl_votes c) members name t)"

lemma leader_events_step:
  assumes "cl_nodes c' = (cl_nodes c)(v := n')"
    and "set (cl_events c') \<union> set (nd_events n') \<subseteq> set (cl_events c) \<union> set (nd_events (cl_nodes c v)) \<union> E" and "v \<in> set members"
  shows "(name, t) \<in> leader_events members c' \<Longrightarrow>
    (name, t) \<in> leader_events members c \<or> (\<exists>lg. LeaderEv name t lg \<in> E)"
  using assms unfolding leader_events_def by (auto split: if_splits) blast+

lemma cluster_inv_step:
  assumes inv: "cluster_inv ops sound clean members c" and v: "v \<in> set members"
    and nodes: "cl_nodes c' = (cl_nodes c)(v := n')"
    and ok: "node_ok ops sound clean members v n'" and mono: "monotone (cl_nodes c v) n'"
    and votes: "cl_votes c \<subseteq> cl_votes c'"
      "\<And>t u cand. (t, u, cand) \<in> cl_votes c' - cl_votes c \<Longrightarrow> u = v \<and> t = nd_term n' \<and> nd_voted_for n' = Some cand"
    and answers: "\<And>t cand u rt. (t, cand, u, rt, True) \<in> cl_answers c' - cl_answers c \<Longrightarrow> (t, u, cand) \<in> cl_votes c'"
    and camp: "campaign_ok (cl_votes c') members v n'"
    and events: "set (cl_events c') \<union> set (nd_events n') \<subseteq> set (cl_events c) \<union> set (nd_events (cl_nodes c v)) \<union> E"
      "\<And>name t lg. LeaderEv name t lg \<in> E \<Longrightarrow> elected (cl_votes c') members name t"
  shows "cluster_inv ops sound clean members c'"
proof -
  have kept: "vote_kept (cl_nodes c' u) t cand" if "(t, u, cand) \<in> cl_votes c'" for t u cand
  proof (cases "(t, u, cand) \<in> cl_votes c")
    case True
    with inv have "vote_kept (cl_nodes c u) t cand" by (simp add: cluster_inv_def)
    with mono nodes show ?thesis by (auto intro: vote_kept_monotone)
  next
    case False
    with that votes(2) [of t u cand] nodes show ?thesis by (auto simp: vote_kept_def)
  qed
  moreover have "cand = cand'" if "(t, u, cand) \<in> cl_votes c'" "(t, u, cand') \<in> cl_votes c'" for t u cand cand'
  proof (cases "(t, u, cand) \<in> cl_votes c \<and> (t, u, cand') \<in> cl_votes c")
    case True
    with inv show ?thesis unfolding cluster_inv_def by blast
  next
    case False
    then have "u = v \<and> t = nd_term n'" using that votes(2) by blast
    with kept [OF that(1)] kept [OF that(2)] nodes show ?thesis by (auto simp: vote_kept_def)
  qed
  moreover have "(t, u, cand) \<in> cl_votes c'" if "(t, cand, u, rt, True) \<in> cl_answers c'" for t cand u rt
  proof (cases "(t, cand, u, rt, True) \<in> cl_answers c")
    case True
    with inv votes(1) show ?thesis unfolding cluster_inv_def by blast
  next
    case False
    with that answers show ?thesis by blast
  qed
  moreover have "elected (cl_votes c') members name t" if "(name, t) \<in> leader_events members c'" for name t
    using leader_events_step [OF nodes events(1) v that]
  proof
    assume "(name, t) \<in> leader_events members c"
    with inv have "elected (cl_votes c) members name t" by (simp add: cluster_inv_def)
    then show ?thesis using votes(1) by (rule elected_mono)
  qed (use events(2) in blast)
  moreover have "node_ok ops sound clean members u (cl_nodes c' u) \<and> campaign_ok (cl_votes c') members u (cl_nodes c' u)"
    if "u \<in> set members" for u
    using that inv nodes ok camp votes(1) by (auto simp: cluster_inv_def intro: campaign_ok_mono)
  ultimately show ?thesis unfolding cluster_inv_def by blast
qed

section \<open>What each operation does to a node\<close>

definition quiet :: "'st node \<Rightarrow> 'st node \<Rightarrow> bool" where
  \<comment> \<open>an operation that leaves a running campaign and the recorded leaderships alone\<close>
  "quiet n n' \<longleftrightarrow> nd_solicitors n' = nd_solicitors n \<and> nd_campaign_term n' = nd_campaign_term n \<and>
     nd_granted n' = nd_granted n \<and> nd_settled n' = nd_settled n \<and> nd_quorum n' = nd_quorum n \<and>
     (nd_role n' = Candidate \<longrightarrow> nd_role n = Candidate) \<and>
     (\<forall>name t lg. LeaderEv name t lg \<in> set (nd_events n') \<longrightarrow> LeaderEv name t lg \<in> set (nd_events n))"

lemma apply_committed_events:
  "LeaderEv name t lg \<in> set (nd_events (apply_committed n)) \<longleftrightarrow> LeaderEv name t lg \<in> set (nd_events n)"
proof -
  have "LeaderEv name t lg \<in> set (nd_events (fold apply_one is n)) \<longleftrightarrow> LeaderEv name t lg \<in> set (nd_events n)" for "is"
    by (induction "is" arbitrary: n) (auto simp: apply_one_def Let_def)
  then show ?thesis by (simp add: apply_committed_def)
qed

lemma quiet_apply [simp]: "quiet n (apply_committed n') = quiet n n'"
  by (simp add: quiet_def apply_committed_events)

lemma node_ok_apply [simp]: "node_ok ops P Q members v (apply_committed n) = node_ok ops P Q members v n"
  by (simp add: node_ok_def)

lemma advance_commit_sel [simp]:
  "nd_state (advance_commit term n) = nd_state n" "quiet k (advance_commit term n) = quiet k n"
  "node_ok ops P Q members v (advance_commit term n) = node_ok ops P Q members v n"
  by (simp_all add: advance_commit_def node_ok_def quiet_def apply_committed_events split: option.split)

lemma quiet_simps [simp]:
  "quiet n n" "quiet n (n\<lparr>nd_match_index := a, nd_next_index := b\<rparr>)" "quiet n (n\<lparr>nd_next_index := b\<rparr>)"
  "quiet n (become_follower ops t n)"
  by (simp_all add: quiet_def)

lemma monotone_apply [simp]: "monotone n (apply_committed n') = monotone n n'"
  by (simp add: monotone_def)

context raft_storage begin

lemma persist_node_ok:
  assumes "inv (nd_storage n)" and "nd_name n = v" and "nd_peers n = remove1 v members"
    and "nd_quorum n = length members div 2 + 1" and "nd_safeguards n = all_safeguards"
  shows "node_ok ops inv clean members v (persist ops True n)"
  using assms persist_ok [of n] by (simp add: node_ok_def all_safeguards_def)

lemma become_follower_node_ok:
  assumes "node_ok ops inv clean members v n"
  shows "node_ok ops inv clean members v (become_follower ops t n)"
proof -
  have "node_ok ops inv clean members v (persist ops True (n\<lparr>nd_state := (nd_state n)\<lparr>ps_term := t, ps_voted_for := None\<rparr>\<rparr>))"
    using assms by (intro persist_node_ok) (simp_all add: node_ok_def)
  then show ?thesis by (simp add: become_follower_def node_ok_def)
qed

lemma catch_up:
  assumes "node_ok ops inv clean members v n" and "n' = (if t > nd_term n then become_follower ops t n else n)"
  shows "node_ok ops inv clean members v n'" "monotone n n'" "quiet n n'" "t \<le> nd_term n'" "nd_term n \<le> nd_term n'"
  using assms become_follower_node_ok by (auto simp: monotone_def quiet_def)

lemma request_vote_ok:
  assumes ok: "node_ok ops inv clean members v n" and h: "handle_request_vote ops m n = ((t, g), n')"
  shows "node_ok ops inv clean members v n'" "monotone n n'" "quiet n n'" "nd_term n \<le> nd_term n'"
    "g \<Longrightarrow> nd_term n' = vr_term m \<and> nd_voted_for n' = Some (vr_candidate m)"
proof -
  define n1 where "n1 = (if vr_term m > nd_term n then become_follower ops (vr_term m) n else n)"
  note up = catch_up [OF ok n1_def]
  have sg: "nd_safeguards n1 = all_safeguards" using up(1) by (simp add: node_ok_def)
  let ?n2 = "persist ops True (n1\<lparr>nd_state := (nd_state n1)\<lparr>ps_voted_for := Some (vr_candidate m)\<rparr>\<rparr>)"
  have n2: "node_ok ops inv clean members v ?n2"
    using up(1) by (intro persist_node_ok) (simp_all add: node_ok_def)
  consider (refused) "n' = n1" "\<not> g"
    | (granted) "n' = ?n2\<lparr>nd_reset := True\<rparr>" "g" "\<not> vr_term m < nd_term n1" "nd_voted_for n1 \<in> {None, Some (vr_candidate m)}"
    using h sg unfolding handle_request_vote_def n1_def [symmetric] Let_def
    by (auto simp: all_safeguards_def split: if_splits)
  then have "node_ok ops inv clean members v n' \<and> monotone n n' \<and> quiet n n' \<and> nd_term n \<le> nd_term n' \<and>
    (g \<longrightarrow> nd_term n' = vr_term m \<and> nd_voted_for n' = Some (vr_candidate m))"
  proof cases
    case refused
    with up show ?thesis by simp
  next
    case granted
    with up n2 show ?thesis by (auto simp: node_ok_def monotone_def quiet_def)
  qed
  then show "node_ok ops inv clean members v n'" "monotone n n'" "quiet n n'" "nd_term n \<le> nd_term n'"
    "g \<Longrightarrow> nd_term n' = vr_term m \<and> nd_voted_for n' = Some (vr_candidate m)" by blast+
qed

lemma append_entries_ok:
  assumes ok: "node_ok ops inv clean members v n" and h: "handle_append_entries ops m n = (r, n')"
  shows "node_ok ops inv clean members v n'" "monotone n n'" "quiet n n'" "nd_term n \<le> nd_term n'"
proof -
  define n1 where "n1 = (if ar_term m > nd_term n then become_follower ops (ar_term m) n else n)"
  note up = catch_up [OF ok n1_def]
  have sg: "nd_safeguards n1 = all_safeguards" using up(1) by (simp add: node_ok_def)
  define n2 where "n2 = n1\<lparr>nd_role := (if nd_role n1 = Candidate then Follower else nd_role n1), nd_reset := True\<rparr>"
  define n3 where "n3 = persist ops True (n2\<lparr>nd_state := (nd_state n2)\<lparr>ps_log :=
    merge_entries (ar_prev_log_index m + 1) (ar_entries m) (nd_log n2)\<rparr>\<rparr>)"
  have n2: "node_ok ops inv clean members v n2" "monotone n n2" "quiet n n2" "nd_term n \<le> nd_term n2"
    using up by (auto simp: n2_def node_ok_def monotone_def quiet_def)
  have n3: "node_ok ops inv clean members v n3" "monotone n n3" "quiet n n3" "nd_term n \<le> nd_term n3"
  proof -
    show "node_ok ops inv clean members v n3"
      unfolding n3_def using n2(1) by (intro persist_node_ok) (simp_all add: node_ok_def)
  qed (use n2 in \<open>auto simp: n3_def monotone_def quiet_def\<close>)
  have sg2: "sg_sync_before_ack (nd_safeguards n2)" using sg by (simp add: n2_def all_safeguards_def)
  have "n' = n1 \<or> n' = n2 \<or> n' = n3 \<or> (\<exists>k. n' = apply_committed (n3\<lparr>nd_commit_index := k\<rparr>))"
    using h sg2 unfolding handle_append_entries_def n1_def [symmetric] Let_def n2_def [symmetric]
    by (auto simp: n3_def split: if_splits)
  moreover have "node_ok ops inv clean members v (n3\<lparr>nd_commit_index := k\<rparr>)" "monotone n (n3\<lparr>nd_commit_index := k\<rparr>)"
    "quiet n (n3\<lparr>nd_commit_index := k\<rparr>)" for k
    using n3 by (simp_all add: node_ok_def monotone_def quiet_def)
  ultimately show "node_ok ops inv clean members v n'" "monotone n n'" "quiet n n'" "nd_term n \<le> nd_term n'"
    using up n2 n3 by auto
qed

end

context raft_storage begin

lemma propose_ok:
  assumes ok: "node_ok ops inv clean members v n" and h: "handle_propose ops cmd n = (r, n')"
  shows "node_ok ops inv clean members v n'" "monotone n n'" "quiet n n'" "nd_term n \<le> nd_term n'"
proof -
  let ?n1 = "persist ops True (n\<lparr>nd_state := (nd_state n)\<lparr>ps_log := nd_log n @ [\<lparr>en_term = nd_term n, en_command = cmd\<rparr>]\<rparr>\<rparr>)"
  have "n' = n \<or> n' = ?n1" using h by (auto simp: handle_propose_def Let_def split: if_splits)
  moreover have "node_ok ops inv clean members v ?n1"
    using ok by (intro persist_node_ok) (simp_all add: node_ok_def)
  ultimately show "node_ok ops inv clean members v n'" "monotone n n'" "quiet n n'" "nd_term n \<le> nd_term n'"
    using ok by (auto simp: monotone_def quiet_def)
qed

lemma push_reply_ok:
  assumes ok: "node_ok ops inv clean members v n" and h: "push_reply ops peer term prev len reply n = (what, n')"
  shows "node_ok ops inv clean members v n'" "monotone n n'" "quiet n n'" "nd_term n \<le> nd_term n'"
proof -
  have upd: "node_ok ops inv clean members v (n\<lparr>nd_match_index := a, nd_next_index := b\<rparr>)"
    "node_ok ops inv clean members v (n\<lparr>nd_next_index := b\<rparr>)" for a b
    using ok by (simp_all add: node_ok_def)
  show "node_ok ops inv clean members v n'" "monotone n n'" "quiet n n'" "nd_term n \<le> nd_term n'"
    using h ok become_follower_node_ok [OF ok] unfolding push_reply_def
    by (auto split: option.splits prod.splits if_splits simp: upd monotone_def)
qed

lemma start_campaign_ok:
  assumes ok: "node_ok ops inv clean members v n" and "distinct members" and "v \<in> set members"
    and n': "n' = start_campaign ops n"
  shows "node_ok ops inv clean members v n'" "monotone n n'" "nd_voted_for n' = Some v" "nd_events n' = nd_events n"
    "(nd_term n', v, v) \<in> V \<Longrightarrow> campaign_ok V members v n'"
proof -
  define n1 where "n1 = persist ops True (n\<lparr>nd_state := (nd_state n)\<lparr>ps_term := Suc (nd_term n), ps_voted_for := Some (nd_name n)\<rparr>\<rparr>)"
  have "node_ok ops inv clean members v n1" unfolding n1_def using ok by (intro persist_node_ok) (simp_all add: node_ok_def)
  then show "node_ok ops inv clean members v n'" by (simp add: n' start_campaign_def n1_def [symmetric] Let_def node_ok_def)
  show "monotone n n'" "nd_events n' = nd_events n" by (simp_all add: n' start_campaign_def Let_def monotone_def)
  show "nd_voted_for n' = Some v" using ok by (simp add: n' start_campaign_def Let_def node_ok_def)
  assume "(nd_term n', v, v) \<in> V"
  then have "{v} \<subseteq> ballots V members (nd_term n') v - set (remove1 v members)"
    using assms(2,3) by (auto simp: ballots_def)
  then have "card {v} \<le> card (ballots V members (nd_term n') v - set (remove1 v members))"
    by (intro card_mono) auto
  then show "campaign_ok V members v n'"
    using ok assms(2) by (auto simp: campaign_ok_def n' start_campaign_def Let_def node_ok_def dest: in_set_remove1)
qed

lemma solicit_reply_ok:
  assumes ok: "node_ok ops inv clean members v n" and camp: "campaign_ok V members v n"
    and ct: "nd_campaign_term n = Some term" and peer: "peer \<in> set (nd_solicitors n)"
    and answer: "\<And>t. reply = Some (t, True) \<Longrightarrow> (term, peer, v) \<in> V"
    and n': "n' = solicit_reply ops term peer reply n"
  shows "node_ok ops inv clean members v n'" "monotone n n'" "campaign_ok V members v n'" "nd_events n' = nd_events n"
proof -
  define n1 where "n1 = n\<lparr>nd_solicitors := remove1 peer (nd_solicitors n)\<rparr>"
  let ?B = "ballots V members term v"
  have d: "distinct (nd_solicitors n)" "peer \<in> set members" "term \<le> nd_term n"
    using camp peer ct by (auto simp: campaign_ok_def)
  have less: "card (?B - set (nd_solicitors n)) \<le> card (?B - set (remove1 peer (nd_solicitors n)))"
    using d(1) by (intro card_mono) auto
  have one_more: "Suc (card (?B - set (nd_solicitors n))) \<le> card (?B - set (remove1 peer (nd_solicitors n)))"
    if "(term, peer, v) \<in> V"
  proof -
    have "insert peer (?B - set (nd_solicitors n)) \<subseteq> ?B - set (remove1 peer (nd_solicitors n))"
      using that d by (auto simp: ballots_def)
    then have "card (insert peer (?B - set (nd_solicitors n))) \<le> card (?B - set (remove1 peer (nd_solicitors n)))"
      by (intro card_mono) auto
    then show ?thesis using peer by simp
  qed
  have n1: "node_ok ops inv clean members v n1" using ok by (simp add: n1_def node_ok_def)
  have n1c: "campaign_ok V members v n1"
    using camp less d(1) ct by (auto simp: n1_def campaign_ok_def distinct_remove1 dest: notin_set_remove1)
  have granted: "nd_granted n1 < card (?B - set (nd_solicitors n1))"
    if "nd_role n1 = Candidate" "nd_term n1 = term" "reply = Some (t, True)" for t
  proof -
    have "nd_granted n \<le> card (?B - set (nd_solicitors n))" using camp ct that(1,2) by (simp add: campaign_ok_def n1_def)
    then show ?thesis using one_more [OF answer [OF that(3)]] by (simp add: n1_def)
  qed
  have follow: "campaign_ok V members v ((become_follower ops t n1)\<lparr>nd_settled := True\<rparr>)" if "nd_term n1 < t" for t
    using n1c that by (auto simp: campaign_ok_def)
  have n1m: "monotone n n1" "nd_events n1 = nd_events n" "nd_term n1 = nd_term n" "nd_campaign_term n1 = Some term"
    using ct by (simp_all add: n1_def monotone_def)
  have n'_def: "n' = (case reply of None \<Rightarrow> n1
      | Some (t, g) \<Rightarrow>
          if t > nd_term n1 then (become_follower ops t n1)\<lparr>nd_settled := True\<rparr>
          else if nd_role n1 \<noteq> Candidate \<or> nd_term n1 \<noteq> term then n1
          else if g then
            n1\<lparr>nd_granted := Suc (nd_granted n1),
               nd_settled := (nd_settled n1 \<or> Suc (nd_granted n1) \<ge> nd_quorum n1)\<rparr>
          else n1)"
    unfolding n' solicit_reply_def n1_def [symmetric] Let_def by (rule refl)
  show "node_ok ops inv clean members v n'"
    using n1 become_follower_node_ok [OF n1] unfolding n'_def by (auto simp: node_ok_def split: option.split prod.split)
  show "monotone n n'" "nd_events n' = nd_events n"
    using n1m unfolding n'_def by (auto simp: monotone_def split: option.split prod.split)
  show "campaign_ok V members v n'"
    using n1c follow granted n1m(4) unfolding n'_def
    by (auto simp: campaign_ok_def split: option.split prod.split)
qed

lemma end_campaign_ok:
  assumes ok: "node_ok ops inv clean members v n" and camp: "campaign_ok V members v n"
    and "timed_out \<or> nd_settled n" and n': "n' = end_campaign ops timed_out n"
  shows "node_ok ops inv clean members v n'" "monotone n n'" "campaign_ok V members v n'"
    "\<And>name t lg. LeaderEv name t lg \<in> set (nd_events n') - set (nd_events n) \<Longrightarrow> elected V members name t"
proof -
  define n1 where "n1 = n\<lparr>nd_campaign_term := None, nd_solicitors := []\<rparr>"
  have n1: "node_ok ops inv clean members v n1" using ok by (simp add: n1_def node_ok_def)
  consider (over) "n' = n1" | (wins) "n' = become_leader ops n1" "nd_role n = Candidate"
      "nd_campaign_term n = Some (nd_term n)" "nd_settled n"
    using n' assms(3) unfolding end_campaign_def n1_def [symmetric] Let_def by (auto split: if_splits)
  then have "node_ok ops inv clean members v n' \<and> monotone n n' \<and> campaign_ok V members v n' \<and>
    (\<forall>name t lg. LeaderEv name t lg \<in> set (nd_events n') - set (nd_events n) \<longrightarrow> elected V members name t)"
  proof cases
    case over
    with n1 show ?thesis by (simp add: n1_def monotone_def campaign_ok_def)
  next
    case wins
    let ?B = "ballots V members (nd_term n) v"
    have "nd_quorum n \<le> card (?B - set (nd_solicitors n))" using camp wins by (simp add: campaign_ok_def)
    also have "\<dots> \<le> card ?B" by (intro card_mono) auto
    finally have el: "elected V members v (nd_term n)" using ok by (simp add: elected_def node_ok_def)
    let ?n2 = "n1\<lparr>nd_role := Leader, nd_next_index := map (\<lambda>p. (p, length (nd_log n1) + 1)) (nd_peers n1),
      nd_match_index := map (\<lambda>p. (p, 0)) (nd_peers n1)\<rparr>"
    define n3 where "n3 = persist ops True (?n2\<lparr>nd_state := (nd_state ?n2)\<lparr>ps_log := nd_log ?n2 @ [\<lparr>en_term = nd_term ?n2, en_command = []\<rparr>]\<rparr>\<rparr>)"
    have n3: "node_ok ops inv clean members v n3" unfolding n3_def using n1 by (intro persist_node_ok) (simp_all add: node_ok_def)
    have "n' = n3\<lparr>nd_events := nd_events n3 @ [LeaderEv (nd_name n3) (nd_term n3) (nd_log n3)]\<rparr>"
      using wins(1) n1 by (simp add: n3_def become_leader_def Let_def node_ok_def all_safeguards_def)
    moreover have "nd_events n3 = nd_events n" "nd_term n3 = nd_term n" "nd_voted_for n3 = nd_voted_for n"
      "nd_campaign_term n3 = None" "nd_solicitors n3 = []" by (simp_all add: n3_def n1_def)
    ultimately show ?thesis using n3 el by (auto simp: monotone_def campaign_ok_def node_ok_def)
  qed
  then show "node_ok ops inv clean members v n'" "monotone n n'" "campaign_ok V members v n'"
    "\<And>name t lg. LeaderEv name t lg \<in> set (nd_events n') - set (nd_events n) \<Longrightarrow> elected V members name t" by blast+
qed

end

section \<open>Every step keeps the invariant\<close>

context raft_storage begin

lemma cluster_inv_quiet:
  assumes inv: "cluster_inv ops inv clean members c" and v: "v \<in> set members"
    and ok: "node_ok ops inv clean members v n'" and mono: "monotone (cl_nodes c v) n'"
    and q: "quiet (cl_nodes c v) n'" and up: "nd_term (cl_nodes c v) \<le> nd_term n'"
    and c': "cl_nodes c' = (cl_nodes c)(v := n')" "cl_events c' = cl_events c" "cl_votes c \<subseteq> cl_votes c'"
    and votes: "\<And>t u cand. (t, u, cand) \<in> cl_votes c' - cl_votes c \<Longrightarrow> u = v \<and> t = nd_term n' \<and> nd_voted_for n' = Some cand"
    and answers: "\<And>t cand u rt. (t, cand, u, rt, True) \<in> cl_answers c' - cl_answers c \<Longrightarrow> (t, u, cand) \<in> cl_votes c'"
  shows "cluster_inv ops inv clean members c'"
proof (rule cluster_inv_step [where E = "set (nd_events n') - set (nd_events (cl_nodes c v))", OF inv v c'(1) ok mono c'(3) votes answers])
  have "campaign_ok (cl_votes c) members v (cl_nodes c v)" using inv v by (simp add: cluster_inv_def)
  then have "campaign_ok (cl_votes c) members v n'"
    by (rule campaign_ok_frame) (use q up in \<open>simp_all add: quiet_def\<close>)
  then show "campaign_ok (cl_votes c') members v n'" using c'(3) by (rule campaign_ok_mono)
qed (use q c'(2) in \<open>auto simp: quiet_def\<close>)

lemma cluster_inv_set:
  assumes "cluster_inv ops inv clean members c" and "v \<in> set members"
    and "node_ok ops inv clean members v n'" and "monotone (cl_nodes c v) n'"
    and "quiet (cl_nodes c v) n'" and "nd_term (cl_nodes c v) \<le> nd_term n'"
  shows "cluster_inv ops inv clean members (with_node v n' c)"
  using assms by (rule cluster_inv_quiet) (simp_all add: with_node_def)

lemma cluster_inv_node:
  assumes "cluster_inv ops inv clean members c" and "v \<in> set members"
  shows "node_ok ops inv clean members v (cl_nodes c v)" "campaign_ok (cl_votes c) members v (cl_nodes c v)"
  using assms by (simp_all add: cluster_inv_def)

lemma restart_ok:
  assumes "node_ok ops inv clean members v n" and "v \<in> set members"
    and n': "n' = node_init ops v (nd_peers n) (crash r (nd_storage n)) (nd_safeguards n)"
  shows "node_ok ops inv clean members v n'" "monotone n n'" "campaign_ok V members v n'" "nd_events n' = []"
proof -
  have "length members = Suc (length (remove1 v members))" using assms(2) by (simp add: length_remove1)
      (metis Suc_pred length_pos_if_in_set)
  then show "node_ok ops inv clean members v n'"
    using assms by (simp add: node_init_def node_ok_def inv_crash clean_crash)
  show "monotone n n'" using assms crash_clean [of "nd_storage n" r] by (simp add: node_init_def node_ok_def monotone_def)
qed (simp_all add: assms node_init_def campaign_ok_def)

lemma cluster_inv_steps:
  assumes step: "cluster_step ops crash members c c'" and inv: "cluster_inv ops inv clean members c" and d: "distinct members"
  shows "cluster_inv ops inv clean members c'"
  using step
proof cases
  case (request_vote v n m t g n')
  note r = request_vote_ok [OF cluster_inv_node(1) [OF inv request_vote(2)] request_vote(4) [unfolded request_vote(3)]]
  show ?thesis
    by (rule cluster_inv_quiet [OF inv request_vote(2) r(1-4)]) (use request_vote r(5) in \<open>auto simp: with_node_def split: if_splits\<close>)
next
  case (append_entries v m r n')
  then show ?thesis using append_entries_ok [OF cluster_inv_node(1) [OF inv]] cluster_inv_set [OF inv] by metis
next
  case (propose v cmd r n')
  then show ?thesis using propose_ok [OF cluster_inv_node(1) [OF inv]] cluster_inv_set [OF inv] by metis
next
  case (pushed v "term" peer prev len reply "what" n')
  then show ?thesis using push_reply_ok [OF cluster_inv_node(1) [OF inv]] cluster_inv_set [OF inv] by metis
next
  case (follow_timeout v)
  let ?n' = "RaftNode.follow_timeout (cl_nodes c v)"
  show ?thesis unfolding follow_timeout(1)
    by (rule cluster_inv_step [where E = "{}" and n' = ?n', OF inv follow_timeout(2)])
      (use cluster_inv_node [OF inv follow_timeout(2)] follow_timeout(4) in
        \<open>auto simp: with_node_def follow_timeout_def node_ok_def monotone_def campaign_ok_def\<close>)
next
  case (campaign v n')
  note r = start_campaign_ok [OF cluster_inv_node(1) [OF inv campaign(2)] d campaign(2) campaign(6)]
  show ?thesis unfolding campaign(1)
    by (rule cluster_inv_step [where E = "{}", OF inv campaign(2) _ r(1,2)]) (use r in \<open>auto simp: with_node_def\<close>)
next
  case (solicited v "term" peer reply)
  have "\<And>t. reply = Some (t, True) \<Longrightarrow> (term, peer, v) \<in> cl_votes c"
    using solicited(5) inv unfolding cluster_inv_def by blast
  note r = solicit_reply_ok [OF cluster_inv_node [OF inv solicited(2)] solicited(3,4) this refl]
  show ?thesis unfolding solicited(1)
    by (rule cluster_inv_step [where E = "{}", OF inv solicited(2) _ r(1,2)]) (use r in \<open>auto simp: with_node_def\<close>)
next
  case (campaign_over v "term" timed_out)
  note r = end_campaign_ok [OF cluster_inv_node [OF inv campaign_over(2)] campaign_over(4) refl]
  show ?thesis unfolding campaign_over(1)
    by (rule cluster_inv_step [where E = "set (nd_events (end_campaign ops timed_out (cl_nodes c v))) - set (nd_events (cl_nodes c v))",
          OF inv campaign_over(2) _ r(1,2)])
      (use r in \<open>auto simp: with_node_def\<close>)
next
  case (lead v)
  show ?thesis unfolding lead(1)
    by (rule cluster_inv_set [OF inv lead(2)])
      (use cluster_inv_node(1) [OF inv lead(2)] in \<open>auto simp: start_lead_def node_ok_def monotone_def quiet_def\<close>)
next
  case (lead_over v "term")
  show ?thesis unfolding lead_over(1)
    by (rule cluster_inv_set [OF inv lead_over(2)])
      (use cluster_inv_node(1) [OF inv lead_over(2)] in \<open>auto simp: end_lead_def node_ok_def monotone_def quiet_def\<close>)
next
  case (restart v r)
  note r = restart_ok [OF cluster_inv_node(1) [OF inv restart(2)] restart(2) refl, where r = r]
  show ?thesis unfolding restart(1)
    by (rule cluster_inv_step [where E = "{}", OF inv restart(2) _ r(1,2)]) (use r in \<open>auto simp: with_node_def\<close>)
qed

lemma cluster_inv_init:
  assumes "distinct members" and "\<And>v. v \<in> set members \<Longrightarrow> inv (st v) \<and> clean (st v)"
  shows "cluster_inv ops inv clean members (cluster_init ops members st all_safeguards)"
proof -
  have "length members = Suc (length (remove1 v members))" if "v \<in> set members" for v
    using that by (simp add: length_remove1) (metis Suc_pred length_pos_if_in_set)
  then show ?thesis
    using assms by (auto simp: cluster_inv_def cluster_init_def node_init_def node_ok_def campaign_ok_def leader_events_def)
qed

end

section \<open>Election safety\<close>

lemma majorities_meet:
  assumes "length members div 2 + 1 \<le> card A" and "length members div 2 + 1 \<le> card B"
    and "A \<subseteq> set members" and "B \<subseteq> set members"
  shows "A \<inter> B \<noteq> {}"
proof
  assume "A \<inter> B = {}"
  moreover have "finite A" "finite B" using assms(3,4) by (auto intro: finite_subset)
  ultimately have "card A + card B = card (A \<union> B)" by (simp add: card_Un_disjoint)
  also have "\<dots> \<le> card (set members)" using assms(3,4) by (intro card_mono) auto
  also have "\<dots> \<le> length members" by (rule card_length)
  finally show False using assms(1,2) by linarith
qed

lemma cluster_inv_one_leader:
  assumes "cluster_inv ops sound clean members c" and "(a, t) \<in> leader_events members c" and "(b, t) \<in> leader_events members c"
  shows "a = b"
proof -
  have "elected (cl_votes c) members a t" "elected (cl_votes c) members b t"
    using assms by (auto simp: cluster_inv_def)
  then have "ballots (cl_votes c) members t a \<inter> ballots (cl_votes c) members t b \<noteq> {}"
    unfolding elected_def by (intro majorities_meet [where members = members]) (auto simp: ballots_def)
  then obtain u where "(t, u, a) \<in> cl_votes c" "(t, u, b) \<in> cl_votes c" by (auto simp: ballots_def)
  with assms(1) show ?thesis unfolding cluster_inv_def by blast
qed

context raft_storage begin

lemma cluster_inv_reachable:
  assumes "(cluster_step ops crash members)\<^sup>*\<^sup>* (cluster_init ops members st all_safeguards) c"
    and "distinct members" and "\<And>v. v \<in> set members \<Longrightarrow> inv (st v) \<and> clean (st v)"
  shows "cluster_inv ops inv clean members c"
  using assms(1) by induction (use assms(2,3) cluster_inv_init cluster_inv_steps in blast)+

end

text \<open>
  C8. Election safety: in every run of a cluster over simulated disks, with the safeguards on,
  whatever requests arrive, in whatever order and how often, and however often peers lose power and
  boot again from their disks, no term has two leaders.
\<close>
theorem election_safety:
  assumes "(cluster_step disk_storage (\<lambda>r d. fst (disk_crash r d)) members)\<^sup>*\<^sup>*
      (cluster_init disk_storage members st all_safeguards) c"
    and "distinct members" and "\<And>v. v \<in> set members \<Longrightarrow> disk_inv (st v) \<and> d_journal (st v) = []"
    and "(a, t) \<in> leader_events members c" and "(b, t) \<in> leader_events members c"
  shows "a = b"
  by (rule cluster_inv_one_leader [OF ondisk.cluster_inv_reachable [OF assms(1-3)] assms(4,5)])

text \<open>A run in which three peers elect \<open>a\<close>.\<close>

definition demo_members :: "string list" where "demo_members = [''a'', ''b'', ''c'']"

definition raft_demo_disk :: "stored disk" where "raft_demo_disk = disk_configure True True disk_init"

definition demo_campaigner :: "stored disk node" where
  "demo_campaigner = start_campaign disk_storage
     (RaftNode.follow_timeout (node_init disk_storage ''a'' [''b'', ''c''] raft_demo_disk all_safeguards))"

definition demo_leader :: "stored disk node" where
  "demo_leader = end_campaign disk_storage False (solicit_reply disk_storage 1 ''b'' (Some (1, True)) demo_campaigner)"

lemma raft_demo_disk_ok: "disk_inv raft_demo_disk" "d_journal raft_demo_disk = []" "disk_load raft_demo_disk = pstate_init"
proof -
  show "disk_inv raft_demo_disk" unfolding raft_demo_disk_def by (rule disk_inv_configure [OF disk_inv_init])
  show "d_journal raft_demo_disk = []" by (simp add: raft_demo_disk_def disk_configure_def disk_sync_def)
  show "disk_load raft_demo_disk = pstate_init" by code_simp
qed

lemma demo_election:
  obtains c where
    "(cluster_step disk_storage (\<lambda>r d. fst (disk_crash r d)) demo_members)\<^sup>*\<^sup>*
       (cluster_init disk_storage demo_members (\<lambda>_. raft_demo_disk) all_safeguards) c"
    and "cl_nodes c ''a'' = demo_leader"
proof -
  let ?step = "cluster_step disk_storage (\<lambda>r d. fst (disk_crash r d)) demo_members"
  let ?c0 = "cluster_init disk_storage demo_members (\<lambda>_. raft_demo_disk) all_safeguards"
  let ?a0 = "node_init disk_storage ''a'' [''b'', ''c''] raft_demo_disk all_safeguards"
  let ?b0 = "node_init disk_storage ''b'' [''a'', ''c''] raft_demo_disk all_safeguards"
  let ?m = "solicitation 1 demo_campaigner"
  define b1 where "b1 = snd (handle_request_vote disk_storage ?m ?b0)"
  define c1 where "c1 = with_node ''a'' (RaftNode.follow_timeout ?a0) ?c0"
  define c2 where "c2 = (with_node ''a'' demo_campaigner c1)\<lparr>cl_votes := insert (1, ''a'', ''a'') (cl_votes c1)\<rparr>"
  define c3 where "c3 = (with_node ''b'' b1 c2)\<lparr>cl_answers := insert (1, ''a'', ''b'', 1, True) (cl_answers c2),
    cl_votes := insert (1, ''b'', ''a'') (cl_votes c2)\<rparr>"
  define c4 where "c4 = with_node ''a'' (solicit_reply disk_storage 1 ''b'' (Some (1, True)) demo_campaigner) c3"
  define c5 where "c5 = with_node ''a'' demo_leader c4"
  have a: "nd_term demo_campaigner = 1" "nd_campaign_term demo_campaigner = Some 1"
    "nd_solicitors demo_campaigner = [''b'', ''c'']" "nd_role demo_campaigner = Candidate" "nd_log demo_campaigner = []"
    "nd_name demo_campaigner = ''a''" "nd_granted demo_campaigner = 1" "nd_quorum demo_campaigner = 2"
    by (simp_all add: demo_campaigner_def start_campaign_def Let_def follow_timeout_def node_init_def
        disk_storage_def raft_demo_disk_ok pstate_init_def)
  have nodes: "cl_nodes ?c0 ''a'' = ?a0" "cl_nodes ?c0 ''b'' = ?b0" "cl_answers ?c0 = {}" "cl_votes ?c0 = {}"
    by (simp_all add: cluster_init_def demo_members_def)
  have members: "''a'' \<in> set demo_members" "''b'' \<in> set demo_members" by (simp_all add: demo_members_def)
  have "?step ?c0 (with_node ''a'' (RaftNode.follow_timeout (cl_nodes ?c0 ''a'')) ?c0)"
    by (rule cluster_step.follow_timeout [OF members(1)]) (simp_all only: nodes, simp_all add: node_init_def)
  then have s1: "?step ?c0 c1" by (simp only: c1_def nodes)
  have "?step c1 ((with_node ''a'' demo_campaigner c1)\<lparr>cl_votes := insert (nd_term demo_campaigner, ''a'', ''a'') (cl_votes c1)\<rparr>)"
    by (rule cluster_step.campaign [OF members(1)])
      (simp_all add: c1_def with_node_def demo_campaigner_def follow_timeout_def node_init_def)
  then have s2: "?step c1 c2" by (simp only: c2_def a(1))
  have b1: "handle_request_vote disk_storage ?m ?b0 = ((1, True), b1)"
    by (simp add: b1_def handle_request_vote_def solicitation_def a Let_def node_init_def disk_storage_def
        raft_demo_disk_ok pstate_init_def become_follower_def persist_def all_safeguards_def last_log_term_def)
  have n2: "cl_nodes c2 ''b'' = ?b0" "cl_nodes c3 ''a'' = demo_campaigner"
    by (simp_all add: c3_def c2_def c1_def with_node_def nodes)
  have s3: "?step c2 c3"
    using cluster_step.request_vote [OF members(2) n2(1) [symmetric] b1] unfolding c3_def
    by (simp add: solicitation_def a)
  have "?step c3 (with_node ''a'' (solicit_reply disk_storage 1 ''b'' (Some (1, True)) (cl_nodes c3 ''a'')) c3)"
    by (rule cluster_step.solicited [OF members(1)]) (simp_all only: n2 a, auto simp: c3_def)
  then have s4: "?step c3 c4" by (simp only: c4_def n2)
  have n4: "cl_nodes c4 ''a'' = solicit_reply disk_storage 1 ''b'' (Some (1, True)) demo_campaigner"
    by (simp add: c4_def with_node_def)
  have s5: "?step c4 c5"
    using cluster_step.campaign_over [OF members(1), of c4 1 False] unfolding c5_def n4 demo_leader_def
    by (simp add: solicit_reply_def a)
  from s1 s2 s3 s4 s5 have "?step\<^sup>*\<^sup>* ?c0 c5" by (meson converse_rtranclp_into_rtranclp rtranclp.rtrancl_refl)
  then show thesis by (rule that) (simp add: c5_def with_node_def)
qed

lemma demo_leader_event: "LeaderEv ''a'' 1 [\<lparr>en_term = 1, en_command = []\<rparr>] \<in> set (nd_events demo_leader)"
  by (simp add: demo_leader_def end_campaign_def solicit_reply_def become_leader_def demo_campaigner_def
      start_campaign_def Let_def follow_timeout_def node_init_def all_safeguards_def disk_storage_def raft_demo_disk_ok pstate_init_def)

theorem election_safety_witness:
  "\<exists>c. (cluster_step disk_storage (\<lambda>r d. fst (disk_crash r d)) demo_members)\<^sup>*\<^sup>*
      (cluster_init disk_storage demo_members (\<lambda>_. raft_demo_disk) all_safeguards) c \<and>
    {v. (v, 1) \<in> leader_events demo_members c} = {''a''}"
proof -
  obtain c where run: "(cluster_step disk_storage (\<lambda>r d. fst (disk_crash r d)) demo_members)\<^sup>*\<^sup>*
      (cluster_init disk_storage demo_members (\<lambda>_. raft_demo_disk) all_safeguards) c"
    and "cl_nodes c ''a'' = demo_leader" by (rule demo_election)
  then have "(''a'', 1) \<in> leader_events demo_members c"
    using demo_leader_event by (auto simp: leader_events_def demo_members_def)
  with election_safety [OF run _ _ _ this] have "{v. (v, 1) \<in> leader_events demo_members c} = {''a''}"
    by (auto simp: raft_demo_disk_ok demo_members_def)
  with run show ?thesis by blast
qed

end
