(* ===== verification/RaftLog.thy ===== *)
theory RaftLog
  imports RaftNode
begin

text \<open>
  The log of a Raft peer: what an accepted append makes of it, that its terms never decrease, and
  which index a leader's commit scan picks. The last uses the ordering of the terms, as the comment
  in \<open>_advance_commit\<close> says.
\<close>

section \<open>An accepted append\<close>

definition agreement :: "nat \<Rightarrow> entry list \<Rightarrow> entry list \<Rightarrow> nat" where
  \<comment> \<open>how many of the received entries the log already has behind position \<open>p\<close>\<close>
  "agreement p lg es = length (takeWhile (\<lambda>(a, b). en_term a = en_term b) (zip (drop p lg) es))"

lemma agreement_Nil [simp]: "agreement p lg [] = 0" "length lg \<le> p \<Longrightarrow> agreement p lg es = 0"
  by (simp_all add: agreement_def)

lemma agreement_Cons:
  "p < length lg \<Longrightarrow> agreement p lg (e # es) =
     (if en_term (lg ! p) = en_term e then Suc (agreement (Suc p) lg es) else 0)"
  by (simp add: agreement_def Cons_nth_drop_Suc [symmetric])

lemma merge_entries_beyond: "merge_entries (Suc (length lg)) es lg = lg @ es"
proof (induction es arbitrary: lg)
  case (Cons e es)
  show ?case using Cons [of "lg @ [e]"] by simp
qed simp

lemma merge_entries_agreement:
  "p \<le> length lg \<Longrightarrow> merge_entries (Suc p) es lg =
     (let k = agreement p lg es in if k = length es then lg else take (p + k) lg @ drop k es)"
proof (induction es arbitrary: p)
  case (Cons e es)
  show ?case
  proof (cases "p = length lg")
    case True
    then show ?thesis using merge_entries_beyond [of lg "e # es"] by simp
  next
    case False
    with Cons.prems have p: "p < length lg" by simp
    show ?thesis
    proof (cases "en_term (lg ! p) = en_term e")
      case True
      with p Cons.IH [of "Suc p"] show ?thesis by (simp add: agreement_Cons Let_def)
    next
      case False
      then show ?thesis
        using p merge_entries_beyond [of "take p lg @ [e]" es] by (simp add: agreement_Cons Let_def min_def)
    qed
  qed
qed simp

lemma agreement_le: "agreement p lg es \<le> length es" "p \<le> length lg \<Longrightarrow> p + agreement p lg es \<le> length lg"
  using length_takeWhile_le [of "\<lambda>(a, b). en_term a = en_term b" "zip (drop p lg) es"]
  by (auto simp: agreement_def)

lemma agreement_nth: "i < agreement p lg es \<Longrightarrow> en_term (lg ! (p + i)) = en_term (es ! i)"
proof -
  assume i: "i < agreement p lg es"
  let ?z = "zip (drop p lg) es" and ?P = "\<lambda>(a, b). en_term a = en_term b"
  have "?P (takeWhile ?P ?z ! i)" using i nth_mem [of i "takeWhile ?P ?z"] set_takeWhileD by (fastforce simp: agreement_def)
  moreover have "takeWhile ?P ?z ! i = ?z ! i" using i by (simp add: agreement_def takeWhile_nth)
  moreover have z: "i < length ?z" using i length_takeWhile_le [of ?P ?z] by (simp add: agreement_def)
  moreover have "p \<le> length lg" using z by auto
  ultimately show ?thesis by simp
qed

text \<open>
  C36. The loop of \<open>_handle_append_entries\<close> computes: keep the log if it already holds every
  received entry behind \<open>prev\<close> (nothing is cut off for a request that arrives late or twice);
  otherwise keep it up to the first disagreement and put the rest of the received entries there.
\<close>
theorem append_keeps_what_agrees:
  assumes "p \<le> length lg"
  shows "merge_entries (Suc p) es lg =
    (let k = agreement p lg es in if k = length es then lg else take (p + k) lg @ drop k es)"
  by (rule merge_entries_agreement [OF assms])

theorem append_keeps_what_agrees_witness:
  "merge_entries (Suc 1) [\<lparr>en_term = 1, en_command = ''b''\<rparr>, \<lparr>en_term = 3, en_command = ''d''\<rparr>]
     [\<lparr>en_term = 1, en_command = ''a''\<rparr>, \<lparr>en_term = 1, en_command = ''b''\<rparr>, \<lparr>en_term = 2, en_command = ''c''\<rparr>] =
   [\<lparr>en_term = 1, en_command = ''a''\<rparr>, \<lparr>en_term = 1, en_command = ''b''\<rparr>, \<lparr>en_term = 3, en_command = ''d''\<rparr>]"
  using append_keeps_what_agrees [of 1
      "[\<lparr>en_term = 1, en_command = ''a''\<rparr>, \<lparr>en_term = 1, en_command = ''b''\<rparr>, \<lparr>en_term = 2, en_command = ''c''\<rparr>]"
      "[\<lparr>en_term = 1, en_command = ''b''\<rparr>, \<lparr>en_term = 3, en_command = ''d''\<rparr>]"]
  by (simp add: agreement_def)

section \<open>The terms in a log never decrease\<close>

definition log_ok :: "'st node \<Rightarrow> bool" where
  "log_ok n \<longleftrightarrow> sorted (map en_term (nd_log n)) \<and> (\<forall>e\<in>set (nd_log n). en_term e \<le> nd_term n)"

definition request_ok :: "append_request \<Rightarrow> bool" where
  "request_ok m \<longleftrightarrow> sorted (ar_prev_log_term m # map en_term (ar_entries m)) \<and>
     (\<forall>e\<in>set (ar_entries m). en_term e \<le> ar_term m)"

lemma sorted_terms_take:
  assumes "sorted (map en_term lg)" and "e \<in> set (take n lg)" and "n \<le> length lg"
  shows "en_term e \<le> en_term (lg ! (n - 1))"
proof -
  obtain i where "i < n" "e = lg ! i" using assms(2,3) by (auto simp: in_set_conv_nth)
  with assms(1,3) sorted_nth_mono [of "map en_term lg" i "n - 1"] show ?thesis by simp
qed

lemma merge_entries_sorted:
  assumes lg: "sorted (map en_term lg)" and es: "sorted (t # map en_term es)" and p: "p \<le> length lg"
    and prev: "p = 0 \<or> en_term (lg ! (p - 1)) = t"
  shows "sorted (map en_term (merge_entries (Suc p) es lg))" "set (merge_entries (Suc p) es lg) \<subseteq> set lg \<union> set es"
proof -
  define k where "k = agreement p lg es"
  have k: "k \<le> length es" "p + k \<le> length lg" using agreement_le p by (auto simp: k_def)
  have last: "p + k = 0 \<or> en_term (lg ! (p + k - 1)) = (t # map en_term es) ! k"
  proof (cases k)
    case (Suc j)
    then have "en_term (lg ! (p + j)) = en_term (es ! j)" using agreement_nth [of j p lg es] by (simp add: k_def)
    with Suc k show ?thesis by simp
  qed (use prev in auto)
  have "en_term a \<le> en_term b" if a: "a \<in> set (take (p + k) lg)" and b: "b \<in> set (drop k es)" for a b
  proof -
    have "en_term a \<le> (t # map en_term es) ! k"
      using sorted_terms_take [OF lg a k(2)] last a by auto
    also obtain i where i: "i < length es - k" "b = es ! (k + i)" using b by (auto simp: in_set_conv_nth)
    then have "(t # map en_term es) ! k \<le> (t # map en_term es) ! Suc (k + i)"
      using es by (intro sorted_nth_mono) auto
    finally show ?thesis using i by simp
  qed
  moreover have "sorted (map en_term (take (p + k) lg))" "sorted (map en_term (drop k es))"
    using lg es by (simp_all add: sorted_wrt_take sorted_wrt_drop flip: take_map drop_map)
  ultimately have "sorted (map en_term (take (p + k) lg @ drop k es))" by (auto simp: sorted_append)
  then show "sorted (map en_term (merge_entries (Suc p) es lg))"
    using lg by (simp add: merge_entries_agreement [OF p] Let_def k_def [symmetric])
  show "set (merge_entries (Suc p) es lg) \<subseteq> set lg \<union> set es"
    by (auto simp: merge_entries_agreement [OF p] Let_def dest: in_set_takeD in_set_dropD)
qed

lemma log_ok_cong: "nd_log n' = nd_log n \<Longrightarrow> nd_term n \<le> nd_term n' \<Longrightarrow> log_ok n \<Longrightarrow> log_ok n'"
  by (auto simp: log_ok_def intro: order_trans)

lemma log_ok_snoc:
  assumes "log_ok n" and "nd_log n' = nd_log n @ [\<lparr>en_term = nd_term n, en_command = c\<rparr>]" and "nd_term n' = nd_term n"
  shows "log_ok n'"
  using assms by (auto simp: log_ok_def sorted_append)

lemma log_ok_follower: "log_ok n \<Longrightarrow> nd_term n \<le> t \<Longrightarrow> log_ok (become_follower ops t n)"
  by (rule log_ok_cong [of _ n]) (simp_all add: become_follower_def)

lemma log_ok_request_vote: "log_ok n \<Longrightarrow> log_ok (snd (handle_request_vote ops m n))"
  by (rule log_ok_cong [of _ n]) (auto simp: handle_request_vote_def become_follower_def Let_def)

lemma log_ok_append:
  assumes n: "log_ok n" and m: "request_ok m" and sg: "sg_reject_stale_term (nd_safeguards n)"
  shows "log_ok (snd (handle_append_entries ops m n))"
proof -
  define n1 where "n1 = (if ar_term m > nd_term n then become_follower ops (ar_term m) n else n)"
  have n1: "log_ok n1" "sg_reject_stale_term (nd_safeguards n1)" "ar_term m \<le> nd_term n1"
    using n sg log_ok_follower [of n "ar_term m" ops] by (auto simp: n1_def)
  let ?r = "snd (handle_append_entries ops m n)" and ?p = "ar_prev_log_index m"
  have r: "nd_term ?r = nd_term n1" "nd_log ?r = nd_log n1 \<or> nd_log ?r = merge_entries (Suc ?p) (ar_entries m) (nd_log n1) \<and>
      ?p \<le> length (nd_log n1) \<and> (?p = 0 \<or> en_term (nd_log n1 ! (?p - 1)) = ar_prev_log_term m)"
    unfolding handle_append_entries_def n1_def [symmetric] Let_def by auto
  from r(2) show ?thesis
  proof
    assume "nd_log ?r = nd_log n1"
    then show ?thesis using r(1) n1(1) by (simp add: log_ok_def)
  next
    assume h: "nd_log ?r = merge_entries (Suc ?p) (ar_entries m) (nd_log n1) \<and>
      ?p \<le> length (nd_log n1) \<and> (?p = 0 \<or> en_term (nd_log n1 ! (?p - 1)) = ar_prev_log_term m)"
    then show ?thesis
      using merge_entries_sorted [of "nd_log n1" "ar_prev_log_term m" "ar_entries m" ?p] r(1) n1 m
      by (fastforce simp: log_ok_def request_ok_def)
  qed
qed

lemma log_ok_propose: "log_ok n \<Longrightarrow> log_ok (snd (handle_propose ops c n))"
  by (auto simp: handle_propose_def Let_def intro: log_ok_snoc)

definition message_ok :: "raft_message \<Rightarrow> bool" where
  "message_ok m = (case m of AppendEntriesM q \<Rightarrow> request_ok q | _ \<Rightarrow> True)"

lemma log_ok_handle:
  "log_ok n \<Longrightarrow> message_ok m \<Longrightarrow> sg_reject_stale_term (nd_safeguards n) \<Longrightarrow> log_ok (snd (node_handle ops r m n))"
  using log_ok_request_vote [of n ops] log_ok_append [of n _ ops] log_ok_propose [of n ops]
  by (cases m) (auto simp: message_ok_def case_prod_beta)

lemma log_ok_campaign:
  assumes "log_ok n"
  shows "log_ok (start_campaign ops n)" "log_ok (solicit_reply ops t peer reply n)" "log_ok (end_campaign ops timed_out n)"
    "log_ok (snd (push_reply ops peer t prev len reply n))"
proof -
  show "log_ok (start_campaign ops n)" by (rule log_ok_cong [OF _ _ assms]) (simp_all add: start_campaign_def Let_def)
  show "log_ok (solicit_reply ops t peer reply n)"
    by (rule log_ok_cong [OF _ _ assms]) (auto simp: solicit_reply_def become_follower_def Let_def split: option.split)
  show "log_ok (snd (push_reply ops peer t prev len reply n))"
    by (rule log_ok_cong [OF _ _ assms]) (auto simp: push_reply_def become_follower_def Let_def split: option.split)
  have "log_ok (become_leader ops (n\<lparr>nd_campaign_term := None, nd_solicitors := []\<rparr>))"
    by (cases "sg_leader_noop (nd_safeguards n)")
      (auto simp: become_leader_def Let_def intro: log_ok_snoc [OF assms] log_ok_cong [OF _ _ assms])
  then show "log_ok (end_campaign ops timed_out n)"
    by (auto simp: end_campaign_def Let_def intro: log_ok_cong [OF _ _ assms])
qed

lemma push_request_ok:
  assumes "log_ok n" and "push_request peer (nd_term n) n = Inr (prev, q)"
  shows "request_ok q"
proof -
  have q: "prev \<le> length (nd_log n)" "ar_entries q = drop prev (nd_log n)" "ar_term q = nd_term n"
    "ar_prev_log_term q = (if prev > 0 then en_term (nd_log n ! (prev - 1)) else 0)"
    using assms(2) by (auto simp: push_request_def Let_def split: option.splits if_splits)
  have d: "sorted (map en_term (drop k (nd_log n)))" for k
    using assms(1) by (simp add: log_ok_def sorted_wrt_drop flip: drop_map)
  have "sorted (ar_prev_log_term q # map en_term (ar_entries q))"
  proof (cases prev)
    case (Suc k)
    then have "drop k (nd_log n) = nd_log n ! k # drop (Suc k) (nd_log n)" using q(1) by (simp add: Cons_nth_drop_Suc)
    with d [of k] q Suc show ?thesis by simp
  qed (use q d [of 0] in simp)
  then show ?thesis using assms(1) q by (auto simp: request_ok_def log_ok_def dest: in_set_dropD)
qed

text \<open>
  The terms in a log never decrease and never pass the node's own term: every handler and every
  piece of a campaign or a push keeps this, given that an append request carries such entries; and
  the requests a leader of the current term sends do carry such entries.
\<close>
lemma log_terms_stay_ordered:
  assumes "log_ok n" and "sg_reject_stale_term (nd_safeguards n)" and "message_ok m"
  shows "log_ok (snd (node_handle ops repr_str m n)) \<and> log_ok (start_campaign ops n) \<and>
    log_ok (solicit_reply ops t peer reply n) \<and> log_ok (end_campaign ops timed_out n) \<and>
    log_ok (snd (push_reply ops peer t prev len reply n)) \<and>
    (\<forall>prev q. push_request peer (nd_term n) n = Inr (prev, q) \<longrightarrow> request_ok q)"
  using log_ok_handle [OF assms(1,3,2)] log_ok_campaign [OF assms(1)] push_request_ok [OF assms(1)] by blast

definition demo_peer :: "pstate node" where
  "demo_peer = (node_init memory_storage ''a'' [''b'', ''c'']
     \<lparr>ps_term = 3, ps_voted_for = None, ps_log = [\<lparr>en_term = 1, en_command = ''x''\<rparr>, \<lparr>en_term = 3, en_command = ''y''\<rparr>]\<rparr>
     all_safeguards)\<lparr>nd_next_index := [(''b'', 1), (''c'', 4)], nd_match_index := [(''b'', 2), (''c'', 0)]\<rparr>"

text \<open>
  The guard on the term is needed: a pusher that wakes up after its node was deposed, and before
  \<open>_lead\<close> has cancelled it, sends a request in its old term that carries entries of newer terms, or
  raises because the log has shrunk below what it had sent.
\<close>

lemma stale_push_is_not_ok:
  "nd_role demo_peer = Follower \<and> (case push_request ''b'' 1 demo_peer of Inr (_, q) \<Rightarrow> \<not> request_ok q | Inl _ \<Rightarrow> False) \<and>
   push_request ''c'' 1 demo_peer = Inl IndexError"
  by (simp add: push_request_def demo_peer_def node_init_def memory_storage_def Let_def request_ok_def)

section \<open>What a leader commits\<close>

definition replicas :: "nat \<Rightarrow> 'st node \<Rightarrow> nat" where
  "replicas index n = 1 + length (filter (\<lambda>(_, match). match \<ge> index) (nd_match_index n))"

definition committable :: "nat \<Rightarrow> 'st node \<Rightarrow> nat set" where
  \<comment> \<open>what Raft lets the leader of \<open>term\<close> commit: a later entry of its own term that a quorum has\<close>
  "committable term n = {k \<in> {nd_commit_index n<..length (nd_log n)}.
     nd_quorum n \<le> replicas k n \<and> en_term (nd_log n ! (k - 1)) = term}"

lemma commit_scan_spec:
  assumes "log_ok n" and "sg_commit_own_term_only (nd_safeguards n)" and "m \<le> length (nd_log n)"
  defines "good k \<equiv> nd_quorum n \<le> replicas k n \<and> en_term (nd_log n ! (k - 1)) = nd_term n"
  shows "case commit_scan (nd_term n) n (rev [c + 1..<m + 1]) of
      None \<Rightarrow> \<forall>k\<in>{c<..m}. \<not> good k
    | Some k \<Rightarrow> k \<in> {c<..m} \<and> good k \<and> (\<forall>j\<in>{k<..m}. \<not> good j)"
  using assms(3)
proof (induction m)
  case (Suc m)
  show ?case
  proof (cases "c \<le> m")
    case True
    then have scan: "rev [c + 1..<Suc m + 1] = Suc m # rev [c + 1..<m + 1]" by simp
    have range: "{c<..Suc m} = insert (Suc m) {c<..m}" "\<And>k. k \<le> m \<Longrightarrow> {k<..Suc m} = insert (Suc m) {k<..m}"
      using True by auto
    consider (few) "replicas (Suc m) n < nd_quorum n" | (own) "good (Suc m)"
      | (older) "en_term (nd_log n ! m) \<noteq> nd_term n" "\<not> replicas (Suc m) n < nd_quorum n"
      using not_less [of "replicas (Suc m) n" "nd_quorum n"] unfolding good_def by fastforce
    then show ?thesis
    proof cases
      case few
      then have "\<not> good (Suc m)" by (simp add: good_def)
      moreover have "commit_scan (nd_term n) n (rev [c + 1..<Suc m + 1]) = commit_scan (nd_term n) n (rev [c + 1..<m + 1])"
        using few unfolding scan by (simp add: replicas_def Let_def)
      ultimately show ?thesis
        using Suc range by (cases "commit_scan (nd_term n) n (rev [c + 1..<m + 1])") auto
    next
      case own
      then have "commit_scan (nd_term n) n (rev [c + 1..<Suc m + 1]) = Some (Suc m)"
        unfolding scan by (simp add: good_def replicas_def Let_def)
      with own True show ?thesis by simp
    next
      case older
      then have none: "commit_scan (nd_term n) n (rev [c + 1..<Suc m + 1]) = None"
        using assms(2) unfolding scan by (simp add: replicas_def Let_def)
      have "en_term (nd_log n ! m) < nd_term n"
        using older Suc.prems assms(1) by (simp add: log_ok_def le_neq_implies_less)
      then have "\<not> good k" if "k \<in> {c<..Suc m}" for k
      proof -
        have "k - 1 \<le> m" using that by auto
        then show ?thesis
          using \<open>en_term (nd_log n ! m) < nd_term n\<close> Suc.prems assms(1) sorted_nth_mono [of "map en_term (nd_log n)" "k - 1" m]
          by (auto simp: good_def log_ok_def)
      qed
      with none show ?thesis by simp
    qed
  next
    case False
    then have "rev [c + 1..<Suc m + 1] = []" "{c<..Suc m} = {}" by auto
    then show ?thesis by (simp del: upt_Suc)
  qed
qed simp

lemma advance_commit_index:
  assumes "log_ok n" and "sg_commit_own_term_only (nd_safeguards n)"
  shows "nd_commit_index (advance_commit (nd_term n) n) =
    (if committable (nd_term n) n = {} then nd_commit_index n else Max (committable (nd_term n) n))"
proof (cases "commit_scan (nd_term n) n (rev [nd_commit_index n + 1..<length (nd_log n) + 1])")
  case None
  then have "committable (nd_term n) n = {}"
    using commit_scan_spec [OF assms le_refl, of "nd_commit_index n"] by (auto simp: committable_def)
  with None show ?thesis by (simp add: advance_commit_def)
next
  case (Some k)
  have k: "k \<in> committable (nd_term n) n" "\<forall>j\<in>committable (nd_term n) n. j \<le> k"
    using commit_scan_spec [OF assms le_refl, of "nd_commit_index n"] Some by (auto simp: committable_def not_le [symmetric])
  have "finite (committable (nd_term n) n)" by (simp add: committable_def)
  with k have "Max (committable (nd_term n) n) = k" by (intro Max_eqI) auto
  with Some k(1) show ?thesis by (auto simp: advance_commit_def)
qed

text \<open>
  C15. The descending scan of \<open>_advance_commit\<close>, which stops at the first index of an older term
  that a quorum has, commits exactly what Raft allows: the greatest index above the commit mark
  that holds an entry of the leader's own term and is on a quorum; and nothing when there is none.
\<close>
theorem leader_commits_greatest_own_index:
  assumes "log_ok n" and "sg_commit_own_term_only (nd_safeguards n)"
  shows "nd_commit_index (advance_commit (nd_term n) n) =
    (if committable (nd_term n) n = {} then nd_commit_index n else Max (committable (nd_term n) n))"
  by (rule advance_commit_index [OF assms])

theorem leader_commits_greatest_own_index_witness:
  "committable 3 demo_peer = {2} \<and> nd_commit_index (advance_commit 3 demo_peer) = 2"
proof -
  have "log_ok demo_peer" by (simp add: demo_peer_def node_init_def memory_storage_def log_ok_def)
  moreover have "sg_commit_own_term_only (nd_safeguards demo_peer)" by (simp add: demo_peer_def node_init_def all_safeguards_def)
  ultimately have c: "nd_commit_index (advance_commit (nd_term demo_peer) demo_peer) =
    (if committable (nd_term demo_peer) demo_peer = {} then nd_commit_index demo_peer
     else Max (committable (nd_term demo_peer) demo_peer))"
    by (rule leader_commits_greatest_own_index)
  have t: "nd_term demo_peer = 3" by (simp add: demo_peer_def node_init_def memory_storage_def)
  have "{nd_commit_index demo_peer<..length (nd_log demo_peer)} = {1, 2}"
    by (auto simp: demo_peer_def node_init_def memory_storage_def)
  then have "committable 3 demo_peer = {2}"
    unfolding committable_def by (auto simp: demo_peer_def node_init_def memory_storage_def replicas_def)
  with c t show ?thesis by simp
qed

end
