(* ===== verification/RaftRun.thy ===== *)
theory RaftRun
  imports RaftElection RaftLog
begin

text \<open>
  Runs of a Raft cluster in which every message was sent by the code: a vote is asked for by a
  solicitor of a running campaign, entries come from a pusher, and an answer counts only for the
  request it answers. Messages are lost, repeated and delivered in any order.
  Beside the cluster a run keeps the shared event record of the nodes and history variables: what
  each term's leader started from and what it has in its log. The steps are those of
  \<open>cluster_step\<close> (\<open>raft_step_cluster\<close>). A pusher that wakes up after its node was deposed, and before
  \<open>_lead\<close> has cancelled it, sends as the code does, without looking at the role or the term: its
  requests are kept apart (\<open>hi_stale\<close>), and so is what peers make of them (\<open>hi_misled\<close>).
\<close>

section \<open>Runs\<close>

record history =
  hi_asked :: "vote_request set"
  hi_sent :: "(append_request \<times> entry list) set" \<comment> \<open>with the sender's log at that time\<close>
  hi_oks :: "(append_request \<times> entry list \<times> string) set" \<comment> \<open>requests a peer has accepted\<close>
  hi_leader :: "nat \<Rightarrow> string option"
  hi_base :: "nat \<Rightarrow> entry list" \<comment> \<open>the log its leader had when it was elected\<close>
  hi_log :: "nat \<Rightarrow> entry list" \<comment> \<open>the log of the term's leader\<close>
  hi_events :: "event list"
  hi_stale :: "append_request set" \<comment> \<open>requests sent by pushers of a deposed leader\<close>
  hi_misled :: "(append_request \<times> string) set" \<comment> \<open>such requests a peer has accepted\<close>

type_synonym 'st run = "'st cluster \<times> history"

definition history_init :: history where
  "history_init = \<lparr>hi_asked = {}, hi_sent = {}, hi_oks = {}, hi_leader = (\<lambda>_. None), hi_base = (\<lambda>_. []),
     hi_log = (\<lambda>_. []), hi_events = [], hi_stale = {}, hi_misled = {}\<rparr>"

definition with_events :: "'st node \<Rightarrow> 'st node \<Rightarrow> history \<Rightarrow> history" where
  \<comment> \<open>what the node has recorded on the way from \<open>n\<close> to \<open>n'\<close>\<close>
  "with_events n n' h = h\<lparr>hi_events := hi_events h @ drop (length (nd_events n)) (nd_events n')\<rparr>"

definition with_log :: "nat \<Rightarrow> entry list \<Rightarrow> history \<Rightarrow> history" where
  "with_log t lg h = h\<lparr>hi_log := (hi_log h)(t := lg)\<rparr>"

definition with_leader :: "nat \<Rightarrow> string \<Rightarrow> entry list \<Rightarrow> history \<Rightarrow> history" where
  "with_leader t v base h = h\<lparr>hi_leader := (hi_leader h)(t := Some v), hi_base := (hi_base h)(t := base)\<rparr>"

definition wins :: "bool \<Rightarrow> 'st node \<Rightarrow> bool" where
  "wins timed_out n \<longleftrightarrow> \<not> timed_out \<and> nd_role n = Candidate \<and> nd_campaign_term n = Some (nd_term n)"

inductive raft_step :: "'st storage \<Rightarrow> (rng \<Rightarrow> 'st \<Rightarrow> 'st) \<Rightarrow> string list \<Rightarrow> 'st run \<Rightarrow> 'st run \<Rightarrow> bool"
  for ops crash members where
  ask: "\<lbrakk>v \<in> set members; nd_campaign_term (cl_nodes c v) = Some term\<rbrakk> \<Longrightarrow>
    raft_step ops crash members (c, h) (c, h\<lparr>hi_asked := insert (solicitation term (cl_nodes c v)) (hi_asked h)\<rparr>)"
| vote: "\<lbrakk>v \<in> set members; m \<in> hi_asked h; n = cl_nodes c v; handle_request_vote ops m n = ((t, g), n')\<rbrakk> \<Longrightarrow>
    raft_step ops crash members (c, h) ((with_node v n' c)
      \<lparr>cl_answers := insert (vr_term m, vr_candidate m, v, t, g) (cl_answers c),
       cl_votes := (if g then insert (vr_term m, v, vr_candidate m) (cl_votes c) else cl_votes c)\<rparr>, h)"
| send: "\<lbrakk>v \<in> set members; n = cl_nodes c v; nd_lead_term n = Some term; peer \<in> set (nd_peers n);
      push_request peer term n = Inr (prev, m)\<rbrakk> \<Longrightarrow>
    raft_step ops crash members (c, h) (c,
      if nd_role n = Leader \<and> nd_term n = term then h\<lparr>hi_sent := insert (m, nd_log n) (hi_sent h)\<rparr>
      else h\<lparr>hi_stale := insert m (hi_stale h)\<rparr>)"
| append: "\<lbrakk>v \<in> set members; (m, lg) \<in> hi_sent h; n = cl_nodes c v; handle_append_entries ops m n = ((t, ok), n')\<rbrakk> \<Longrightarrow>
    raft_step ops crash members (c, h) (with_node v n' c,
      (with_events n n' h)\<lparr>hi_oks := (if ok then insert (m, lg, v) (hi_oks h) else hi_oks h)\<rparr>)"
| append_stale: "\<lbrakk>v \<in> set members; m \<in> hi_stale h; n = cl_nodes c v; handle_append_entries ops m n = ((t, ok), n')\<rbrakk> \<Longrightarrow>
    raft_step ops crash members (c, h) (with_node v n' c,
      (with_events n n' h)\<lparr>hi_misled := (if ok then insert (m, v) (hi_misled h) else hi_misled h)\<rparr>)"
| propose: "\<lbrakk>v \<in> set members; n = cl_nodes c v; handle_propose ops cmd n = (r, n')\<rbrakk> \<Longrightarrow>
    raft_step ops crash members (c, h) (with_node v n' c,
      if nd_role n = Leader then with_log (nd_term n) (nd_log n') h else h)"
| follow_timeout: "\<lbrakk>v \<in> set members; nd_role (cl_nodes c v) = Follower; nd_campaign_term (cl_nodes c v) = None;
      nd_lead_term (cl_nodes c v) = None\<rbrakk> \<Longrightarrow>
    raft_step ops crash members (c, h) (with_node v (RaftNode.follow_timeout (cl_nodes c v)) c, h)"
| campaign: "\<lbrakk>v \<in> set members; nd_role (cl_nodes c v) = Candidate; nd_campaign_term (cl_nodes c v) = None;
      nd_lead_term (cl_nodes c v) = None; n' = start_campaign ops (cl_nodes c v)\<rbrakk> \<Longrightarrow>
    raft_step ops crash members (c, h) ((with_node v n' c)\<lparr>cl_votes := insert (nd_term n', v, v) (cl_votes c)\<rparr>, h)"
| solicited: "\<lbrakk>v \<in> set members; nd_campaign_term (cl_nodes c v) = Some term; peer \<in> set (nd_solicitors (cl_nodes c v));
      reply = None \<or> (\<exists>t g. reply = Some (t, g) \<and> (term, v, peer, t, g) \<in> cl_answers c)\<rbrakk> \<Longrightarrow>
    raft_step ops crash members (c, h) (with_node v (solicit_reply ops term peer reply (cl_nodes c v)) c, h)"
| campaign_over: "\<lbrakk>v \<in> set members; n = cl_nodes c v; nd_campaign_term n = Some term; timed_out \<or> nd_settled n;
      n' = end_campaign ops timed_out n\<rbrakk> \<Longrightarrow>
    raft_step ops crash members (c, h) (with_node v n' c,
      if wins timed_out n then with_events n n' (with_log (nd_term n) (nd_log n') (with_leader (nd_term n) v (nd_log n) h)) else h)"
| lead: "\<lbrakk>v \<in> set members; nd_role (cl_nodes c v) = Leader; nd_campaign_term (cl_nodes c v) = None;
      nd_lead_term (cl_nodes c v) = None\<rbrakk> \<Longrightarrow>
    raft_step ops crash members (c, h) (with_node v (start_lead (cl_nodes c v)) c, h)"
| lead_over: "\<lbrakk>v \<in> set members; nd_lead_term (cl_nodes c v) = Some term;
      nd_role (cl_nodes c v) \<noteq> Leader \<or> nd_term (cl_nodes c v) \<noteq> term\<rbrakk> \<Longrightarrow>
    raft_step ops crash members (c, h) (with_node v (end_lead (cl_nodes c v)) c, h)"
| pushed: "\<lbrakk>v \<in> set members; n = cl_nodes c v; nd_lead_term n = Some term; peer \<in> set (nd_peers n);
      \<And>t. reply = Some (t, True) \<Longrightarrow>
        \<exists>m. ((m, peer) \<in> hi_misled h \<or> (\<exists>lg. (m, lg, peer) \<in> hi_oks h)) \<and> ar_term m = term \<and> ar_prev_log_index m = prev \<and> length (ar_entries m) = len;
      push_reply ops peer term prev len reply n = (what, n')\<rbrakk> \<Longrightarrow>
    raft_step ops crash members (c, h) (with_node v n' c, with_events n n' h)"
| restart: "v \<in> set members \<Longrightarrow>
    raft_step ops crash members (c, h)
      ((with_node v (node_init ops v (nd_peers (cl_nodes c v)) (crash r (nd_storage (cl_nodes c v))) (nd_safeguards (cl_nodes c v))) c)
        \<lparr>cl_events := cl_events c @ nd_events (cl_nodes c v)\<rparr>, h)"

lemma raft_step_cluster:
  assumes "raft_step ops crash members (c, h) (c', h')"
  shows "c' = c \<or> cluster_step ops crash members c c'"
  using assms
proof cases
  case (vote v m n t g n')
  then show ?thesis using cluster_step.request_vote by blast
next
  case (append v m lg n t ok n')
  then show ?thesis using cluster_step.append_entries by blast
next
  case (append_stale v m n t ok n')
  then show ?thesis using cluster_step.append_entries by blast
next
  case (propose v n cmd r n')
  then show ?thesis using cluster_step.propose by blast
next
  case (pushed v n "term" peer reply prev len "what" n')
  then show ?thesis using cluster_step.pushed [of v members c "term" ops peer prev len reply "what" n'] by simp
next
  case (campaign v n')
  then show ?thesis using cluster_step.campaign by blast
next
  case (campaign_over v n "term" timed_out n')
  then show ?thesis using cluster_step.campaign_over by blast
next
  case (follow_timeout v)
  then show ?thesis using cluster_step.follow_timeout by blast
next
  case (solicited v "term" peer reply)
  then show ?thesis using cluster_step.solicited by blast
next
  case (lead v)
  then show ?thesis using cluster_step.lead by blast
next
  case (lead_over v "term")
  then show ?thesis using cluster_step.lead_over by blast
next
  case (restart v r)
  show ?thesis unfolding restart(1) by (rule disjI2) (rule cluster_step.restart [OF restart(3)])
qed simp_all

text \<open>A peer that was misled once stays recorded as such.\<close>

lemma misled_grows:
  assumes "raft_step ops crash members s s'"
  shows "hi_misled (snd s) \<subseteq> hi_misled (snd s')"
  using assms by cases (auto simp: with_events_def with_log_def with_leader_def)

lemma misled_grows_run: "(raft_step ops crash members)\<^sup>*\<^sup>* s s' \<Longrightarrow> hi_misled (snd s) \<subseteq> hi_misled (snd s')"
  by (induction rule: rtranclp_induct) (use misled_grows in \<open>blast+\<close>)

context raft_storage begin

lemma raft_step_inv:
  assumes "raft_step ops crash members (c, h) (c', h')" and "cluster_inv ops inv clean members c" and "distinct members"
  shows "cluster_inv ops inv clean members c'"
  using raft_step_cluster [OF assms(1)] cluster_inv_steps [OF _ assms(2,3)] assms(2) by blast

end

section \<open>What a run knows\<close>

definition own :: "history \<Rightarrow> nat \<Rightarrow> nat \<Rightarrow> bool" where
  \<comment> \<open>the leader of \<open>t\<close> wrote the entry at index \<open>i\<close>\<close>
  "own h t i \<longleftrightarrow> hi_leader h t \<noteq> None \<and> length (hi_base h t) < i \<and> i \<le> length (hi_log h t)"

definition holds :: "history \<Rightarrow> nat \<Rightarrow> nat \<Rightarrow> entry list \<Rightarrow> bool" where
  "holds h t i lg \<longleftrightarrow> take i lg = take i (hi_log h t)"

definition acked :: "history \<Rightarrow> nat \<Rightarrow> nat \<Rightarrow> string \<Rightarrow> bool" where
  \<comment> \<open>\<open>w\<close> has told the leader of \<open>t\<close>, or is that leader, that it has the log up to \<open>i\<close>\<close>
  "acked h t i w \<longleftrightarrow> hi_leader h t = Some w \<and> i \<le> length (hi_log h t) \<or>
     (\<exists>m lg. (m, lg, w) \<in> hi_oks h \<and> ar_term m = t \<and> i \<le> length lg)"

definition majority :: "string list \<Rightarrow> string set \<Rightarrow> bool" where
  "majority members Q \<longleftrightarrow> Q \<subseteq> set members \<and> length members div 2 + 1 \<le> card Q"

definition committed :: "string list \<Rightarrow> history \<Rightarrow> nat \<Rightarrow> nat \<Rightarrow> bool" where
  "committed members h t i \<longleftrightarrow> own h t i \<and> (\<exists>Q. majority members Q \<and> (\<forall>w\<in>Q. acked h t i w))"

definition blocked :: "string list \<Rightarrow> 'st cluster \<Rightarrow> history \<Rightarrow> nat \<Rightarrow> nat \<Rightarrow> bool" where
  \<comment> \<open>a majority has moved on without it: the entry can no longer be committed in its term\<close>
  "blocked members c h t i \<longleftrightarrow> (\<exists>Q. majority members Q \<and> (\<forall>w\<in>Q. t < nd_term (cl_nodes c w) \<and> \<not> acked h t i w))"

definition valid_log :: "history \<Rightarrow> entry list \<Rightarrow> bool" where
  \<comment> \<open>up to each entry, the log is the log of the leader of that entry's term\<close>
  "valid_log h lg \<longleftrightarrow> (\<forall>j<length lg. own h (en_term (lg ! j)) (Suc j) \<and> holds h (en_term (lg ! j)) (Suc j) lg)"

definition safe_prefix :: "string list \<Rightarrow> history \<Rightarrow> nat \<Rightarrow> entry list \<Rightarrow> nat \<Rightarrow> bool" where
  \<comment> \<open>the first \<open>k\<close> entries are committed, in terms up to \<open>u\<close>\<close>
  "safe_prefix members h u lg k \<longleftrightarrow> k = 0 \<or> (\<exists>t i. t \<le> u \<and> committed members h t i \<and> k \<le> i \<and> holds h t k lg)"

definition applied_indices :: "event list \<Rightarrow> nat set" where
  "applied_indices es = {j. \<exists>name t cmd u. ApplyEv name j t cmd u \<in> set es}"

definition announced :: "history \<Rightarrow> entry list \<Rightarrow> nat \<Rightarrow> bool" where
  "announced h lg k \<longleftrightarrow> (\<forall>j<k. en_command (lg ! j) \<noteq> [] \<longrightarrow> Suc j \<in> applied_indices (hi_events h))"

lemma majorities_share: "majority members A \<Longrightarrow> majority members B \<Longrightarrow> \<exists>w. w \<in> A \<and> w \<in> B"
  using majorities_meet [of members A B] by (auto simp: majority_def)

lemma committed_not_blocked: "committed members h t i \<Longrightarrow> \<not> blocked members c h t i"
  unfolding committed_def blocked_def by (blast dest: majorities_share)

lemma holds_le: "holds h t i lg \<Longrightarrow> k \<le> i \<Longrightarrow> holds h t k lg"
  unfolding holds_def by (metis min_absorb1 take_take)

lemma holds_length: "holds h t i lg \<Longrightarrow> i \<le> length (hi_log h t) \<Longrightarrow> i \<le> length lg"
  unfolding holds_def by (metis length_take min.absorb2 min.cobounded1)

lemma holds_append: "holds h t i lg \<Longrightarrow> i \<le> length (hi_log h t) \<Longrightarrow> holds h t i (lg @ es)"
  using holds_length [of h t i lg] by (simp add: holds_def)

lemma holds_take: "i \<le> n \<Longrightarrow> holds h t i (take n lg) = holds h t i lg"
  by (simp add: holds_def min_def)

lemma safe_prefix_length: "safe_prefix members h u lg k \<Longrightarrow> k \<le> length lg"
  unfolding safe_prefix_def committed_def own_def by (auto intro: holds_length)

section \<open>Logs\<close>

text \<open>What holds of the term \<open>t\<close> once it has a leader.\<close>

definition term_ok :: "string list \<Rightarrow> 'st cluster \<Rightarrow> history \<Rightarrow> nat \<Rightarrow> bool" where
  "term_ok members c h t \<longleftrightarrow> (\<forall>v. hi_leader h t = Some v \<longrightarrow> v \<in> set members \<and> t \<le> nd_term (cl_nodes c v) \<and>
     elected (cl_votes c) members v t \<and> valid_log h (hi_base h t) \<and> (\<forall>e\<in>set (hi_base h t). en_term e < t) \<and>
     (\<exists>es. es \<noteq> [] \<and> hi_log h t = hi_base h t @ es \<and> (\<forall>e\<in>set es. en_term e = t)))"

lemma term_ok_split:
  assumes "term_ok members c h t" and "hi_leader h t \<noteq> None"
  obtains es where "es \<noteq> []" "hi_log h t = hi_base h t @ es" "\<And>e. e \<in> set es \<Longrightarrow> en_term e = t"
    "valid_log h (hi_base h t)" "\<And>e. e \<in> set (hi_base h t) \<Longrightarrow> en_term e < t"
proof -
  from assms(2) obtain v where "hi_leader h t = Some v" by auto
  with assms(1) that show thesis unfolding term_ok_def by blast
qed

lemma own_term:
  assumes "term_ok members c h t" and "own h t i"
  shows "en_term (hi_log h t ! (i - 1)) = t"
proof -
  from assms(2) have o: "hi_leader h t \<noteq> None" "length (hi_base h t) < i" "i \<le> length (hi_log h t)" by (auto simp: own_def)
  obtain es where es: "hi_log h t = hi_base h t @ es" "\<And>e. e \<in> set es \<Longrightarrow> en_term e = t"
    using term_ok_split [OF assms(1) o(1)] by metis
  have "hi_log h t ! (i - 1) \<in> set es" using o es(1) by (auto simp: nth_append)
  then show ?thesis by (rule es(2))
qed

lemma leader_log_terms:
  assumes "term_ok members c h t" and "hi_leader h t \<noteq> None" and "e \<in> set (hi_log h t)"
  shows "en_term e \<le> t"
proof -
  obtain es where "hi_log h t = hi_base h t @ es" "\<And>e. e \<in> set es \<Longrightarrow> en_term e = t"
    "\<And>e. e \<in> set (hi_base h t) \<Longrightarrow> en_term e < t"
    using term_ok_split [OF assms(1,2)] by metis
  with assms(3) show ?thesis by force
qed

lemma own_index:
  \<comment> \<open>an entry of the leader's own term is its own\<close>
  assumes "term_ok members c h t" and "hi_leader h t \<noteq> None" and "j < length (hi_log h t)" and "en_term (hi_log h t ! j) = t"
  shows "own h t (Suc j)"
proof -
  have "length (hi_base h t) \<le> j"
  proof (rule ccontr)
    assume "\<not> length (hi_base h t) \<le> j"
    moreover obtain es where "hi_log h t = hi_base h t @ es" "\<And>e. e \<in> set (hi_base h t) \<Longrightarrow> en_term e < t"
      using term_ok_split [OF assms(1,2)] by metis
    ultimately have "en_term (hi_base h t ! j) < t" "hi_log h t ! j = hi_base h t ! j" by (simp_all add: nth_append)
    with assms(4) show False by simp
  qed
  with assms show ?thesis by (simp add: own_def)
qed

lemma valid_log_leader:
  assumes "term_ok members c h t" and "hi_leader h t \<noteq> None"
  shows "valid_log h (hi_log h t)"
proof -
  obtain es where es: "hi_log h t = hi_base h t @ es" "\<And>e. e \<in> set es \<Longrightarrow> en_term e = t" "valid_log h (hi_base h t)"
    using term_ok_split [OF assms] by metis
  show ?thesis unfolding valid_log_def
  proof (intro allI impI)
    fix j assume j: "j < length (hi_log h t)"
    show "own h (en_term (hi_log h t ! j)) (Suc j) \<and> holds h (en_term (hi_log h t ! j)) (Suc j) (hi_log h t)"
    proof (cases "j < length (hi_base h t)")
      case True
      with es show ?thesis by (auto simp: valid_log_def nth_append holds_def)
    next
      case False
      then have "en_term (hi_log h t ! j) = t" using es j by (auto simp: nth_append)
      with False j assms(2) show ?thesis by (simp add: own_def holds_def)
    qed
  qed
qed

lemma valid_log_take: "valid_log h lg \<Longrightarrow> valid_log h (take n lg)"
  by (auto simp: valid_log_def holds_take)

lemma valid_log_last:
  assumes "valid_log h lg" and "lg \<noteq> []"
  shows "own h (last_log_term lg) (length lg)" "lg = take (length lg) (hi_log h (last_log_term lg))"
  using assms unfolding valid_log_def last_log_term_def last_conv_nth [OF assms(2)] holds_def
  by (auto dest!: spec [of _ "length lg - 1"])

text \<open>Log matching, for any two logs.\<close>

lemma valid_logs_match:
  assumes "valid_log h a" and "valid_log h b" and "j < length a" and "j < length b"
    and "en_term (a ! j) = en_term (b ! j)"
  shows "take (Suc j) a = take (Suc j) b"
  using assms unfolding valid_log_def holds_def by metis

lemma valid_log_terms:
  assumes "\<And>t. term_ok members c h t" and "valid_log h lg" and "e \<in> set lg"
  shows "en_term e \<le> last_log_term lg"
proof -
  have "lg \<noteq> []" using assms(3) by auto
  note l = valid_log_last [OF assms(2) this]
  then have "e \<in> set (hi_log h (last_log_term lg))" using assms(3) by (metis in_set_takeD)
  with leader_log_terms [OF assms(1)] l(1) show ?thesis by (auto simp: own_def)
qed

lemma last_log_term_take: "0 < n \<Longrightarrow> n \<le> length lg \<Longrightarrow> last_log_term (take n lg) = en_term (lg ! (n - 1))"
  by (auto simp: last_log_term_def last_conv_nth)

section \<open>What a step of one node may change\<close>

text \<open>
  Only the acting node \<open>v\<close> accepts requests, writes entries of a term it leads, or becomes a leader,
  and it does so in the term it is in.
\<close>

definition grows :: "string \<Rightarrow> 'st cluster \<Rightarrow> history \<Rightarrow> 'st cluster \<Rightarrow> history \<Rightarrow> bool" where
  "grows v c h c' h' \<longleftrightarrow>
     (\<forall>u. nd_term (cl_nodes c u) \<le> nd_term (cl_nodes c' u)) \<and>
     (\<forall>t u. hi_leader h t = Some u \<longrightarrow> hi_leader h' t = Some u \<and> hi_base h' t = hi_base h t \<and>
        (\<exists>es. hi_log h' t = hi_log h t @ es \<and> (es = [] \<or> u = v \<and> nd_term (cl_nodes c' v) = t))) \<and>
     (\<forall>t u. hi_leader h' t = Some u \<longrightarrow> hi_leader h t = Some u \<or> hi_leader h t = None \<and> u = v \<and> nd_term (cl_nodes c' v) = t) \<and>
     (\<forall>t i w. acked h t i w \<longrightarrow> acked h' t i w) \<and>
     (\<forall>t i w. acked h' t i w \<longrightarrow> acked h t i w \<or> w = v \<and> nd_term (cl_nodes c' v) = t) \<and>
     (\<forall>t i. own h' t i \<longrightarrow> own h t i \<or> nd_term (cl_nodes c' v) = t \<and> (\<forall>w. acked h' t i w \<longrightarrow> w = v)) \<and>
     set (hi_events h) \<subseteq> set (hi_events h')"

lemma growsD:
  assumes "grows v c h c' h'"
  shows grows_term: "nd_term (cl_nodes c u) \<le> nd_term (cl_nodes c' u)"
    and grows_leader: "hi_leader h t = Some u \<Longrightarrow> hi_leader h' t = Some u"
    and grows_new_leader: "hi_leader h' t = Some u \<Longrightarrow>
      hi_leader h t = Some u \<or> hi_leader h t = None \<and> u = v \<and> nd_term (cl_nodes c' v) = t"
    and grows_base: "hi_leader h t \<noteq> None \<Longrightarrow> hi_base h' t = hi_base h t"
    and grows_log: "hi_leader h t \<noteq> None \<Longrightarrow> \<exists>es. hi_log h' t = hi_log h t @ es"
    and grows_other_log: "hi_leader h t = Some u \<Longrightarrow> u \<noteq> v \<Longrightarrow> hi_log h' t = hi_log h t"
    and grows_acked: "acked h t i w \<Longrightarrow> acked h' t i w"
    and grows_new_acked: "acked h' t i w \<Longrightarrow> acked h t i w \<or> w = v \<and> nd_term (cl_nodes c' v) = t"
    and grows_new_own: "own h' t i \<Longrightarrow> own h t i \<or> nd_term (cl_nodes c' v) = t \<and> (\<forall>w. acked h' t i w \<longrightarrow> w = v)"
    and grows_events: "set (hi_events h) \<subseteq> set (hi_events h')"
proof -
  note g = assms [unfolded grows_def]
  show "nd_term (cl_nodes c u) \<le> nd_term (cl_nodes c' u)" using g by blast
  show "hi_leader h' t = Some u" if "hi_leader h t = Some u" using g that by blast
  show "hi_leader h t = Some u \<or> hi_leader h t = None \<and> u = v \<and> nd_term (cl_nodes c' v) = t" if "hi_leader h' t = Some u"
    using g that by blast
  show "hi_base h' t = hi_base h t" "\<exists>es. hi_log h' t = hi_log h t @ es" if "hi_leader h t \<noteq> None" using g that by blast+
  show "hi_log h' t = hi_log h t" if "hi_leader h t = Some u" "u \<noteq> v" using g that by (metis append_Nil2)
  show "acked h' t i w" if "acked h t i w" using g that by blast
  show "acked h t i w \<or> w = v \<and> nd_term (cl_nodes c' v) = t" if "acked h' t i w" using g that by blast
  show "own h t i \<or> nd_term (cl_nodes c' v) = t \<and> (\<forall>w. acked h' t i w \<longrightarrow> w = v)" if "own h' t i" using g that by blast
  show "set (hi_events h) \<subseteq> set (hi_events h')" using g by blast
qed

lemma own_grows: "grows v c h c' h' \<Longrightarrow> own h t i \<Longrightarrow> own h' t i"
  using grows_base [of v c h c' h' t] grows_log [of v c h c' h' t] grows_leader [of v c h c' h' t]
  by (fastforce simp: own_def)

lemma holds_grows:
  assumes "grows v c h c' h'" and "own h t i" and "k \<le> i"
  shows "holds h' t k lg = holds h t k lg"
  using assms grows_log [OF assms(1), of t] by (auto simp: own_def holds_def)

lemma committed_grows: "grows v c h c' h' \<Longrightarrow> committed members h t i \<Longrightarrow> committed members h' t i"
  unfolding committed_def by (blast intro: own_grows grows_acked)

lemma blocked_grows:
  assumes g: "grows v c h c' h'" and "blocked members c h t i"
  shows "blocked members c' h' t i"
proof -
  obtain Q where Q: "majority members Q" "\<And>w. w \<in> Q \<Longrightarrow> t < nd_term (cl_nodes c w) \<and> \<not> acked h t i w"
    using assms(2) by (auto simp: blocked_def)
  have "t < nd_term (cl_nodes c' w) \<and> \<not> acked h' t i w" if "w \<in> Q" for w
    using Q(2) [OF that] grows_term [OF g, of w] grows_new_acked [OF g, of t i w] by auto
  with Q(1) show ?thesis by (auto simp: blocked_def)
qed

lemma valid_log_grows: "grows v c h c' h' \<Longrightarrow> valid_log h lg \<Longrightarrow> valid_log h' lg"
  unfolding valid_log_def by (meson holds_grows le_refl own_grows)

lemma safe_prefix_grows:
  assumes "grows v c h c' h'" and "safe_prefix members h t lg k" and "t \<le> t'"
  shows "safe_prefix members h' t' lg k"
proof (cases "k = 0")
  case False
  with assms(2) obtain u i where u: "u \<le> t" "committed members h u i" "k \<le> i" "holds h u k lg"
    by (auto simp: safe_prefix_def)
  then have "holds h' u k lg" using holds_grows [OF assms(1)] by (auto simp: committed_def)
  with u assms committed_grows show ?thesis unfolding safe_prefix_def by (meson order_trans)
qed (simp add: safe_prefix_def)

lemma announced_grows: "grows v c h c' h' \<Longrightarrow> announced h lg k \<Longrightarrow> announced h' lg k"
  using grows_events [of v c h c' h'] by (fastforce simp: announced_def applied_indices_def)

lemma announced_take:
  assumes "announced h lg k" and "take k lg' = take k lg"
  shows "announced h lg' k"
proof -
  have "lg' ! j = lg ! j" if "j < k" for j using assms(2) that by (metis nth_take)
  with assms(1) show ?thesis by (simp add: announced_def)
qed

lemma announced_le: "announced h lg k \<Longrightarrow> k' \<le> k \<Longrightarrow> announced h lg k'"
  by (simp add: announced_def)

lemma safe_prefix_take:
  assumes "safe_prefix members h u lg k" and "take k' lg' = take k' lg" and "k' \<le> k" and "u \<le> u'"
  shows "safe_prefix members h u' lg' k'"
proof (cases "k = 0")
  case False
  with assms(1) obtain t i where t: "t \<le> u" "committed members h t i" "k \<le> i" "holds h t k lg"
    by (auto simp: safe_prefix_def)
  then have "holds h t k' lg'" using holds_le [OF t(4) assms(3)] assms(2) by (simp add: holds_def)
  with t assms(3,4) show ?thesis unfolding safe_prefix_def by (meson order_trans)
qed (use assms(3) in \<open>simp add: safe_prefix_def\<close>)

text \<open>An entry written after its leader was overtaken is blocked from the start.\<close>

lemma overtaken_blocked:
  assumes "\<And>w. acked h t i w \<Longrightarrow> nd_term (cl_nodes c w) = t"
    and "t < t'" and "elected (cl_votes c) members u t'"
    and votes: "\<And>t w u. (t, w, u) \<in> cl_votes c \<Longrightarrow> t \<le> nd_term (cl_nodes c w)"
  shows "blocked members c h t i"
  unfolding blocked_def
proof (intro exI [of _ "ballots (cl_votes c) members t' u"] conjI ballI)
  show "majority members (ballots (cl_votes c) members t' u)"
    using assms(3) by (auto simp: majority_def elected_def ballots_def)
  fix w assume "w \<in> ballots (cl_votes c) members t' u"
  then have "t' \<le> nd_term (cl_nodes c w)" using votes by (auto simp: ballots_def)
  then show "t < nd_term (cl_nodes c w)" "\<not> acked h t i w" using assms(1) [of w] assms(2) by auto
qed

section \<open>How the history grows\<close>

lemma acked_log_cong:
  assumes "hi_leader h' = hi_leader h" and "hi_log h' = hi_log h" and "hi_oks h' = hi_oks h"
  shows "acked h' = acked h"
  using assms by (simp add: acked_def fun_eq_iff)

lemma own_cong: "hi_leader h' = hi_leader h \<Longrightarrow> hi_base h' = hi_base h \<Longrightarrow> hi_log h' = hi_log h \<Longrightarrow> own h' = own h"
  by (simp add: own_def fun_eq_iff)

lemma grows_same:
  assumes "\<And>u. nd_term (cl_nodes c u) \<le> nd_term (cl_nodes c' u)"
    and "hi_leader h' = hi_leader h" and "hi_base h' = hi_base h" and "hi_log h' = hi_log h" and "hi_oks h' = hi_oks h"
    and "set (hi_events h) \<subseteq> set (hi_events h')"
  shows "grows v c h c' h'"
  using assms acked_log_cong [OF assms(2,4,5)] own_cong [OF assms(2,3,4)] by (simp add: grows_def)

lemma grows_accepted:
  assumes "\<And>u. nd_term (cl_nodes c u) \<le> nd_term (cl_nodes c' u)"
    and "hi_leader h' = hi_leader h" and "hi_base h' = hi_base h" and "hi_log h' = hi_log h"
    and "hi_oks h' = insert (m, lg, v) (hi_oks h)" and "ar_term m = nd_term (cl_nodes c' v)"
    and "set (hi_events h) \<subseteq> set (hi_events h')"
  shows "grows v c h c' h'"
proof -
  have a: "acked h' t i w \<longleftrightarrow> acked h t i w \<or> w = v \<and> nd_term (cl_nodes c' v) = t \<and> i \<le> length lg" for t i w
    using assms(2,4-6) unfolding acked_def by auto
  then show ?thesis using assms own_cong [OF assms(2-4)] by (simp add: grows_def)
qed

text \<open>The leader \<open>v\<close> of its term \<open>t\<close> (or the node that becomes it) writes to its log.\<close>

lemma grows_written:
  assumes up: "\<And>u. nd_term (cl_nodes c u) \<le> nd_term (cl_nodes c' u)"
    and h': "hi_leader h' = (hi_leader h)(t := Some v)" "hi_base h' = (hi_base h)(t := base)" "hi_log h' = (hi_log h)(t := lg @ es)"
      "hi_oks h' = hi_oks h" "set (hi_events h) \<subseteq> set (hi_events h')"
    and t: "nd_term (cl_nodes c' v) = t"
    and old: "hi_leader h t = None \<and> lg = base \<or> hi_leader h t = Some v \<and> base = hi_base h t \<and> lg = hi_log h t"
    and oks: "\<And>m l w. (m, l, w) \<in> hi_oks h \<Longrightarrow> ar_term m = t \<Longrightarrow> hi_leader h t \<noteq> None \<and> length l \<le> length lg"
  shows "grows v c h c' h'"
  unfolding grows_def
proof (intro conjI allI impI)
  show "nd_term (cl_nodes c u) \<le> nd_term (cl_nodes c' u)" for u by (rule up)
  show "set (hi_events h) \<subseteq> set (hi_events h')" by (rule h'(5))
  fix t' u assume l: "hi_leader h t' = Some u"
  show "hi_leader h' t' = Some u" "hi_base h' t' = hi_base h t'" using l old by (auto simp: h')
  show "\<exists>es. hi_log h' t' = hi_log h t' @ es \<and> (es = [] \<or> u = v \<and> nd_term (cl_nodes c' v) = t')"
  proof (cases "t' = t")
    case True
    with l old t show ?thesis by (intro exI [of _ es]) (auto simp: h'(3))
  qed (simp add: h'(3))
next
  fix t' u assume l: "hi_leader h' t' = Some u"
  then show "hi_leader h t' = Some u \<or> hi_leader h t' = None \<and> u = v \<and> nd_term (cl_nodes c' v) = t'"
    using old t by (auto simp: h' split: if_splits)
next
  fix t' i w assume "acked h t' i w"
  then show "acked h' t' i w" using old by (auto simp: acked_def h')
next
  fix t' i w assume "acked h' t' i w"
  then show "acked h t' i w \<or> w = v \<and> nd_term (cl_nodes c' v) = t'" using t by (auto simp: acked_def h' split: if_splits)
next
  fix t' i assume o: "own h' t' i"
  show "own h t' i \<or> nd_term (cl_nodes c' v) = t' \<and> (\<forall>w. acked h' t' i w \<longrightarrow> w = v)"
  proof (cases "t' = t \<and> (hi_leader h t = None \<or> length lg < i)")
    case True
    have "w = v" if "acked h' t' i w" for w
      using that True oks o old by (auto simp: acked_def h' own_def dest: oks)
    with True t show ?thesis by simp
  next
    case False
    then have "own h t' i" using o old by (auto simp: own_def h' split: if_splits)
    then show ?thesis ..
  qed
qed

end
