(* ===== verification/RaftInvariant.thy ===== *)
theory RaftInvariant
  imports RaftRun
begin

text \<open>
  The safety argument of Raft on the handlers of \<open>node.py\<close>: an invariant of the runs of \<open>RaftRun\<close>,
  kept by every step. Its heart is leader completeness (\<open>leader_complete\<close>): a later leader started from a
  log that holds what an earlier leader wrote, unless a majority has moved on without it.
\<close>

section \<open>The invariant\<close>

definition campaigning :: "'st node \<Rightarrow> nat \<Rightarrow> bool" where
  "campaigning n t \<longleftrightarrow> nd_role n = Candidate \<and> nd_campaign_term n = Some t \<and> nd_term n = t"

definition backed :: "string list \<Rightarrow> 'st cluster \<Rightarrow> history \<Rightarrow> nat \<Rightarrow> string \<Rightarrow> entry list \<Rightarrow> bool" where
  \<comment> \<open>what the voter \<open>w\<close> had acknowledged before term \<open>u\<close> is in the log \<open>lg\<close>\<close>
  "backed members c h u w lg \<longleftrightarrow>
     (\<forall>t i. t < u \<longrightarrow> own h t i \<longrightarrow> acked h t i w \<longrightarrow> holds h t i lg \<or> blocked members c h t i)"

definition log_good :: "history \<Rightarrow> 'st node \<Rightarrow> bool" where
  "log_good h n \<longleftrightarrow> valid_log h (nd_log n) \<and> (\<forall>e\<in>set (nd_log n). en_term e \<le> nd_term n)"

definition leader_good :: "history \<Rightarrow> string \<Rightarrow> 'st node \<Rightarrow> bool" where
  "leader_good h v n \<longleftrightarrow> (nd_role n = Leader \<longrightarrow> hi_leader h (nd_term n) = Some v \<and> nd_log n = hi_log h (nd_term n) \<and>
     distinct (map fst (nd_match_index n)) \<and> fst ` set (nd_match_index n) \<subseteq> set (nd_peers n) \<and>
     (\<forall>p k. (p, k) \<in> set (nd_match_index n) \<longrightarrow> k = 0 \<or> acked h (nd_term n) k p))"

definition campaign_good :: "string list \<Rightarrow> 'st cluster \<Rightarrow> history \<Rightarrow> string \<Rightarrow> 'st node \<Rightarrow> bool" where
  "campaign_good members c h v n \<longleftrightarrow> (\<forall>t. campaigning n t \<longrightarrow> hi_leader h t \<noteq> Some v \<and>
     (\<forall>e\<in>set (nd_log n). en_term e < t) \<and> (\<forall>w. (t, w, v) \<in> cl_votes c \<longrightarrow> backed members c h t w (nd_log n)))"

definition acks_good :: "string list \<Rightarrow> 'st cluster \<Rightarrow> history \<Rightarrow> string \<Rightarrow> 'st node \<Rightarrow> bool" where
  "acks_good members c h v n \<longleftrightarrow> (\<forall>t i. acked h t i v \<longrightarrow> t \<le> nd_term n \<and>
     (own h t i \<longrightarrow> holds h t i (nd_log n) \<or> blocked members c h t i))"

definition commit_good :: "string list \<Rightarrow> history \<Rightarrow> 'st node \<Rightarrow> bool" where
  "commit_good members h n \<longleftrightarrow> nd_applied_index n = nd_commit_index n \<and>
     safe_prefix members h (nd_term n) (nd_log n) (nd_commit_index n) \<and> announced h (nd_log n) (nd_commit_index n)"

definition node_good :: "string list \<Rightarrow> 'st cluster \<Rightarrow> history \<Rightarrow> string \<Rightarrow> 'st node \<Rightarrow> bool" where
  "node_good members c h v n \<longleftrightarrow> log_good h n \<and> leader_good h v n \<and> campaign_good members c h v n \<and>
     acks_good members c h v n \<and> commit_good members h n"

definition leader_complete :: "string list \<Rightarrow> 'st cluster \<Rightarrow> history \<Rightarrow> bool" where
  "leader_complete members c h \<longleftrightarrow> (\<forall>t i u. own h t i \<longrightarrow> t < u \<longrightarrow> hi_leader h u \<noteq> None \<longrightarrow>
     holds h t i (hi_base h u) \<or> blocked members c h t i)"

definition asked_ok :: "'st cluster \<Rightarrow> vote_request \<Rightarrow> bool" where
  "asked_ok c m \<longleftrightarrow> (let n = cl_nodes c (vr_candidate m) in vr_term m \<le> nd_term n \<and>
     (campaigning n (vr_term m) \<longrightarrow> vr_last_log_index m = length (nd_log n) \<and> vr_last_log_term m = last_log_term (nd_log n)))"

definition sent_ok :: "string list \<Rightarrow> history \<Rightarrow> append_request \<Rightarrow> entry list \<Rightarrow> bool" where
  "sent_ok members h m lg \<longleftrightarrow> hi_leader h (ar_term m) \<noteq> None \<and> holds h (ar_term m) (length lg) lg \<and>
     length (hi_base h (ar_term m)) < length lg \<and> length lg \<le> length (hi_log h (ar_term m)) \<and>
     ar_prev_log_index m \<le> length lg \<and>
     (0 < ar_prev_log_index m \<longrightarrow> ar_prev_log_term m = en_term (lg ! (ar_prev_log_index m - 1))) \<and>
     ar_entries m = drop (ar_prev_log_index m) lg \<and>
     safe_prefix members h (ar_term m) lg (ar_leader_commit m) \<and> announced h lg (ar_leader_commit m)"

fun event_ok :: "string list \<Rightarrow> history \<Rightarrow> nat set \<Rightarrow> event \<Rightarrow> bool" where
  "event_ok members h seen (LeaderEv name t lg) \<longleftrightarrow> hi_leader h t = Some name \<and> (\<exists>e. lg = hi_base h t @ [e])"
| "event_ok members h seen (ApplyEv name j t cmd u) \<longleftrightarrow>
     (\<exists>s i. 0 < j \<and> j \<le> i \<and> committed members h s i \<and> hi_log h s ! (j - 1) = \<lparr>en_term = t, en_command = cmd\<rparr> \<and>
        (j \<notin> seen \<longrightarrow> s = u))"

fun events_ok :: "string list \<Rightarrow> history \<Rightarrow> nat set \<Rightarrow> event list \<Rightarrow> bool" where
  "events_ok members h seen [] \<longleftrightarrow> True"
| "events_ok members h seen (e # es) \<longleftrightarrow>
     event_ok members h seen e \<and> events_ok members h (seen \<union> applied_indices [e]) es"

definition raft_inv :: "string list \<Rightarrow> 'st cluster \<Rightarrow> history \<Rightarrow> bool" where
  "raft_inv members c h \<longleftrightarrow> (\<forall>t. term_ok members c h t) \<and> leader_complete members c h \<and>
     (\<forall>v\<in>set members. node_good members c h v (cl_nodes c v)) \<and>
     (\<forall>t w u. (t, w, u) \<in> cl_votes c \<longrightarrow> t \<le> nd_term (cl_nodes c u)) \<and>
     (\<forall>m\<in>hi_asked h. vr_candidate m \<in> set members \<and> asked_ok c m) \<and>
     (\<forall>m lg. (m, lg) \<in> hi_sent h \<longrightarrow> sent_ok members h m lg) \<and>
     (\<forall>m lg w. (m, lg, w) \<in> hi_oks h \<longrightarrow> (m, lg) \<in> hi_sent h) \<and> events_ok members h {} (hi_events h)"

section \<open>Events\<close>

lemma applied_indices_simps [simp]:
  "applied_indices [] = {}" "applied_indices (LeaderEv name t lg # es) = applied_indices es"
  "applied_indices (ApplyEv name j t cmd u # es) = insert j (applied_indices es)"
  "applied_indices (es @ es') = applied_indices es \<union> applied_indices es'"
  by (auto simp: applied_indices_def)

lemma event_ok_seen: "event_ok members h seen e \<Longrightarrow> seen \<subseteq> seen' \<Longrightarrow> event_ok members h seen' e"
  by (cases e) auto

lemma events_ok_append:
  "events_ok members h seen (es @ es') \<longleftrightarrow> events_ok members h seen es \<and> events_ok members h (seen \<union> applied_indices es) es'"
proof (induction es arbitrary: seen)
  case (Cons e es)
  have "applied_indices (e # es) = applied_indices [e] \<union> applied_indices es" by (cases e) auto
  then show ?case by (simp add: Cons.IH Un_assoc)
qed simp

lemma events_ok_all:
  assumes "\<And>e. e \<in> set es \<Longrightarrow> event_ok members h seen e"
  shows "events_ok members h seen es"
proof -
  have "events_ok members h seen' es" if "seen \<subseteq> seen'" for seen'
    using that assms by (induction es arbitrary: seen') (auto intro: event_ok_seen simp: le_supI1)
  then show ?thesis by blast
qed

lemma event_ok_grows:
  assumes g: "grows v c h c' h'" and "event_ok members h seen e"
  shows "event_ok members h' seen e"
proof (cases e)
  case (LeaderEv name t lg)
  with assms grows_leader [OF g] grows_base [OF g, of t] show ?thesis by auto
next
  case (ApplyEv name j t cmd u)
  with assms(2) obtain s i where s: "0 < j" "j \<le> i" "committed members h s i"
    "hi_log h s ! (j - 1) = \<lparr>en_term = t, en_command = cmd\<rparr>" "j \<notin> seen \<longrightarrow> s = u" by auto
  then have "own h s i" by (simp add: committed_def)
  with s(1,2) grows_log [OF g, of s] have "hi_log h' s ! (j - 1) = hi_log h s ! (j - 1)"
    by (auto simp: own_def nth_append)
  moreover have "committed members h' s i" by (rule committed_grows [OF g s(3)])
  ultimately show ?thesis using s ApplyEv by auto
qed

lemma events_ok_grows: "grows v c h c' h' \<Longrightarrow> events_ok members h seen es \<Longrightarrow> events_ok members h' seen es"
  by (induction es arbitrary: seen) (auto intro: event_ok_grows)

section \<open>Steps keep what they do not touch\<close>

lemma votes_bound:
  "cluster_inv ops sound clean members c \<Longrightarrow> (t, w, u) \<in> cl_votes c \<Longrightarrow> t \<le> nd_term (cl_nodes c w)"
  unfolding cluster_inv_def vote_kept_def by fastforce

lemma backed_grows:
  assumes g: "grows v c h c' h'" and "backed members c h u w lg" and "u \<le> nd_term (cl_nodes c w)"
  shows "backed members c' h' u w lg"
  unfolding backed_def
proof (intro allI impI)
  fix t i assume t: "t < u" "own h' t i" "acked h' t i w"
  have later: "\<not> nd_term (cl_nodes c' w) = t" using t(1) assms(3) grows_term [OF g, of w] by simp
  then have "acked h t i w" using grows_new_acked [OF g t(3)] by auto
  moreover have o: "own h t i" using grows_new_own [OF g t(2)] t(3) later by auto
  ultimately have "holds h t i lg \<or> blocked members c h t i" using assms(2) t(1) by (simp add: backed_def)
  then show "holds h' t i lg \<or> blocked members c' h' t i"
    using holds_grows [OF g o le_refl] blocked_grows [OF g] by blast
qed

lemma node_good_other:
  assumes g: "grows v c h c' h'" and u: "u \<noteq> v" "cl_nodes c' u = cl_nodes c u"
    and good: "node_good members c h u (cl_nodes c u)" and votes: "\<And>t w. (t, w, u) \<in> cl_votes c \<Longrightarrow> t \<le> nd_term (cl_nodes c w)"
    and new: "\<And>t w. (t, w, u) \<in> cl_votes c' - cl_votes c \<Longrightarrow> campaigning (cl_nodes c u) t \<Longrightarrow>
      backed members c' h' t w (nd_log (cl_nodes c u))"
  shows "node_good members c' h' u (cl_nodes c' u)"
proof -
  let ?n = "cl_nodes c u"
  have n: "log_good h ?n" "leader_good h u ?n" "campaign_good members c h u ?n" "acks_good members c h u ?n" "commit_good members h ?n"
    using good by (simp_all add: node_good_def)
  have "log_good h' ?n" using n(1) valid_log_grows [OF g] by (simp add: log_good_def)
  moreover have "leader_good h' u ?n"
    using n(2) grows_leader [OF g] grows_other_log [OF g _ u(1)] grows_acked [OF g] unfolding leader_good_def by metis
  moreover have "campaign_good members c' h' u ?n" unfolding campaign_good_def
  proof (intro allI impI)
    fix t assume t: "campaigning ?n t"
    then have "hi_leader h t \<noteq> Some u" "\<forall>e\<in>set (nd_log ?n). en_term e < t"
      "\<And>w. (t, w, u) \<in> cl_votes c \<Longrightarrow> backed members c h t w (nd_log ?n)" using n(3) by (auto simp: campaign_good_def)
    then show "hi_leader h' t \<noteq> Some u \<and> (\<forall>e\<in>set (nd_log ?n). en_term e < t) \<and>
      (\<forall>w. (t, w, u) \<in> cl_votes c' \<longrightarrow> backed members c' h' t w (nd_log ?n))"
      using grows_new_leader [OF g, of t u] u(1) backed_grows [OF g] votes new t by blast
  qed
  moreover have "acks_good members c' h' u ?n" unfolding acks_good_def
  proof (intro allI impI)
    fix t i assume a: "acked h' t i u"
    then have "acked h t i u" using grows_new_acked [OF g] u(1) by blast
    moreover have "own h' t i \<longrightarrow> own h t i" using grows_new_own [OF g] a u(1) by blast
    ultimately show "t \<le> nd_term ?n \<and> (own h' t i \<longrightarrow> holds h' t i (nd_log ?n) \<or> blocked members c' h' t i)"
      using n(4) holds_grows [OF g _ le_refl] blocked_grows [OF g] unfolding acks_good_def by blast
  qed
  moreover have "commit_good members h' ?n"
    using n(5) safe_prefix_grows [OF g _ le_refl] announced_grows [OF g] by (simp add: commit_good_def)
  ultimately show ?thesis by (simp add: node_good_def u(2))
qed

lemma sent_ok_grows:
  assumes g: "grows v c h c' h'" and s: "sent_ok members h m lg"
  shows "sent_ok members h' m lg"
proof -
  let ?t = "ar_term m"
  have l: "hi_leader h ?t \<noteq> None" "length (hi_base h ?t) < length lg" "length lg \<le> length (hi_log h ?t)"
    using s by (simp_all add: sent_ok_def)
  then have o: "own h ?t (length lg)" by (simp add: own_def)
  have "hi_leader h' ?t \<noteq> None" "length (hi_base h' ?t) < length lg" "length lg \<le> length (hi_log h' ?t)"
    using own_grows [OF g o] by (simp_all add: own_def)
  with s show ?thesis
    using holds_grows [OF g o le_refl] safe_prefix_grows [OF g _ le_refl] announced_grows [OF g] by (simp add: sent_ok_def)
qed

lemma term_ok_grows:
  assumes g: "grows v c h c' h'" and "term_ok members c h t" and "hi_leader h t \<noteq> None" and "cl_votes c \<subseteq> cl_votes c'"
    and written: "\<And>es e. hi_log h' t = hi_log h t @ es \<Longrightarrow> e \<in> set es \<Longrightarrow> en_term e = t"
  shows "term_ok members c' h' t"
proof -
  from assms(3) obtain u where u: "hi_leader h t = Some u" by auto
  obtain es where es: "hi_log h' t = hi_log h t @ es" "\<And>e. e \<in> set es \<Longrightarrow> en_term e = t"
    using grows_log [OF g assms(3)] written by blast
  obtain es0 where "es0 \<noteq> []" "hi_log h t = hi_base h t @ es0" "\<And>e. e \<in> set es0 \<Longrightarrow> en_term e = t"
    using term_ok_split [OF assms(2,3)] by metis
  with es have "\<exists>es. es \<noteq> [] \<and> hi_log h' t = hi_base h' t @ es \<and> (\<forall>e\<in>set es. en_term e = t)"
    using grows_base [OF g assms(3)] by (intro exI [of _ "es0 @ es"]) auto
  with assms(2) u show ?thesis
    using grows_leader [OF g u] grows_base [OF g assms(3)] grows_term [OF g, of u] valid_log_grows [OF g] elected_mono [OF _ assms(4)]
    by (auto simp: term_ok_def)
qed

lemma raft_inv_step:
  assumes inv: "raft_inv members c h" and ci: "cluster_inv ops sound clean members c" and ci': "cluster_inv ops sound clean members c'"
    and g: "grows v c h c' h'" and nodes: "cl_nodes c' = (cl_nodes c)(v := n')" and v: "v \<in> set members"
    and good: "node_good members c' h' v n'"
    and votes: "cl_votes c \<subseteq> cl_votes c'"
      "\<And>t w u. (t, w, u) \<in> cl_votes c' - cl_votes c \<Longrightarrow> u \<noteq> v \<Longrightarrow> campaigning (cl_nodes c u) t \<Longrightarrow>
        backed members c' h' t w (nd_log (cl_nodes c u))"
      "\<And>t w u. (t, w, u) \<in> cl_votes c' - cl_votes c \<Longrightarrow> t \<le> nd_term (cl_nodes c' u)"
    and written: "\<And>t es e. hi_leader h t \<noteq> None \<Longrightarrow> hi_log h' t = hi_log h t @ es \<Longrightarrow> e \<in> set es \<Longrightarrow> en_term e = t"
    and elect: "\<And>u. hi_leader h u = None \<Longrightarrow> hi_leader h' u = Some v \<Longrightarrow> term_ok members c' h' u"
      "\<And>u t i. hi_leader h u = None \<Longrightarrow> hi_leader h' u = Some v \<Longrightarrow> own h' t i \<Longrightarrow> t < u \<Longrightarrow>
        holds h' t i (hi_base h' u) \<or> blocked members c' h' t i"
    and asked: "\<And>m. m \<in> hi_asked h' \<Longrightarrow> vr_candidate m = v \<Longrightarrow> asked_ok c' m"
      "\<And>m. m \<in> hi_asked h' \<Longrightarrow> vr_candidate m \<noteq> v \<Longrightarrow> m \<in> hi_asked h"
    and sent: "hi_sent h \<subseteq> hi_sent h'" "\<And>m lg. (m, lg) \<in> hi_sent h' - hi_sent h \<Longrightarrow> sent_ok members h' m lg"
    and oks: "\<And>m lg w. (m, lg, w) \<in> hi_oks h' - hi_oks h \<Longrightarrow> (m, lg) \<in> hi_sent h'"
    and events: "events_ok members h' {} (hi_events h')"
  shows "raft_inv members c' h' \<and> (\<exists>v. grows v c h c' h')"
  unfolding raft_inv_def
proof (intro conjI allI ballI impI)
  show "\<exists>v. grows v c h c' h'" using g ..
  show t: "term_ok members c' h' t" for t
  proof (cases "hi_leader h t")
    case None
    show ?thesis
    proof (cases "hi_leader h' t")
      case (Some u)
      then have "u = v" using grows_new_leader [OF g Some] None by simp
      with elect(1) [of t] None Some show ?thesis by simp
    qed (simp add: term_ok_def)
  next
    case (Some u)
    show ?thesis by (rule term_ok_grows [OF g]) (use inv Some votes(1) written in \<open>auto simp: raft_inv_def\<close>)
  qed
  show "leader_complete members c' h'" unfolding leader_complete_def
  proof (intro allI impI)
    fix t i u assume a: "own h' t i" "t < u" "hi_leader h' u \<noteq> None"
    then obtain w where w: "hi_leader h' u = Some w" by auto
    show "holds h' t i (hi_base h' u) \<or> blocked members c' h' t i"
    proof (cases "hi_leader h u")
      case None
      then have "w = v" using grows_new_leader [OF g w] by simp
      with elect(2) [of u t i] None w a show ?thesis by simp
    next
      case (Some x)
      show ?thesis
      proof (cases "own h t i")
        case True
        then have "holds h t i (hi_base h u) \<or> blocked members c h t i"
          using inv a(2) Some unfolding raft_inv_def leader_complete_def by blast
        then show ?thesis
          using Some grows_base [OF g, of u] holds_grows [OF g True le_refl] blocked_grows [OF g] by auto
      next
        case False
        then have only: "nd_term (cl_nodes c' v) = t" "\<And>w. acked h' t i w \<Longrightarrow> w = v" using grows_new_own [OF g a(1)] by auto
        have "elected (cl_votes c') members w u" using t [of u] w by (simp add: term_ok_def)
        then have "blocked members c' h' t i"
          using overtaken_blocked [of h' t i c' u members w] only a(2) votes_bound [OF ci'] by blast
        then show ?thesis ..
      qed
    qed
  qed
  fix u assume u: "u \<in> set members"
  show "node_good members c' h' u (cl_nodes c' u)"
  proof (cases "u = v")
    case False
    then show ?thesis
      using inv u nodes votes_bound [OF ci] votes(2) by (intro node_good_other [OF g]) (auto simp: raft_inv_def)
  qed (use good nodes in simp)
next
  fix t w u assume "(t, w, u) \<in> cl_votes c'"
  then show "t \<le> nd_term (cl_nodes c' u)"
    using votes(3) [of t w u] inv grows_term [OF g, of u] order_trans unfolding raft_inv_def by blast
next
  fix m assume m: "m \<in> hi_asked h'"
  show "vr_candidate m \<in> set members" using asked(2) [OF m] inv v unfolding raft_inv_def by metis
  show "asked_ok c' m"
  proof (cases "vr_candidate m = v")
    case False
    with asked(2) [OF m] inv nodes show ?thesis by (auto simp: raft_inv_def asked_ok_def)
  qed (use asked(1) [OF m] in simp)
next
  fix m lg assume "(m, lg) \<in> hi_sent h'"
  then show "sent_ok members h' m lg"
    using sent(2) [of m lg] inv sent_ok_grows [OF g] unfolding raft_inv_def by blast
next
  fix m lg w assume "(m, lg, w) \<in> hi_oks h'"
  then show "(m, lg) \<in> hi_sent h'" using oks [of m lg w] inv sent(1) unfolding raft_inv_def by blast
qed (rule events)

end
