(* ===== verification/RaftSafety.thy ===== *)
theory RaftSafety
  imports RaftInvariant
begin

text \<open>
  Every step of a run keeps the invariant of \<open>RaftInvariant\<close>. First the steps in which no log
  changes, then the vote, the accepted append, the leader's own writes and its commits.
\<close>

section \<open>Steps that change no log\<close>

lemma raft_inv_nodes:
  assumes "raft_inv members c h" and "v \<in> set members"
  shows "log_good h (cl_nodes c v)" "leader_good h v (cl_nodes c v)" "campaign_good members c h v (cl_nodes c v)"
    "acks_good members c h v (cl_nodes c v)" "commit_good members h (cl_nodes c v)"
  using assms by (simp_all add: raft_inv_def node_good_def)

lemma leader_goodD:
  assumes "leader_good h v n" and "nd_role n = Leader"
  shows "hi_leader h (nd_term n) = Some v" "nd_log n = hi_log h (nd_term n)" "distinct (map fst (nd_match_index n))"
    "fst ` set (nd_match_index n) \<subseteq> set (nd_peers n)" "(p, k) \<in> set (nd_match_index n) \<Longrightarrow> k = 0 \<or> acked h (nd_term n) k p"
  using assms by (simp_all add: leader_good_def)

lemma terms_up:
  assumes "cl_nodes c' = (cl_nodes c)(v := n')" and "nd_term (cl_nodes c v) \<le> nd_term n'"
  shows "nd_term (cl_nodes c u) \<le> nd_term (cl_nodes c' u)"
  using assms by simp

text \<open>A node that keeps its log and takes on no new leadership or campaign stays good.\<close>

definition idle :: "'st node \<Rightarrow> 'st node \<Rightarrow> bool" where
  "idle n n' \<longleftrightarrow> nd_log n' = nd_log n \<and> nd_term n \<le> nd_term n' \<and>
     (nd_commit_index n' = nd_commit_index n \<and> nd_applied_index n' = nd_applied_index n \<or>
      nd_commit_index n' = 0 \<and> nd_applied_index n' = 0) \<and>
     (nd_role n' = Leader \<longrightarrow> nd_role n = Leader \<and> nd_term n' = nd_term n \<and>
        nd_match_index n' = nd_match_index n \<and> nd_peers n' = nd_peers n) \<and>
     (\<forall>t. campaigning n' t \<longrightarrow> campaigning n t)"

lemma idle_good:
  assumes g: "grows v c h c' h'" and i: "idle n n'"
    and n: "log_good h n" "leader_good h v n" "acks_good members c h v n" "commit_good members h n"
    and h': "hi_leader h' = hi_leader h" "hi_base h' = hi_base h" "hi_log h' = hi_log h" "hi_oks h' = hi_oks h"
  shows "log_good h' n'" "leader_good h' v n'" "acks_good members c' h' v n'" "commit_good members h' n'"
proof -
  have a: "acked h' = acked h" "own h' = own h" using acked_log_cong [of h' h] own_cong [of h' h] h' by simp_all
  have d: "holds h' = holds h" by (simp add: holds_def h' fun_eq_iff)
  show "log_good h' n'" using n(1) i valid_log_grows [OF g] by (auto simp: log_good_def idle_def intro: order_trans)
  show "leader_good h' v n'" using n(2) i by (auto simp: leader_good_def idle_def h' a)
  show "acks_good members c' h' v n'" unfolding acks_good_def a d
  proof (intro allI impI)
    fix t i assume "acked h t i v"
    then show "t \<le> nd_term n' \<and> (own h t i \<longrightarrow> holds h t i (nd_log n') \<or> blocked members c' h' t i)"
      using n(3) i blocked_grows [OF g] unfolding acks_good_def idle_def by (metis order_trans)
  qed
  have "safe_prefix members h' (nd_term n') (nd_log n) k" if "safe_prefix members h (nd_term n) (nd_log n) k" for k
    using safe_prefix_grows [OF g that] i by (simp add: idle_def)
  moreover have "safe_prefix members h' u lg 0" "announced h' lg 0" for u lg by (simp_all add: safe_prefix_def announced_def)
  ultimately show "commit_good members h' n'"
    using n(4) i announced_grows [OF g] by (auto simp: commit_good_def idle_def)
qed

lemma raft_inv_idle:
  assumes inv: "raft_inv members c h" and ci: "cluster_inv ops sound clean members c" and ci': "cluster_inv ops sound clean members c'"
    and nodes: "cl_nodes c' = (cl_nodes c)(v := n')" and v: "v \<in> set members" and i: "idle (cl_nodes c v) n'"
    and votes: "cl_votes c \<subseteq> cl_votes c'"
      "\<And>t w u. (t, w, u) \<in> cl_votes c' - cl_votes c \<Longrightarrow> campaigning (cl_nodes c u) t \<Longrightarrow>
        backed members c' h t w (nd_log (cl_nodes c u))"
      "\<And>t w u. (t, w, u) \<in> cl_votes c' - cl_votes c \<Longrightarrow> t \<le> nd_term (cl_nodes c' u)"
    and h': "h' = h\<lparr>hi_asked := A, hi_stale := B\<rparr>" and asked: "\<And>m. m \<in> A \<Longrightarrow> m \<in> hi_asked h \<or> vr_candidate m = v \<and> asked_ok c' m"
  shows "raft_inv members c' h' \<and> (\<exists>v. grows v c h c' h')"
proof -
  let ?n = "cl_nodes c v"
  have g: "grows v c h c' h'" by (rule grows_same) (use terms_up [OF nodes] i in \<open>auto simp: h' idle_def\<close>)
  note n = raft_inv_nodes [OF inv v]
  have b: "backed members c' h' = backed members c' h"
    by (simp add: h' backed_def blocked_def acked_def own_def holds_def fun_eq_iff)
  have "campaign_good members c' h' v n'" unfolding campaign_good_def
  proof (intro allI impI)
    fix t assume "campaigning n' t"
    then have t: "campaigning ?n t" "nd_log n' = nd_log ?n" using i by (auto simp: idle_def)
    then have "hi_leader h t \<noteq> Some v" "\<forall>e\<in>set (nd_log ?n). en_term e < t"
      "\<And>w. (t, w, v) \<in> cl_votes c \<Longrightarrow> backed members c h t w (nd_log ?n)" using n(3) by (auto simp: campaign_good_def)
    moreover have "backed members c' h' t w (nd_log ?n)" if "(t, w, v) \<in> cl_votes c'" for w
    proof (cases "(t, w, v) \<in> cl_votes c")
      case True
      then show ?thesis using calculation(3) backed_grows [OF g] votes_bound [OF ci] by blast
    next
      case False
      with votes(2) [of t w v] t that b show ?thesis by simp
    qed
    ultimately show "hi_leader h' t \<noteq> Some v \<and> (\<forall>e\<in>set (nd_log n'). en_term e < t) \<and>
      (\<forall>w. (t, w, v) \<in> cl_votes c' \<longrightarrow> backed members c' h' t w (nd_log n'))"
      using t by (simp add: h')
  qed
  moreover have "log_good h' n'" "leader_good h' v n'" "acks_good members c' h' v n'" "commit_good members h' n'"
    by (rule idle_good [OF g i n(1,2,4,5)]; simp add: h')+
  ultimately have good: "node_good members c' h' v n'" by (simp add: node_good_def)
  show ?thesis
  proof (rule raft_inv_step [OF inv ci ci' g nodes v good votes(1)])
    fix m assume m: "m \<in> hi_asked h'" "vr_candidate m = v"
    show "asked_ok c' m"
    proof (cases "m \<in> hi_asked h")
      case True
      with inv m(2) have "vr_term m \<le> nd_term ?n"
        "campaigning ?n (vr_term m) \<Longrightarrow> vr_last_log_index m = length (nd_log ?n) \<and> vr_last_log_term m = last_log_term (nd_log ?n)"
        by (auto simp: raft_inv_def asked_ok_def Let_def)
      with i nodes m(2) show ?thesis by (auto simp: asked_ok_def idle_def)
    qed (use asked m h' in auto)
  next
    fix t w u assume "(t, w, u) \<in> cl_votes c' - cl_votes c" "campaigning (cl_nodes c u) t"
    then show "backed members c' h' t w (nd_log (cl_nodes c u))" using votes(2) b by simp
  next
    show "events_ok members h' {} (hi_events h')"
      using inv events_ok_grows [OF g] by (simp add: raft_inv_def h')
  qed (use inv asked votes(3) in \<open>auto simp: h' raft_inv_def\<close>)
qed

lemma become_follower_index [simp]:
  "nd_applied_index (become_follower ops t n) = nd_applied_index n" "nd_match_index (become_follower ops t n) = nd_match_index n"
  by (simp_all add: become_follower_def)

lemma idle_refl [simp]: "idle n n"
  by (simp add: idle_def)

lemma idle_trans: "idle n n1 \<Longrightarrow> idle n1 n2 \<Longrightarrow> idle n n2"
  unfolding idle_def by (auto intro: order_trans)

lemma idle_follower: "nd_term n \<le> t \<Longrightarrow> idle n (become_follower ops t n)"
  by (simp add: idle_def campaigning_def)

lemma idle_vote: "handle_request_vote ops m n = (r, n') \<Longrightarrow> idle n n'"
  by (auto simp: handle_request_vote_def Let_def idle_def campaigning_def split: if_splits)

lemma idle_timeout: "nd_campaign_term n = None \<Longrightarrow> idle n (RaftNode.follow_timeout n)"
  by (simp add: idle_def follow_timeout_def campaigning_def)

lemma idle_solicited: "idle n (solicit_reply ops t peer reply n)"
  by (auto simp: solicit_reply_def Let_def idle_def campaigning_def split: option.split)

lemma idle_campaign_over: "\<not> wins timed_out n \<Longrightarrow> idle n (end_campaign ops timed_out n)"
  by (auto simp: end_campaign_def wins_def Let_def idle_def campaigning_def)

lemma idle_lead: "idle n (start_lead n)" "idle n (end_lead n)"
  by (simp_all add: start_lead_def end_lead_def idle_def campaigning_def)

lemma idle_refused: "handle_append_entries ops m n = ((t, False), n') \<Longrightarrow> idle n n'"
  by (auto simp: handle_append_entries_def Let_def idle_def campaigning_def split: if_splits)

lemma idle_pushed:
  assumes "push_reply ops peer t prev len reply n = (what, n')" and "\<not> (\<exists>u. reply = Some (u, True) \<and> nd_role n = Leader \<and> nd_term n = t)"
  shows "idle n n'"
  using assms by (auto simp: push_reply_def idle_def campaigning_def split: option.splits if_splits prod.splits)

lemma idle_restart: "so_load ops s = nd_state n \<Longrightarrow> idle n (node_init ops v peers s sg)"
  by (simp add: idle_def node_init_def campaigning_def)

section \<open>Votes\<close>

lemma later_log_holds:
  assumes "raft_inv members c h" and "own h t i" and "t < u" and "own h u n" and "holds h u n lg"
  shows "holds h t i lg \<or> blocked members c h t i"
proof -
  have u: "hi_leader h u \<noteq> None" "length (hi_base h u) < n" using assms(4) by (simp_all add: own_def)
  then have "holds h t i (hi_base h u) \<or> blocked members c h t i"
    using assms(1-3) unfolding raft_inv_def leader_complete_def by blast
  then show ?thesis
  proof
    assume b: "holds h t i (hi_base h u)"
    then have i: "i \<le> length (hi_base h u)" using assms(2) holds_length by (auto simp: own_def)
    have "term_ok members c h u" using assms(1) by (simp add: raft_inv_def)
    then obtain es where "hi_log h u = hi_base h u @ es" using u(1) by (rule term_ok_split)
    then have "take i lg = take i (hi_base h u)"
      using holds_le [OF assms(5), of i] i u(2) by (simp add: holds_def)
    with b show ?thesis by (simp add: holds_def)
  qed simp
qed

text \<open>The up-to-date check of \<open>_handle_request_vote\<close>.\<close>

lemma up_to_date_backed:
  assumes inv: "raft_inv members c h" and v: "v \<in> set members" and good: "valid_log h lg"
    and fresh: "\<not> (last_log_term lg < last_log_term (nd_log (cl_nodes c v)) \<or>
      last_log_term lg = last_log_term (nd_log (cl_nodes c v)) \<and> length lg < length (nd_log (cl_nodes c v)))"
  shows "backed members c h u v lg"
  unfolding backed_def
proof (intro allI impI)
  fix t i assume own: "own h t i" and ack: "acked h t i v"
  let ?lv = "nd_log (cl_nodes c v)"
  have lv: "valid_log h ?lv" using raft_inv_nodes(1) [OF inv v] by (simp add: log_good_def)
  have terms: "\<And>t. term_ok members c h t" using inv by (simp add: raft_inv_def)
  have "holds h t i ?lv \<or> blocked members c h t i"
    using raft_inv_nodes(4) [OF inv v] own ack by (simp add: acks_good_def)
  then show "holds h t i lg \<or> blocked members c h t i"
  proof
    assume h: "holds h t i ?lv"
    have i: "0 < i" "i \<le> length (hi_log h t)" using own by (auto simp: own_def)
    then have il: "i \<le> length ?lv" using holds_length [OF h] by simp
    have "?lv ! (i - 1) = hi_log h t ! (i - 1)" using h i by (metis holds_def diff_less nth_take zero_less_one)
    then have "en_term (?lv ! (i - 1)) = t" using own_term [OF terms own] by simp
    then have le: "t \<le> last_log_term ?lv" using valid_log_terms [OF terms lv, of "?lv ! (i - 1)"] i il by auto
    have "lg \<noteq> []" using fresh i il by (auto simp: last_log_term_def)
    note last = valid_log_last [OF good this]
    show ?thesis
    proof (cases "t < last_log_term lg")
      case True
      then show ?thesis using later_log_holds [OF inv own True last(1)] last(2) by (simp add: holds_def)
    next
      case False
      then have "last_log_term lg = t" "i \<le> length lg" using fresh le il by auto
      then show ?thesis using last(2) by (metis holds_def min.absorb1 take_take)
    qed
  qed simp
qed

lemma granted_fresh:
  assumes "handle_request_vote ops m n = ((t, True), n')" and "nd_safeguards n = all_safeguards"
  shows "\<not> (vr_last_log_term m < last_log_term (nd_log n) \<or>
    vr_last_log_term m = last_log_term (nd_log n) \<and> vr_last_log_index m < length (nd_log n))"
  using assms by (auto simp: handle_request_vote_def Let_def all_safeguards_def split: if_splits)

lemma backed_terms:
  fixes c c' :: "'st cluster"
  assumes "\<And>u. nd_term (cl_nodes c u) \<le> nd_term (cl_nodes c' u)" and "backed members c h u w lg"
  shows "backed members c' h u w lg"
proof -
  have "grows v c h c' h" for v by (rule grows_same [OF assms(1)]) simp_all
  then show ?thesis using assms(2) blocked_grows unfolding backed_def by blast
qed

lemma raft_inv_vote:
  assumes inv: "raft_inv members c h" and ci: "cluster_inv ops sound clean members c" and ci': "cluster_inv ops sound clean members c'"
    and v: "v \<in> set members" and m: "m \<in> hi_asked h" and r: "handle_request_vote so m (cl_nodes c v) = ((t, g), n')"
    and c': "cl_nodes c' = (cl_nodes c)(v := n')"
      "cl_votes c' = (if g then insert (vr_term m, v, vr_candidate m) (cl_votes c) else cl_votes c)"
  shows "raft_inv members c' h \<and> (\<exists>v. grows v c h c' h)"
proof -
  let ?u = "vr_candidate m"
  have i: "idle (cl_nodes c v) n'" by (rule idle_vote [OF r])
  then have up: "nd_term (cl_nodes c u) \<le> nd_term (cl_nodes c' u)" for u using terms_up [OF c'(1)] by (simp add: idle_def)
  have u: "?u \<in> set members" "asked_ok c m" using inv m by (auto simp: raft_inv_def)
  have sg: "nd_safeguards (cl_nodes c v) = all_safeguards" using ci v by (simp add: cluster_inv_def node_ok_def)
  show ?thesis
  proof (rule raft_inv_idle [OF inv ci ci' c'(1) v i, where A = "hi_asked h" and B = "hi_stale h"])
    fix t' w u' assume new: "(t', w, u') \<in> cl_votes c' - cl_votes c"
    then have e: "g" "t' = vr_term m" "w = v" "u' = ?u" using c'(2) by (auto split: if_splits)
    show "t' \<le> nd_term (cl_nodes c' u')" using u(2) e up [of ?u] by (simp add: asked_ok_def Let_def)
    assume "campaigning (cl_nodes c u') t'"
    then have "vr_last_log_index m = length (nd_log (cl_nodes c ?u))" "vr_last_log_term m = last_log_term (nd_log (cl_nodes c ?u))"
      using u(2) e by (simp_all add: asked_ok_def Let_def)
    then have "backed members c h t' v (nd_log (cl_nodes c ?u))"
      using granted_fresh [OF r [simplified e(1)] sg] raft_inv_nodes(1) [OF inv u(1)]
      by (intro up_to_date_backed [OF inv v]) (auto simp: log_good_def)
    then show "backed members c' h t' w (nd_log (cl_nodes c u'))" using backed_terms up e by metis
  qed (use c' in auto)
qed

lemma raft_inv_campaign:
  assumes inv: "raft_inv members c h" and ci: "cluster_inv ops sound clean members c" and ci': "cluster_inv ops sound clean members c'"
    and v: "v \<in> set members" and n': "n' = start_campaign so (cl_nodes c v)" and role: "nd_role (cl_nodes c v) = Candidate"
    and c': "cl_nodes c' = (cl_nodes c)(v := n')" "cl_votes c' = insert (nd_term n', v, v) (cl_votes c)"
  shows "raft_inv members c' h \<and> (\<exists>v. grows v c h c' h)"
proof -
  let ?n = "cl_nodes c v"
  have s: "nd_log n' = nd_log ?n" "nd_term n' = Suc (nd_term ?n)" "nd_role n' = Candidate"
    "nd_commit_index n' = nd_commit_index ?n" "nd_applied_index n' = nd_applied_index ?n"
    using role by (simp_all add: n' start_campaign_def Let_def)
  have g: "grows v c h c' h" by (rule grows_same) (use terms_up [OF c'(1)] s in auto)
  note n = raft_inv_nodes [OF inv v]
  have lead: "t \<le> nd_term ?n" if "hi_leader h t = Some v" for t
    using inv that by (auto simp: raft_inv_def term_ok_def)
  have i: "idle ?n (n'\<lparr>nd_role := Follower\<rparr>)" using s by (simp add: idle_def campaigning_def)
  have same: "log_good h n'" "leader_good h v n'" "acks_good members c' h v n'" "commit_good members h n'"
    using idle_good [OF g i n(1,2,4,5)] s(3) by (simp_all add: log_good_def leader_good_def acks_good_def commit_good_def)
  moreover have "campaign_good members c' h v n'" unfolding campaign_good_def
  proof (intro allI impI)
    fix t assume "campaigning n' t"
    then have t: "t = Suc (nd_term ?n)" using s(2) by (simp add: campaigning_def)
    have "w = v" if "(t, w, v) \<in> cl_votes c'" for w
      using that inv c'(2) t unfolding raft_inv_def by fastforce
    moreover have "backed members c' h t v (nd_log n')"
      using same(3) by (simp add: acks_good_def backed_def)
    moreover have "\<forall>e\<in>set (nd_log n'). en_term e < t" using n(1) s(1) t by (auto simp: log_good_def less_Suc_eq_le)
    ultimately show "hi_leader h t \<noteq> Some v \<and> (\<forall>e\<in>set (nd_log n'). en_term e < t) \<and>
      (\<forall>w. (t, w, v) \<in> cl_votes c' \<longrightarrow> backed members c' h t w (nd_log n'))"
      using lead [of t] t by auto
  qed
  ultimately have good: "node_good members c' h v n'" by (simp add: node_good_def)
  show ?thesis
  proof (rule raft_inv_step [OF inv ci ci' g c'(1) v good])
    fix m assume "m \<in> hi_asked h" "vr_candidate m = v"
    then have "vr_term m \<le> nd_term ?n" using inv by (auto simp: raft_inv_def asked_ok_def Let_def)
    then show "asked_ok c' m" using \<open>vr_candidate m = v\<close> c'(1) s(2) by (simp add: asked_ok_def campaigning_def)
  qed (use c' s inv in \<open>auto simp: raft_inv_def\<close>)
qed

section \<open>An accepted append\<close>

lemma merge_valid_logs:
  assumes a: "valid_log h lg" and b: "valid_log h new" and p: "p \<le> length lg" "p \<le> length new"
    and prev: "0 < p \<Longrightarrow> en_term (lg ! (p - 1)) = en_term (new ! (p - 1))"
  shows "merge_entries (Suc p) (drop p new) lg = (if take (length new) lg = new then lg else new)"
proof -
  define k where "k = agreement p lg (drop p new)"
  have k: "k \<le> length new - p" "p + k \<le> length lg" using agreement_le [of p lg "drop p new"] p by (simp_all add: k_def)
  have agree: "en_term (lg ! (p + i)) = en_term (new ! (p + i))" if "i < k" for i
    using agreement_nth [of i p lg "drop p new"] that k p by (simp add: k_def)
  have common: "take (p + k) lg = take (p + k) new"
  proof (cases "p + k")
    case (Suc j)
    have "en_term (lg ! j) = en_term (new ! j)"
    proof (cases k)
      case 0
      with prev Suc show ?thesis by simp
    next
      case (Suc i)
      then show ?thesis using agree [of i] \<open>p + k = Suc j\<close> by simp
    qed
    then show ?thesis using valid_logs_match [OF a b, of j] Suc k p by simp
  qed simp
  have merge: "merge_entries (Suc p) (drop p new) lg = (if k = length new - p then lg else take (p + k) lg @ drop k (drop p new))"
    by (simp add: merge_entries_agreement [OF p(1)] k_def Let_def)
  show ?thesis
  proof (cases "take (length new) lg = new")
    case True
    have all: "takeWhile (\<lambda>(x, y). en_term x = en_term y) (zip (drop p lg) (drop p new)) = zip (drop p lg) (drop p new)"
    proof (rule takeWhile_eq_all_conv [THEN iffD2], clarify)
      fix x y assume "(x, y) \<in> set (zip (drop p lg) (drop p new))"
      then obtain i where "i < length new - p" "x = lg ! (p + i)" "y = new ! (p + i)" by (auto simp: set_zip)
      moreover from this(1) have "p + i < length new" by simp
      ultimately show "en_term x = en_term y" using True by (metis nth_take)
    qed
    have "length new \<le> length lg" using True by (metis length_take min.cobounded1)
    then have "k = length new - p" unfolding k_def agreement_def all by simp
    with True merge show ?thesis by simp
  next
    case False
    then have "k \<noteq> length new - p" using common p by auto
    then show ?thesis using False merge common by (simp add: add.commute)
  qed
qed

definition apply_events :: "'st node \<Rightarrow> nat \<Rightarrow> nat \<Rightarrow> event list" where
  "apply_events n lo hi = map (\<lambda>j. ApplyEv (nd_name n) (Suc j) (en_term (nd_log n ! j)) (en_command (nd_log n ! j)) (nd_term n))
     (filter (\<lambda>j. en_command (nd_log n ! j) \<noteq> []) [lo..<hi])"

lemma apply_committed_result:
  "nd_events (apply_committed n) = nd_events n @ apply_events n (nd_applied_index n) (min (nd_commit_index n) (length (nd_log n)))"
  "nd_applied_index (apply_committed n) = max (nd_applied_index n) (min (nd_commit_index n) (length (nd_log n)))"
  "nd_match_index (apply_committed n) = nd_match_index n" "nd_next_index (apply_committed n) = nd_next_index n"
  "nd_lead_term (apply_committed n) = nd_lead_term n"
proof -
  define hi where "hi = min (nd_commit_index n) (length (nd_log n))"
  have "nd_events (fold apply_one [lo..<hi] n) = nd_events n @ apply_events n lo hi \<and>
      nd_applied_index (fold apply_one [lo..<hi] n) = (if lo < hi then hi else nd_applied_index n)" if "lo \<le> hi" for lo
    using that
  proof (induction "hi - lo" arbitrary: n lo)
    case 0
    then show ?case by (simp add: apply_events_def)
  next
    case (Suc d)
    let ?n1 = "apply_one lo n"
    have s: "nd_state ?n1 = nd_state n" "nd_name ?n1 = nd_name n" "nd_applied_index ?n1 = Suc lo"
      "nd_events ?n1 = nd_events n @ apply_events n lo (Suc lo)"
      by (simp_all add: apply_one_def Let_def apply_events_def)
    have "apply_events ?n1 (Suc lo) hi = apply_events n (Suc lo) hi" by (simp add: apply_events_def s)
    moreover have "apply_events n lo hi = apply_events n lo (Suc lo) @ apply_events n (Suc lo) hi"
      using Suc(2,3) by (simp add: apply_events_def upt_conv_Cons)
    moreover have "[lo..<hi] = lo # [Suc lo..<hi]" using Suc(2) by (simp add: upt_conv_Cons)
    moreover have "lo < hi" "d = hi - Suc lo" "Suc lo \<le> hi" using Suc(2) by simp_all
    ultimately show ?case using Suc(1) [of "Suc lo" ?n1] s by (simp del: upt_Suc)
  qed
  from this [of "nd_applied_index n"]
  show "nd_events (apply_committed n) = nd_events n @ apply_events n (nd_applied_index n) (min (nd_commit_index n) (length (nd_log n)))"
    "nd_applied_index (apply_committed n) = max (nd_applied_index n) (min (nd_commit_index n) (length (nd_log n)))"
    unfolding apply_committed_def hi_def [symmetric]
    by (cases "nd_applied_index n \<le> hi"; simp add: apply_events_def)+
  have "f (fold apply_one is n) = f n" if "\<And>i n. f (apply_one i n) = f n" for f :: "'a node \<Rightarrow> 'c" and "is"
    using that by (induction "is" arbitrary: n) auto
  note keep = this
  show "nd_match_index (apply_committed n) = nd_match_index n" "nd_next_index (apply_committed n) = nd_next_index n"
    "nd_lead_term (apply_committed n) = nd_lead_term n"
    unfolding apply_committed_def by (rule keep; simp add: apply_one_def Let_def)+
qed

lemma apply_events_ok:
  assumes "committed members h t i" and "hi \<le> i" and "holds h t hi (nd_log n)"
    and "t = nd_term n \<or> (\<forall>j<hi. en_command (nd_log n ! j) \<noteq> [] \<longrightarrow> Suc j \<in> seen)" and "e \<in> set (apply_events n lo hi)"
  shows "event_ok members h seen e"
proof -
  obtain j where j: "j < hi" "en_command (nd_log n ! j) \<noteq> []"
    "e = ApplyEv (nd_name n) (Suc j) (en_term (nd_log n ! j)) (en_command (nd_log n ! j)) (nd_term n)"
    using assms(5) by (auto simp: apply_events_def)
  have "nd_log n ! j = hi_log h t ! j" using assms(3) j(1) by (metis holds_def nth_take)
  then show ?thesis unfolding j(3) event_ok.simps
    by (intro exI [of _ t] exI [of _ i]) (use assms(1,2,4) j in auto)
qed

lemma accepted_sel:
  assumes h: "handle_append_entries ops m n = ((t, True), n')" and sg: "nd_safeguards n = all_safeguards"
    and a: "nd_applied_index n = nd_commit_index n"
  defines "k \<equiv> if ar_leader_commit m > nd_commit_index n
    then max (nd_commit_index n) (min (ar_leader_commit m) (ar_prev_log_index m + length (ar_entries m))) else nd_commit_index n"
  shows "nd_term n \<le> ar_term m" "nd_term n' = ar_term m" "ar_prev_log_index m \<le> length (nd_log n)"
    "0 < ar_prev_log_index m \<Longrightarrow> en_term (nd_log n ! (ar_prev_log_index m - 1)) = ar_prev_log_term m"
    "nd_log n' = merge_entries (Suc (ar_prev_log_index m)) (ar_entries m) (nd_log n)"
    "nd_role n' \<noteq> Candidate" "nd_role n' = Leader \<Longrightarrow> nd_role n = Leader \<and> nd_term n = ar_term m"
    "nd_match_index n' = nd_match_index n" "nd_peers n' = nd_peers n" "nd_commit_index n' = k"
    "k \<le> length (nd_log n') \<Longrightarrow> nd_applied_index n' = k"
    "k \<le> length (nd_log n') \<Longrightarrow> nd_events n' = nd_events n @ apply_events n' (nd_commit_index n) k"
proof -
  define n1 where "n1 = (if ar_term m > nd_term n then become_follower ops (ar_term m) n else n)"
  have n1: "nd_log n1 = nd_log n" "nd_commit_index n1 = nd_commit_index n" "nd_applied_index n1 = nd_applied_index n"
    "nd_events n1 = nd_events n" "nd_match_index n1 = nd_match_index n" "nd_peers n1 = nd_peers n" "nd_name n1 = nd_name n"
    "nd_safeguards n1 = all_safeguards" "nd_term n1 = max (nd_term n) (ar_term m)"
    "nd_role n1 = (if ar_term m > nd_term n then Follower else nd_role n)"
    using sg by (simp_all add: n1_def)
  let ?p = "ar_prev_log_index m"
  have ok: "\<not> ar_term m < nd_term n1" "\<not> (?p > length (nd_log n1) \<or> ?p > 0 \<and> en_term (nd_log n1 ! (?p - 1)) \<noteq> ar_prev_log_term m)"
    using h n1(8) unfolding handle_append_entries_def n1_def [symmetric] Let_def all_safeguards_def by (auto split: if_splits)
  define n2 where "n2 = n1\<lparr>nd_role := (if nd_role n1 = Candidate then Follower else nd_role n1), nd_reset := True\<rparr>"
  define n3 where "n3 = persist ops True (n2\<lparr>nd_state := (nd_state n2)\<lparr>ps_log := merge_entries (Suc ?p) (ar_entries m) (nd_log n2)\<rparr>\<rparr>)"
  have n': "n' = (if ar_leader_commit m > nd_commit_index n3 then apply_committed (n3\<lparr>nd_commit_index := k\<rparr>) else n3)"
    using h n1(2,8) ok unfolding handle_append_entries_def n1_def [symmetric] Let_def n2_def [symmetric]
    by (auto simp: n3_def n2_def k_def all_safeguards_def)
  have n3: "nd_state n3 = (nd_state n1)\<lparr>ps_log := merge_entries (Suc ?p) (ar_entries m) (nd_log n)\<rparr>"
    "nd_commit_index n3 = nd_commit_index n" "nd_applied_index n3 = nd_commit_index n" "nd_events n3 = nd_events n"
    "nd_match_index n3 = nd_match_index n" "nd_peers n3 = nd_peers n" "nd_name n3 = nd_name n"
    "nd_role n3 = (if nd_role n1 = Candidate then Follower else nd_role n1)"
    using n1 a by (simp_all add: n3_def n2_def)
  show "nd_term n \<le> ar_term m" "nd_term n' = ar_term m" "?p \<le> length (nd_log n)"
    "0 < ?p \<Longrightarrow> en_term (nd_log n ! (?p - 1)) = ar_prev_log_term m"
    "nd_log n' = merge_entries (Suc ?p) (ar_entries m) (nd_log n)"
    "nd_role n' \<noteq> Candidate" "nd_role n' = Leader \<Longrightarrow> nd_role n = Leader \<and> nd_term n = ar_term m"
    "nd_match_index n' = nd_match_index n" "nd_peers n' = nd_peers n" "nd_commit_index n' = k"
    using ok n1 n3 by (auto simp: n' apply_committed_result k_def split: if_splits)
  have "k = nd_commit_index n" if "\<not> ar_leader_commit m > nd_commit_index n" using that by (simp add: k_def)
  moreover have "nd_commit_index n \<le> k" by (simp add: k_def)
  moreover have "apply_events (n3\<lparr>nd_commit_index := k\<rparr>) = apply_events n'" by (simp add: n' apply_events_def fun_eq_iff)
  ultimately show "k \<le> length (nd_log n') \<Longrightarrow> nd_applied_index n' = k"
    "k \<le> length (nd_log n') \<Longrightarrow> nd_events n' = nd_events n @ apply_events n' (nd_commit_index n) k"
    using n3 by (auto simp: n' apply_committed_result apply_events_def)
qed

text \<open>What an accepted append makes of the log, and what it cannot cut off.\<close>

lemma sent_log:
  assumes "raft_inv members c h" and "(m, new) \<in> hi_sent h"
  shows "sent_ok members h m new" "own h (ar_term m) (length new)" "holds h (ar_term m) (length new) new" "valid_log h new"
    "\<And>e. e \<in> set new \<Longrightarrow> en_term e \<le> ar_term m"
proof -
  show s: "sent_ok members h m new" using assms by (simp add: raft_inv_def)
  then show "own h (ar_term m) (length new)" "holds h (ar_term m) (length new) new" by (simp_all add: sent_ok_def own_def)
  have t: "term_ok members c h (ar_term m)" "hi_leader h (ar_term m) \<noteq> None" using assms(1) s by (simp_all add: raft_inv_def sent_ok_def)
  have new: "new = take (length new) (hi_log h (ar_term m))" using s by (simp add: sent_ok_def holds_def)
  then show "valid_log h new" using valid_log_take [OF valid_log_leader [OF t]] by metis
  fix e assume "e \<in> set new"
  then show "en_term e \<le> ar_term m" using new leader_log_terms [OF t, of e] by (metis in_set_takeD)
qed

lemma append_keeps:
  assumes inv: "raft_inv members c h" and s: "(m, new) \<in> hi_sent h"
    and o: "own h t i" "t \<le> ar_term m" "k \<le> i" "holds h t i lg \<or> holds h t k lg"
    and r: "r = (if take (length new) lg = new then lg else new)"
  shows "holds h t k r \<or> blocked members c h t i"
proof (cases "take (length new) lg = new")
  case False
  note new = sent_log [OF inv s]
  have k: "holds h t k lg" using o(3,4) holds_le by blast
  show ?thesis
  proof (cases "t < ar_term m")
    case True
    then show ?thesis using later_log_holds [OF inv o(1) True new(2,3)] holds_le [OF _ o(3)] False r by auto
  next
    case False
    then have t: "t = ar_term m" using o(2) by simp
    have "k \<le> length new"
    proof (rule ccontr)
      assume "\<not> k \<le> length new"
      then have "take (length new) lg = new" using new(3) holds_le [OF k, of "length new"] t by (simp add: holds_def)
      with \<open>take (length new) lg \<noteq> new\<close> show False by simp
    qed
    then show ?thesis using holds_le [OF new(3)] t r \<open>take (length new) lg \<noteq> new\<close> by simp
  qed
qed (use o holds_le r in auto)

lemma append_safe_prefix:
  assumes inv: "raft_inv members c h" and s: "(m, new) \<in> hi_sent h" and "safe_prefix members h u lg k" and "u \<le> ar_term m"
    and r: "r = (if take (length new) lg = new then lg else new)"
  shows "safe_prefix members h (ar_term m) r k" "take k r = take k lg"
proof -
  have "safe_prefix members h (ar_term m) r k \<and> take k r = take k lg"
  proof (cases "k = 0")
    case False
    then obtain t i where t: "t \<le> u" "committed members h t i" "k \<le> i" "holds h t k lg" using assms(3) by (auto simp: safe_prefix_def)
    then have "holds h t k r"
      using append_keeps [OF inv s, of t i k lg r] committed_not_blocked [OF t(2)] assms(4) r by (auto simp: committed_def)
    with t assms(4) show ?thesis unfolding safe_prefix_def holds_def by (metis order_trans)
  qed (simp add: safe_prefix_def)
  then show "safe_prefix members h (ar_term m) r k" "take k r = take k lg" by simp_all
qed

lemma raft_inv_accept:
  assumes inv: "raft_inv members c h" and ci: "cluster_inv ops sound clean members c" and ci': "cluster_inv ops sound clean members c'"
    and v: "v \<in> set members" and s: "(m, new) \<in> hi_sent h"
    and r: "handle_append_entries so m (cl_nodes c v) = ((t, True), n')"
    and c': "cl_nodes c' = (cl_nodes c)(v := n')" "cl_votes c' = cl_votes c"
    and h': "h' = (with_events (cl_nodes c v) n' h)\<lparr>hi_oks := insert (m, new, v) (hi_oks h)\<rparr>"
  shows "raft_inv members c' h' \<and> (\<exists>v. grows v c h c' h')"
proof -
  let ?n = "cl_nodes c v" and ?T = "ar_term m" and ?r = "nd_log n'" and ?k = "nd_commit_index n'"
  note n = raft_inv_nodes [OF inv v] and new = sent_log [OF inv s]
  have sg: "nd_safeguards ?n = all_safeguards" using ci v by (simp add: cluster_inv_def node_ok_def)
  have ap: "nd_applied_index ?n = nd_commit_index ?n" using n(5) by (simp add: commit_good_def)
  note acc = accepted_sel [OF r sg ap, folded accepted_sel(10) [OF r sg ap]]
  have entries: "ar_entries m = drop (ar_prev_log_index m) new" "ar_prev_log_index m \<le> length new"
    "0 < ar_prev_log_index m \<Longrightarrow> ar_prev_log_term m = en_term (new ! (ar_prev_log_index m - 1))"
    "safe_prefix members h ?T new (ar_leader_commit m)" "announced h new (ar_leader_commit m)"
    using new(1) by (simp_all add: sent_ok_def)
  have res: "?r = (if take (length new) (nd_log ?n) = new then nd_log ?n else new)"
    using merge_valid_logs [of h "nd_log ?n" new "ar_prev_log_index m"] n(1) new(4) acc(3-5) entries by (simp add: log_good_def)
  then have takes: "take (length new) ?r = new" by simp
  have sp: "safe_prefix members h (nd_term ?n) (nd_log ?n) (nd_commit_index ?n)" "announced h (nd_log ?n) (nd_commit_index ?n)"
    using n(5) by (simp_all add: commit_good_def)
  note old = append_safe_prefix [OF inv s sp(1) acc(1) res]
  have prefix: "safe_prefix members h ?T ?r ?k \<and> announced h ?r ?k"
  proof (cases "?k = nd_commit_index ?n")
    case False
    then have k: "?k = min (ar_leader_commit m) (length new)" using accepted_sel(10) [OF r sg ap] entries by (auto split: if_splits)
    then have "take ?k ?r = take ?k new" using takes by (metis min.cobounded2 min.absorb1 take_take)
    then show ?thesis
      using safe_prefix_take [OF entries(4), of ?k ?r ?T] announced_take [OF announced_le [OF entries(5)], of ?k ?r] k by simp
  qed (use old announced_take [OF sp(2)] in simp)
  then have kl: "?k \<le> length ?r" by (blast intro: safe_prefix_length)
  have g: "grows v c h c' h'"
    by (rule grows_accepted [where m = m and lg = new]) (use terms_up [OF c'(1)] acc c'(1) in \<open>auto simp: h' with_events_def\<close>)
  have hl: "hi_leader h' = hi_leader h" "hi_base h' = hi_base h" "hi_log h' = hi_log h" by (simp_all add: h' with_events_def)
  have own: "own h' = own h" "holds h' = holds h" using own_cong hl by (simp_all add: holds_def fun_eq_iff)
  have "log_good h' n'" using res n(1) acc(1,2) valid_log_grows [OF g] new(4,5) by (auto simp: log_good_def intro: order_trans)
  moreover have "leader_good h' v n'" unfolding leader_good_def
  proof (intro impI)
    assume "nd_role n' = Leader"
    then have l: "nd_role ?n = Leader" "nd_term ?n = ?T" using acc(7) by simp_all
    then have "hi_leader h ?T = Some v" "nd_log ?n = hi_log h ?T" "distinct (map fst (nd_match_index ?n))"
      "fst ` set (nd_match_index ?n) \<subseteq> set (nd_peers ?n)" "\<And>p k. (p, k) \<in> set (nd_match_index ?n) \<Longrightarrow> k = 0 \<or> acked h ?T k p"
      using n(2) by (auto simp: leader_good_def)
    moreover from this have "?r = hi_log h ?T" using res new(3) by (simp add: holds_def)
    ultimately show "hi_leader h' (nd_term n') = Some v \<and> ?r = hi_log h' (nd_term n') \<and> distinct (map fst (nd_match_index n')) \<and>
      fst ` set (nd_match_index n') \<subseteq> set (nd_peers n') \<and> (\<forall>p k. (p, k) \<in> set (nd_match_index n') \<longrightarrow> k = 0 \<or> acked h' (nd_term n') k p)"
      using acc(2,8,9) grows_acked [OF g] hl by simp blast
  qed
  moreover have "campaign_good members c' h' v n'" using acc(6) by (simp add: campaign_good_def campaigning_def)
  moreover have "acks_good members c' h' v n'" unfolding acks_good_def own
  proof (intro allI impI)
    fix t i assume "acked h' t i v"
    then consider "acked h t i v" | "t = ?T" "i \<le> length new" by (auto simp: acked_def h' with_events_def)
    then show "t \<le> nd_term n' \<and> (own h t i \<longrightarrow> holds h t i ?r \<or> blocked members c' h' t i)"
    proof cases
      case 1
      then have "t \<le> ?T" "own h t i \<longrightarrow> holds h t i (nd_log ?n) \<or> blocked members c h t i"
        using n(4) acc(1) unfolding acks_good_def by (meson order_trans)+
      then show ?thesis using append_keeps [OF inv s, of t i i "nd_log ?n" ?r] res acc(2) blocked_grows [OF g] by auto
    next
      case 2
      then have "holds h t i new" using holds_le [OF new(3)] by simp
      then show ?thesis using 2 takes acc(2) holds_take [of i "length new" h t ?r] by simp
    qed
  qed
  moreover have "commit_good members h' n'"
    using prefix acc(2) acc(11) kl safe_prefix_grows [OF g _ le_refl] announced_grows [OF g] by (simp add: commit_good_def)
  ultimately have good: "node_good members c' h' v n'" by (simp add: node_good_def)
  have events: "hi_events h' = hi_events h @ apply_events n' (nd_commit_index ?n) ?k"
    using acc(12) kl by (simp add: h' with_events_def)
  show ?thesis
  proof (rule raft_inv_step [OF inv ci ci' g c'(1) v good])
    fix q assume q: "q \<in> hi_asked h'" "vr_candidate q = v"
    then have "vr_term q \<le> nd_term ?n" using inv by (auto simp: raft_inv_def asked_ok_def Let_def h' with_events_def)
    then show "asked_ok c' q" using q(2) c'(1) acc(1,2,6) by (simp add: asked_ok_def Let_def campaigning_def)
  next
    have "events_ok members h' {} (hi_events h)" using inv events_ok_grows [OF g] by (simp add: raft_inv_def)
    moreover have "event_ok members h' (applied_indices (hi_events h)) e" if e: "e \<in> set (apply_events n' (nd_commit_index ?n) ?k)" for e
    proof -
      have "?k \<noteq> 0" using e by (auto simp: apply_events_def)
      then obtain t i where t: "committed members h t i" "?k \<le> i" "holds h t ?k ?r" using prefix by (auto simp: safe_prefix_def)
      have "\<forall>j<?k. en_command (?r ! j) \<noteq> [] \<longrightarrow> Suc j \<in> applied_indices (hi_events h)" using prefix by (simp add: announced_def)
      then show ?thesis using event_ok_grows [OF g] apply_events_ok [OF t _ e] by blast
    qed
    ultimately show "events_ok members h' {} (hi_events h')" unfolding events events_ok_append by (auto intro: events_ok_all)
  qed (use s c' h' hl in \<open>auto simp: with_events_def\<close>)
qed

section \<open>What a leader writes\<close>

lemma written_good:
  assumes g: "grows v c h c' h'" and c': "cl_nodes c' v = n'" and t: "term_ok members c' h' (nd_term n)"
    and n: "log_good h n" "acks_good members c h v n" "commit_good members h n"
    and n': "nd_log n' = nd_log n @ [e]" "en_term e = nd_term n" "nd_term n' = nd_term n"
      "nd_commit_index n' = nd_commit_index n" "nd_applied_index n' = nd_applied_index n"
    and h': "hi_leader h' (nd_term n) = Some v" "hi_log h' (nd_term n) = nd_log n'"
    and same: "\<And>t i. t \<noteq> nd_term n \<Longrightarrow> own h' t i \<Longrightarrow> own h t i"
  shows "log_good h' n'" "acks_good members c' h' v n'" "commit_good members h' n'"
proof -
  have "valid_log h' (nd_log n')" using valid_log_leader [OF t] h' by simp
  then show "log_good h' n'" using n(1) n' by (auto simp: log_good_def)
  show "acks_good members c' h' v n'" unfolding acks_good_def
  proof (intro allI impI conjI)
    fix t i assume a: "acked h' t i v"
    show "t \<le> nd_term n'" using grows_new_acked [OF g a] n(2) c' n'(3) by (auto simp: acks_good_def)
    assume o: "own h' t i"
    show "holds h' t i (nd_log n') \<or> blocked members c' h' t i"
    proof (cases "t = nd_term n")
      case False
      then have "own h t i" "acked h t i v" using same [OF _ o] grows_new_acked [OF g a] c' n'(3) by auto
      then have "holds h t i (nd_log n) \<or> blocked members c h t i" using n(2) by (simp add: acks_good_def)
      then show ?thesis
        using holds_append [of h t i "nd_log n"] holds_grows [OF g \<open>own h t i\<close> le_refl] blocked_grows [OF g] \<open>own h t i\<close> n'(1)
        by (auto simp: own_def)
    qed (simp add: holds_def h')
  qed
  let ?k = "nd_commit_index n"
  have c: "safe_prefix members h (nd_term n) (nd_log n) ?k" "announced h (nd_log n) ?k" "nd_applied_index n = ?k"
    using n(3) by (simp_all add: commit_good_def)
  have k: "take ?k (nd_log n') = take ?k (nd_log n)" using safe_prefix_length [OF c(1)] n'(1) by simp
  show "commit_good members h' n'"
    using safe_prefix_take [OF safe_prefix_grows [OF g c(1) le_refl] k le_refl le_refl] announced_take [OF announced_grows [OF g c(2)] k] c(3) n'
    by (simp add: commit_good_def)
qed

lemma oks_of_term:
  assumes "raft_inv members c h" and "(m, l, w) \<in> hi_oks h" and "ar_term m = t"
  shows "hi_leader h t \<noteq> None \<and> length l \<le> length (hi_log h t)"
  using assms unfolding raft_inv_def sent_ok_def by blast

lemma raft_inv_propose:
  assumes inv: "raft_inv members c h" and ci: "cluster_inv ops sound clean members c" and ci': "cluster_inv ops sound clean members c'"
    and v: "v \<in> set members" and r: "handle_propose so cmd (cl_nodes c v) = (r, n')"
    and c': "cl_nodes c' = (cl_nodes c)(v := n')" "cl_votes c' = cl_votes c"
    and h': "h' = (if nd_role (cl_nodes c v) = Leader then with_log (nd_term (cl_nodes c v)) (nd_log n') h else h)"
  shows "raft_inv members c' h' \<and> (\<exists>v. grows v c h c' h')"
proof -
  let ?n = "cl_nodes c v"
  let ?T = "nd_term ?n" and ?e = "\<lparr>en_term = nd_term ?n, en_command = cmd\<rparr>"
  note n = raft_inv_nodes [OF inv v]
  have lead: "hi_leader h ?T = Some v" "hi_log h ?T = nd_log ?n" if "nd_role ?n = Leader"
    using n(2) that by (simp_all add: leader_good_def)
  consider (refused) "n' = ?n" | (written) "nd_role ?n = Leader" "nd_log n' = nd_log ?n @ [?e]" "nd_term n' = ?T" "nd_role n' = Leader"
      "nd_commit_index n' = nd_commit_index ?n" "nd_applied_index n' = nd_applied_index ?n"
      "nd_match_index n' = nd_match_index ?n" "nd_peers n' = nd_peers ?n"
  proof -
    have "n' = ?n \<or> nd_role ?n = Leader \<and> n' = persist so True (?n\<lparr>nd_state := (nd_state ?n)\<lparr>ps_log := nd_log ?n @ [?e]\<rparr>\<rparr>)"
      using r by (simp add: handle_propose_def Let_def split: if_splits)
    then show thesis using that by fastforce
  qed
  then show ?thesis
  proof cases
    case refused
    then have "h' = h" using h' lead by (auto simp: with_log_def fun_upd_idem)
    then show ?thesis
      using raft_inv_idle [OF inv ci ci' c'(1) v, where A = "hi_asked h" and B = "hi_stale h"] refused c' by simp
  next
    case written
    note lead = lead [OF written(1)]
    have hs: "hi_leader h' = hi_leader h" "hi_base h' = hi_base h" "hi_log h' = (hi_log h)(?T := nd_log n')" "hi_oks h' = hi_oks h"
      "hi_events h' = hi_events h" "hi_sent h' = hi_sent h" "hi_asked h' = hi_asked h"
      using h' written(1) by (simp_all add: with_log_def)
    have g: "grows v c h c' h'"
    proof (rule grows_written [where t = ?T and base = "hi_base h ?T" and lg = "nd_log ?n" and es = "[?e]"])
      show "nd_term (cl_nodes c u) \<le> nd_term (cl_nodes c' u)" for u using c'(1) written by simp
      show "hi_leader h ?T \<noteq> None \<and> length l \<le> length (nd_log ?n)" if "(m, l, w) \<in> hi_oks h" "ar_term m = ?T" for m l w
        using oks_of_term [OF inv that] lead by simp
    qed (use hs lead written c' in \<open>auto simp: fun_upd_idem\<close>)
    have terms: "en_term x = t" if "hi_leader h t \<noteq> None" "hi_log h' t = hi_log h t @ xs" "x \<in> set xs" for t xs x
      using that hs(3) lead written by (auto split: if_splits)
    have t: "term_ok members c' h' ?T"
      by (rule term_ok_grows [OF g]) (use inv lead c'(2) terms in \<open>auto simp: raft_inv_def\<close>)
    have "log_good h' n'" "acks_good members c' h' v n'" "commit_good members h' n'"
      by (rule written_good [OF g _ t n(1,4,5) written(2)]; use hs lead written c' in \<open>auto simp: own_def\<close>)+
    moreover have "leader_good h' v n'"
    proof -
      note lg = leader_goodD [OF n(2) written(1)]
      have "k = 0 \<or> acked h' ?T k p" if "(p, k) \<in> set (nd_match_index ?n)" for p k
        using lg(5) [OF that] grows_acked [OF g] by blast
      with lg(3,4) show ?thesis using written(3,7,8) hs(1,3) lead(1) by (simp add: leader_good_def)
    qed
    moreover have "campaign_good members c' h' v n'" using written by (simp add: campaign_good_def campaigning_def)
    ultimately have good: "node_good members c' h' v n'" by (simp add: node_good_def)
    show ?thesis
    proof (rule raft_inv_step [OF inv ci ci' g c'(1) v good _ _ _ terms])
      fix q assume "q \<in> hi_asked h'" "vr_candidate q = v"
      then show "asked_ok c' q" using inv hs c'(1) written by (auto simp: raft_inv_def asked_ok_def Let_def campaigning_def)
    next
      show "events_ok members h' {} (hi_events h')" using inv events_ok_grows [OF g] hs by (simp add: raft_inv_def)
    qed (use c' hs inv in \<open>auto simp: raft_inv_def\<close>)
  qed
qed

section \<open>A new leader\<close>

lemma won_sel:
  assumes w: "wins timed_out n" and n': "n' = end_campaign ops timed_out n" and sg: "nd_safeguards n = all_safeguards"
  shows "nd_log n' = nd_log n @ [\<lparr>en_term = nd_term n, en_command = []\<rparr>]" "nd_term n' = nd_term n" "nd_role n' = Leader"
    "nd_commit_index n' = nd_commit_index n" "nd_applied_index n' = nd_applied_index n" "nd_peers n' = nd_peers n"
    "nd_match_index n' = map (\<lambda>p. (p, 0)) (nd_peers n)" "nd_events n' = nd_events n @ [LeaderEv (nd_name n) (nd_term n) (nd_log n')]"
    "campaigning n (nd_term n)"
  using w sg by (simp_all add: n' wins_def campaigning_def end_campaign_def become_leader_def Let_def all_safeguards_def)

lemma one_leader_elected:
  assumes "cluster_inv ops sound clean members c" and "elected (cl_votes c) members a t" and "elected (cl_votes c) members b t"
  shows "a = b"
proof -
  have "majority members (ballots (cl_votes c) members t a)" "majority members (ballots (cl_votes c) members t b)"
    using assms(2,3) by (auto simp: majority_def elected_def ballots_def)
  then obtain u where "(t, u, a) \<in> cl_votes c" "(t, u, b) \<in> cl_votes c"
    using majorities_share by (fastforce simp: ballots_def)
  with assms(1) show ?thesis unfolding cluster_inv_def by blast
qed

text \<open>Leader completeness for a new leader: some voter had acknowledged the entry, or none had.\<close>

lemma elected_complete:
  assumes ci: "cluster_inv ops sound clean members c" and el: "elected (cl_votes c) members v u" and "own h t i" and "t < u"
    and backed: "\<And>w. (u, w, v) \<in> cl_votes c \<Longrightarrow> backed members c h u w lg"
  shows "holds h t i lg \<or> blocked members c h t i"
proof (cases "\<exists>w\<in>ballots (cl_votes c) members u v. acked h t i w")
  case True
  then obtain w where "(u, w, v) \<in> cl_votes c" "acked h t i w" by (auto simp: ballots_def)
  with backed [of w] assms(3,4) show ?thesis by (simp add: backed_def)
next
  case False
  have "majority members (ballots (cl_votes c) members u v)" using el by (auto simp: majority_def elected_def ballots_def)
  moreover have "t < nd_term (cl_nodes c w)" if "w \<in> ballots (cl_votes c) members u v" for w
    using that votes_bound [OF ci, of u w v] assms(4) by (auto simp: ballots_def)
  ultimately show ?thesis using False unfolding blocked_def by blast
qed

lemma raft_inv_win:
  assumes inv: "raft_inv members c h" and ci: "cluster_inv ops sound clean members c" and ci': "cluster_inv ops sound clean members c'"
    and v: "v \<in> set members" and d: "distinct members" and w: "wins timed_out (cl_nodes c v)"
    and n': "n' = end_campaign so timed_out (cl_nodes c v)"
    and c': "cl_nodes c' = (cl_nodes c)(v := n')" "cl_votes c' = cl_votes c"
    and h': "h' = with_events (cl_nodes c v) n' (with_log (nd_term (cl_nodes c v)) (nd_log n')
      (with_leader (nd_term (cl_nodes c v)) v (nd_log (cl_nodes c v)) h))"
  shows "raft_inv members c' h' \<and> (\<exists>v. grows v c h c' h')"
proof -
  let ?n = "cl_nodes c v"
  let ?T = "nd_term ?n"
  note n = raft_inv_nodes [OF inv v]
  have ok: "nd_safeguards ?n = all_safeguards" "nd_name ?n = v" "nd_peers ?n = remove1 v members"
    using ci v by (simp_all add: cluster_inv_def node_ok_def)
  note won = won_sel [OF w n' ok(1)]
  have camp: "hi_leader h ?T \<noteq> Some v" "\<And>e. e \<in> set (nd_log ?n) \<Longrightarrow> en_term e < ?T"
    "\<And>w. (?T, w, v) \<in> cl_votes c \<Longrightarrow> backed members c h ?T w (nd_log ?n)"
    using n(3) won(9) by (simp_all add: campaign_good_def)
  have "(v, ?T) \<in> leader_events members c'"
    using v c'(1) won(8) ok(2) unfolding leader_events_def by auto
  then have el: "elected (cl_votes c) members v ?T" using ci' c'(2) by (simp add: cluster_inv_def)
  have none: "hi_leader h ?T = None"
  proof (rule ccontr)
    assume "hi_leader h ?T \<noteq> None"
    then obtain u where u: "hi_leader h ?T = Some u" by auto
    then have "elected (cl_votes c) members u ?T" using inv by (simp add: raft_inv_def term_ok_def)
    then have "u = v" by (rule one_leader_elected [OF ci _ el])
    with u camp(1) show False by simp
  qed
  have hs: "hi_leader h' = (hi_leader h)(?T := Some v)" "hi_base h' = (hi_base h)(?T := nd_log ?n)" "hi_log h' = (hi_log h)(?T := nd_log n')"
    "hi_oks h' = hi_oks h" "hi_sent h' = hi_sent h" "hi_asked h' = hi_asked h"
    "hi_events h' = hi_events h @ [LeaderEv v ?T (nd_log n')]"
    using won(8) ok(2) by (simp_all add: h' with_events_def with_log_def with_leader_def)
  have g: "grows v c h c' h'"
  proof (rule grows_written [where t = ?T and base = "nd_log ?n" and lg = "nd_log ?n" and es = "[\<lparr>en_term = ?T, en_command = []\<rparr>]"])
    show "nd_term (cl_nodes c u) \<le> nd_term (cl_nodes c' u)" for u using c'(1) won(2) by simp
    show "hi_leader h ?T \<noteq> None \<and> length l \<le> length (nd_log ?n)" if "(m, l, w) \<in> hi_oks h" "ar_term m = ?T" for m l w
      using oks_of_term [OF inv that] none by simp
  qed (use hs won none c' in auto)
  have t: "term_ok members c' h' ?T"
    unfolding term_ok_def using n(1) camp(2) el v c' won(1,2) hs(1-3) valid_log_grows [OF g] by (auto simp: log_good_def)
  have "log_good h' n'" "acks_good members c' h' v n'" "commit_good members h' n'"
    by (rule written_good [OF g _ t n(1,4,5) won(1)]; use hs won c' in \<open>auto simp: own_def\<close>)+
  moreover have "leader_good h' v n'"
    using won(2,6,7) hs(1,3) ok(3) d by (auto simp: leader_good_def comp_def distinct_remove1)
  moreover have "campaign_good members c' h' v n'" using won(3) by (simp add: campaign_good_def campaigning_def)
  ultimately have good: "node_good members c' h' v n'" by (simp add: node_good_def)
  show ?thesis
  proof (rule raft_inv_step [OF inv ci ci' g c'(1) v good])
    fix t es e assume "hi_leader h t \<noteq> None" "hi_log h' t = hi_log h t @ es" "e \<in> set es"
    then show "en_term e = t" using hs(3) none by (auto split: if_splits)
  next
    fix u assume "hi_leader h u = None" "hi_leader h' u = Some v"
    then have "u = ?T" using hs(1) by (auto split: if_splits)
    then show "term_ok members c' h' u" using t by simp
    fix t i assume o: "own h' t i" and lt: "t < u"
    then have "own h t i" using hs \<open>u = ?T\<close> by (simp add: own_def)
    then have "holds h t i (nd_log ?n) \<or> blocked members c h t i"
      using elected_complete [OF ci el _ _ camp(3)] lt \<open>u = ?T\<close> by blast
    then show "holds h' t i (hi_base h' u) \<or> blocked members c' h' t i"
      using holds_grows [OF g \<open>own h t i\<close> le_refl] blocked_grows [OF g] hs(2) \<open>u = ?T\<close> by auto
  next
    fix q assume "q \<in> hi_asked h'" "vr_candidate q = v"
    then show "asked_ok c' q" using inv hs(6) c'(1) won(2,3) by (auto simp: raft_inv_def asked_ok_def Let_def campaigning_def)
  next
    show "events_ok members h' {} (hi_events h')"
      using inv events_ok_grows [OF g] hs(1,2,7) won(1) by (simp add: raft_inv_def events_ok_append)
  qed (use c' hs inv in \<open>auto simp: raft_inv_def\<close>)
qed

section \<open>What a leader sends and commits\<close>

lemma node_good_sent: "node_good members c (h\<lparr>hi_sent := S\<rparr>) v n = node_good members c h v n"
proof -
  have "acked (h\<lparr>hi_sent := S\<rparr>) = acked h" "own (h\<lparr>hi_sent := S\<rparr>) = own h" "holds (h\<lparr>hi_sent := S\<rparr>) = holds h"
    by (simp_all add: acked_def own_def holds_def fun_eq_iff)
  then show ?thesis
    by (simp add: node_good_def log_good_def leader_good_def campaign_good_def acks_good_def commit_good_def
        valid_log_def backed_def blocked_def safe_prefix_def committed_def announced_def)
qed

lemma raft_inv_send:
  assumes inv: "raft_inv members c h" and ci: "cluster_inv ops sound clean members c" and v: "v \<in> set members"
    and lead: "nd_role (cl_nodes c v) = Leader" and q: "push_request peer (nd_term (cl_nodes c v)) (cl_nodes c v) = Inr (prev, m)"
    and h': "h' = h\<lparr>hi_sent := insert (m, nd_log (cl_nodes c v)) (hi_sent h)\<rparr>"
  shows "raft_inv members c h' \<and> (\<exists>v. grows v c h c h')"
  unfolding h'
proof -
  let ?n = "cl_nodes c v" and ?h = "h\<lparr>hi_sent := insert (m, nd_log (cl_nodes c v)) (hi_sent h)\<rparr>"
  note n = raft_inv_nodes [OF inv v]
  have g: "grows v c h c ?h" by (rule grows_same) simp_all
  have good: "node_good members c ?h v ?n" using n by (simp add: node_good_sent) (simp add: node_good_def)
  have l: "hi_leader h (nd_term ?n) = Some v" "nd_log ?n = hi_log h (nd_term ?n)" using n(2) lead by (simp_all add: leader_good_def)
  have "term_ok members c h (nd_term ?n)" using inv by (simp add: raft_inv_def)
  then obtain es where "es \<noteq> []" "nd_log ?n = hi_base h (nd_term ?n) @ es" using l term_ok_split by (metis option.distinct(1))
  then have "length (hi_base h (nd_term ?n)) < length (nd_log ?n)" by simp
  moreover have m: "m = \<lparr>ar_term = nd_term ?n, ar_leader = nd_name ?n, ar_prev_log_index = prev,
      ar_prev_log_term = (if prev > 0 then en_term (nd_log ?n ! (prev - 1)) else 0),
      ar_entries = drop prev (nd_log ?n), ar_leader_commit = nd_commit_index ?n\<rparr>" "prev \<le> length (nd_log ?n)"
    using q by (auto simp: push_request_def Let_def split: option.splits if_splits)
  ultimately have "sent_ok members h m (nd_log ?n)"
    using l n(5) by (simp add: sent_ok_def holds_def commit_good_def)
  then have sent: "sent_ok members ?h m (nd_log ?n)" by (rule sent_ok_grows [OF g])
  have events: "events_ok members ?h {} (hi_events ?h)" using inv events_ok_grows [OF g] by (simp add: raft_inv_def)
  show "raft_inv members c ?h \<and> (\<exists>v. grows v c h c ?h)"
    by (rule raft_inv_step [OF inv ci ci g _ v good]) (use inv sent events in \<open>auto simp: raft_inv_def\<close>)
qed

lemma acked_le: "acked h t k w \<Longrightarrow> i \<le> k \<Longrightarrow> acked h t i w"
  unfolding acked_def by (elim disjE exE conjE) (blast intro: order_trans)+

lemma commit_scan_Some:
  "commit_scan t n ks = Some k \<Longrightarrow> k \<in> set ks \<and> nd_quorum n \<le> replicas k n \<and>
     (sg_commit_own_term_only (nd_safeguards n) \<longrightarrow> en_term (nd_log n ! (k - 1)) = t)"
  by (induction ks) (auto simp: Let_def replicas_def split: if_splits)

text \<open>The leader counts itself and the peers whose match index reaches the entry: a majority.\<close>

lemma counted_committed:
  assumes inv: "raft_inv members c h" and v: "v \<in> set members" and d: "distinct members"
    and n: "nd_role n = Leader" "leader_good h v n" "nd_peers n = remove1 v members" "nd_quorum n = length members div 2 + 1"
    and k: "0 < k" "k \<le> length (nd_log n)" "nd_quorum n \<le> replicas k n" "en_term (nd_log n ! (k - 1)) = nd_term n"
  shows "committed members h (nd_term n) k"
proof -
  let ?T = "nd_term n" and ?ms = "filter (\<lambda>(_, i). i \<ge> k) (nd_match_index n)"
  note l = leader_goodD [OF n(2,1)]
  have "own h ?T (Suc (k - 1))"
    using inv l(1,2) k by (intro own_index [of members c h ?T "k - 1"]) (auto simp: raft_inv_def)
  then have own: "own h ?T k" using k(1) by simp
  define Q where "Q = insert v (fst ` set ?ms)"
  have "fst ` set ?ms \<subseteq> set (remove1 v members)" using l(4) n(3) by auto
  then have Q: "Q \<subseteq> set members" "v \<notin> fst ` set ?ms" using v d by (auto simp: Q_def dest: notin_set_remove1 set_remove1_subset [THEN subsetD])
  have "distinct (map fst ?ms)" using l(3) by (rule distinct_map_filter)
  then have "card (fst ` set ?ms) = length ?ms" using distinct_card by fastforce
  then have "card Q = replicas k n" using Q(2) by (simp add: Q_def replicas_def)
  then have "majority members Q" using Q(1) k(3) n(4) by (simp add: majority_def)
  moreover have "acked h ?T k w" if "w \<in> Q" for w
  proof (cases "w = v")
    case True
    with l(1,2) k(2) show ?thesis by (simp add: acked_def)
  next
    case False
    then obtain i where i: "(w, i) \<in> set (nd_match_index n)" "k \<le> i" using \<open>w \<in> Q\<close> by (auto simp: Q_def)
    then have "acked h ?T i w" using l(5) [OF i(1)] k(1) by auto
    then show ?thesis using i(2) by (rule acked_le)
  qed
  ultimately show ?thesis using own by (auto simp: committed_def)
qed

lemma set_dict_set: "set (dict_set k x d) \<subseteq> insert (k, x) (set d)"
  by (induction d) auto

lemma raft_inv_matched:
  assumes inv: "raft_inv members c h" and ci: "cluster_inv ops sound clean members c" and ci': "cluster_inv ops sound clean members c'"
    and v: "v \<in> set members" and d: "distinct members" and lead: "nd_role (cl_nodes c v) = Leader"
    and peer: "peer \<in> set (nd_peers (cl_nodes c v))" and ack: "acked h (nd_term (cl_nodes c v)) k peer"
    and n2: "n2 = (cl_nodes c v)\<lparr>nd_match_index := dict_set peer k (nd_match_index (cl_nodes c v)), nd_next_index := nx\<rparr>"
    and n': "n' = advance_commit (nd_term (cl_nodes c v)) n2"
    and c': "cl_nodes c' = (cl_nodes c)(v := n')" "cl_votes c' = cl_votes c"
    and h': "h' = with_events (cl_nodes c v) n' h"
  shows "raft_inv members c' h' \<and> (\<exists>v. grows v c h c' h')"
proof -
  let ?n = "cl_nodes c v"
  let ?T = "nd_term ?n" and ?k = "nd_commit_index n'"
  note n = raft_inv_nodes [OF inv v] and l = leader_goodD [OF raft_inv_nodes(2) [OF inv v] lead]
  have ok: "nd_safeguards ?n = all_safeguards" "nd_peers ?n = remove1 v members" "nd_quorum ?n = length members div 2 + 1"
    using ci v by (simp_all add: cluster_inv_def node_ok_def)
  have match: "distinct (map fst (nd_match_index n2))" "fst ` set (nd_match_index n2) \<subseteq> set (nd_peers n2)"
    "\<And>p i. (p, i) \<in> set (nd_match_index n2) \<Longrightarrow> i = 0 \<or> acked h ?T i p"
  proof -
    show "distinct (map fst (nd_match_index n2))" using l(3) by (simp add: n2 distinct_update)
    show "fst ` set (nd_match_index n2) \<subseteq> set (nd_peers n2)" using l(4) peer by (simp add: n2 fst_set_dict_set)
    fix p i assume "(p, i) \<in> set (nd_match_index n2)"
    then have "(p, i) = (peer, k) \<or> (p, i) \<in> set (nd_match_index ?n)" using set_dict_set by (fastforce simp: n2)
    then show "i = 0 \<or> acked h ?T i p" using l(5) [of p i] ack by auto
  qed
  have good2: "leader_good h v n2" using l(1,2) match by (simp add: leader_good_def n2)
  have cm: "nd_applied_index ?n = nd_commit_index ?n" "safe_prefix members h ?T (nd_log ?n) (nd_commit_index ?n)"
    "announced h (nd_log ?n) (nd_commit_index ?n)" using n(5) by (simp_all add: commit_good_def)
  have s: "nd_state n' = nd_state ?n" "nd_role n' = Leader" "nd_match_index n' = nd_match_index n2" "nd_peers n' = nd_peers n2"
    using lead by (simp_all add: n' n2 advance_commit_def apply_committed_result split: option.split)
  have commit: "nd_applied_index n' = ?k \<and> nd_events n' = nd_events ?n @ apply_events n' (nd_commit_index ?n) ?k \<and>
    (?k = nd_commit_index ?n \<or> nd_commit_index ?n < ?k \<and> committed members h ?T ?k)"
  proof (cases "commit_scan ?T n2 (rev [nd_commit_index n2 + 1..<length (nd_log n2) + 1])")
    case None
    then show ?thesis using cm(1) by (simp add: n' n2 advance_commit_def apply_events_def)
  next
    case (Some i)
    have i: "nd_commit_index ?n < i" "i \<le> length (nd_log ?n)" "nd_quorum n2 \<le> replicas i n2" "en_term (nd_log n2 ! (i - 1)) = nd_term n2"
      using commit_scan_Some [OF Some] ok(1) by (auto simp: n2 all_safeguards_def)
    have "committed members h (nd_term n2) i"
      by (rule counted_committed [OF inv v d _ good2]) (use i lead ok in \<open>auto simp: n2\<close>)
    moreover have n'': "n' = apply_committed (n2\<lparr>nd_commit_index := i\<rparr>)" using Some by (simp add: n' advance_commit_def)
    moreover have "apply_events (n2\<lparr>nd_commit_index := i\<rparr>) = apply_events n'" by (simp add: n'' apply_events_def fun_eq_iff)
    ultimately show ?thesis using i cm(1) by (simp add: apply_committed_result n2 min_def max_def)
  qed
  have events: "hi_events h' = hi_events h @ apply_events n' (nd_commit_index ?n) ?k"
    using commit by (simp add: h' with_events_def)
  have hs: "hi_leader h' = hi_leader h" "hi_base h' = hi_base h" "hi_log h' = hi_log h" "hi_oks h' = hi_oks h"
    "hi_sent h' = hi_sent h" "hi_asked h' = hi_asked h" by (simp_all add: h' with_events_def)
  have g: "grows v c h c' h'" by (rule grows_same) (use s c' hs events in auto)
  have prefix: "safe_prefix members h ?T (nd_log ?n) ?k"
    using commit cm(2) l(2) unfolding safe_prefix_def holds_def by (metis le_refl)
  have ann: "announced h' (nd_log ?n) ?k" unfolding announced_def
  proof (intro allI impI)
    fix j assume j: "j < ?k" "en_command (nd_log ?n ! j) \<noteq> []"
    show "Suc j \<in> applied_indices (hi_events h')"
    proof (cases "j < nd_commit_index ?n")
      case True
      with cm(3) j(2) show ?thesis by (simp add: announced_def events)
    next
      case False
      then have "Suc j \<in> applied_indices (apply_events n' (nd_commit_index ?n) ?k)"
        using j s(1) by (fastforce simp: applied_indices_def apply_events_def)
      then show ?thesis by (simp add: events)
    qed
  qed
  have i: "idle ?n (n'\<lparr>nd_commit_index := 0, nd_applied_index := 0, nd_role := Follower\<rparr>)" using s by (simp add: idle_def campaigning_def)
  have "log_good h' n'" "acks_good members c' h' v n'"
    using idle_good(1,3) [OF g i n(1,2,4,5) hs(1-4)] by (simp_all add: log_good_def acks_good_def)
  moreover have "leader_good h' v n'"
    using good2 s hs acked_log_cong [OF hs(1,3,4)] lead by (simp add: leader_good_def n2)
  moreover have "campaign_good members c' h' v n'" using s by (simp add: campaign_good_def campaigning_def)
  moreover have "commit_good members h' n'"
    using commit s(1) safe_prefix_grows [OF g prefix le_refl] ann by (simp add: commit_good_def)
  ultimately have good: "node_good members c' h' v n'" by (simp add: node_good_def)
  show ?thesis
  proof (rule raft_inv_step [OF inv ci ci' g c'(1) v good])
    fix q assume "q \<in> hi_asked h'" "vr_candidate q = v"
    then show "asked_ok c' q" using inv hs(6) c'(1) s by (auto simp: raft_inv_def asked_ok_def Let_def campaigning_def)
  next
    have "events_ok members h' {} (hi_events h)" using inv events_ok_grows [OF g] by (simp add: raft_inv_def)
    moreover have "event_ok members h' (applied_indices (hi_events h)) e" if e: "e \<in> set (apply_events n' (nd_commit_index ?n) ?k)" for e
    proof -
      have "nd_commit_index ?n < ?k" using e by (auto simp: apply_events_def)
      then have "committed members h ?T ?k" using commit by auto
      moreover have "holds h ?T ?k (nd_log n')" using l(2) s(1) by (simp add: holds_def)
      ultimately show ?thesis using event_ok_grows [OF g] apply_events_ok [OF _ le_refl _ _ e] s(1) by simp
    qed
    ultimately show "events_ok members h' {} (hi_events h')" unfolding events events_ok_append by (auto intro: events_ok_all)
  qed (use c' hs inv in \<open>auto simp: raft_inv_def\<close>)
qed

section \<open>Every run\<close>

lemma events_kept [simp]: "nd_events n' = nd_events n \<Longrightarrow> with_events n n' h = h"
  by (simp add: with_events_def)

lemma raft_inv_init: "so_load ops (st v) = pstate_init \<Longrightarrow>
    node_good members c history_init v (node_init ops v peers (st v) sg)"
  by (simp add: node_good_def log_good_def leader_good_def campaign_good_def acks_good_def commit_good_def node_init_def
      pstate_init_def history_init_def valid_log_def campaigning_def acked_def safe_prefix_def announced_def)

context raft_storage begin

lemma raft_inv_steps:
  assumes step: "raft_step ops crash members (c, h) (c', h')" and inv: "raft_inv members c h"
    and ci: "cluster_inv ops inv clean members c" and d: "distinct members" and unmisled: "hi_misled h' = {}"
  shows "raft_inv members c' h' \<and> (\<exists>v. grows v c h c' h')"
proof -
  note ci' = raft_step_inv [OF step ci d]
  have idle: "raft_inv members c' h' \<and> (\<exists>v. grows v c h c' h')" if "v \<in> set members" "idle (cl_nodes c v) n'" "cl_nodes c' = (cl_nodes c)(v := n')"
    "cl_votes c' = cl_votes c" "h' = h" for v n'
    by (rule raft_inv_idle [OF inv ci ci' that(3,1,2), where A = "hi_asked h" and B = "hi_stale h"]) (use that in simp_all)
  from step show ?thesis
  proof cases
    case (ask v "term")
    let ?n = "cl_nodes c v"
    have "asked_ok c (solicitation term ?n)" "vr_candidate (solicitation term ?n) = v"
      using ask ci by (auto simp: asked_ok_def solicitation_def cluster_inv_def node_ok_def campaign_ok_def)
    then have asked: "m \<in> hi_asked h \<or> vr_candidate m = v \<and> asked_ok c' m" if "m \<in> insert (solicitation term ?n) (hi_asked h)" for m
      using that ask(1) by auto
    show ?thesis by (rule raft_inv_idle [OF inv ci ci' _ ask(3) _ _ _ _ _ asked, where n' = ?n and B = "hi_stale h"]) (use ask(1,2) in auto)
  next
    case (vote v m n t g n')
    show ?thesis unfolding vote(2)
      by (rule raft_inv_vote [OF inv ci ci' vote(3,4), where so = ops and t = t and g = g and n' = n'])
        (use vote in \<open>simp_all add: with_node_def\<close>)
  next
    case (send v n "term" peer prev m)
    show ?thesis
    proof (cases "nd_role n = Leader \<and> nd_term n = term")
      case True
      then show ?thesis unfolding send(1) by (intro raft_inv_send [OF inv ci send(3), of peer prev m]) (use send in simp_all)
    next
      case False
      then have h': "h' = h\<lparr>hi_asked := hi_asked h, hi_stale := insert m (hi_stale h)\<rparr>" by (simp add: send(2) if_not_P [OF False])
      show ?thesis unfolding h' send(1)
        by (rule raft_inv_idle [OF inv ci ci _ send(3) _ _ _ _ refl, where n' = n]) (use send in auto)
    qed
  next
    case (append v m lg n t ok n')
    show ?thesis
    proof (cases ok)
      case True
      then show ?thesis
        by (intro raft_inv_accept [OF inv ci ci' append(3,4), where so = ops and t = t and n' = n'])
          (use append in \<open>simp_all add: with_node_def\<close>)
    next
      case False
      then have r: "handle_append_entries ops m n = ((t, False), n')" using append by simp
      have "nd_events n' = nd_events n" using r by (auto simp: handle_append_entries_def Let_def split: if_splits)
      then have "h' = h" using append(2) False by simp
      show ?thesis
        by (rule idle [OF append(3), of n']) (use idle_refused [OF r] append \<open>h' = h\<close> in \<open>simp_all add: with_node_def\<close>)
    qed
  next
    case (append_stale v m n t ok n')
    have "\<not> ok" using append_stale(2) unmisled by auto
    then have r: "handle_append_entries ops m n = ((t, False), n')" using append_stale by simp
    have "nd_events n' = nd_events n" using r by (auto simp: handle_append_entries_def Let_def split: if_splits)
    then have "h' = h" using append_stale(2) \<open>\<not> ok\<close> by simp
    then show ?thesis
      by (intro idle [OF append_stale(3), of n']) (use idle_refused [OF r] append_stale in \<open>simp_all add: with_node_def\<close>)
  next
    case (propose v n cmd r n')
    show ?thesis
      by (rule raft_inv_propose [OF inv ci ci' propose(3), where so = ops and cmd = cmd and r = r and n' = n'])
        (use propose in \<open>simp_all add: with_node_def\<close>)
  next
    case (follow_timeout v)
    show ?thesis
      by (rule idle [OF follow_timeout(3)]) (use follow_timeout idle_timeout in \<open>simp_all add: with_node_def\<close>)
  next
    case (campaign v n')
    show ?thesis unfolding campaign(2)
      by (rule raft_inv_campaign [OF inv ci ci' campaign(3,7,4)]) (use campaign in \<open>simp_all add: with_node_def\<close>)
  next
    case (solicited v "term" peer reply)
    show ?thesis by (rule idle [OF solicited(3) idle_solicited]) (use solicited in \<open>simp_all add: with_node_def\<close>)
  next
    case (campaign_over v n "term" timed_out n')
    show ?thesis
    proof (cases "wins timed_out n")
      case True
      then show ?thesis
        by (intro raft_inv_win [OF inv ci ci' campaign_over(3) d, where timed_out = timed_out and n' = n' and so = ops])
          (use campaign_over in \<open>simp_all add: with_node_def\<close>)
    next
      case False
      show ?thesis
        by (rule idle [OF campaign_over(3), of n'])
          (use idle_campaign_over [OF False, of ops] campaign_over False in \<open>simp_all add: with_node_def\<close>)
    qed
  next
    case (lead v)
    show ?thesis by (rule idle [OF lead(3) idle_lead(1)]) (use lead in \<open>simp_all add: with_node_def\<close>)
  next
    case (lead_over v "term")
    show ?thesis by (rule idle [OF lead_over(3) idle_lead(2)]) (use lead_over in \<open>simp_all add: with_node_def\<close>)
  next
    case (pushed v n "term" peer reply prev len "what" n')
    show ?thesis
    proof (cases "\<exists>u. reply = Some (u, True) \<and> u \<le> nd_term n \<and> nd_role n = Leader \<and> nd_term n = term")
      case True
      then obtain u where u: "reply = Some (u, True)" "u \<le> nd_term n" "nd_role n = Leader" "nd_term n = term" by blast
      have "hi_misled h = {}" using misled_grows [OF step] unmisled by simp
      then obtain m lg where m: "(m, lg, peer) \<in> hi_oks h" "ar_term m = term" "ar_prev_log_index m = prev" "length (ar_entries m) = len"
        using pushed(7) [OF u(1)] by blast
      have "sent_ok members h m lg" using inv m(1) unfolding raft_inv_def by blast
      then have "prev + len = length lg" using m(3,4) by (auto simp: sent_ok_def)
      then have "acked h (nd_term (cl_nodes c v)) (prev + len) peer" using m(1,2) u(4) pushed(4) by (auto simp: acked_def)
      then show ?thesis
        by (intro raft_inv_matched [OF inv ci ci' pushed(3) d, where peer = peer and k = "prev + len" and n' = n' and
              nx = "dict_set peer (prev + len + 1) (nd_next_index n)", OF _ _ _ refl])
          (use pushed u in \<open>simp_all add: push_reply_def with_node_def\<close>)
    next
      case False
      have "idle n n'" "nd_events n' = nd_events n"
        using pushed(8) False by (auto simp: push_reply_def idle_def campaigning_def split: option.splits if_splits prod.splits)
      then show ?thesis by (intro idle [OF pushed(3), of n']) (use pushed in \<open>simp_all add: with_node_def\<close>)
    qed
  next
    case (restart v r)
    have "so_load ops (crash r (nd_storage (cl_nodes c v))) = nd_state (cl_nodes c v)"
      using ci restart(3) crash_clean by (auto simp: cluster_inv_def node_ok_def)
    then show ?thesis by (intro idle [OF restart(3) idle_restart]) (use restart in \<open>simp_all add: with_node_def\<close>)
  qed
qed

lemma raft_inv_reachable:
  assumes "(raft_step ops crash members)\<^sup>*\<^sup>* (cluster_init ops members st all_safeguards, history_init) s"
    and "distinct members" and "\<And>v. v \<in> set members \<Longrightarrow> inv (st v) \<and> clean (st v) \<and> so_load ops (st v) = pstate_init"
  shows "cluster_inv ops inv clean members (fst s) \<and> (hi_misled (snd s) = {} \<longrightarrow> raft_inv members (fst s) (snd s))"
  using assms(1)
proof induction
  case base
  have "cluster_inv ops inv clean members (cluster_init ops members st all_safeguards)"
    using assms(2,3) by (intro cluster_inv_init) auto
  moreover have "raft_inv members (cluster_init ops members st all_safeguards) history_init"
    using assms(3) raft_inv_init [of ops st]
    by (auto simp: raft_inv_def cluster_init_def term_ok_def leader_complete_def history_init_def)
  ultimately show ?case by simp
next
  case (step s s')
  have "hi_misled (snd s) \<subseteq> hi_misled (snd s')" by (rule misled_grows [OF step(2)])
  with step show ?case
    using raft_inv_steps [of members "fst s" "snd s" "fst s'" "snd s'"] raft_step_inv [of members "fst s" "snd s" "fst s'" "snd s'"] assms(2)
    by auto
qed

end

end
