(* ===== verification/RaftPlay.thy ===== *)
theory RaftPlay
  imports RaftRun
begin

text \<open>
  The runs of \<open>RaftRun\<close> made executable: a move names a step, and making it gives the next state when
  the step can be made. Concrete runs are lists of moves.
\<close>

section \<open>Playing a run\<close>

datatype move =
    MTimeout string
  | MCampaign string
  | MAsk string
  | MVote string vote_request
  | MGranted string string
  | MElected string
  | MLead string
  | MPropose string string
  | MSend string string
  | MAppend string append_request "entry list"
  | MAppendStale string append_request
  | MAccepted string string append_request "entry list"

fun make_move :: "'st storage \<Rightarrow> string list \<Rightarrow> move \<Rightarrow> 'st run \<Rightarrow> 'st run option" where
  "make_move ops members (MTimeout v) (c, h) =
     (let n = cl_nodes c v in
      if v \<in> set members \<and> nd_role n = Follower \<and> nd_campaign_term n = None \<and> nd_lead_term n = None
      then Some (with_node v (RaftNode.follow_timeout n) c, h) else None)"
| "make_move ops members (MCampaign v) (c, h) =
     (let n = cl_nodes c v; n' = start_campaign ops n in
      if v \<in> set members \<and> nd_role n = Candidate \<and> nd_campaign_term n = None \<and> nd_lead_term n = None
      then Some ((with_node v n' c)\<lparr>cl_votes := insert (nd_term n', v, v) (cl_votes c)\<rparr>, h) else None)"
| "make_move ops members (MAsk v) (c, h) =
     (case nd_campaign_term (cl_nodes c v) of
        Some t \<Rightarrow> if v \<in> set members then Some (c, h\<lparr>hi_asked := insert (solicitation t (cl_nodes c v)) (hi_asked h)\<rparr>) else None
      | None \<Rightarrow> None)"
| "make_move ops members (MVote v m) (c, h) =
     (case handle_request_vote ops m (cl_nodes c v) of ((t, g), n') \<Rightarrow>
        if v \<in> set members \<and> m \<in> hi_asked h then
          Some ((with_node v n' c)\<lparr>cl_answers := insert (vr_term m, vr_candidate m, v, t, g) (cl_answers c),
            cl_votes := (if g then insert (vr_term m, v, vr_candidate m) (cl_votes c) else cl_votes c)\<rparr>, h)
        else None)"
| "make_move ops members (MGranted v peer) (c, h) =
     (let n = cl_nodes c v in
      case nd_campaign_term n of
        Some t \<Rightarrow> if v \<in> set members \<and> peer \<in> set (nd_solicitors n) \<and> (t, v, peer, t, True) \<in> cl_answers c
          then Some (with_node v (solicit_reply ops t peer (Some (t, True)) n) c, h) else None
      | None \<Rightarrow> None)"
| "make_move ops members (MElected v) (c, h) =
     (let n = cl_nodes c v; n' = end_campaign ops False n in
      if v \<in> set members \<and> nd_campaign_term n \<noteq> None \<and> nd_settled n then
        Some (with_node v n' c,
          if wins False n then with_events n n' (with_log (nd_term n) (nd_log n') (with_leader (nd_term n) v (nd_log n) h)) else h)
      else None)"
| "make_move ops members (MLead v) (c, h) =
     (let n = cl_nodes c v in
      if v \<in> set members \<and> nd_role n = Leader \<and> nd_campaign_term n = None \<and> nd_lead_term n = None
      then Some (with_node v (start_lead n) c, h) else None)"
| "make_move ops members (MPropose v cmd) (c, h) =
     (let n = cl_nodes c v in
      case handle_propose ops cmd n of (r, n') \<Rightarrow>
        if v \<in> set members
        then Some (with_node v n' c, if nd_role n = Leader then with_log (nd_term n) (nd_log n') h else h) else None)"
| "make_move ops members (MSend v peer) (c, h) =
     (let n = cl_nodes c v in
      case nd_lead_term n of
        None \<Rightarrow> None
      | Some t \<Rightarrow> (case push_request peer t n of
            Inl e \<Rightarrow> None
          | Inr (prev, m) \<Rightarrow>
              if v \<in> set members \<and> peer \<in> set (nd_peers n) then
                Some (c, if nd_role n = Leader \<and> nd_term n = t then h\<lparr>hi_sent := insert (m, nd_log n) (hi_sent h)\<rparr>
                  else h\<lparr>hi_stale := insert m (hi_stale h)\<rparr>)
              else None))"
| "make_move ops members (MAppend v m lg) (c, h) =
     (let n = cl_nodes c v in
      case handle_append_entries ops m n of ((t, k), n') \<Rightarrow>
        if v \<in> set members \<and> (m, lg) \<in> hi_sent h then
          Some (with_node v n' c, (with_events n n' h)\<lparr>hi_oks := (if k then insert (m, lg, v) (hi_oks h) else hi_oks h)\<rparr>)
        else None)"
| "make_move ops members (MAppendStale v m) (c, h) =
     (let n = cl_nodes c v in
      case handle_append_entries ops m n of ((t, k), n') \<Rightarrow>
        if v \<in> set members \<and> m \<in> hi_stale h then
          Some (with_node v n' c, (with_events n n' h)\<lparr>hi_misled := (if k then insert (m, v) (hi_misled h) else hi_misled h)\<rparr>)
        else None)"
| "make_move ops members (MAccepted v peer m lg) (c, h) =
     (let n = cl_nodes c v in
      case push_reply ops peer (ar_term m) (ar_prev_log_index m) (length (ar_entries m)) (Some (ar_term m, True)) n of (w, n') \<Rightarrow>
        if v \<in> set members \<and> nd_lead_term n = Some (ar_term m) \<and> peer \<in> set (nd_peers n) \<and> (m, lg, peer) \<in> hi_oks h
        then Some (with_node v n' c, with_events n n' h) else None)"

fun make_moves :: "'st storage \<Rightarrow> string list \<Rightarrow> move list \<Rightarrow> 'st run \<Rightarrow> 'st run option" where
  "make_moves ops members [] s = Some s"
| "make_moves ops members (mv # mvs) s = Option.bind (make_move ops members mv s) (make_moves ops members mvs)"

text \<open>Every move is a step, so a list of moves that can be made is a run.\<close>

lemma guarded [simp]: "(if P then Some x else None) = Some y \<longleftrightarrow> P \<and> x = y"
  by simp

lemma make_move_step:
  assumes "make_move ops members mv (c, h) = Some s'"
  shows "raft_step ops crash members (c, h) s'"
proof (cases mv)
  case (MTimeout v)
  with assms show ?thesis by (auto simp: Let_def intro: raft_step.follow_timeout)
next
  case (MCampaign v)
  with assms show ?thesis by (auto simp: Let_def intro: raft_step.campaign)
next
  case (MAsk v)
  with assms show ?thesis by (auto intro: raft_step.ask split: option.splits)
next
  case (MVote v m)
  obtain t g n' where r: "handle_request_vote ops m (cl_nodes c v) = ((t, g), n')" by (metis surj_pair)
  with assms MVote show ?thesis using raft_step.vote [OF _ _ refl r, of members h crash] by (simp split del: if_split)
next
  case (MGranted v peer)
  with assms obtain t where t: "nd_campaign_term (cl_nodes c v) = Some t" by (auto simp: Let_def split: option.splits)
  with assms MGranted show ?thesis
    using raft_step.solicited [OF _ t, of members peer "Some (t, True)" ops crash h] by (auto simp: Let_def)
next
  case (MElected v)
  with assms obtain t where t: "nd_campaign_term (cl_nodes c v) = Some t" by (auto simp: Let_def)
  with assms MElected show ?thesis
    using raft_step.campaign_over [OF _ refl t _ refl, of members False ops crash h] by (simp add: Let_def split del: if_split)
next
  case (MLead v)
  with assms show ?thesis by (auto simp: Let_def intro: raft_step.lead)
next
  case (MPropose v cmd)
  obtain r n' where r: "handle_propose ops cmd (cl_nodes c v) = (r, n')" by fastforce
  with assms MPropose show ?thesis using raft_step.propose [OF _ refl r, of members crash h] by (simp add: Let_def split del: if_split)
next
  case (MSend v peer)
  with assms obtain t prev m where t: "nd_lead_term (cl_nodes c v) = Some t" and m: "push_request peer t (cl_nodes c v) = Inr (prev, m)"
    by (auto simp: Let_def split: option.splits sum.splits)
  with assms MSend show ?thesis using raft_step.send [OF _ refl t _ m, of members ops crash h] by (simp add: Let_def split del: if_split)
next
  case (MAppend v m lg)
  obtain t k n' where r: "handle_append_entries ops m (cl_nodes c v) = ((t, k), n')" by (metis surj_pair)
  with assms MAppend show ?thesis using raft_step.append [OF _ _ refl r, of members lg h crash] by (simp add: Let_def split del: if_split)
next
  case (MAppendStale v m)
  obtain t k n' where r: "handle_append_entries ops m (cl_nodes c v) = ((t, k), n')" by (metis surj_pair)
  with assms MAppendStale show ?thesis using raft_step.append_stale [OF _ _ refl r, of members h crash] by (simp add: Let_def split del: if_split)
next
  case (MAccepted v peer m lg)
  let ?reply = "Some (ar_term m, True)"
  obtain w n' where r: "push_reply ops peer (ar_term m) (ar_prev_log_index m) (length (ar_entries m)) ?reply (cl_nodes c v) = (w, n')" by fastforce
  from assms MAccepted r have m: "v \<in> set members" "nd_lead_term (cl_nodes c v) = Some (ar_term m)" "peer \<in> set (nd_peers (cl_nodes c v))"
    "(m, lg, peer) \<in> hi_oks h" "s' = (with_node v n' c, with_events (cl_nodes c v) n' h)" by (auto simp: Let_def)
  show ?thesis unfolding m(5) by (rule raft_step.pushed [OF m(1) refl m(2,3) _ r]) (use m(4) in blast)
qed

lemma make_moves_run:
  "make_moves ops members mvs s = Some s' \<Longrightarrow> (raft_step ops crash members)\<^sup>*\<^sup>* s s'"
  by (induction mvs arbitrary: s)
    (auto simp: bind_eq_Some_conv intro: converse_rtranclp_into_rtranclp make_move_step)

lemma make_moves_append:
  "make_moves ops members (xs @ ys) s = Option.bind (make_moves ops members xs s) (make_moves ops members ys)"
  by (induction xs arbitrary: s) (auto split: bind_split)

section \<open>Words for concrete runs\<close>

definition wanted_by :: "string \<Rightarrow> nat \<Rightarrow> entry list \<Rightarrow> vote_request" where
  "wanted_by v t lg = \<lparr>vr_term = t, vr_candidate = v, vr_last_log_index = length lg, vr_last_log_term = last_log_term lg\<rparr>"

definition push_of :: "string \<Rightarrow> nat \<Rightarrow> nat \<Rightarrow> entry list \<Rightarrow> nat \<Rightarrow> append_request" where
  "push_of v t prev lg commit = \<lparr>ar_term = t, ar_leader = v, ar_prev_log_index = prev,
     ar_prev_log_term = (if prev > 0 then en_term (lg ! (prev - 1)) else 0), ar_entries = drop prev lg, ar_leader_commit = commit\<rparr>"

definition elect :: "string \<Rightarrow> nat \<Rightarrow> entry list \<Rightarrow> string list \<Rightarrow> move list" where
  \<comment> \<open>\<open>v\<close>, with the log \<open>lg\<close>, is elected in term \<open>t\<close> by its own vote and the voters'\<close>
  "elect v t lg voters = [MTimeout v, MCampaign v, MAsk v] @ map (\<lambda>w. MVote w (wanted_by v t lg)) voters @
     map (MGranted v) voters @ [MElected v, MLead v]"

definition replicate_to :: "string \<Rightarrow> nat \<Rightarrow> entry list \<Rightarrow> string \<Rightarrow> move list" where
  \<comment> \<open>the leader \<open>v\<close> of term \<open>t\<close> sends its whole log, \<open>w\<close> accepts it, and \<open>v\<close> learns so\<close>
  "replicate_to v t lg w = [MSend v w, MAppend w (push_of v t 0 lg 0) lg, MAccepted v w (push_of v t 0 lg 0) lg]"

definition fresh_cluster :: "string list \<Rightarrow> stored disk run" where
  "fresh_cluster members = (cluster_init disk_storage members (\<lambda>_. raft_demo_disk) all_safeguards, history_init)"

end
