(* ===== verification/RaftChecks.thy ===== *)
theory RaftChecks
  imports RaftSafety RaftPlay
begin

text \<open>
  \<open>examples/raft/tests/checks.py\<close>: the four safety claims the suite checks after every simulated
  run, what they say, and that no run of the cluster violates them. Of \<open>InvariantViolation\<close> the
  model keeps the name of the invariant, not the text of its detail.
\<close>

section \<open>The checks\<close>

definition names_of :: "(nat, string list) dict \<Rightarrow> nat \<Rightarrow> string list" where
  "names_of leaders t = (case dict_get leaders t of None \<Rightarrow> [] | Some names \<Rightarrow> names)"

fun collect_leaders :: "(nat, string list) dict \<Rightarrow> event list \<Rightarrow> (nat, string list) dict" where
  "collect_leaders leaders [] = leaders"
| "collect_leaders leaders (LeaderEv name t lg # es) =
     collect_leaders (dict_set t (List.insert name (names_of leaders t)) leaders) es"
| "collect_leaders leaders (ApplyEv name j t cmd u # es) = collect_leaders leaders es"

definition check_election_safety :: "event list \<Rightarrow> string option" where
  "check_election_safety events =
     (if list_ex (\<lambda>(t, names). length names > 1) (collect_leaders [] events) then Some ''election-safety'' else None)"

fun check_state_machine :: "(nat, nat \<times> string) dict \<Rightarrow> event list \<Rightarrow> string option" where
  "check_state_machine applied [] = None"
| "check_state_machine applied (LeaderEv name t lg # es) = check_state_machine applied es"
| "check_state_machine applied (ApplyEv name index t cmd u # es) =
     (case dict_get applied index of
        None \<Rightarrow> check_state_machine (dict_set index (t, cmd) applied) es
      | Some first \<Rightarrow> if first \<noteq> (t, cmd) then Some ''state-machine-safety'' else check_state_machine applied es)"

definition lacks :: "entry list \<Rightarrow> nat \<Rightarrow> entry \<Rightarrow> bool" where
  \<comment> \<open>the indices peers record start at 1; at 0 Python would read the last entry\<close>
  "lacks lg index e \<longleftrightarrow> index > length lg \<or> lg ! (index - 1) \<noteq> e"

fun check_leader_completeness :: "(nat, entry \<times> nat) dict \<Rightarrow> event list \<Rightarrow> string option" where
  "check_leader_completeness known [] = None"
| "check_leader_completeness known (LeaderEv name t lg # es) =
     (if list_ex (\<lambda>(index, e, floor). t > floor \<and> lacks lg index e) known then Some ''leader-completeness''
      else check_leader_completeness known es)"
| "check_leader_completeness known (ApplyEv name index t cmd u # es) =
     check_leader_completeness
       (case dict_get known index of
          None \<Rightarrow> dict_set index (\<lparr>en_term = t, en_command = cmd\<rparr>, u) known
        | Some _ \<Rightarrow> known) es"

fun logs_match :: "entry list \<Rightarrow> entry list \<Rightarrow> nat \<Rightarrow> bool" where
  \<comment> \<open>the descending scan for the last index at which the terms agree\<close>
  "logs_match a b 0 \<longleftrightarrow> True"
| "logs_match a b (Suc j) \<longleftrightarrow>
     (if en_term (a ! j) = en_term (b ! j) then take (Suc j) a = take (Suc j) b else logs_match a b j)"

fun check_log_matching :: "(string \<times> entry list) list \<Rightarrow> string option" where
  \<comment> \<open>all pairs; their order only decides which pair the detail names\<close>
  "check_log_matching [] = None"
| "check_log_matching ((x, a) # logs) =
     (if list_all (\<lambda>(y, b). logs_match a b (min (length a) (length b))) logs then check_log_matching logs
      else Some ''log-matching'')"

definition check_invariants :: "(string \<times> entry list) list \<Rightarrow> event list \<Rightarrow> string option" where
  "check_invariants logs events =
     (case check_election_safety events of Some x \<Rightarrow> Some x
      | None \<Rightarrow> case check_state_machine [] events of Some x \<Rightarrow> Some x
      | None \<Rightarrow> case check_leader_completeness [] events of Some x \<Rightarrow> Some x
      | None \<Rightarrow> check_log_matching logs)"

section \<open>The claims they decide\<close>

definition one_leader_per_term :: "event list \<Rightarrow> bool" where
  "one_leader_per_term events \<longleftrightarrow>
     (\<forall>t a b la lb. LeaderEv a t la \<in> set events \<longrightarrow> LeaderEv b t lb \<in> set events \<longrightarrow> a = b)"

definition one_entry_per_index :: "event list \<Rightarrow> bool" where
  "one_entry_per_index events \<longleftrightarrow> (\<forall>j a t cmd u b t' cmd' u'.
     ApplyEv a j t cmd u \<in> set events \<longrightarrow> ApplyEv b j t' cmd' u' \<in> set events \<longrightarrow> t = t' \<and> cmd = cmd')"

fun first_applied :: "event list \<Rightarrow> nat \<Rightarrow> (entry \<times> nat) option" where
  \<comment> \<open>the entry first applied at an index and the term of the node that applied it\<close>
  "first_applied [] j = None"
| "first_applied (LeaderEv name t lg # es) j = first_applied es j"
| "first_applied (ApplyEv name index t cmd u # es) j =
     (if index = j then Some (\<lparr>en_term = t, en_command = cmd\<rparr>, u) else first_applied es j)"

definition later_leaders_complete :: "event list \<Rightarrow> bool" where
  \<comment> \<open>a leader elected after an apply, in a later term, has the applied entry\<close>
  "later_leaders_complete events \<longleftrightarrow> (\<forall>before name t lg rest j e floor.
     events = before @ LeaderEv name t lg # rest \<longrightarrow> first_applied before j = Some (e, floor) \<longrightarrow> floor < t \<longrightarrow>
     j \<le> length lg \<and> lg ! (j - 1) = e)"

definition logs_agree :: "(string \<times> entry list) list \<Rightarrow> bool" where
  "logs_agree logs \<longleftrightarrow> (\<forall>x a y b j. (x, a) \<in> set logs \<longrightarrow> (y, b) \<in> set logs \<longrightarrow> j < length a \<longrightarrow> j < length b \<longrightarrow>
     en_term (a ! j) = en_term (b ! j) \<longrightarrow> take (Suc j) a = take (Suc j) b)"

lemma collect_leaders_names:
  assumes "distinct (map fst d)" and "\<And>t. distinct (names_of d t)"
  shows "distinct (map fst (collect_leaders d es))" "distinct (names_of (collect_leaders d es) t)"
    "set (names_of (collect_leaders d es) t) = set (names_of d t) \<union> {name. \<exists>lg. LeaderEv name t lg \<in> set es}"
proof -
  have "distinct (map fst (collect_leaders d es)) \<and> (\<forall>t. distinct (names_of (collect_leaders d es) t) \<and>
    set (names_of (collect_leaders d es) t) = set (names_of d t) \<union> {name. \<exists>lg. LeaderEv name t lg \<in> set es})"
    using assms
  proof (induction d es rule: collect_leaders.induct)
    case (2 leaders name t lg es)
    let ?d = "dict_set t (List.insert name (names_of leaders t)) leaders"
    have n: "names_of ?d u = (if u = t then List.insert name (names_of leaders t) else names_of leaders u)" for u
      by (simp add: names_of_def)
    have "distinct (map fst ?d)" "\<And>u. distinct (names_of ?d u)" using 2(2,3) by (auto simp: n distinct_update)
    from 2(1) [OF this] show ?case by (auto simp: n)
  qed simp_all
  then show "distinct (map fst (collect_leaders d es))" "distinct (names_of (collect_leaders d es) t)"
    "set (names_of (collect_leaders d es) t) = set (names_of d t) \<union> {name. \<exists>lg. LeaderEv name t lg \<in> set es}" by blast+
qed

lemma distinct_many:
  assumes "distinct xs"
  shows "length xs > 1 \<longleftrightarrow> (\<exists>a\<in>set xs. \<exists>b\<in>set xs. a \<noteq> b)"
proof (cases xs)
  case (Cons x ys)
  with assms show ?thesis by (cases ys) auto
qed simp

lemma check_election_safety_iff: "check_election_safety events = None \<longleftrightarrow> one_leader_per_term events"
proof -
  define d where "d = collect_leaders [] events"
  have d: "distinct (map fst d)" "\<And>t. distinct (names_of d t)"
    "\<And>t. set (names_of d t) = {name. \<exists>lg. LeaderEv name t lg \<in> set events}"
    using collect_leaders_names [of "[]" events] by (simp_all add: d_def names_of_def)
  have get: "(t, names) \<in> set d \<longleftrightarrow> dict_get d t = Some names" for t names
    using d(1) by (simp add: map_of_eq_Some_iff)
  have "(\<exists>t names. (t, names) \<in> set d \<and> length names > 1) \<longleftrightarrow> (\<exists>t. length (names_of d t) > 1)"
  proof (intro iffI; elim exE)
    fix t names assume "(t, names) \<in> set d \<and> length names > 1"
    then have "length (names_of d t) > 1" by (simp add: get names_of_def)
    then show "\<exists>t. length (names_of d t) > 1" ..
  next
    fix t assume "length (names_of d t) > 1"
    then have "(t, names_of d t) \<in> set d" by (simp add: get names_of_def split: option.splits)
    then show "\<exists>t names. (t, names) \<in> set d \<and> length names > 1" using \<open>length (names_of d t) > 1\<close> by blast
  qed
  also have "\<dots> \<longleftrightarrow> \<not> one_leader_per_term events"
    unfolding distinct_many [OF d(2)] d(3) one_leader_per_term_def by blast
  finally show ?thesis by (auto simp: check_election_safety_def d_def [symmetric] list_ex_iff)
qed

definition applies :: "event list \<Rightarrow> (nat \<times> nat \<times> string) set" where
  "applies es = {(j, t, cmd). \<exists>a u. ApplyEv a j t cmd u \<in> set es}"

lemma applies_simps [simp]:
  "applies [] = {}" "applies (LeaderEv a t lg # es) = applies es"
  "applies (ApplyEv a j t cmd u # es) = insert (j, t, cmd) (applies es)"
  by (auto simp: applies_def)

lemma single_valued_insert: "single_valued (insert (a, b) r) \<longleftrightarrow> single_valued r \<and> (\<forall>y. (a, y) \<in> r \<longrightarrow> y = b)"
  by (auto simp: single_valued_def)

lemma one_entry_per_index_applies: "one_entry_per_index es \<longleftrightarrow> single_valued (applies es)"
proof -
  have "(j, x) \<in> applies es \<longleftrightarrow> (\<exists>a u. ApplyEv a j (fst x) (snd x) u \<in> set es)" for j x
    by (cases x) (simp add: applies_def)
  then show ?thesis unfolding one_entry_per_index_def single_valued_def by (auto simp: prod_eq_iff; blast)
qed

lemma check_state_machine_iff:
  "check_state_machine d es = None \<longleftrightarrow>
     single_valued (applies es) \<and> (\<forall>j x. (j, x) \<in> applies es \<longrightarrow> dict_get d j = None \<or> dict_get d j = Some x)"
proof (induction d es rule: check_state_machine.induct)
  case (3 d name j t cmd u es)
  show ?case
  proof (cases "dict_get d j")
    case None
    let ?ok = "\<lambda>d es. \<forall>i x. (i, x) \<in> applies es \<longrightarrow> dict_get d i = None \<or> dict_get d i = Some x"
    have "?ok (dict_set j (t, cmd) d) es \<longleftrightarrow> (\<forall>x. (j, x) \<in> applies es \<longrightarrow> x = (t, cmd)) \<and> ?ok d es"
      using None by (simp del: split_paired_All) blast
    moreover have "?ok d (ApplyEv name j t cmd u # es) \<longleftrightarrow> ?ok d es" using None by auto
    ultimately show ?thesis using 3(1) [OF None] None by (simp only: single_valued_insert applies_simps check_state_machine.simps option.case) blast
  next
    case (Some first)
    show ?thesis
    proof (cases "first = (t, cmd)")
      case True
      then have "check_state_machine d es = None \<longleftrightarrow> single_valued (applies es) \<and>
          (\<forall>i x. (i, x) \<in> applies es \<longrightarrow> dict_get d i = None \<or> dict_get d i = Some x)"
        using 3(2) [OF Some] by simp
      then show ?thesis using Some True by (simp add: single_valued_insert del: split_paired_All) fastforce
    next
      case False
      have "(j, t, cmd) \<in> applies (ApplyEv name j t cmd u # es)" by simp
      moreover have "\<not> (dict_get d j = None \<or> dict_get d j = Some (t, cmd))" using Some False by simp
      moreover have "check_state_machine d (ApplyEv name j t cmd u # es) \<noteq> None" using Some False by simp
      ultimately show ?thesis by blast
    qed
  qed
qed simp_all

text \<open>What the loop of \<open>_leader_completeness\<close> has in \<open>committed\<close> is the first apply of each index.\<close>

definition all_have :: "(nat, entry \<times> nat) dict \<Rightarrow> nat \<Rightarrow> entry list \<Rightarrow> bool" where
  "all_have known t lg \<longleftrightarrow> (\<forall>j e floor. (j, e, floor) \<in> set known \<longrightarrow> floor < t \<longrightarrow> \<not> lacks lg j e)"

fun note_apply :: "(nat, entry \<times> nat) dict \<Rightarrow> event \<Rightarrow> (nat, entry \<times> nat) dict" where
  "note_apply known (LeaderEv name t lg) = known"
| "note_apply known (ApplyEv name j t cmd u) =
     (case dict_get known j of None \<Rightarrow> dict_set j (\<lparr>en_term = t, en_command = cmd\<rparr>, u) known | Some _ \<Rightarrow> known)"

lemma elections_Cons:
  "(\<forall>before name t lg rest. e # es = before @ LeaderEv name t lg # rest \<longrightarrow> P before t lg) \<longleftrightarrow>
     (\<forall>name t lg. e = LeaderEv name t lg \<longrightarrow> P [] t lg) \<and>
     (\<forall>before name t lg rest. es = before @ LeaderEv name t lg # rest \<longrightarrow> P (e # before) t lg)"
  by (auto simp: Cons_eq_append_conv)

lemma check_leader_completeness_iff:
  "check_leader_completeness known es = None \<longleftrightarrow> (\<forall>before name t lg rest.
     es = before @ LeaderEv name t lg # rest \<longrightarrow> all_have (fold (\<lambda>e k. note_apply k e) before known) t lg)"
proof (induction known es rule: check_leader_completeness.induct)
  case (2 known name t lg es)
  have head: "list_ex (\<lambda>(index, e, floor). t > floor \<and> lacks lg index e) known \<longleftrightarrow> \<not> all_have known t lg"
    by (auto simp: all_have_def list_ex_iff)
  show ?case unfolding elections_Cons using 2 by (simp add: head)
next
  case (3 known name j t cmd u es)
  then show ?case unfolding elections_Cons by simp
qed simp

lemma noted_first_applied:
  "dict_get (fold (\<lambda>e k. note_apply k e) es known) j =
     (case dict_get known j of None \<Rightarrow> first_applied es j | Some x \<Rightarrow> Some x)"
proof (induction es arbitrary: known)
  case (Cons e es)
  show ?case by (cases e) (auto simp: Cons.IH split: option.split)
qed (simp split: option.split)

lemma noted_distinct: "distinct (map fst known) \<Longrightarrow> distinct (map fst (fold (\<lambda>e k. note_apply k e) es known))"
proof (induction es arbitrary: known)
  case (Cons e es)
  then show ?case by (cases e) (auto simp: distinct_update split: option.split)
qed simp

lemma check_leader_completeness_claim: "check_leader_completeness [] es = None \<longleftrightarrow> later_leaders_complete es"
proof -
  have "all_have (fold (\<lambda>e k. note_apply k e) before []) t lg \<longleftrightarrow>
      (\<forall>j e floor. first_applied before j = Some (e, floor) \<longrightarrow> floor < t \<longrightarrow> j \<le> length lg \<and> lg ! (j - 1) = e)" for before t lg
  proof -
    have "(j, x) \<in> set (fold (\<lambda>e k. note_apply k e) before []) \<longleftrightarrow> first_applied before j = Some x" for j x
      using map_of_eq_Some_iff [OF noted_distinct [of "[]" before], of j x] noted_first_applied [of before "[]" j] by simp
    then show ?thesis by (simp add: all_have_def lacks_def not_less)
  qed
  then show ?thesis unfolding check_leader_completeness_iff later_leaders_complete_def by simp
qed

lemma logs_match_iff:
  "n \<le> length a \<Longrightarrow> n \<le> length b \<Longrightarrow> logs_match a b n \<longleftrightarrow>
     (\<forall>j<n. en_term (a ! j) = en_term (b ! j) \<longrightarrow> take (Suc j) a = take (Suc j) b)"
proof (induction n)
  case (Suc n)
  show ?case
  proof (cases "en_term (a ! n) = en_term (b ! n)")
    case True
    have "take (Suc j) a = take (Suc j) b" if "take (Suc n) a = take (Suc n) b" "j < Suc n" for j
      using that by (metis Suc_leI min.absorb1 take_take)
    with True show ?thesis by auto
  qed (use Suc less_Suc_eq in auto)
qed simp

definition pair_agrees :: "entry list \<Rightarrow> entry list \<Rightarrow> bool" where
  "pair_agrees a b \<longleftrightarrow> (\<forall>j. j < length a \<longrightarrow> j < length b \<longrightarrow>
     en_term (a ! j) = en_term (b ! j) \<longrightarrow> take (Suc j) a = take (Suc j) b)"

lemma pair_agrees_simps [simp]: "pair_agrees a a" "pair_agrees a b \<Longrightarrow> pair_agrees b a"
  unfolding pair_agrees_def by metis+

lemma logs_agree_pairs: "logs_agree logs \<longleftrightarrow> (\<forall>p\<in>set logs. \<forall>q\<in>set logs. pair_agrees (snd p) (snd q))"
  unfolding logs_agree_def pair_agrees_def by (simp add: Ball_def split_paired_All)

lemma check_log_matching_iff: "check_log_matching logs = None \<longleftrightarrow> logs_agree logs"
proof (induction logs)
  case (Cons x logs)
  obtain n a where x: "x = (n, a)" by (cases x)
  have m: "logs_match a b (min (length a) (length b)) \<longleftrightarrow> pair_agrees a b" for b
    by (subst logs_match_iff) (auto simp: pair_agrees_def)
  have "check_log_matching (x # logs) = None \<longleftrightarrow> (\<forall>q\<in>set logs. pair_agrees a (snd q)) \<and> logs_agree logs"
    using Cons.IH by (simp add: x m list_all_iff split_beta)
  also have "\<dots> \<longleftrightarrow> logs_agree (x # logs)"
    by (auto simp: logs_agree_pairs x)
  finally show ?case .
qed (simp add: logs_agree_def)

text \<open>
  C17. The checks of the suite decide the four claims of Raft: a run passes \<open>check_invariants\<close> exactly
  when no term has two leaders, no index is applied as two different entries, every leader elected
  after an apply and in a later term has the applied entry, and two logs that agree on the term at
  an index agree up to it.
\<close>
theorem checks_decide_the_claims:
  "check_invariants logs events = None \<longleftrightarrow>
     one_leader_per_term events \<and> one_entry_per_index events \<and> later_leaders_complete events \<and> logs_agree logs"
proof -
  have "check_state_machine [] events = None \<longleftrightarrow> one_entry_per_index events"
    by (simp add: check_state_machine_iff one_entry_per_index_applies)
  then show ?thesis
    unfolding check_election_safety_iff [symmetric] check_leader_completeness_claim [symmetric] check_log_matching_iff [symmetric]
    by (auto simp: check_invariants_def split: option.split)
qed

section \<open>No run violates them\<close>

lemma events_ok_split: "events_ok members h {} (xs @ e # ys) \<Longrightarrow> event_ok members h (applied_indices xs) e"
  by (simp add: events_ok_append)

lemma leader_recorded:
  assumes "raft_inv members c h" and "LeaderEv name t lg \<in> set (hi_events h)"
  shows "hi_leader h t = Some name" "\<exists>e. lg = hi_base h t @ [e]"
proof -
  obtain xs ys where "hi_events h = xs @ LeaderEv name t lg # ys" using assms(2) by (meson split_list)
  with assms(1) events_ok_split [of members h xs "LeaderEv name t lg" ys]
  show "hi_leader h t = Some name" "\<exists>e. lg = hi_base h t @ [e]" by (simp_all add: raft_inv_def)
qed

lemma apply_recorded:
  assumes "raft_inv members c h" and "hi_events h = xs @ ApplyEv name j t cmd u # ys"
  obtains s i where "0 < j" "j \<le> i" "committed members h s i" "hi_log h s ! (j - 1) = \<lparr>en_term = t, en_command = cmd\<rparr>"
    "j \<notin> applied_indices xs \<Longrightarrow> s = u"
  using assms events_ok_split [of members h xs "ApplyEv name j t cmd u" ys] that by (auto simp: raft_inv_def)

text \<open>Two committed prefixes agree where both reach.\<close>

lemma committed_in_later:
  assumes "raft_inv members c h" and "committed members h s i" and "s < u" and "own h u n"
  shows "holds h s i (hi_log h u)"
  using later_log_holds [OF assms(1) _ assms(3,4), of i "hi_log h u"] committed_not_blocked [OF assms(2)] assms(2)
  by (auto simp: holds_def committed_def)

lemma committed_agree:
  assumes inv: "raft_inv members c h" and "committed members h s i" and "committed members h s' i'"
    and "0 < j" and "j \<le> i" and "j \<le> i'"
  shows "hi_log h s ! (j - 1) = hi_log h s' ! (j - 1)"
proof -
  have less: "hi_log h t ! (j - 1) = hi_log h t' ! (j - 1)"
    if "committed members h t k" "committed members h t' k'" "t < t'" "j \<le> k" for t t' k k'
  proof -
    have "own h t' k'" using that(2) by (simp add: committed_def)
    then have "holds h t k (hi_log h t')" by (rule committed_in_later [OF inv that(1,3)])
    then show ?thesis using that(4) assms(4) by (metis Suc_le_eq Suc_pred' holds_def nth_take order_less_le_trans diff_less zero_less_one)
  qed
  show ?thesis using less [OF assms(2,3) _ assms(5)] less [OF assms(3,2) _ assms(6)] by (cases s s' rule: linorder_cases) auto
qed

lemma inv_one_entry: "raft_inv members c h \<Longrightarrow> one_entry_per_index (hi_events h)"
  unfolding one_entry_per_index_def
proof (intro allI impI)
  fix j a t cmd u b t' cmd' u'
  assume inv: "raft_inv members c h" and e: "ApplyEv a j t cmd u \<in> set (hi_events h)" "ApplyEv b j t' cmd' u' \<in> set (hi_events h)"
  obtain s i where s: "0 < j" "j \<le> i" "committed members h s i" "hi_log h s ! (j - 1) = \<lparr>en_term = t, en_command = cmd\<rparr>"
    using split_list [OF e(1)] by (elim exE) (rule apply_recorded [OF inv])
  obtain s' i' where s': "j \<le> i'" "committed members h s' i'" "hi_log h s' ! (j - 1) = \<lparr>en_term = t', en_command = cmd'\<rparr>"
    using split_list [OF e(2)] by (elim exE) (rule apply_recorded [OF inv])
  show "t = t' \<and> cmd = cmd'" using committed_agree [OF inv s(3) s'(2) s(1,2) s'(1)] s(4) s'(3) by simp
qed

lemma first_applied_split:
  "first_applied es j = Some (e, u) \<Longrightarrow> \<exists>xs name ys. es = xs @ ApplyEv name j (en_term e) (en_command e) u # ys \<and> j \<notin> applied_indices xs"
proof (induction es j rule: first_applied.induct)
  case (2 name t lg es j)
  then obtain xs n ys where "es = xs @ ApplyEv n j (en_term e) (en_command e) u # ys" "j \<notin> applied_indices xs" by auto
  then show ?case by (intro exI [of _ "LeaderEv name t lg # xs"] exI) auto
next
  case (3 name i t cmd w es j)
  show ?case
  proof (cases "i = j")
    case True
    with 3(2) show ?thesis by (intro exI [of _ "[]"] exI) auto
  next
    case False
    with 3 obtain xs n ys where "es = xs @ ApplyEv n j (en_term e) (en_command e) u # ys" "j \<notin> applied_indices xs" by auto
    with False show ?thesis by (intro exI [of _ "ApplyEv name i t cmd w # xs"] exI) auto
  qed
qed simp

lemma inv_leaders_complete:
  assumes inv: "raft_inv members c h"
  shows "later_leaders_complete (hi_events h)"
  unfolding later_leaders_complete_def
proof (intro allI impI)
  fix before name t lg rest j e u
  assume ev: "hi_events h = before @ LeaderEv name t lg # rest" and f: "first_applied before j = Some (e, u)" and lt: "u < t"
  obtain xs n ys where b: "before = xs @ ApplyEv n j (en_term e) (en_command e) u # ys" "j \<notin> applied_indices xs"
    using first_applied_split [OF f] by blast
  then have "hi_events h = xs @ ApplyEv n j (en_term e) (en_command e) u # ys @ LeaderEv name t lg # rest" using ev by simp
  then obtain i where i: "0 < j" "j \<le> i" "committed members h u i" "hi_log h u ! (j - 1) = e"
    by (rule apply_recorded [OF inv]) (use b(2) in auto)
  have l: "hi_leader h t = Some name" "\<exists>x. lg = hi_base h t @ [x]" using leader_recorded [OF inv, of name t lg] ev by auto
  have "own h u i" using i(3) by (simp add: committed_def)
  then have b: "holds h u i (hi_base h t)"
    using inv lt l(1) committed_not_blocked [OF i(3)] unfolding raft_inv_def leader_complete_def by blast
  then have "i \<le> length (hi_base h t)" using holds_length \<open>own h u i\<close> by (auto simp: own_def)
  moreover have "hi_base h t ! (j - 1) = e" using b i(1,2,4) by (metis holds_def diff_less nth_take order_less_le_trans zero_less_one)
  ultimately show "j \<le> length lg \<and> lg ! (j - 1) = e" using l(2) i(1,2) by (auto simp: nth_append)
qed

lemma inv_checks:
  assumes "raft_inv members c h"
  shows "check_invariants (map (\<lambda>v. (v, nd_log (cl_nodes c v))) members) (hi_events h) = None"
proof -
  have "one_leader_per_term (hi_events h)"
    unfolding one_leader_per_term_def using leader_recorded(1) [OF assms] by (metis option.inject)
  moreover have "valid_log h (nd_log (cl_nodes c v))" if "v \<in> set members" for v
    using raft_inv_nodes(1) [OF assms that] by (simp add: log_good_def)
  then have "logs_agree (map (\<lambda>v. (v, nd_log (cl_nodes c v))) members)"
    unfolding logs_agree_def using valid_logs_match by auto blast
  moreover note inv_one_entry [OF assms] inv_leaders_complete [OF assms]
  ultimately show ?thesis
    by (auto simp: check_invariants_def check_election_safety_iff check_state_machine_iff one_entry_per_index_applies
        check_leader_completeness_claim check_log_matching_iff split: option.split)
qed

section \<open>Properties of every run\<close>

definition raft_runs :: "string list \<Rightarrow> stored disk run \<Rightarrow> bool" where
  \<comment> \<open>the states a cluster of peers on fresh simulated disks can reach\<close>
  "raft_runs members s \<longleftrightarrow> distinct members \<and> (\<exists>st. (\<forall>v\<in>set members. disk_inv (st v) \<and> d_journal (st v) = [] \<and> disk_load (st v) = pstate_init) \<and>
     (raft_step disk_storage (\<lambda>r d. fst (disk_crash r d)) members)\<^sup>*\<^sup>* (cluster_init disk_storage members st all_safeguards, history_init) s)"

lemma raft_runs_inv:
  assumes "raft_runs members s"
  shows "cluster_inv disk_storage disk_inv (\<lambda>d. d_journal d = []) members (fst s)"
    "hi_misled (snd s) = {} \<Longrightarrow> raft_inv members (fst s) (snd s)" "distinct members"
proof -
  obtain st where st: "\<And>v. v \<in> set members \<Longrightarrow> disk_inv (st v) \<and> d_journal (st v) = [] \<and> disk_load (st v) = pstate_init"
    and run: "(raft_step disk_storage (\<lambda>r d. fst (disk_crash r d)) members)\<^sup>*\<^sup>* (cluster_init disk_storage members st all_safeguards, history_init) s"
    and d: "distinct members" using assms unfolding raft_runs_def by blast
  show "distinct members" by (rule d)
  have "disk_inv (st v) \<and> d_journal (st v) = [] \<and> so_load disk_storage (st v) = pstate_init" if "v \<in> set members" for v
    using st [OF that] by (simp add: disk_storage_def)
  from ondisk.raft_inv_reachable [OF run d this]
  show "cluster_inv disk_storage disk_inv (\<lambda>d. d_journal d = []) members (fst s)" "hi_misled (snd s) = {} \<Longrightarrow> raft_inv members (fst s) (snd s)" by simp_all
qed

lemma raft_runs_later:
  assumes "raft_runs members s" and "(raft_step disk_storage (\<lambda>r d. fst (disk_crash r d)) members)\<^sup>*\<^sup>* s s'"
  shows "raft_runs members s'"
  using assms unfolding raft_runs_def by (blast intro: rtranclp_trans)

lemma fresh_runs:
  assumes "make_moves disk_storage members mvs (fresh_cluster members) = Some s" and "distinct members"
  shows "raft_runs members s"
  unfolding raft_runs_def using make_moves_run [OF assms(1)] assms(2) raft_demo_disk_ok
  by (intro conjI exI [of _ "\<lambda>_. raft_demo_disk"]) (simp_all add: fresh_cluster_def)

text \<open>
  C6. The four safety claims of the Raft example hold in every run in which no peer has accepted a push
  of a leader deposed before it was sent: whatever messages are lost, repeated or delayed, whoever times
  out, campaigns, proposes or loses power and boots again from its disk, and however many such pushes are
  sent and refused, the checks the suite runs on the recorded events and the logs find no violation.
  The code does not keep peers from accepting such a push, and one that does can lose what it has
  committed (\<open>stale_push_loses_a_commit\<close> in \<open>RaftStale\<close>).
\<close>
theorem raft_runs_pass_the_checks:
  assumes "raft_runs members s" and "hi_misled (snd s) = {}"
  shows "check_invariants (map (\<lambda>v. (v, nd_log (cl_nodes (fst s) v))) members) (hi_events (snd s)) = None"
  by (rule inv_checks [OF raft_runs_inv(2) [OF assms]])

text \<open>
  A run of three peers. In term 1 \<open>a\<close> is elected, appends a command, \<open>b\<close> accepts it and \<open>a\<close> commits and
  applies it. Then \<open>b\<close> is elected in term 2 with the vote of \<open>a\<close>, and a pusher of \<open>a\<close> wakes up before
  it is cancelled: \<open>b\<close> refuses what it sends.
\<close>

definition demo_entries :: "entry list" where
  "demo_entries = [\<lparr>en_term = 1, en_command = []\<rparr>, \<lparr>en_term = 1, en_command = ''x''\<rparr>]"

definition demo_commit :: "move list" where
  "demo_commit = elect ''a'' 1 [] [''b''] @ [MPropose ''a'' ''x''] @ replicate_to ''a'' 1 demo_entries ''b''"

definition demo_late_push :: "move list" where
  "demo_late_push = elect ''b'' 2 demo_entries [''a''] @ [MSend ''a'' ''b'', MAppendStale ''b'' (push_of ''a'' 1 2 demo_entries 2)]"

lemma demo_play:
  "case make_moves disk_storage demo_members demo_commit (fresh_cluster demo_members) of
     None \<Rightarrow> False
   | Some (c, h) \<Rightarrow> nd_commit_index (cl_nodes c ''a'') = 2 \<and> nd_log (cl_nodes c ''a'') = demo_entries \<and>
       (case make_moves disk_storage demo_members demo_late_push (c, h) of
          None \<Rightarrow> False
        | Some (c', h') \<Rightarrow> hi_stale h' = {push_of ''a'' 1 2 demo_entries 2} \<and> hi_misled h' = {} \<and>
            ApplyEv ''a'' 2 1 ''x'' 1 \<in> set (hi_events h'))"
  by code_simp

lemma demo_replication:
  obtains c h c' h' where "raft_runs demo_members (c, h)"
    and "nd_commit_index (cl_nodes c ''a'') = 2" and "nd_log (cl_nodes c ''a'') = demo_entries"
    and "(raft_step disk_storage (\<lambda>r d. fst (disk_crash r d)) demo_members)\<^sup>*\<^sup>* (c, h) (c', h')"
    and "raft_runs demo_members (c', h')" and "hi_stale h' \<noteq> {}" and "hi_misled h' = {}"
    and "ApplyEv ''a'' 2 1 ''x'' 1 \<in> set (hi_events h')"
proof -
  obtain c h c' h' where s: "make_moves disk_storage demo_members demo_commit (fresh_cluster demo_members) = Some (c, h)"
    and a: "nd_commit_index (cl_nodes c ''a'') = 2" "nd_log (cl_nodes c ''a'') = demo_entries"
    and s': "make_moves disk_storage demo_members demo_late_push (c, h) = Some (c', h')"
    and h': "hi_stale h' = {push_of ''a'' 1 2 demo_entries 2}" "hi_misled h' = {}" "ApplyEv ''a'' 2 1 ''x'' 1 \<in> set (hi_events h')"
    using demo_play by (auto split: option.splits)
  have late: "(raft_step disk_storage (\<lambda>r d. fst (disk_crash r d)) demo_members)\<^sup>*\<^sup>* (c, h) (c', h')"
    by (rule make_moves_run [OF s'])
  have run: "raft_runs demo_members (c, h)" by (rule fresh_runs [OF s]) (simp add: demo_members_def)
  moreover have "raft_runs demo_members (c', h')" by (rule raft_runs_later [OF run late])
  ultimately show thesis using that a late h' by simp
qed

theorem raft_runs_pass_the_checks_witness:
  "\<exists>s. raft_runs demo_members s \<and> hi_stale (snd s) \<noteq> {} \<and> ApplyEv ''a'' 2 1 ''x'' 1 \<in> set (hi_events (snd s)) \<and>
    check_invariants (map (\<lambda>v. (v, nd_log (cl_nodes (fst s) v))) demo_members) (hi_events (snd s)) = None"
proof -
  obtain c h where r: "raft_runs demo_members (c, h)" "hi_stale h \<noteq> {}" "hi_misled h = {}"
    "ApplyEv ''a'' 2 1 ''x'' 1 \<in> set (hi_events h)"
    by (rule demo_replication)
  show ?thesis using raft_runs_pass_the_checks [OF r(1)] r by (intro exI [of _ "(c, h)"]) simp
qed

end
