(* ===== verification/RaftDurable.thy ===== *)
theory RaftDurable
  imports RaftChecks
begin

text \<open>
  What a node has committed stays: in its own log, whatever it accepts later and however often it
  loses power, and in the log of every other node that commits as far.
\<close>

section \<open>How a log changes in one step\<close>

definition log_follows :: "history \<Rightarrow> 'st node \<Rightarrow> 'st node \<Rightarrow> bool" where
  "log_follows h n n' \<longleftrightarrow> nd_term n \<le> nd_term n' \<and> ((\<exists>es. nd_log n' = nd_log n @ es) \<or>
     (\<exists>m new. (m, new) \<in> hi_sent h \<and> nd_term n' = ar_term m \<and>
        nd_log n' = (if take (length new) (nd_log n) = new then nd_log n else new)))"

lemma idle_follows: "idle n n' \<Longrightarrow> log_follows h n n'"
  by (simp add: idle_def log_follows_def)

lemma append_follows:
  assumes inv: "raft_inv members c h" and ci: "cluster_inv ops sound clean members c" and v: "v \<in> set members"
    and s: "(m, new) \<in> hi_sent h" and r: "handle_append_entries so m (cl_nodes c v) = ((t, ok), n')"
  shows "log_follows h (cl_nodes c v) n'"
proof (cases ok)
  case True
  let ?n = "cl_nodes c v"
  note n = raft_inv_nodes [OF inv v] and new = sent_log [OF inv s]
  have "nd_safeguards ?n = all_safeguards" using ci v by (simp add: cluster_inv_def node_ok_def)
  moreover have "nd_applied_index ?n = nd_commit_index ?n" using n(5) by (simp add: commit_good_def)
  ultimately have acc: "nd_term ?n \<le> ar_term m" "nd_term n' = ar_term m" "ar_prev_log_index m \<le> length (nd_log ?n)"
    "0 < ar_prev_log_index m \<Longrightarrow> en_term (nd_log ?n ! (ar_prev_log_index m - 1)) = ar_prev_log_term m"
    "nd_log n' = merge_entries (Suc (ar_prev_log_index m)) (ar_entries m) (nd_log ?n)"
    using accepted_sel [of so m ?n t n'] r True by simp_all
  have "nd_log n' = (if take (length new) (nd_log ?n) = new then nd_log ?n else new)"
    using merge_valid_logs [of h "nd_log ?n" new "ar_prev_log_index m"] n(1) new(1,4) acc(3-5)
    by (simp add: log_good_def sent_ok_def)
  then show ?thesis
    unfolding log_follows_def by (intro conjI disjI2 exI [of _ m] exI [of _ new]) (use acc(1,2) s in simp_all)
next
  case False
  then have "handle_append_entries so m (cl_nodes c v) = ((t, False), n')" using r by simp
  then show ?thesis by (rule idle_follows [OF idle_refused])
qed

context raft_storage begin

lemma raft_step_logs:
  assumes step: "raft_step ops crash members (c, h) (c', h')" and inv: "raft_inv members c h"
    and ci: "cluster_inv ops inv clean members c" and unmisled: "hi_misled h' = {}" and u: "u \<in> set members"
  shows "log_follows h (cl_nodes c u) (cl_nodes c' u)"
proof -
  have one: ?thesis if "cl_nodes c' = (cl_nodes c)(v := n')" "log_follows h (cl_nodes c v) n'" for v n'
    using that idle_follows [OF idle_refl] by auto
  have upd: "idle n n' \<Longrightarrow> cl_nodes c' = (cl_nodes c)(v := n') \<Longrightarrow> n = cl_nodes c v \<Longrightarrow> ?thesis" for v n n'
    using one idle_follows by blast
  from step show ?thesis
  proof cases
    case (vote v m n t g n')
    then show ?thesis using upd [OF idle_vote [OF vote(6)]] by (simp add: with_node_def)
  next
    case (append v m lg n t ok n')
    then show ?thesis using one [of v n'] append_follows [OF inv ci append(3,4), of ops t ok n'] by (simp add: with_node_def)
  next
    case (append_stale v m n t ok n')
    then have "handle_append_entries ops m n = ((t, False), n')" using unmisled by (cases ok) auto
    then show ?thesis using upd [OF idle_refused] append_stale by (simp add: with_node_def)
  next
    case (propose v n cmd r n')
    have "n' = n \<or> n' = persist ops True (n\<lparr>nd_state := (nd_state n)\<lparr>ps_log := nd_log n @ [\<lparr>en_term = nd_term n, en_command = cmd\<rparr>]\<rparr>\<rparr>)"
      using propose(5) by (simp add: handle_propose_def Let_def split: if_splits)
    then have "log_follows h n n'" by (auto simp: log_follows_def)
    then show ?thesis using one [of v n'] propose by (simp add: with_node_def)
  next
    case (follow_timeout v)
    then show ?thesis using upd [OF idle_timeout] by (simp add: with_node_def)
  next
    case (campaign v n')
    have "log_follows h (cl_nodes c v) n'" by (simp add: campaign(7) start_campaign_def Let_def log_follows_def)
    then show ?thesis using one [of v n'] campaign by (simp add: with_node_def)
  next
    case (solicited v "term" peer reply)
    then show ?thesis using upd [OF idle_solicited] by (simp add: with_node_def)
  next
    case (campaign_over v n "term" timed_out n')
    show ?thesis
    proof (cases "wins timed_out n")
      case True
      have "nd_safeguards n = all_safeguards" using ci campaign_over(3,4) by (simp add: cluster_inv_def node_ok_def)
      then have "log_follows h n n'" using won_sel(1,2) [OF True campaign_over(7)] by (simp add: log_follows_def)
      then show ?thesis using one [of v n'] campaign_over by (simp add: with_node_def)
    next
      case False
      then show ?thesis using upd [OF idle_campaign_over [OF False]] campaign_over by (simp add: with_node_def)
    qed
  next
    case (lead v)
    then show ?thesis using upd [OF idle_lead(1)] by (simp add: with_node_def)
  next
    case (lead_over v "term")
    then show ?thesis using upd [OF idle_lead(2)] by (simp add: with_node_def)
  next
    case (pushed v n "term" peer reply prev len "what" n')
    have "log_follows h n n'" using pushed(8) by (auto simp: push_reply_def log_follows_def split: option.splits if_splits prod.splits)
    then show ?thesis using one [of v n'] pushed by (simp add: with_node_def)
  next
    case (restart v r)
    have "so_load ops (crash r (nd_storage (cl_nodes c v))) = nd_state (cl_nodes c v)"
      using ci restart(3) crash_clean by (auto simp: cluster_inv_def node_ok_def)
    then show ?thesis using upd [OF idle_restart] restart by (simp add: with_node_def)
  qed (use idle_follows [OF idle_refl] in simp_all)
qed

lemma safe_prefix_step:
  assumes step: "raft_step ops crash members (c, h) (c', h')" and inv: "raft_inv members c h"
    and ci: "cluster_inv ops inv clean members c" and d: "distinct members" and unmisled: "hi_misled h' = {}"
    and u: "u \<in> set members" and p: "safe_prefix members h (nd_term (cl_nodes c u)) (nd_log (cl_nodes c u)) k"
  shows "safe_prefix members h' (nd_term (cl_nodes c' u)) (nd_log (cl_nodes c' u)) k \<and>
    take k (nd_log (cl_nodes c' u)) = take k (nd_log (cl_nodes c u))"
proof -
  let ?n = "cl_nodes c u" and ?n' = "cl_nodes c' u"
  obtain v where g: "grows v c h c' h'" using raft_inv_steps [OF step inv ci d unmisled] by blast
  have f: "log_follows h ?n ?n'" by (rule raft_step_logs [OF step inv ci unmisled u])
  then have up: "nd_term ?n \<le> nd_term ?n'" by (simp add: log_follows_def)
  from f consider es where "nd_log ?n' = nd_log ?n @ es"
    | m new where "(m, new) \<in> hi_sent h" "nd_term ?n' = ar_term m" "nd_log ?n' = (if take (length new) (nd_log ?n) = new then nd_log ?n else new)"
    by (auto simp: log_follows_def)
  then have "safe_prefix members h (nd_term ?n') (nd_log ?n') k \<and> take k (nd_log ?n') = take k (nd_log ?n)"
  proof cases
    case 1
    then have "take k (nd_log ?n') = take k (nd_log ?n)" using safe_prefix_length [OF p] by simp
    then show ?thesis using safe_prefix_take [OF p _ le_refl up] by simp
  next
    case 2
    then show ?thesis using append_safe_prefix [OF inv 2(1) p _ 2(3)] up by simp
  qed
  then show ?thesis using safe_prefix_grows [OF g] by blast
qed

lemma safe_prefix_run:
  assumes "(raft_step ops crash members)\<^sup>*\<^sup>* s s'" and "raft_inv members (fst s) (snd s)"
    and "cluster_inv ops inv clean members (fst s)" and d: "distinct members" and u: "u \<in> set members"
    and "hi_misled (snd s') = {}" and "safe_prefix members (snd s) (nd_term (cl_nodes (fst s) u)) (nd_log (cl_nodes (fst s) u)) k"
  shows "raft_inv members (fst s') (snd s') \<and> cluster_inv ops inv clean members (fst s') \<and>
    safe_prefix members (snd s') (nd_term (cl_nodes (fst s') u)) (nd_log (cl_nodes (fst s') u)) k \<and>
    take k (nd_log (cl_nodes (fst s') u)) = take k (nd_log (cl_nodes (fst s) u))"
  using assms(1,6)
proof induction
  case (step x y)
  then have s: "raft_step ops crash members (fst x, snd x) (fst y, snd y)" by simp
  have "hi_misled (snd x) = {}" using misled_grows [OF step(2)] step.prems by blast
  then show ?case
    using raft_inv_steps [OF s _ _ d step.prems] raft_step_inv [OF s _ d] safe_prefix_step [OF s _ _ d step.prems u] step.IH
    by simp
qed (use assms in simp)

end

lemma safe_prefixes_agree:
  assumes inv: "raft_inv members c h" and "safe_prefix members h a lg k" and "safe_prefix members h b lg' k"
  shows "take k lg = take k lg'"
proof (cases "k = 0")
  case False
  then obtain t i where t: "committed members h t i" "k \<le> i" "holds h t k lg" using assms(2) by (auto simp: safe_prefix_def)
  obtain t' i' where t': "committed members h t' i'" "k \<le> i'" "holds h t' k lg'" using assms(3) False by (auto simp: safe_prefix_def)
  have len: "k \<le> length (hi_log h t)" "k \<le> length (hi_log h t')" using t t' by (auto simp: committed_def own_def)
  have "take k (hi_log h t) = take k (hi_log h t')"
    using committed_agree [OF inv t(1) t'(1)] t(2) t'(2) len by (intro nth_take_lemma) (force dest: spec [of _ "Suc _"])+
  with t(3) t'(3) show ?thesis by (simp add: holds_def)
qed simp

text \<open>
  C7. A committed entry is there for good, as long as no peer accepts a push of a leader that was
  deposed before it was sent: what a node has committed at some point of a run is at any later point,
  across elections, truncated logs, power losses and late pushes that are refused, what its own log
  starts with, and the same entries are what every node that has committed as far starts with. The
  condition is needed: \<open>stale_push_loses_a_commit\<close> in \<open>RaftStale\<close>.
\<close>
theorem committed_entries_last:
  assumes "raft_runs members s" and "(raft_step disk_storage (\<lambda>r d. fst (disk_crash r d)) members)\<^sup>*\<^sup>* s s'"
    and "hi_misled (snd s') = {}"
    and "u \<in> set members" and "v \<in> set members" and "k \<le> nd_commit_index (cl_nodes (fst s) u)"
  shows "take k (nd_log (cl_nodes (fst s') u)) = take k (nd_log (cl_nodes (fst s) u)) \<and>
    (k \<le> nd_commit_index (cl_nodes (fst s') v) \<longrightarrow>
      take k (nd_log (cl_nodes (fst s') v)) = take k (nd_log (cl_nodes (fst s) u)))"
proof -
  have "hi_misled (snd s) = {}" using misled_grows_run [OF assms(2)] assms(3) by blast
  note r = raft_runs_inv(1) [OF assms(1)] raft_runs_inv(2) [OF assms(1) this] raft_runs_inv(3) [OF assms(1)]
  have cp: "safe_prefix members h (nd_term (cl_nodes c w)) (nd_log (cl_nodes c w)) k"
    if "raft_inv members c h" "w \<in> set members" "k \<le> nd_commit_index (cl_nodes c w)" for c :: "stored disk cluster" and h w
    using raft_inv_nodes(5) [OF that(1,2)] safe_prefix_take [OF _ refl that(3) le_refl] by (simp add: commit_good_def)
  note run = ondisk.safe_prefix_run [OF assms(2) r(2,1,3) assms(4,3) cp [OF r(2) assms(4,6)]]
  have "take k (nd_log (cl_nodes (fst s') v)) = take k (nd_log (cl_nodes (fst s) u))" if "k \<le> nd_commit_index (cl_nodes (fst s') v)"
    using safe_prefixes_agree [of members "fst s'" "snd s'"] run cp [OF _ assms(5) that] by metis
  with run show ?thesis by blast
qed

text \<open>In the run of \<open>demo_replication\<close> the old leader loses power after its late push.\<close>

theorem committed_entries_last_witness:
  "\<exists>s s'. raft_runs demo_members s \<and> (raft_step disk_storage (\<lambda>r d. fst (disk_crash r d)) demo_members)\<^sup>*\<^sup>* s s' \<and>
    hi_stale (snd s') \<noteq> {} \<and> nd_commit_index (cl_nodes (fst s) ''a'') = 2 \<and> nd_commit_index (cl_nodes (fst s') ''a'') = 0 \<and>
    take 2 (nd_log (cl_nodes (fst s') ''a'')) = demo_entries"
proof -
  let ?step = "raft_step disk_storage (\<lambda>r d. fst (disk_crash r d)) demo_members"
  obtain c h c1 h1 where r: "raft_runs demo_members (c, h)" "nd_commit_index (cl_nodes c ''a'') = 2" "nd_log (cl_nodes c ''a'') = demo_entries"
    "?step\<^sup>*\<^sup>* (c, h) (c1, h1)" "hi_stale h1 \<noteq> {}" "hi_misled h1 = {}" by (rule demo_replication)
  have m: "''a'' \<in> set demo_members" by (simp add: demo_members_def)
  obtain c' where st: "?step (c1, h1) (c', h1)" and c': "nd_commit_index (cl_nodes c' ''a'') = 0"
    by (rule that [OF raft_step.restart [OF m]]) (simp add: with_node_def node_init_def)
  have "?step\<^sup>*\<^sup>* (c, h) (c', h1)" using r(4) st by (rule rtranclp.rtrancl_into_rtrancl)
  from committed_entries_last [OF r(1) this _ m m, of 2] r c' this show ?thesis
    by (intro exI [of _ "(c, h)"] exI [of _ "(c', h1)"]) (simp add: demo_entries_def)
qed

end
