(* ===== verification/RaftStale.thy ===== *)
theory RaftStale
  imports RaftDurable
begin

text \<open>
  Why the statements on runs speak of peers that accept a late push: a run of five peers in which one
  does, commits what the push carries, and loses it again.
\<close>

definition five_members :: "string list" where "five_members = [''a'', ''b'', ''c'', ''d'', ''e'']"

definition old_log :: "entry list" where "old_log = [\<lparr>en_term = 1, en_command = []\<rparr>]"

definition new_log :: "entry list" where
  "new_log = [\<lparr>en_term = 2, en_command = []\<rparr>, \<lparr>en_term = 2, en_command = ''y''\<rparr>]"

text \<open>
  In term 1 \<open>a\<close> is elected by \<open>b\<close> and \<open>d\<close>; its first push to \<open>c\<close>, which carries its no-op, is slow. In term 2
  \<open>b\<close>, which has not heard of that no-op, is elected by \<open>d\<close> and \<open>e\<close>; it appends \<open>y\<close>, commits it with
  them, and sends it to \<open>a\<close>, which follows and commits. The pusher of \<open>a\<close> wakes up and sends
  the log \<open>a\<close> now has to \<open>c\<close>, in term 1, and \<open>c\<close> accepts and commits. Then the first push arrives.
\<close>

definition late_push :: "move list" where
  "late_push = elect ''a'' 1 [] [''b'', ''d''] @ [MSend ''a'' ''c''] @
     elect ''b'' 2 [] [''d'', ''e''] @ [MPropose ''b'' ''y''] @
     concat (map (replicate_to ''b'' 2 new_log) [''d'', ''e'']) @
     [MSend ''b'' ''a'', MAppend ''a'' (push_of ''b'' 2 0 new_log 2) new_log,
      MSend ''a'' ''c'', MAppendStale ''c'' (push_of ''a'' 1 0 new_log 2)]"

definition slow_push :: "move list" where
  "slow_push = [MAppend ''c'' (push_of ''a'' 1 0 old_log 0) old_log]"

lemma late_push_play:
  "case make_moves disk_storage five_members late_push (fresh_cluster five_members) of
     None \<Rightarrow> False
   | Some (c, h) \<Rightarrow> nd_commit_index (cl_nodes c ''c'') = 2 \<and> nd_log (cl_nodes c ''c'') = new_log \<and>
       hi_misled h = {(push_of ''a'' 1 0 new_log 2, ''c'')} \<and> ApplyEv ''c'' 2 2 ''y'' 1 \<in> set (hi_events h) \<and>
       (case make_moves disk_storage five_members slow_push (c, h) of
          None \<Rightarrow> False
        | Some (c', h') \<Rightarrow> nd_commit_index (cl_nodes c' ''c'') = 2 \<and> nd_log (cl_nodes c' ''c'') = old_log)"
  by code_simp

lemma stale_push_loses_a_commit:
  "\<exists>s s'. raft_runs five_members s \<and> (raft_step disk_storage (\<lambda>r d. fst (disk_crash r d)) five_members)\<^sup>*\<^sup>* s s' \<and>
     card (hi_misled (snd s)) = 1 \<and> nd_commit_index (cl_nodes (fst s) ''c'') = 2 \<and> nd_commit_index (cl_nodes (fst s') ''c'') = 2 \<and>
     nd_log (cl_nodes (fst s) ''c'') = new_log \<and> nd_log (cl_nodes (fst s') ''c'') = old_log"
proof -
  obtain c h c' h' where s: "make_moves disk_storage five_members late_push (fresh_cluster five_members) = Some (c, h)"
    and s': "make_moves disk_storage five_members slow_push (c, h) = Some (c', h')"
    and f: "nd_commit_index (cl_nodes c ''c'') = 2" "nd_log (cl_nodes c ''c'') = new_log" "card (hi_misled h) = 1"
      "nd_commit_index (cl_nodes c' ''c'') = 2" "nd_log (cl_nodes c' ''c'') = old_log"
    using late_push_play by (auto split: option.splits)
  have "raft_runs five_members (c, h)" by (rule fresh_runs [OF s]) (simp add: five_members_def)
  with make_moves_run [OF s'] f show ?thesis by (intro exI [of _ "(c, h)"] exI [of _ "(c', h')"]) simp
qed

end
