(* ===== verification/RaftServe.thy ===== *)
theory RaftServe
  imports RaftNode JobWire
begin

text \<open>
  How a node of \<open>examples/raft/raft/node.py\<close> serves requests: a connection carries one message and
  its answer, and \<open>run\<close> keeps track of the connections it is serving, so that a node that is torn down
  answers nothing more. The storage a node holds outlives it, which is what makes that matter.
\<close>

section \<open>One connection\<close>

definition node_connection ::
    "'st storage \<Rightarrow> (string \<Rightarrow> string) \<Rightarrow> (raft_reply \<Rightarrow> bytes) \<Rightarrow> (bytes \<Rightarrow> 'json option) \<Rightarrow> ('json \<Rightarrow> raft_message option) \<Rightarrow>
     bool \<Rightarrow> bytes \<Rightarrow> bool \<Rightarrow> 'st node \<Rightarrow> (bytes \<times> 'st node) option" where
  \<comment> \<open>what has been written when the connection is closed, or \<open>None\<close> while it waits for more bytes; a
      reply too long for its header raises \<open>struct.error\<close>, with nothing written\<close>
  "node_connection ops repr_str dumps loads as_object stopped buf eof n =
     (case read_message loads as_object buf eof of
        Waiting \<Rightarrow> None
      | Broken _ \<Rightarrow> Some ([], n)
      | Arrived m _ \<Rightarrow>
          if stopped then Some ([], n)
          else (case node_handle ops repr_str m n of (r, n') \<Rightarrow>
            Some (case write_message dumps r of Some f \<Rightarrow> f | None \<Rightarrow> [], n')))"

section \<open>The run of one incarnation\<close>

record 'st node_server =
  sv_node :: "'st node"
  sv_stopped :: bool
  sv_closed :: bool
  sv_started :: "nat list" \<comment> \<open>accepted, and not yet entered in \<open>handlers\<close>\<close>
  sv_handlers :: "nat list"

definition accept_connection :: "nat \<Rightarrow> 'st node_server \<Rightarrow> 'st node_server" where
  "accept_connection c sv = (if sv_closed sv then sv else sv\<lparr>sv_started := sv_started sv @ [c]\<rparr>)"

definition enter_handler :: "nat \<Rightarrow> 'st node_server \<Rightarrow> 'st node_server" where
  "enter_handler c sv = sv\<lparr>sv_started := remove1 c (sv_started sv), sv_handlers := sv_handlers sv @ [c]\<rparr>"

definition stop_server :: "'st node_server \<Rightarrow> 'st node_server" where
  \<comment> \<open>the \<open>finally\<close> of \<open>run\<close>; a cancelled handler is gone\<close>
  "stop_server sv = sv\<lparr>sv_stopped := True, sv_closed := True, sv_handlers := []\<rparr>"

inductive serve_step ::
    "'st storage \<Rightarrow> (string \<Rightarrow> string) \<Rightarrow> (raft_reply \<Rightarrow> bytes) \<Rightarrow> (bytes \<Rightarrow> 'json option) \<Rightarrow> ('json \<Rightarrow> raft_message option) \<Rightarrow>
     'st node_server \<Rightarrow> bytes \<Rightarrow> 'st node_server \<Rightarrow> bool"
  for ops repr_str dumps loads as_object where
  \<comment> \<open>the bytes are what the step writes to a connection\<close>
  accepted: "serve_step ops repr_str dumps loads as_object sv [] (accept_connection c sv)"
| entered: "c \<in> set (sv_started sv) \<Longrightarrow> serve_step ops repr_str dumps loads as_object sv [] (enter_handler c sv)"
| served: "c \<in> set (sv_handlers sv) \<Longrightarrow>
    node_connection ops repr_str dumps loads as_object (sv_stopped sv) buf eof (sv_node sv) = Some (out, n) \<Longrightarrow>
    serve_step ops repr_str dumps loads as_object sv out (sv\<lparr>sv_node := n, sv_handlers := remove1 c (sv_handlers sv)\<rparr>)"
| torn_down: "serve_step ops repr_str dumps loads as_object sv [] (stop_server sv)"

inductive_cases serve_step_elim: "serve_step ops repr_str dumps loads as_object sv out sv'"

inductive serves ::
    "'st storage \<Rightarrow> (string \<Rightarrow> string) \<Rightarrow> (raft_reply \<Rightarrow> bytes) \<Rightarrow> (bytes \<Rightarrow> 'json option) \<Rightarrow> ('json \<Rightarrow> raft_message option) \<Rightarrow>
     'st node_server \<Rightarrow> bytes list \<Rightarrow> 'st node_server \<Rightarrow> bool"
  for ops repr_str dumps loads as_object where
  serves_none: "serves ops repr_str dumps loads as_object sv [] sv"
| serves_step: "serve_step ops repr_str dumps loads as_object sv out sv1 \<Longrightarrow>
    serves ops repr_str dumps loads as_object sv1 outs sv2 \<Longrightarrow> serves ops repr_str dumps loads as_object sv (out # outs) sv2"

section \<open>What is served\<close>

lemma stopped_connection_is_silent:
  "node_connection ops repr_str dumps loads as_object True buf eof n = Some (out, n') \<Longrightarrow> out = [] \<and> n' = n"
  by (auto simp: node_connection_def split: reading.splits)

lemma torn_down_server_touches_nothing:
  \<comment> \<open>once \<open>run\<close> has been torn down, whatever connections were under way: nothing is answered and the
      node, its storage included, stays as it is\<close>
  assumes "serves ops repr_str dumps loads as_object sv outs sv'" and "sv_stopped sv"
  shows "sv_node sv' = sv_node sv \<and> sv_stopped sv' \<and> set outs \<subseteq> {[]}"
  using assms
proof induction
  case (serves_step sv out sv1 outs sv2)
  from serves_step.hyps(1) serves_step.prems have "sv_node sv1 = sv_node sv \<and> sv_stopped sv1 \<and> out = []"
    by (elim serve_step_elim)
      (auto simp: accept_connection_def enter_handler_def stop_server_def dest: stopped_connection_is_silent)
  with serves_step.IH show ?case by simp
qed simp

lemma call_reaches_the_handler:
  \<comment> \<open>a client's call to a live node, over streams cut nowhere, is a call of \<open>handle\<close>; \<open>dumps\<close> and
      \<open>as_dict\<close> are for the dictionaries of both directions\<close>
  fixes dumps :: "raft_message + raft_reply \<Rightarrow> bytes"
  assumes "loads (dumps (Inl m)) = Some j" and "as_message j = Some m" and "length (dumps (Inl m)) \<le> MAX_FRAME"
    and "write_message dumps (Inl m) = Some f" and "node_handle ops repr_str m n = (r, n')"
    and "loads (dumps (Inr r)) = Some j'" and "as_dict j' = Some (Inr r)" and "length (dumps (Inr r)) \<le> MAX_FRAME"
  shows "\<exists>out. node_connection ops repr_str (\<lambda>r. dumps (Inr r)) loads as_message False f eof n = Some (out, n') \<and>
    wire_call dumps loads as_dict (Inl m) True out eof' = Replied (Inr r)"
proof -
  have "length (dumps (Inr r)) < 2 ^ 32" using assms(8) by (simp add: MAX_FRAME_def)
  then obtain g where g: "write_message dumps (Inr r) = Some g" by (auto simp: write_message_def pack_length_def Let_def)
  then have g': "write_message (\<lambda>r. dumps (Inr r)) r = Some g" by (simp add: write_message_def)
  have f: "write_message (\<lambda>m. dumps (Inl m)) m = Some f" using assms(4) by (simp add: write_message_def)
  have "node_connection ops repr_str (\<lambda>r. dumps (Inr r)) loads as_message False f eof n = Some (g, n')"
    using read_message_frame(1) [where dumps = "\<lambda>m. dumps (Inl m)" and loads = loads and m = m and v = j and f = f
        and as_object = as_message and rest = "[]" and eof = eof] assms(1-3,5) f g'
    by (simp add: node_connection_def)
  moreover have "wire_call dumps loads as_dict (Inl m) True g eof' = Replied (Inr r)"
    using read_message_frame(1) [where dumps = dumps and loads = loads and m = "Inr r" and v = j' and f = g
        and as_object = as_dict and rest = "[]" and eof = eof'] assms(4,6-8) g by (simp add: wire_call_def)
  ultimately show ?thesis by blast
qed

lemma cut_request_reaches_nobody:
  \<comment> \<open>a request cut anywhere within its frame changes nothing\<close>
  assumes "loads (dumps_q m) = Some j" and "as_message j = Some m" and "length (dumps_q m) \<le> MAX_FRAME"
    and "write_message dumps_q m = Some f" and "k < length f"
  shows "node_connection ops repr_str dumps loads as_message stopped (take k f) eof n = (if eof then Some ([], n) else None)"
  using read_message_frame(2) [where dumps = dumps_q and loads = loads and m = m and v = j and f = f and k = k
      and as_object = as_message and rest = "[]" and eof = eof] assms by (simp add: node_connection_def)

end
