(* ===== verification/SimCampaign.thy ===== *)
theory SimCampaign
  imports SimReport "HOL-Library.List_Lexorder" "HOL-Library.Char_ord"
begin

text \<open>
  \<open>benchmarks/campaign.py\<close>: sweeps of the job queue example that are long enough to be killed and
  resumed. This theory has the checkpoint file, the chunks and the \<open>green\<close> sweep. What a run prints and
  writes is a list of \<open>effect\<close>s in order, so a killed run is a prefix of that list. The scenarios are
  \<open>workload\<close>s, the time a chunk takes is an argument, and so is what the worker processes found.
\<close>

section \<open>Constants and arguments\<close>

definition GREEN_CHUNK :: int where "GREEN_CHUNK = 5000"

definition ABLATION_CHUNK :: int where "ABLATION_CHUNK = 250"

definition GREEN_TRACE_TAIL :: int where "GREEN_TRACE_TAIL = 60"

record campaign_args =
  ca_seeds :: int
  ca_jobs :: int
  ca_chunk :: int
  ca_checkpoint :: string
  ca_resume :: bool

definition green_defaults :: "int option \<Rightarrow> campaign_args" where
  \<comment> \<open>the argument is \<open>os.cpu_count()\<close>\<close>
  "green_defaults cpus = \<lparr>ca_seeds = 100000, ca_jobs = (case cpus of Some (n) \<Rightarrow> if n = 0 then 2 else n | None \<Rightarrow> 2),
     ca_chunk = GREEN_CHUNK, ca_checkpoint = ''campaign-green.json'', ca_resume = False\<rparr>"

definition ablation_defaults :: "int option \<Rightarrow> campaign_args" where
  "ablation_defaults cpus = \<lparr>ca_seeds = 10000, ca_jobs = (case cpus of Some (n) \<Rightarrow> if n = 0 then 2 else n | None \<Rightarrow> 2),
     ca_chunk = ABLATION_CHUNK, ca_checkpoint = ''campaign-ablations.json'', ca_resume = False\<rparr>"

definition failure_label :: "failure \<Rightarrow> string" where
  \<comment> \<open>an \<open>InvariantViolation\<close> carries its invariant as the head of its message, up to the colon\<close>
  "failure_label e =
     (if fst e = ''InvariantViolation'' then takeWhile (\<lambda>c. c \<noteq> CHR '':'') (snd e) else fst e)"

section \<open>Checkpoints\<close>

record label_bucket =
  bk_count :: nat
  bk_first_seed :: int
  bk_example :: string

record abl_record =
  ar_chunks_done :: nat
  ar_elapsed :: rat
  ar_failing :: "int list"
  ar_labels :: "(string, label_bucket) dict"

record green_state =
  gs_seeds :: int
  gs_chunk :: int
  gs_jobs :: int
  gs_chunks_done :: nat
  gs_seeds_done :: int
  gs_elapsed :: rat
  gs_failure :: "(int \<times> string \<times> string) option"

record abl_state =
  as_seeds :: int
  as_chunk :: int
  as_jobs :: int
  as_ablations :: "(string, abl_record) dict"

datatype checkpoint = GreenCk green_state | AblationsCk abl_state

datatype campaign_stop = Stop string | Raised exn

fun ck_kind :: "checkpoint \<Rightarrow> string" where
  "ck_kind (GreenCk _) = ''green''"
| "ck_kind (AblationsCk _) = ''ablations''"

fun ck_seeds :: "checkpoint \<Rightarrow> int" where
  "ck_seeds (GreenCk g) = gs_seeds g"
| "ck_seeds (AblationsCk a) = as_seeds a"

fun ck_chunk :: "checkpoint \<Rightarrow> int" where
  "ck_chunk (GreenCk g) = gs_chunk g"
| "ck_chunk (AblationsCk a) = as_chunk a"

definition mixed_campaigns :: "string \<Rightarrow> string \<Rightarrow> int \<Rightarrow> int \<Rightarrow> string" where
  "mixed_campaigns path key old new =
     path @ '' was written with '' @ key @ ''='' @ str_int old @ '', and this run has '' @ key @ ''='' @
     str_int new @ '': resuming would mix two campaigns''"

definition load_checkpoint :: "campaign_args \<Rightarrow> string \<Rightarrow> checkpoint \<Rightarrow> campaign_stop + checkpoint" where
  "load_checkpoint a kind state =
     (if ck_kind state \<noteq> kind then
        Inl (Stop (ca_checkpoint a @ '' holds a '' @ str_repr (ck_kind state) @ '' campaign, not '' @ str_repr kind))
      else if ck_seeds state \<noteq> ca_seeds a then
        Inl (Stop (mixed_campaigns (ca_checkpoint a) ''seeds'' (ck_seeds state) (ca_seeds a)))
      else if ck_chunk state \<noteq> ca_chunk a then
        Inl (Stop (mixed_campaigns (ca_checkpoint a) ''chunk'' (ck_chunk state) (ca_chunk a)))
      else Inr state)"

definition sort_keys :: "(string, 'v) dict \<Rightarrow> (string, 'v) dict" where
  "sort_keys d = sort_key fst d"

fun dump_checkpoint :: "checkpoint \<Rightarrow> checkpoint" where
  \<comment> \<open>\<open>json.dumps(state, sort_keys=True)\<close>, read back\<close>
  "dump_checkpoint (GreenCk g) = GreenCk g"
| "dump_checkpoint (AblationsCk a) = AblationsCk (a\<lparr>as_ablations :=
     sort_keys (map (map_prod id (\<lambda>r. r\<lparr>ar_labels := sort_keys (ar_labels r)\<rparr>)) (as_ablations a))\<rparr>)"

record files =
  f_main :: "checkpoint option"
  f_scratch :: "checkpoint option"

datatype effect = Say string | WriteScratch checkpoint | Replace

fun perform :: "effect \<Rightarrow> files \<Rightarrow> files" where
  "perform (Say _) f = f"
| "perform (WriteScratch ck) f = f\<lparr>f_scratch := Some ck\<rparr>"
| "perform Replace f = \<lparr>f_main = f_scratch f, f_scratch = None\<rparr>"

abbreviation perform_all :: "effect list \<Rightarrow> files \<Rightarrow> files" where
  "perform_all es f \<equiv> fold perform es f"

definition save_checkpoint :: "checkpoint \<Rightarrow> effect list" where
  "save_checkpoint state = [WriteScratch (dump_checkpoint state), Replace]"

definition chunks :: "int \<Rightarrow> int \<Rightarrow> (int \<times> int) list" where
  \<comment> \<open>for a positive size, which is all \<open>main\<close> lets through\<close>
  "chunks seeds sz =
     map (\<lambda>k. (int k * sz, min (int k * sz + sz) seeds)) [0..<nat ((seeds + sz - 1) div sz)]"

definition duration_text :: "rat \<Rightarrow> string" where
  "duration_text seconds =
     (if seconds < 90 then str_fixed 1 seconds @ '' s''
      else if seconds < 5400 then str_fixed 1 (seconds / 60) @ '' min''
      else str_fixed 2 (seconds / 3600) @ '' h'')"

definition seed_rate :: "int \<Rightarrow> rat \<Rightarrow> rat" where
  "seed_rate seeds seconds = (if seconds > 0 then of_int seeds / seconds else 0)"

definition round3 :: "rat \<Rightarrow> rat" where
  \<comment> \<open>\<open>round(x, 3)\<close>\<close>
  "round3 x = of_int (round_half_even (x * 1000)) / 1000"

section \<open>The green sweep\<close>

definition green_options :: "int \<Rightarrow> explore_options" where
  "green_options jobs = \<lparr>eo_trace_tail = GREEN_TRACE_TAIL, eo_shrink = False, eo_shrink_budget = DEFAULT_BUDGET,
     eo_jobs = jobs, eo_policy = ''random'', eo_pct_depth = DEFAULT_PCT_DEPTH\<rparr>"

definition green_state_of :: "campaign_args \<Rightarrow> nat \<Rightarrow> int \<Rightarrow> rat \<Rightarrow> (int \<times> string \<times> string) option \<Rightarrow> checkpoint" where
  "green_state_of a chunks_done seeds_done elapsed failure =
     GreenCk \<lparr>gs_seeds = ca_seeds a, gs_chunk = ca_chunk a, gs_jobs = ca_jobs a, gs_chunks_done = chunks_done,
       gs_seeds_done = seeds_done, gs_elapsed = round3 elapsed, gs_failure = failure\<rparr>"

definition green_failure :: "'d seed_report \<Rightarrow> effect list" where
  "green_failure r =
     map Say [[], ''FAILURE: seed '' @ str_int (sr_seed r) @ '' broke an intact jobqueue'', render r None None None, [],
       ''This is a real bug, not a flake: re-run that one seed with '' @
       ''explore(chaos_campaign, ['' @ str_int (sr_seed r) @ ''])'' @ ''.'']"

definition green_summary :: "campaign_args \<Rightarrow> rat \<Rightarrow> effect list" where
  "green_summary a elapsed =
     map Say [[], ''--- summary (for benchmarks/README.md) ---'',
       ''seeds:        '' @ str_commas (ca_seeds a),
       ''jobs:         '' @ str_int (ca_jobs a),
       ''wall time:    '' @ duration_text elapsed,
       ''throughput:   '' @ str_fixed 1 (seed_rate (ca_seeds a) elapsed) @ '' seeds/s'',
       ''result:       green, no invariant violated'']"

fun green_loop ::
    "'d workload \<Rightarrow> campaign_args \<Rightarrow> (nat \<Rightarrow> rat) \<Rightarrow> (int list \<Rightarrow> batch_failure option) \<Rightarrow>
     nat \<Rightarrow> rat \<Rightarrow> (int \<times> int) list \<Rightarrow> effect list \<times> (campaign_stop + int)" where
  \<comment> \<open>\<open>took\<close> is the time of a chunk, \<open>found\<close> what \<open>find_lowest_failure\<close> returns for some seeds\<close>
  "green_loop W a took found index elapsed [] = (green_summary a elapsed, Inr 0)"
| "green_loop W a took found index elapsed ((low, high) # rest) =
     (case explore W (green_options (ca_jobs a)) (found [low..high - 1]) [low..high - 1] of
        Inl e \<Rightarrow> ([], Inl (Raised e))
      | Inr (Some r) \<Rightarrow>
          (save_checkpoint (green_state_of a index (low + int (sr_seeds_passed r) + 1) (elapsed + took index)
             (Some (sr_seed r, failure_label (sr_exception r), snd (sr_exception r)))) @ green_failure r, Inr 1)
      | Inr None \<Rightarrow>
          (let (es, res) = green_loop W a took found (Suc index) (elapsed + took index) rest in
           (save_checkpoint (green_state_of a (Suc index) high (elapsed + took index) None) @
            [Say (''seeds '' @ str_commas low @ ''-'' @ str_commas (high - 1) @ '' clear in '' @ duration_text (took index) @
               '' ('' @ str_fixed 1 (seed_rate (high - low) (took index)) @ '' seeds/s); '' @
               str_commas high @ ''/'' @ str_commas (ca_seeds a) @ '' done'')] @ es, res)))"

definition green_resume :: "campaign_args \<Rightarrow> nat \<Rightarrow> checkpoint option \<Rightarrow> campaign_stop + effect list \<times> nat \<times> rat" where
  \<comment> \<open>what is printed, the chunks that need not be run again, and the time spent on them\<close>
  "green_resume a parts file =
     (if \<not> ca_resume a then Inr ([], 0, 0)
      else case file of
          None \<Rightarrow> Inr ([Say (''no checkpoint at '' @ ca_checkpoint a @ '' yet: starting from seed 0'')], 0, 0)
        | Some state \<Rightarrow>
            (case load_checkpoint a ''green'' state of
               Inr (GreenCk g) \<Rightarrow>
                 Inr ([Say (''resuming from '' @ ca_checkpoint a @ '': '' @ str_nat (gs_chunks_done g) @ '' of '' @
                   str_nat parts @ '' chunks already clear ('' @ duration_text (gs_elapsed g) @ '' spent so far)'')],
                   gs_chunks_done g, gs_elapsed g)
             | Inr (AblationsCk _) \<Rightarrow> Inl (Raised KeyError)
             | Inl e \<Rightarrow> Inl e))"

definition run_green ::
    "'d workload \<Rightarrow> campaign_args \<Rightarrow> (nat \<Rightarrow> rat) \<Rightarrow> (int list \<Rightarrow> batch_failure option) \<Rightarrow> checkpoint option \<Rightarrow>
     effect list \<times> (campaign_stop + int)" where
  "run_green W a took found file =
     (let cs = chunks (ca_seeds a) (ca_chunk a) in
      case green_resume a (length cs) file of
        Inl e \<Rightarrow> ([], Inl e)
      | Inr (said, done_already, elapsed) \<Rightarrow>
          (let (es, res) = green_loop W a took found done_already elapsed (drop done_already cs) in
           (said @ [Say (''green: '' @ str_commas (ca_seeds a) @ '' seeds of jobqueue chaos, '' @ str_int (ca_jobs a) @
              '' jobs, '' @ str_commas (ca_chunk a) @ ''-seed chunks'')] @ es, res)))"

section \<open>Files\<close>

fun safe_saves :: "(checkpoint option \<Rightarrow> bool) \<Rightarrow> effect list \<Rightarrow> bool" where
  \<comment> \<open>every file put in place was written whole just before, and satisfies \<open>P\<close>\<close>
  "safe_saves P [] = True"
| "safe_saves P (Say _ # es) = safe_saves P es"
| "safe_saves P (WriteScratch ck # Replace # es) = (P (Some ck) \<and> safe_saves P es)"
| "safe_saves P _ = False"

lemma safe_saves_append: "safe_saves P xs \<Longrightarrow> safe_saves P (xs @ ys) = safe_saves P ys"
  by (induction P xs rule: safe_saves.induct) auto

lemma safe_saves_say [simp]: "safe_saves P (map Say xs)"
  by (induction xs) auto

lemma safe_saves_take:
  "safe_saves P es \<Longrightarrow> P (f_main f) \<Longrightarrow> P (f_main (perform_all (take k es) f))"
proof (induction P es arbitrary: f k rule: safe_saves.induct)
  case (3 P ck es)
  then show ?case by (cases k; cases "k - 1") auto
next
  case (2 P t es)
  then show ?case by (cases k) auto
qed auto

lemma perform_say [simp]: "perform_all (map Say xs) f = f"
  by (induction xs) auto

lemma one_say [simp]: "\<exists>said. [Say x] = map Say said"
  by (rule exI [of _ "[x]"]) simp

lemma perform_save [simp]: "f_main (perform_all (save_checkpoint ck) f) = Some (dump_checkpoint ck)"
  by (simp add: save_checkpoint_def)

section \<open>Chunks\<close>

lemma chunk_count:
  assumes "0 < (sz :: int)" and "0 < seeds"
  shows "int i * sz < seeds \<longleftrightarrow> i < nat ((seeds + sz - 1) div sz)"
proof -
  let ?x = "seeds + sz - 1"
  have "int i + 1 \<le> ?x div sz \<longleftrightarrow> of_int (int i + 1) \<le> (of_int ?x / of_int sz :: real)"
    unfolding floor_divide_of_int_eq [where ?'a = real, symmetric] by (rule le_floor_iff)
  also have "\<dots> \<longleftrightarrow> of_int ((int i + 1) * sz) \<le> (of_int ?x :: real)"
    using assms(1) by (simp add: pos_le_divide_eq)
  finally have "int i < ?x div sz \<longleftrightarrow> (int i + 1) * sz \<le> ?x"
    by (simp only: of_int_le_iff zless_iff_Suc_zadd add1_zle_eq)
  then show ?thesis using assms by (auto simp: algebra_simps zless_nat_eq_int_zless)
qed

lemma drop_chunks:
  "drop i (chunks seeds sz) =
     map (\<lambda>k. (int k * sz, min (int k * sz + sz) seeds)) [i..<length (chunks seeds sz)]"
  by (simp add: chunks_def drop_map)

lemma length_chunks: "length (chunks seeds sz) = nat ((seeds + sz - 1) div sz)"
  by (simp add: chunks_def)

lemma drop_chunks_Cons:
  assumes "drop i (chunks seeds sz) = (low, high) # rest"
  shows "i < length (chunks seeds sz)" "low = int i * sz" "high = min (low + sz) seeds"
    "rest = drop (Suc i) (chunks seeds sz)"
proof -
  show i: "i < length (chunks seeds sz)" using assms by (metis drop_eq_Nil list.discI not_le_imp_less)
  then have "drop i (chunks seeds sz) = chunks seeds sz ! i # drop (Suc i) (chunks seeds sz)"
    by (rule Cons_nth_drop_Suc [symmetric])
  with assms i show "low = int i * sz" "high = min (low + sz) seeds" "rest = drop (Suc i) (chunks seeds sz)"
    by (auto simp: chunks_def)
qed

lemma chunk_bounds:
  assumes "0 < sz" and "0 < seeds" and "drop i (chunks seeds sz) = (low, high) # rest"
  shows "0 \<le> low" "low < high" "high \<le> seeds" "s < seeds \<Longrightarrow> int (Suc i) * sz \<le> s \<longleftrightarrow> high \<le> s"
proof -
  note d = drop_chunks_Cons [OF assms(3)]
  have "low < seeds" using d(1,2) chunk_count [OF assms(1,2), of i] by (simp add: length_chunks)
  with assms(1) d(2,3) show "low < high" "high \<le> seeds" "0 \<le> low" by auto
  show "int (Suc i) * sz \<le> s \<longleftrightarrow> high \<le> s" if "s < seeds"
    using that d(2,3) by (auto simp: algebra_simps)
qed

section \<open>What exploring a chunk finds\<close>

definition goes_red :: "'d workload \<Rightarrow> int \<Rightarrow> bool" where
  "goes_red W seed \<longleftrightarrow> rf_failure (w_run W seed None) \<noteq> None"

definition fault_at :: "'d workload \<Rightarrow> int \<Rightarrow> int \<times> string \<times> string" where
  \<comment> \<open>how a failing seed is written down: seed, label, message\<close>
  "fault_at W seed =
     (let e = the (rf_failure (w_run W seed None)) in (seed, failure_label e, snd e))"

definition workers_agree :: "'d workload \<Rightarrow> int \<Rightarrow> (int list \<Rightarrow> batch_failure option) \<Rightarrow> bool" where
  \<comment> \<open>with several jobs: the workload reaches the workers, and there a seed runs as it does here\<close>
  "workers_agree W jobs found \<longleftrightarrow> 1 \<le> jobs \<and> (1 < jobs \<longrightarrow> w_picklable W \<and>
     (\<forall>low high. found_lowest_failure (nat jobs) (\<lambda>seed. rf_failure (w_run W seed None)) [low..high] None (found [low..high])))"

definition plain_options :: "explore_options \<Rightarrow> bool" where
  "plain_options opts \<longleftrightarrow> eo_policy opts = ''random'' \<and> \<not> eo_shrink opts"

lemma plain_facts:
  assumes "plain_options opts"
  shows "valid_options opts" "seed_facts W opts seed = w_run W seed None" "seed_fails W opts = goes_red W"
  using assms by (auto simp: plain_options_def valid_options_def POLICIES_def seed_facts_def seed_policy_def
      policy_for_def seed_fails_def goes_red_def fun_eq_iff)

lemma explore_range_plain:
  assumes "plain_options opts" and "workers_agree W (eo_jobs opts) found"
  shows "explore W opts (found [low..high]) [low..high] =
    (case index_where (goes_red W) [low..high] of
       None \<Rightarrow> Inr None
     | Some i \<Rightarrow> Inr (Some (expected_report W opts (low + int i) i
         (if i = 0 then [] else rf_trace (seed_facts W opts ([low..high] ! (i - 1)))))))"
proof -
  let ?o = "opts\<lparr>eo_jobs := 1\<rparr>"
  have v: "valid_options ?o" "eo_jobs ?o = 1" using plain_facts(1) [OF assms(1)] by (simp_all add: valid_options_def)
  have one: "explore W ?o found' [low..high] = (case index_where (goes_red W) [low..high] of
       None \<Rightarrow> Inr None
     | Some i \<Rightarrow> Inr (Some (expected_report W opts (low + int i) i
         (if i = 0 then [] else rf_trace (seed_facts W opts ([low..high] ! (i - 1)))))))" for found'
  proof (cases "index_where (goes_red W) [low..high]")
    case (Some i)
    then have "[low..high] ! i = low + int i" by (auto simp: index_where_Some)
    with assms(1) Some show ?thesis
      unfolding explore_sequential_eq [OF v] jobs_irrelevant plain_facts(3) [OF assms(1)]
      by (simp add: plain_options_def)
  next
    case None
    then show ?thesis
      unfolding explore_sequential_eq [OF v] jobs_irrelevant plain_facts(3) [OF assms(1)] by simp
  qed
  show ?thesis
  proof (cases "eo_jobs opts = 1")
    case True
    then have "opts = ?o" by simp
    with one show ?thesis by metis
  next
    case False
    with assms have "1 < eo_jobs opts" "w_picklable W" "eo_policy opts = ''random''"
      "found_lowest_failure (nat (eo_jobs opts)) (\<lambda>seed. rf_failure (w_run W seed None)) [low..high] None (found [low..high])"
      by (auto simp: workers_agree_def plain_options_def)
    from explore_parallel_eq [OF plain_facts(1) [OF assms(1)] this(3,2,1) refl this(4)] one show ?thesis
      by simp
  qed
qed

lemma explore_range_cases:
  assumes "plain_options opts" and "workers_agree W (eo_jobs opts) found"
  shows "(\<forall>s\<in>{low..high}. \<not> goes_red W s) \<and> explore W opts (found [low..high]) [low..high] = Inr None \<or>
    (\<exists>i r. low + int i \<le> high \<and> goes_red W (low + int i) \<and> (\<forall>s\<in>{low..<low + int i}. \<not> goes_red W s) \<and>
      explore W opts (found [low..high]) [low..high] = Inr (Some r) \<and> sr_seed r = low + int i \<and> sr_seeds_passed r = i \<and>
      (sr_seed r, failure_label (sr_exception r), snd (sr_exception r)) = fault_at W (low + int i))"
proof (cases "index_where (goes_red W) [low..high]")
  case None
  then have "\<forall>s\<in>{low..high}. \<not> goes_red W s" by (simp add: index_where_None)
  moreover have "explore W opts (found [low..high]) [low..high] = Inr None"
    unfolding explore_range_plain [OF assms] None by simp
  ultimately show ?thesis by blast
next
  case (Some i)
  then have i: "low + int i \<le> high" "goes_red W (low + int i)" "\<forall>j<i. \<not> goes_red W (low + int j)"
    by (auto simp: index_where_Some)
  have "\<not> goes_red W s" if "s \<in> {low..<low + int i}" for s
    using i(3) [rule_format, of "nat (s - low)"] that by (simp add: nat_less_iff)
  with i show ?thesis
    unfolding explore_range_plain [OF assms] Some option.case
    by (intro disjI2 exI [of _ i]) (auto simp: expected_report_def fault_at_def plain_facts(2) [OF assms(1)] Let_def)
qed

section \<open>The green sweep survives being killed\<close>

lemma green_options_plain: "plain_options (green_options jobs)" "eo_jobs (green_options jobs) = jobs"
  by (simp_all add: plain_options_def green_options_def)

definition green_file :: "int \<Rightarrow> int \<Rightarrow> nat \<Rightarrow> int \<Rightarrow> (int \<times> string \<times> string) option \<Rightarrow> checkpoint option \<Rightarrow> bool" where
  "green_file seeds chunk chunks_done seeds_done failure file \<longleftrightarrow>
     (\<exists>jobs elapsed. file = Some (GreenCk \<lparr>gs_seeds = seeds, gs_chunk = chunk, gs_jobs = jobs,
        gs_chunks_done = chunks_done, gs_seeds_done = seeds_done, gs_elapsed = elapsed, gs_failure = failure\<rparr>))"

definition green_ok :: "'d workload \<Rightarrow> int \<Rightarrow> int \<Rightarrow> checkpoint option \<Rightarrow> bool" where
  \<comment> \<open>what a checkpoint says is clear is clear\<close>
  "green_ok W seeds chunk file \<longleftrightarrow> file = None \<or>
     (\<exists>i sd e. green_file seeds chunk i sd e file \<and> i \<le> length (chunks seeds chunk) \<and>
        (i = length (chunks seeds chunk) \<longrightarrow> sd = seeds \<and> e = None) \<and>
        (\<forall>s\<in>{0..<min (int i * chunk) seeds}. \<not> goes_red W s))"

lemma green_file_state:
  "green_file (ca_seeds a) (ca_chunk a) i sd e (Some (green_state_of a i sd el e))"
  by (simp add: green_file_def green_state_of_def)

lemma green_ok_state:
  assumes "i \<le> length (chunks (ca_seeds a) (ca_chunk a))" and "i = length (chunks (ca_seeds a) (ca_chunk a)) \<Longrightarrow> sd = ca_seeds a \<and> e = None"
    and "\<forall>s\<in>{0..<min (int i * ca_chunk a) (ca_seeds a)}. \<not> goes_red W s"
  shows "green_ok W (ca_seeds a) (ca_chunk a) (Some (green_state_of a i sd el e))"
  using assms green_file_state [of a i sd e el] unfolding green_ok_def by blast

lemma dump_green [simp]: "dump_checkpoint (green_state_of a i sd el e) = green_state_of a i sd el e"
  by (simp add: green_state_of_def)

lemma green_texts_say [simp]:
  "perform_all (green_failure r) f = f" "perform_all (green_summary a el) f = f"
  "safe_saves P (green_failure r)" "safe_saves P (green_summary a el)"
  unfolding green_failure_def green_summary_def by simp_all

lemma green_loop_spec:
  assumes "workers_agree W (ca_jobs a) found" and "0 < ca_chunk a" and "0 < ca_seeds a"
    and "i \<le> length (chunks (ca_seeds a) (ca_chunk a))"
    and "\<forall>s\<in>{0..<min (int i * ca_chunk a) (ca_seeds a)}. \<not> goes_red W s"
    and "green_loop W a took found i el (drop i (chunks (ca_seeds a) (ca_chunk a))) = (es, res)"
  shows "safe_saves (green_ok W (ca_seeds a) (ca_chunk a)) es"
    and "\<forall>s\<in>{0..<ca_seeds a}. \<not> goes_red W s \<Longrightarrow> res = Inr 0 \<and>
      (if i = length (chunks (ca_seeds a) (ca_chunk a)) then f_main (perform_all es f) = f_main f
       else green_file (ca_seeds a) (ca_chunk a) (length (chunks (ca_seeds a) (ca_chunk a))) (ca_seeds a) None
         (f_main (perform_all es f)))"
    and "0 \<le> s \<Longrightarrow> s < ca_seeds a \<Longrightarrow> goes_red W s \<Longrightarrow> \<forall>s'\<in>{0..<s}. \<not> goes_red W s' \<Longrightarrow> res = Inr 1 \<and>
      green_file (ca_seeds a) (ca_chunk a) (nat (s div ca_chunk a)) (s + 1) (Some (fault_at W s)) (f_main (perform_all es f))"
  using assms(4-6)
proof (atomize (full), induction "drop i (chunks (ca_seeds a) (ca_chunk a))" arbitrary: i el es res f)
  case Nil
  let ?n = "length (chunks (ca_seeds a) (ca_chunk a))"
  from Nil(1,2) have i: "i = ?n" by simp
  then have "ca_seeds a \<le> int i * ca_chunk a"
    using chunk_count [OF assms(2,3), of i] by (simp add: length_chunks)
  with Nil i show ?case by (auto simp: Nil(1) [symmetric])
next
  case (Cons c cs)
  let ?n = "length (chunks (ca_seeds a) (ca_chunk a))"
  obtain low high where c: "c = (low, high)" by fastforce
  note d = drop_chunks_Cons [OF Cons(2) [symmetric, unfolded c]]
  note b = chunk_bounds [OF assms(2,3) Cons(2) [symmetric, unfolded c]]
  have low: "min (int i * ca_chunk a) (ca_seeds a) = low" "min (int (Suc i) * ca_chunk a) (ca_seeds a) = high"
    using d(2,3) b(2,3) by (auto simp: algebra_simps)
  have clear: "\<forall>s\<in>{0..<low}. \<not> goes_red W s" using Cons(4) low(1) by simp
  note loop = Cons(5) [folded Cons(2), unfolded c]
  consider (green) "\<forall>s\<in>{low..high - 1}. \<not> goes_red W s"
      "explore W (green_options (ca_jobs a)) (found [low..high - 1]) [low..high - 1] = Inr None"
    | (red) k r where "low + int k \<le> high - 1" "goes_red W (low + int k)" "\<forall>s\<in>{low..<low + int k}. \<not> goes_red W s"
      "explore W (green_options (ca_jobs a)) (found [low..high - 1]) [low..high - 1] = Inr (Some r)"
      "sr_seed r = low + int k" "sr_seeds_passed r = k"
      "(sr_seed r, failure_label (sr_exception r), snd (sr_exception r)) = fault_at W (low + int k)"
    using explore_range_cases [OF green_options_plain(1) [of "ca_jobs a"], of W found low "high - 1"] assms(1)
    by (auto simp: green_options_plain(2))
  then show ?case
  proof cases
    case red
    let ?s = "low + int k"
    have quo: "?s div ca_chunk a = int i"
      using red(1) d(2,3) b assms(2) by (intro int_div_pos_eq [of _ _ _ "int k"]) (auto simp: mult.commute)
    have es: "es = save_checkpoint (green_state_of a i (?s + 1) (el + took i) (Some (fault_at W ?s))) @ green_failure r" "res = Inr 1"
      using loop red(4-7) by (auto simp: add.commute add.left_commute)
    have ok: "green_ok W (ca_seeds a) (ca_chunk a) (Some (green_state_of a i (?s + 1) (el + took i) (Some (fault_at W ?s))))"
      using d(1) clear low(1) by (intro green_ok_state) auto
    have first: "s = ?s" if "0 \<le> s" "goes_red W s" "\<forall>s'\<in>{0..<s}. \<not> goes_red W s'" for s
    proof (rule ccontr)
      assume "s \<noteq> ?s"
      then consider "s < low" | "s \<in> {low..<?s}" | "?s < s" by fastforce
      then show False using that red(2,3) clear b(1) by cases auto
    qed
    show ?thesis
      using ok red(1,2) b(1,3) quo first green_file_state [of a i "?s + 1" "Some (fault_at W ?s)" "el + took i"]
      unfolding es by (auto simp: save_checkpoint_def)
  next
    case green
    have clear': "\<forall>s\<in>{0..<high}. \<not> goes_red W s" using green(1) clear by force
    obtain es' where rest: "green_loop W a took found (Suc i) (el + took i) (drop (Suc i) (chunks (ca_seeds a) (ca_chunk a))) = (es', res)"
      and es: "es = save_checkpoint (green_state_of a (Suc i) high (el + took i) None) @
        [Say (''seeds '' @ str_commas low @ ''-'' @ str_commas (high - 1) @ '' clear in '' @ duration_text (took i) @
               '' ('' @ str_fixed 1 (seed_rate (high - low) (took i)) @ '' seeds/s); '' @
               str_commas high @ ''/'' @ str_commas (ca_seeds a) @ '' done'')] @ es'"
      using loop green(2) d(4) by (auto split: prod.splits)
    have last: "Suc i = ?n \<Longrightarrow> high = ca_seeds a"
      using chunk_count [OF assms(2,3), of "Suc i"] low(2) by (simp add: length_chunks)
    have ok: "green_ok W (ca_seeds a) (ca_chunk a) (Some (green_state_of a (Suc i) high (el + took i) None))"
      using d(1) clear' low(2) last by (intro green_ok_state) auto
    have saved: "green_file (ca_seeds a) (ca_chunk a) (Suc i) high None (Some (green_state_of a (Suc i) high (el + took i) None))"
      by (rule green_file_state)
    let ?f = "perform Replace (perform (WriteScratch (green_state_of a (Suc i) high (el + took i) None)) f)"
    note IH = Cons(1) [OF d(4), of "el + took i" es' res ?f, unfolded low(2), OF _ clear' rest]
    show ?thesis
      using IH d(1) ok saved last unfolding es by (auto simp: save_checkpoint_def split: if_splits)
  qed
qed

lemma green_resume_spec:
  assumes "green_ok W (ca_seeds a) (ca_chunk a) (f_main f)" and "0 < ca_chunk a"
  obtains said i el where "green_resume a (length (chunks (ca_seeds a) (ca_chunk a))) (f_main f) = Inr (map Say said, i, el)"
    "i \<le> length (chunks (ca_seeds a) (ca_chunk a))"
    "\<forall>s\<in>{0..<min (int i * ca_chunk a) (ca_seeds a)}. \<not> goes_red W s"
    "i = length (chunks (ca_seeds a) (ca_chunk a)) \<Longrightarrow> i = 0 \<or> green_file (ca_seeds a) (ca_chunk a) i (ca_seeds a) None (f_main f)"
proof (cases "ca_resume a \<and> f_main f \<noteq> None")
  case False
  then have "\<exists>said. green_resume a (length (chunks (ca_seeds a) (ca_chunk a))) (f_main f) = Inr (map Say said, 0, 0)"
    by (auto simp: green_resume_def simp del: append_Cons)
  with that show thesis by force
next
  case True
  with assms(1) obtain i sd e jobs el where g: "f_main f = Some (GreenCk \<lparr>gs_seeds = ca_seeds a, gs_chunk = ca_chunk a,
      gs_jobs = jobs, gs_chunks_done = i, gs_seeds_done = sd, gs_elapsed = el, gs_failure = e\<rparr>)"
      "i \<le> length (chunks (ca_seeds a) (ca_chunk a))" "i = length (chunks (ca_seeds a) (ca_chunk a)) \<longrightarrow> sd = ca_seeds a \<and> e = None"
      "\<forall>s\<in>{0..<min (int i * ca_chunk a) (ca_seeds a)}. \<not> goes_red W s"
    unfolding green_ok_def green_file_def by blast
  have "\<exists>said. green_resume a (length (chunks (ca_seeds a) (ca_chunk a))) (f_main f) = Inr (map Say said, i, el)"
    using True by (simp add: g(1) green_resume_def load_checkpoint_def del: append_Cons)
  with that g show thesis by (auto simp: green_file_def)
qed

lemma run_green_spec:
  assumes "green_ok W (ca_seeds a) (ca_chunk a) (f_main f)"
    and "0 < ca_seeds a" and "0 < ca_chunk a" and "workers_agree W (ca_jobs a) found"
    and "run_green W a took found (f_main f) = (es, res)"
  shows "safe_saves (green_ok W (ca_seeds a) (ca_chunk a)) es"
    and "\<forall>s\<in>{0..<ca_seeds a}. \<not> goes_red W s \<Longrightarrow> res = Inr 0 \<and>
      green_file (ca_seeds a) (ca_chunk a) (length (chunks (ca_seeds a) (ca_chunk a))) (ca_seeds a) None
        (f_main (perform_all es f))"
    and "0 \<le> s \<Longrightarrow> s < ca_seeds a \<Longrightarrow> goes_red W s \<Longrightarrow> \<forall>s'\<in>{0..<s}. \<not> goes_red W s' \<Longrightarrow> res = Inr 1 \<and>
      green_file (ca_seeds a) (ca_chunk a) (nat (s div ca_chunk a)) (s + 1) (Some (fault_at W s)) (f_main (perform_all es f))"
proof -
  let ?n = "length (chunks (ca_seeds a) (ca_chunk a))"
  obtain said i el where r: "green_resume a ?n (f_main f) = Inr (map Say said, i, el)" "i \<le> ?n"
    "\<forall>s\<in>{0..<min (int i * ca_chunk a) (ca_seeds a)}. \<not> goes_red W s"
    "i = ?n \<Longrightarrow> i = 0 \<or> green_file (ca_seeds a) (ca_chunk a) i (ca_seeds a) None (f_main f)"
    using green_resume_spec [OF assms(1,3)] by blast
  have n: "?n \<noteq> 0" using chunk_count [OF assms(3,2), of 0] assms(2) by (simp add: length_chunks)
  obtain es' head where l: "green_loop W a took found i el (drop i (chunks (ca_seeds a) (ca_chunk a))) = (es', res)"
    and es: "es = map Say (said @ [head]) @ es'"
    using assms(5) r(1) by (auto simp: run_green_def Let_def split: prod.splits)
  have say: "safe_saves P (map Say (said @ [head]) @ es') = safe_saves P es'" for P
    by (rule safe_saves_append) (rule safe_saves_say)
  have same: "perform_all es f = perform_all es' f" by (simp add: es)
  note loop = green_loop_spec [OF assms(4,3,2) r(2,3) l]
  show "safe_saves (green_ok W (ca_seeds a) (ca_chunk a)) es" unfolding es say by (rule loop(1))
  show "res = Inr 0 \<and> green_file (ca_seeds a) (ca_chunk a) ?n (ca_seeds a) None (f_main (perform_all es f))"
    if "\<forall>s\<in>{0..<ca_seeds a}. \<not> goes_red W s"
    using loop(2) [OF that, of f] r(4) n unfolding same by (cases "i = ?n") auto
  show "res = Inr 1 \<and> green_file (ca_seeds a) (ca_chunk a) (nat (s div ca_chunk a)) (s + 1) (Some (fault_at W s))
      (f_main (perform_all es f))"
    if "0 \<le> s" "s < ca_seeds a" "goes_red W s" "\<forall>s'\<in>{0..<s}. \<not> goes_red W s'"
    unfolding same by (rule loop(3) [OF that])
qed

inductive green_files :: "'d workload \<Rightarrow> int \<Rightarrow> int \<Rightarrow> files \<Rightarrow> bool" for W seeds chunk where
  \<comment> \<open>what may lie on the disk after any number of runs, resumed or not, each killed at any moment;
      a kill in the middle of a write leaves anything in the scratch file\<close>
  files_new: "f_main f = None \<Longrightarrow> green_files W seeds chunk f"
| files_killed: "green_files W seeds chunk f \<Longrightarrow> ca_seeds a = seeds \<Longrightarrow> ca_chunk a = chunk \<Longrightarrow>
    workers_agree W (ca_jobs a) found \<Longrightarrow>
    f_main f' = f_main (perform_all (take k (fst (run_green W a took found (f_main f)))) f) \<Longrightarrow>
    green_files W seeds chunk f'"

lemma green_files_ok:
  assumes "green_files W seeds chunk f" and "0 < seeds" and "0 < chunk"
  shows "green_ok W seeds chunk (f_main f)"
  using assms(1)
proof induction
  case (files_killed f a found f' k took)
  obtain es res where "run_green W a took found (f_main f) = (es, res)" by fastforce
  with files_killed assms(2,3) run_green_spec(1) [of W a f found took es res] show ?case
    by (auto intro: safe_saves_take)
qed (simp add: green_ok_def)

text \<open>
  C38. A green sweep can be killed and resumed at will. Whatever lies on the disk after any number of
  runs with the same seeds and chunk size, fresh or resumed, on any number of processes, each killed
  at any moment: the next run, resumed or not, ends with exit code 0 and a checkpoint that says every
  seed is done exactly when no seed of the range fails, and otherwise with exit code 1 and a checkpoint
  that names the lowest failing seed of the whole range with its label and message, and no other.
\<close>
theorem killed_green_sweep_resumes:
  assumes "green_files W (ca_seeds a) (ca_chunk a) f" and "0 < ca_seeds a" and "0 < ca_chunk a"
    and "workers_agree W (ca_jobs a) found"
    and "run_green W a took found (f_main f) = (es, res)"
  shows "case index_where (goes_red W) [0..ca_seeds a - 1] of
      None \<Rightarrow> res = Inr 0 \<and> green_file (ca_seeds a) (ca_chunk a) (length (chunks (ca_seeds a) (ca_chunk a)))
        (ca_seeds a) None (f_main (perform_all es f))
    | Some s \<Rightarrow> res = Inr 1 \<and> green_file (ca_seeds a) (ca_chunk a) (s div nat (ca_chunk a)) (int s + 1)
        (Some (fault_at W (int s))) (f_main (perform_all es f))"
proof -
  note run = run_green_spec [OF green_files_ok [OF assms(1-3)] assms(2-5)]
  show ?thesis
  proof (cases "index_where (goes_red W) [0..ca_seeds a - 1]")
    case None
    then have "\<forall>s\<in>{0..<ca_seeds a}. \<not> goes_red W s" by (auto simp: index_where_None)
    from run(2) [OF this] None show ?thesis by simp
  next
    case (Some s)
    then have s: "int s < ca_seeds a" "goes_red W (int s)" "\<forall>j<s. \<not> goes_red W (int j)"
      by (auto simp: index_where_Some)
    then have "\<forall>s'\<in>{0..<int s}. \<not> goes_red W s'" by (metis atLeastLessThan_iff nonneg_int_cases of_nat_less_iff)
    from run(3) [OF _ s(1,2) this] Some assms(3) show ?thesis by (simp add: nat_div_distrib)
  qed
qed

definition demo_args :: "int \<Rightarrow> campaign_args" where
  "demo_args jobs = \<lparr>ca_seeds = 4, ca_jobs = jobs, ca_chunk = 2, ca_checkpoint = ''c.json'', ca_resume = True\<rparr>"

theorem killed_green_sweep_resumes_witness:
  "\<exists>f es. f_main f = f_main (perform_all (take 4 (fst (run_green demo_workload (demo_args 1) (\<lambda>_. 1) (\<lambda>_. None) None)))
       \<lparr>f_main = None, f_scratch = None\<rparr>) \<and>
     run_green demo_workload (demo_args 1) (\<lambda>_. 2) (\<lambda>_. None) (f_main f) = (es, Inr 1) \<and>
     green_file 4 2 1 3 (Some (2, ''ValueError'', ''boom'')) (f_main (perform_all es f))"
proof -
  let ?init = "\<lparr>f_main = None, f_scratch = None\<rparr>"
  let ?f = "perform_all (take 4 (fst (run_green demo_workload (demo_args 1) (\<lambda>_. 1) (\<lambda>_. None) None))) ?init"
  have agree: "workers_agree demo_workload (ca_jobs (demo_args 1)) (\<lambda>_. None)"
    by (simp add: workers_agree_def demo_args_def)
  have "green_files demo_workload (ca_seeds (demo_args 1)) (ca_chunk (demo_args 1)) ?init" by (rule files_new) simp
  from files_killed [OF this refl refl agree, of ?f 4 "\<lambda>_. 1"]
  have f: "green_files demo_workload (ca_seeds (demo_args 1)) (ca_chunk (demo_args 1)) ?f" by simp
  obtain es res where run: "run_green demo_workload (demo_args 1) (\<lambda>_. 2) (\<lambda>_. None) (f_main ?f) = (es, res)"
    by fastforce
  have "[0..ca_seeds (demo_args 1) - 1] = [0, 1, 2, 3]" by (simp add: demo_args_def upto.simps)
  then have "index_where (goes_red demo_workload) [0..ca_seeds (demo_args 1) - 1] = Some 2"
    by (simp add: goes_red_def demo_workload_def)
  with killed_green_sweep_resumes [OF f _ _ agree run]
  have "res = Inr 1 \<and> green_file 4 2 1 3 (Some (2, ''ValueError'', ''boom'')) (f_main (perform_all es ?f))"
    by (simp add: demo_args_def fault_at_def demo_workload_def failure_label_def)
  with run show ?thesis by blast
qed

end
