(* ===== verification/SimAblations.thy ===== *)
theory SimAblations
  imports SimCampaign "HOL-Library.Product_Lexorder"
begin

text \<open>
  The other two commands of \<open>benchmarks/campaign.py\<close>: \<open>ablations\<close> records every failing seed of the
  job queue with one safeguard off, and \<open>stability\<close> runs a sample of those seeds again. The scenarios
  are workloads given by the ablation's name.
\<close>

section \<open>The ablations\<close>

definition UNEXPECTED_SHOWN :: nat where "UNEXPECTED_SHOWN = 10"

record ablation =
  ab_name :: string
  ab_expected :: "string list"

definition ABLATIONS :: "ablation list" where
  "ABLATIONS =
     [\<lparr>ab_name = ''unfenced-store'', ab_expected = [''no-zombie-writes'']\<rparr>,
      \<lparr>ab_name = ''unidempotent-store'', ab_expected = [''exactly-once'']\<rparr>,
      \<lparr>ab_name = ''broker-fencing-off'', ab_expected = [''exactly-once'', ''no-zombie-writes'']\<rparr>,
      \<lparr>ab_name = ''no-idempotency-key'', ab_expected = [''exactly-once'', ''convergence'']\<rparr>,
      \<lparr>ab_name = ''unbounded-attempts'', ab_expected = [''TimeoutError'']\<rparr>,
      \<lparr>ab_name = ''renew-off-unidempotent'', ab_expected = [''exactly-once'']\<rparr>]"

section \<open>Scanning a chunk\<close>

type_synonym fault = "int \<times> string \<times> string"

definition scan_options :: explore_options where
  "scan_options = \<lparr>eo_trace_tail = 0, eo_shrink = False, eo_shrink_budget = DEFAULT_BUDGET,
     eo_jobs = 1, eo_policy = ''random'', eo_pct_depth = DEFAULT_PCT_DEPTH\<rparr>"

lemma scan_options_plain: "plain_options scan_options" "eo_jobs scan_options = 1"
  by (simp_all add: plain_options_def scan_options_def)

lemma explore_scan_cases:
  "(\<forall>s\<in>{low..high}. \<not> goes_red W s) \<and> explore W scan_options None [low..high] = Inr None \<or>
    (\<exists>i r. low + int i \<le> high \<and> goes_red W (low + int i) \<and> (\<forall>s\<in>{low..<low + int i}. \<not> goes_red W s) \<and>
      explore W scan_options None [low..high] = Inr (Some r) \<and> sr_seed r = low + int i \<and>
      (sr_seed r, failure_label (sr_exception r), snd (sr_exception r)) = fault_at W (low + int i))"
proof -
  have "workers_agree W (eo_jobs scan_options) (\<lambda>_. None)" by (simp add: workers_agree_def scan_options_plain)
  from explore_range_cases [OF scan_options_plain(1) this, of low high] show ?thesis by blast
qed

lemma explore_scan_in_range:
  "explore W scan_options None [low..high] = Inr (Some r) \<Longrightarrow> low \<le> sr_seed r \<and> sr_seed r \<le> high"
  using explore_scan_cases [of low high W] by auto

function scan :: "'d workload \<Rightarrow> int \<Rightarrow> int \<Rightarrow> exn + fault list" where
  \<comment> \<open>\<open>_scan\<close>: its loop, with \<open>seed\<close> as argument\<close>
  "scan W seed high =
     (if seed < high then
        (case explore W scan_options None [seed..high - 1] of
           Inl e \<Rightarrow> Inl e
         | Inr None \<Rightarrow> Inr []
         | Inr (Some r) \<Rightarrow>
             (case scan W (sr_seed r + 1) high of
                Inl e \<Rightarrow> Inl e
              | Inr found \<Rightarrow> Inr ((sr_seed r, failure_label (sr_exception r), snd (sr_exception r)) # found)))
      else Inr [])"
  by pat_completeness auto

termination
  by (relation "measure (\<lambda>(W, seed, high). nat (high - seed))") (auto dest!: explore_scan_in_range)

declare scan.simps [simp del]

definition faults :: "'d workload \<Rightarrow> int \<Rightarrow> int \<Rightarrow> fault list" where
  \<comment> \<open>every failing seed of a range, as it is written down\<close>
  "faults W low high = map (fault_at W) (filter (goes_red W) [low..high - 1])"

lemma faults_split: "low \<le> mid \<Longrightarrow> mid \<le> high \<Longrightarrow> faults W low high = faults W low mid @ faults W mid high"
  using upto_split1 [of low mid "high - 1"] by (cases "mid = high") (auto simp: faults_def)

lemma scan_faults: "scan W low high = Inr (faults W low high)"
proof (induction W low high rule: scan.induct)
  case (1 W low high)
  show ?case
  proof (cases "low < high")
    case False
    then show ?thesis by (simp add: scan.simps [of W low] faults_def)
  next
    case True
    consider (none) "\<forall>s\<in>{low..high - 1}. \<not> goes_red W s" "explore W scan_options None [low..high - 1] = Inr None"
      | (some) i r where "low + int i \<le> high - 1" "goes_red W (low + int i)" "\<forall>s\<in>{low..<low + int i}. \<not> goes_red W s"
        "explore W scan_options None [low..high - 1] = Inr (Some r)" "sr_seed r = low + int i"
        "(sr_seed r, failure_label (sr_exception r), snd (sr_exception r)) = fault_at W (low + int i)"
      using explore_scan_cases [of low "high - 1" W] by blast
    then show ?thesis
    proof cases
      case none
      then have "filter (goes_red W) [low..high - 1] = []" by (simp add: filter_empty_conv)
      with True none show ?thesis by (simp add: scan.simps [of W low] faults_def)
    next
      case some
      let ?s = "low + int i"
      have "filter (goes_red W) [low..?s - 1] = []" using some(3) by (simp add: filter_empty_conv)
      then have "faults W low ?s = []" by (simp add: faults_def)
      moreover have "faults W ?s (?s + 1) = [fault_at W ?s]" using some(2) by (simp add: faults_def)
      ultimately have "faults W low high = fault_at W ?s # faults W (?s + 1) high"
        using some(1) faults_split [of low ?s high W] faults_split [of ?s "?s + 1" high W] by simp
      with True some(4-6) 1 [OF True some(4) refl] show ?thesis by (simp add: scan.simps [of W low])
    qed
  qed
qed

section \<open>The ablation sweep\<close>

definition fresh_record :: abl_record where
  "fresh_record = \<lparr>ar_chunks_done = 0, ar_elapsed = 0, ar_failing = [], ar_labels = []\<rparr>"

definition unexpected_line :: "ablation \<Rightarrow> fault \<Rightarrow> string" where
  "unexpected_line ab f =
     (case f of (seed, label, message) \<Rightarrow>
        ab_name ab @ '' seed '' @ str_int seed @ '' failed with '' @ str_repr label @ '', not '' @
        join '' or '' (ab_expected ab) @ '': '' @ message)"

fun record_fault :: "ablation \<Rightarrow> fault \<Rightarrow> abl_record \<times> string list \<Rightarrow> abl_record \<times> string list" where
  "record_fault ab (seed, label, message) (r, unexpected) =
     (let b = (case dict_get (ar_labels r) label of
                 None \<Rightarrow> \<lparr>bk_count = 0, bk_first_seed = seed, bk_example = message\<rparr>
               | Some b \<Rightarrow> b)
      in (r\<lparr>ar_failing := ar_failing r @ [seed], ar_labels := dict_set label (b\<lparr>bk_count := bk_count b + 1\<rparr>) (ar_labels r)\<rparr>,
          if label \<notin> set (ab_expected ab) then unexpected @ [unexpected_line ab (seed, label, message)] else unexpected))"

definition scanned :: "'d workload \<Rightarrow> (int \<times> int) list \<Rightarrow> (exn + fault list) list" where
  \<comment> \<open>\<open>_scanned\<close>: \<open>pool.map\<close> yields in the order of its arguments, whatever order the chunks finish in\<close>
  "scanned W cs = map (\<lambda>(low, high). scan W low high) cs"

type_synonym abl_progress = "(string, abl_record) dict \<times> string list"

fun ablation_chunks ::
    "campaign_args \<Rightarrow> (nat \<Rightarrow> rat) \<Rightarrow> ablation \<Rightarrow> nat \<Rightarrow> ((int \<times> int) \<times> (exn + fault list)) list \<Rightarrow> abl_progress \<Rightarrow>
     effect list \<times> (campaign_stop + abl_progress)" where
  "ablation_chunks a took ab index [] progress = ([], Inr progress)"
| "ablation_chunks a took ab index (((low, high), Inl e) # rest) progress = ([], Inl (Raised e))"
| "ablation_chunks a took ab index (((low, high), Inr found) # rest) (results, unexpected) =
     (let (r, unexpected) = fold (record_fault ab) found (the (dict_get results (ab_name ab)), unexpected);
          r = r\<lparr>ar_chunks_done := Suc index, ar_elapsed := round3 (ar_elapsed r + took index)\<rparr>;
          results = dict_set (ab_name ab) r results;
          (es, res) = ablation_chunks a took ab (Suc index) rest (results, unexpected)
      in (save_checkpoint (AblationsCk \<lparr>as_seeds = ca_seeds a, as_chunk = ca_chunk a, as_jobs = ca_jobs a,
            as_ablations = results\<rparr>) @
          [Say (ab_name ab @ '': seeds '' @ str_commas low @ ''-'' @ str_commas (high - 1) @ '' scanned, '' @
             str_nat (length found) @ '' failing ('' @ str_nat (length (ar_failing r)) @ '' so far in '' @
             str_commas high @ '' seeds)'')] @ es, res))"

definition setdefault_record :: "string \<Rightarrow> (string, abl_record) dict \<Rightarrow> (string, abl_record) dict" where
  "setdefault_record name results = (if dict_get results name = None then dict_set name fresh_record results else results)"

fun ablation_sweep ::
    "(string \<Rightarrow> 'd workload) \<Rightarrow> campaign_args \<Rightarrow> (string \<Rightarrow> nat \<Rightarrow> rat) \<Rightarrow> (int \<times> int) list \<Rightarrow> ablation list \<Rightarrow>
     abl_progress \<Rightarrow> effect list \<times> (campaign_stop + abl_progress)" where
  "ablation_sweep scenario a took cs [] progress = ([], Inr progress)"
| "ablation_sweep scenario a took cs (ab # others) (results, unexpected) =
     (let results = setdefault_record (ab_name ab) results;
          already = ar_chunks_done (the (dict_get results (ab_name ab)))
      in if already = length cs then
           (let (es, res) = ablation_sweep scenario a took cs others (results, unexpected)
            in (Say (ab_name ab @ '': already complete, skipping'') # es, res))
         else
           (let remaining = drop already cs
            in case ablation_chunks a (took (ab_name ab)) ab already
                   (zip remaining (scanned (scenario (ab_name ab)) remaining)) (results, unexpected) of
                 (es, Inl e) \<Rightarrow> (es, Inl e)
               | (es, Inr progress) \<Rightarrow>
                   (let (es', res) = ablation_sweep scenario a took cs others progress in (es @ es', res))))"

definition summary_row :: "campaign_args \<Rightarrow> (string, abl_record) dict \<Rightarrow> ablation \<Rightarrow> string" where
  "summary_row a results ab =
     (let r = the (dict_get results (ab_name ab)); seeds = ar_failing r; labels = sort (map fst (ar_labels r));
          first = (case seeds of [] \<Rightarrow> ''-'' | s # _ \<Rightarrow> str_int s); named = join '', '' labels
      in ljust 24 (ab_name ab) @ rjust 10 (str_commas (int (length seeds))) @
         rjust 9 (str_fixed 1 (of_nat (length seeds) / of_int (ca_seeds a) * 1000)) @ rjust 8 first @ ''  '' @
         (if named = [] then ''-'' else named))"

definition ablations_summary :: "campaign_args \<Rightarrow> (string, abl_record) dict \<Rightarrow> string list" where
  "ablations_summary a results =
     [[], ''--- summary (for benchmarks/README.md) ---'',
      ljust 24 ''ablation'' @ rjust 10 ''failures'' @ rjust 9 ''per 1k'' @ rjust 8 ''first'' @ ''  invariant''] @
     map (summary_row a results) ABLATIONS @
     [''seeds per ablation: '' @ str_commas (ca_seeds a),
      ''wall time: '' @ duration_text (sum_list (map (\<lambda>ab. ar_elapsed (the (dict_get results (ab_name ab)))) ABLATIONS)) @
        '' for '' @ str_commas (int (length ABLATIONS) * ca_seeds a) @ '' runs'',
      ''failing seeds recorded in '' @ ca_checkpoint a]"

definition ablations_verdict :: "abl_progress \<Rightarrow> string list \<times> int" where
  "ablations_verdict progress =
     (let (results, unexpected) = progress; hidden = int (length unexpected) - int UNEXPECTED_SHOWN;
          barren = map ab_name (filter (\<lambda>ab. ar_failing (the (dict_get results (ab_name ab))) = []) ABLATIONS)
      in if unexpected \<noteq> [] then
           ([[], ''UNEXPECTED FAILURES ('' @ str_nat (length unexpected) @ ''):''] @
            map (\<lambda>line. ''  '' @ line) (take UNEXPECTED_SHOWN unexpected) @
            (if hidden > 0 then [''  ... and '' @ str_commas hidden @ '' more''] else []) @
            [''An ablation failing for a reason its test does not claim means '' @
             ''the example or the harness changed under the campaign.''], 1)
         else if barren \<noteq> [] then
           ([[], ''NO FAILURES FOUND for: '' @ join '', '' barren,
             ''An ablation the explorer no longer catches is a regression.''], 1)
         else ([], 0))"

definition ablations_resume :: "campaign_args \<Rightarrow> nat \<Rightarrow> checkpoint option \<Rightarrow> campaign_stop + string list \<times> (string, abl_record) dict" where
  "ablations_resume a parts file =
     (if \<not> ca_resume a then Inr ([], [])
      else case file of
          None \<Rightarrow> Inr ([''no checkpoint at '' @ ca_checkpoint a @ '' yet: starting from the first ablation''], [])
        | Some state \<Rightarrow>
            (case load_checkpoint a ''ablations'' state of
               Inr (AblationsCk s) \<Rightarrow>
                 Inr ([''resuming from '' @ ca_checkpoint a @ '': '' @
                   str_nat (length (filter (\<lambda>(_, r). ar_chunks_done r = parts) (as_ablations s))) @ '' of '' @
                   str_nat (length ABLATIONS) @ '' ablations already complete''], as_ablations s)
             | Inr (GreenCk _) \<Rightarrow> Inl (Raised KeyError)
             | Inl e \<Rightarrow> Inl e))"

definition ablations_banner :: "campaign_args \<Rightarrow> string" where
  "ablations_banner a =
     ''ablations: '' @ str_nat (length ABLATIONS) @ '' mutations x '' @ str_commas (ca_seeds a) @ '' seeds, '' @
     str_int (ca_jobs a) @ '' jobs, '' @ str_commas (ca_chunk a) @ ''-seed chunks''"

definition run_ablations ::
    "(string \<Rightarrow> 'd workload) \<Rightarrow> campaign_args \<Rightarrow> (string \<Rightarrow> nat \<Rightarrow> rat) \<Rightarrow> checkpoint option \<Rightarrow>
     effect list \<times> (campaign_stop + int)" where
  "run_ablations scenario a took file =
     (let cs = chunks (ca_seeds a) (ca_chunk a) in
      case ablations_resume a (length cs) file of
        Inl e \<Rightarrow> ([], Inl e)
      | Inr (said, results) \<Rightarrow>
          (let hello = map Say (said @ [ablations_banner a])
           in case ablation_sweep scenario a took cs ABLATIONS (results, []) of
                (es, Inl e) \<Rightarrow> (hello @ es, Inl e)
              | (es, Inr progress) \<Rightarrow>
                  (let (said', code) = ablations_verdict progress
                   in (hello @ es @ map Say (ablations_summary a (fst progress) @ said'), Inr code))))"

section \<open>What a record holds\<close>

definition labels_of :: "fault list \<Rightarrow> string \<Rightarrow> label_bucket option" where
  "labels_of fs label =
     (case filter (\<lambda>f. fst (snd f) = label) fs of
        [] \<Rightarrow> None
      | f # gs \<Rightarrow> Some \<lparr>bk_count = Suc (length gs), bk_first_seed = fst f, bk_example = snd (snd f)\<rparr>)"

definition record_of :: "fault list \<Rightarrow> abl_record \<Rightarrow> bool" where
  "record_of fs r \<longleftrightarrow> ar_failing r = map fst fs \<and> dict_get (ar_labels r) = labels_of fs \<and> distinct (map fst (ar_labels r))"

lemma record_of_fresh [simp]: "record_of [] fresh_record"
  by (simp add: record_of_def fresh_record_def labels_of_def fun_eq_iff)

lemma labels_of_snoc:
  "labels_of (fs @ [f]) label =
     (if fst (snd f) = label then
        Some (let b = (case labels_of fs label of None \<Rightarrow> \<lparr>bk_count = 0, bk_first_seed = fst f, bk_example = snd (snd f)\<rparr>
                | Some b \<Rightarrow> b) in b\<lparr>bk_count := bk_count b + 1\<rparr>)
      else labels_of fs label)"
  by (auto simp: labels_of_def Let_def split: list.split)

lemma record_fault_spec:
  assumes "record_of fs r"
  shows "record_of (fs @ [f]) (fst (record_fault ab f (r, u)))"
    "snd (record_fault ab f (r, u)) = u @ (if fst (snd f) \<notin> set (ab_expected ab) then [unexpected_line ab f] else [])"
proof -
  obtain seed label message where f: "f = (seed, label, message)" by (cases f)
  have labels: "dict_get (ar_labels r) = labels_of fs" and dist: "distinct (map fst (ar_labels r))"
    and failing: "ar_failing r = map fst fs"
    using assms by (simp_all add: record_of_def)
  have "dict_get (ar_labels (fst (record_fault ab f (r, u)))) = labels_of (fs @ [f])"
    by (rule ext) (auto simp: f Let_def labels labels_of_snoc split: option.split)
  moreover have "distinct (map fst (ar_labels (fst (record_fault ab f (r, u)))))"
    using dist by (simp add: f Let_def distinct_update)
  moreover have "ar_failing (fst (record_fault ab f (r, u))) = map fst (fs @ [f])"
    by (simp add: f Let_def failing)
  ultimately show "record_of (fs @ [f]) (fst (record_fault ab f (r, u)))" by (simp add: record_of_def)
  show "snd (record_fault ab f (r, u)) = u @ (if fst (snd f) \<notin> set (ab_expected ab) then [unexpected_line ab f] else [])"
    by (simp add: f Let_def)
qed

lemma record_faults_spec:
  assumes "record_of fs r"
  shows "record_of (fs @ gs) (fst (fold (record_fault ab) gs (r, u)))"
    "snd (fold (record_fault ab) gs (r, u)) = [] \<longleftrightarrow> u = [] \<and> (\<forall>f\<in>set gs. fst (snd f) \<in> set (ab_expected ab))"
    "ar_elapsed (fst (fold (record_fault ab) gs (r, u))) = ar_elapsed r"
proof (atomize (full), use assms in \<open>induction gs arbitrary: fs r u\<close>)
  case (Cons g gs)
  obtain r' u' where g: "record_fault ab g (r, u) = (r', u')" by fastforce
  have "record_of (fs @ [g]) r'" "u' = u @ (if fst (snd g) \<notin> set (ab_expected ab) then [unexpected_line ab g] else [])"
    using record_fault_spec [OF Cons.prems, where f = g and ab = ab and u = u] by (simp_all add: g)
  moreover have "ar_elapsed r' = ar_elapsed r" using g by (cases g) (auto simp: Let_def)
  ultimately show ?case using Cons.IH [of "fs @ [g]" r' u'] by (auto simp: g)
qed simp

section \<open>What a checkpoint holds\<close>

definition seen :: "int \<Rightarrow> int \<Rightarrow> abl_record \<Rightarrow> int" where
  \<comment> \<open>the seeds below this one are in the record\<close>
  "seen seeds chunk r = min (int (ar_chunks_done r) * chunk) seeds"

definition record_ok :: "'d workload \<Rightarrow> int \<Rightarrow> int \<Rightarrow> abl_record \<Rightarrow> bool" where
  "record_ok W seeds chunk r \<longleftrightarrow> ar_chunks_done r \<le> length (chunks seeds chunk) \<and> record_of (faults W 0 (seen seeds chunk r)) r"

definition results_ok :: "(string \<Rightarrow> 'd workload) \<Rightarrow> int \<Rightarrow> int \<Rightarrow> (string, abl_record) dict \<Rightarrow> bool" where
  "results_ok scenario seeds chunk d \<longleftrightarrow> distinct (map fst d) \<and> (\<forall>(name, r)\<in>set d. record_ok (scenario name) seeds chunk r)"

fun abl_file_ok :: "(string \<Rightarrow> 'd workload) \<Rightarrow> int \<Rightarrow> int \<Rightarrow> checkpoint option \<Rightarrow> bool" where
  "abl_file_ok scenario seeds chunk None = True"
| "abl_file_ok scenario seeds chunk (Some (GreenCk g)) = False"
| "abl_file_ok scenario seeds chunk (Some (AblationsCk s)) =
     (as_seeds s = seeds \<and> as_chunk s = chunk \<and> results_ok scenario seeds chunk (as_ablations s))"

fun file_record :: "checkpoint option \<Rightarrow> string \<Rightarrow> abl_record option" where
  "file_record (Some (AblationsCk s)) name = dict_get (as_ablations s) name"
| "file_record _ name = None"

lemma sort_keys_facts:
  assumes "distinct (map fst d)"
  shows "distinct (map fst (sort_keys d))" "dict_get (sort_keys d) = dict_get d" "set (sort_keys d) = set d"
proof -
  have "mset (map fst (sort_keys d)) = mset (map fst d)" by (simp add: sort_keys_def)
  then show dist: "distinct (map fst (sort_keys d))" using assms mset_eq_imp_distinct_iff by blast
  show eq: "set (sort_keys d) = set d" by (simp add: sort_keys_def)
  show "dict_get (sort_keys d) = dict_get d"
    using map_of_inject_set [OF dist assms] eq by simp
qed

lemma record_of_sorted: "record_of fs r \<Longrightarrow> record_of fs (r\<lparr>ar_labels := sort_keys (ar_labels r)\<rparr>)"
  using sort_keys_facts [of "ar_labels r"] by (simp add: record_of_def)

lemma record_ok_sorted: "record_ok W seeds chunk r \<Longrightarrow> record_ok W seeds chunk (r\<lparr>ar_labels := sort_keys (ar_labels r)\<rparr>)"
  by (auto simp: record_ok_def seen_def intro: record_of_sorted)

lemma dump_ablations:
  fixes j :: int
  assumes "results_ok scenario seeds chunk d"
  and "ck = dump_checkpoint (AblationsCk \<lparr>as_seeds = seeds, as_chunk = chunk, as_jobs = j, as_ablations = d\<rparr>)"
  shows "abl_file_ok scenario seeds chunk (Some ck)"
    "file_record (Some ck) name = map_option (\<lambda>r. r\<lparr>ar_labels := sort_keys (ar_labels r)\<rparr>) (dict_get d name)"
proof -
  let ?h = "\<lambda>r. r\<lparr>ar_labels := sort_keys (ar_labels r)\<rparr>"
  have keys: "map fst (map (map_prod id ?h) d) = map fst d" by (simp add: comp_def)
  have dist: "distinct (map fst (map (map_prod id ?h) d))" using assms(1) unfolding keys results_ok_def by blast
  note sk = sort_keys_facts [OF dist]
  show "abl_file_ok scenario seeds chunk (Some ck)"
    using assms(1) sk(1,3) by (auto simp: assms(2) results_ok_def intro!: record_ok_sorted)
  have "dict_get (map (map_prod id ?h) d) name = map_option ?h (dict_get d name)"
    by (induction d) (auto simp: map_prod_def)
  then show "file_record (Some ck) name = map_option ?h (dict_get d name)"
    by (simp add: assms(2) sk(2))
qed

lemma results_ok_get: "results_ok scenario seeds chunk d \<Longrightarrow> dict_get d name = Some r \<Longrightarrow> record_ok (scenario name) seeds chunk r"
  by (auto simp: results_ok_def dest: map_of_SomeD)

lemma results_ok_set:
  assumes "results_ok scenario seeds chunk d" and "record_ok (scenario name) seeds chunk r"
  shows "results_ok scenario seeds chunk (dict_set name r d)"
proof -
  have "set (dict_set name r d) \<subseteq> insert (name, r) (set d)"
    by (induction d) auto
  with assms show ?thesis by (auto simp: results_ok_def distinct_update)
qed

lemma record_ok_fresh: "0 < seeds \<Longrightarrow> record_ok W seeds chunk fresh_record"
  using record_of_fresh by (simp add: record_ok_def seen_def fresh_record_def faults_def)

lemma setdefault_ok:
  assumes "results_ok scenario seeds chunk d" and "0 < seeds"
  shows "results_ok scenario seeds chunk (setdefault_record name d)"
  using assms by (auto simp: setdefault_record_def intro: results_ok_set record_ok_fresh)

lemma setdefault_get:
  "dict_get (setdefault_record name d) name' =
     (if name' = name \<and> dict_get d name = None then Some fresh_record else dict_get d name')"
  by (simp add: setdefault_record_def)

section \<open>The sweep records every failing seed\<close>

definition covers :: "nat \<Rightarrow> (string, abl_record) dict \<Rightarrow> checkpoint option \<Rightarrow> bool" where
  \<comment> \<open>what is complete in memory is complete on the disk\<close>
  "covers n d ck \<longleftrightarrow> (\<forall>name r. dict_get d name = Some r \<longrightarrow> ar_chunks_done r = n \<longrightarrow>
     (\<exists>r'. file_record ck name = Some r' \<and> ar_chunks_done r' = n))"

definition as_claimed :: "'d workload \<Rightarrow> ablation \<Rightarrow> int \<Rightarrow> int \<Rightarrow> bool" where
  \<comment> \<open>every failure of the range is one the ablation's tests assert\<close>
  "as_claimed W ab low high \<longleftrightarrow> (\<forall>f\<in>set (faults W low high). fst (snd f) \<in> set (ab_expected ab))"

lemma as_claimed_split:
  "low \<le> mid \<Longrightarrow> mid \<le> high \<Longrightarrow> as_claimed W ab low high \<longleftrightarrow> as_claimed W ab low mid \<and> as_claimed W ab mid high"
  by (auto simp: as_claimed_def faults_split [of low mid high])

lemma as_claimed_empty [simp]: "as_claimed W ab high high"
  by (simp add: as_claimed_def faults_def)

lemma covers_dump:
  assumes "results_ok scenario seeds chunk d"
  shows "covers n d (Some (dump_checkpoint (AblationsCk \<lparr>as_seeds = seeds, as_chunk = chunk, as_jobs = j, as_ablations = d\<rparr>)))"
  using dump_ablations(2) [OF assms refl, of j] by (auto simp: covers_def)

lemma ablation_chunks_spec:
  assumes "0 < ca_chunk a" and "0 < ca_seeds a"
    and "results_ok scenario (ca_seeds a) (ca_chunk a) d" and "dict_get d (ab_name ab) = Some r" and "ar_chunks_done r = i"
    and "ablation_chunks a took ab i (zip (drop i (chunks (ca_seeds a) (ca_chunk a)))
        (scanned (scenario (ab_name ab)) (drop i (chunks (ca_seeds a) (ca_chunk a))))) (d, u) = (es, res)"
  shows "\<exists>d' u' r'. res = Inr (d', u') \<and> results_ok scenario (ca_seeds a) (ca_chunk a) d' \<and>
    dict_get d' (ab_name ab) = Some r' \<and> ar_chunks_done r' = length (chunks (ca_seeds a) (ca_chunk a)) \<and>
    (\<forall>name. name \<noteq> ab_name ab \<longrightarrow> dict_get d' name = dict_get d name) \<and>
    (u' = [] \<longleftrightarrow> u = [] \<and> as_claimed (scenario (ab_name ab)) ab (seen (ca_seeds a) (ca_chunk a) r) (ca_seeds a)) \<and>
    safe_saves (abl_file_ok scenario (ca_seeds a) (ca_chunk a)) es \<and>
    (covers (length (chunks (ca_seeds a) (ca_chunk a))) d (f_main f) \<longrightarrow>
     covers (length (chunks (ca_seeds a) (ca_chunk a))) d' (f_main (perform_all es f)))"
  using assms(3-6)
proof (induction "drop i (chunks (ca_seeds a) (ca_chunk a))" arbitrary: i d r u es f)
  case Nil
  let ?n = "length (chunks (ca_seeds a) (ca_chunk a))"
  have i: "i = ?n" using Nil(1,4) results_ok_get [OF Nil(2,3)] by (simp add: record_ok_def)
  then have "ca_seeds a \<le> int i * ca_chunk a"
    using chunk_count [OF assms(1,2), of i] by (simp add: length_chunks)
  then have "seen (ca_seeds a) (ca_chunk a) r = ca_seeds a" using Nil(4) by (simp add: seen_def)
  with Nil i show ?case by (auto simp: Nil(1) [symmetric])
next
  case (Cons c cs)
  let ?n = "length (chunks (ca_seeds a) (ca_chunk a))" and ?W = "scenario (ab_name ab)"
  obtain low high where c: "c = (low, high)" by fastforce
  note dc = drop_chunks_Cons [OF Cons(2) [symmetric, unfolded c]]
  note b = chunk_bounds [OF assms(1,2) Cons(2) [symmetric, unfolded c]]
  have seen: "seen (ca_seeds a) (ca_chunk a) r = low"
    using dc(2) b(2,3) Cons(5) by (simp add: seen_def)
  have ok: "record_of (faults ?W 0 low) r" using results_ok_get [OF Cons(3,4)] seen by (simp add: record_ok_def)
  obtain r1 u1 where scan1: "fold (record_fault ab) (faults ?W low high) (r, u) = (r1, u1)" by fastforce
  define r2 where "r2 = r1\<lparr>ar_chunks_done := Suc i, ar_elapsed := round3 (ar_elapsed r1 + took i)\<rparr>"
  have seen2: "seen (ca_seeds a) (ca_chunk a) r2 = high"
    using dc(2,3) b(2,3) by (auto simp: seen_def r2_def algebra_simps)
  have "record_of (faults ?W 0 high) r1"
    using record_faults_spec(1) [OF ok, where gs = "faults ?W low high" and ab = ab and u = u] scan1 faults_split [of 0 low high ?W] b(1,2) by simp
  then have "record_ok ?W (ca_seeds a) (ca_chunk a) r2"
    using seen2 dc(1) unfolding record_ok_def by (simp add: r2_def record_of_def)
  then have ok2: "results_ok scenario (ca_seeds a) (ca_chunk a) (dict_set (ab_name ab) r2 d)"
    by (rule results_ok_set [OF Cons(3)])
  have u1: "u1 = [] \<longleftrightarrow> u = [] \<and> as_claimed ?W ab low high"
    using record_faults_spec(2) [OF ok, where gs = "faults ?W low high" and ab = ab and u = u] scan1 by (simp add: as_claimed_def)
  let ?ck = "AblationsCk \<lparr>as_seeds = ca_seeds a, as_chunk = ca_chunk a, as_jobs = ca_jobs a, as_ablations = dict_set (ab_name ab) r2 d\<rparr>"
  obtain es' line where rest: "ablation_chunks a took ab (Suc i) (zip (drop (Suc i) (chunks (ca_seeds a) (ca_chunk a)))
        (scanned ?W (drop (Suc i) (chunks (ca_seeds a) (ca_chunk a))))) (dict_set (ab_name ab) r2 d, u1) = (es', res)"
    and es: "es = save_checkpoint ?ck @ [Say line] @ es'"
    using Cons(6) Cons(4) dc(4) scan1
    by (auto simp: Cons(2) [symmetric] c scanned_def scan_faults r2_def Let_def split: prod.splits)
  let ?f = "\<lparr>f_main = Some (dump_checkpoint ?ck), f_scratch = None\<rparr>"
  have "dict_get (dict_set (ab_name ab) r2 d) (ab_name ab) = Some r2" "ar_chunks_done r2 = Suc i" by (simp_all add: r2_def)
  from Cons(1) [OF dc(4) ok2 this rest, of ?f]
  obtain d' u' r' where IH: "res = Inr (d', u')" "results_ok scenario (ca_seeds a) (ca_chunk a) d'"
    "dict_get d' (ab_name ab) = Some r'" "ar_chunks_done r' = ?n"
    "\<forall>name. name \<noteq> ab_name ab \<longrightarrow> dict_get d' name = dict_get (dict_set (ab_name ab) r2 d) name"
    "u' = [] \<longleftrightarrow> u1 = [] \<and> as_claimed ?W ab (seen (ca_seeds a) (ca_chunk a) r2) (ca_seeds a)"
    "safe_saves (abl_file_ok scenario (ca_seeds a) (ca_chunk a)) es'"
    "covers ?n (dict_set (ab_name ab) r2 d) (f_main ?f) \<longrightarrow> covers ?n d' (f_main (perform_all es' ?f))"
    by blast
  have after: "perform_all es f = perform_all es' ?f" by (simp add: es save_checkpoint_def)
  have "covers ?n (dict_set (ab_name ab) r2 d) (f_main ?f)" using covers_dump [OF ok2] by simp
  with IH(8) have "covers ?n d' (f_main (perform_all es f))" unfolding after by blast
  moreover have "safe_saves (abl_file_ok scenario (ca_seeds a) (ca_chunk a)) es"
    using IH(7) dump_ablations(1) [OF ok2 refl, of "ca_jobs a"] by (simp add: es save_checkpoint_def)
  moreover have "u' = [] \<longleftrightarrow> u = [] \<and> as_claimed ?W ab (seen (ca_seeds a) (ca_chunk a) r) (ca_seeds a)"
    using IH(6) u1 as_claimed_split [of low high "ca_seeds a" ?W ab] b(2,3) by (auto simp: seen seen2)
  moreover have "\<forall>name. name \<noteq> ab_name ab \<longrightarrow> dict_get d' name = dict_get d name" using IH(5) by simp
  ultimately show ?case using IH(1-4) by blast
qed

definition seen_of :: "int \<Rightarrow> int \<Rightarrow> abl_record option \<Rightarrow> int" where
  "seen_of seeds chunk r = (case r of None \<Rightarrow> 0 | Some r \<Rightarrow> seen seeds chunk r)"

lemma covers_setdefault:
  "0 < n \<Longrightarrow> covers n d ck \<Longrightarrow> covers n (setdefault_record name d) ck"
  by (auto simp: covers_def setdefault_get fresh_record_def split: if_splits)

lemma setdefault_seen:
  assumes "dict_get (setdefault_record name d) name = Some r" and "0 < seeds"
  shows "seen_of seeds chunk (dict_get d name) = seen seeds chunk r"
  using assms by (auto simp: setdefault_get seen_of_def seen_def fresh_record_def split: if_splits)

lemma ablation_sweep_spec:
  assumes "0 < ca_chunk a" and "0 < ca_seeds a"
    and "results_ok scenario (ca_seeds a) (ca_chunk a) d" and "distinct (map ab_name abls)"
    and "ablation_sweep scenario a took (chunks (ca_seeds a) (ca_chunk a)) abls (d, u) = (es, res)"
  shows "\<exists>d' u'. res = Inr (d', u') \<and> results_ok scenario (ca_seeds a) (ca_chunk a) d' \<and>
    (\<forall>ab\<in>set abls. \<exists>r. dict_get d' (ab_name ab) = Some r \<and> ar_chunks_done r = length (chunks (ca_seeds a) (ca_chunk a))) \<and>
    (\<forall>name. name \<notin> ab_name ` set abls \<longrightarrow> dict_get d' name = dict_get d name) \<and>
    (u' = [] \<longleftrightarrow> u = [] \<and> (\<forall>ab\<in>set abls. as_claimed (scenario (ab_name ab)) ab
        (seen_of (ca_seeds a) (ca_chunk a) (dict_get d (ab_name ab))) (ca_seeds a))) \<and>
    safe_saves (abl_file_ok scenario (ca_seeds a) (ca_chunk a)) es \<and>
    (covers (length (chunks (ca_seeds a) (ca_chunk a))) d (f_main f) \<longrightarrow>
     covers (length (chunks (ca_seeds a) (ca_chunk a))) d' (f_main (perform_all es f)))"
  using assms(3-5)
proof (induction abls arbitrary: d u es f)
  case (Cons ab abls)
  let ?n = "length (chunks (ca_seeds a) (ca_chunk a))" and ?W = "scenario (ab_name ab)" and ?d = "setdefault_record (ab_name ab) d"
  let ?old = "\<lambda>d ab. seen_of (ca_seeds a) (ca_chunk a) (dict_get d (ab_name ab))"
  have n: "0 < ?n" using chunk_count [OF assms(1,2), of 0] assms(2) by (simp add: length_chunks)
  obtain r where r: "dict_get ?d (ab_name ab) = Some r" by (cases "dict_get d (ab_name ab)") (auto simp: setdefault_get)
  have ok: "results_ok scenario (ca_seeds a) (ca_chunk a) ?d" by (rule setdefault_ok [OF Cons.prems(1) assms(2)])
  have seen: "?old d ab = seen (ca_seeds a) (ca_chunk a) r" by (rule setdefault_seen [OF r assms(2)])
  have fresh: "ab_name ab \<notin> ab_name ` set abls" using Cons.prems(2) by simp
  have other: "name \<noteq> ab_name ab \<Longrightarrow> dict_get ?d name = dict_get d name" for name by (simp add: setdefault_get)
  have cov: "covers ?n d (f_main f) \<Longrightarrow> covers ?n ?d (f_main f)" by (rule covers_setdefault [OF n])
  have step: "\<exists>d1 u1 es1 r1 es2. results_ok scenario (ca_seeds a) (ca_chunk a) d1 \<and> dict_get d1 (ab_name ab) = Some r1 \<and>
      ar_chunks_done r1 = ?n \<and> (\<forall>name. name \<noteq> ab_name ab \<longrightarrow> dict_get d1 name = dict_get d name) \<and>
      (u1 = [] \<longleftrightarrow> u = [] \<and> as_claimed ?W ab (?old d ab) (ca_seeds a)) \<and>
      safe_saves (abl_file_ok scenario (ca_seeds a) (ca_chunk a)) es1 \<and>
      (covers ?n d (f_main f) \<longrightarrow> covers ?n d1 (f_main (perform_all es1 f))) \<and>
      ablation_sweep scenario a took (chunks (ca_seeds a) (ca_chunk a)) abls (d1, u1) = (es2, res) \<and> es = es1 @ es2"
  proof (cases "ar_chunks_done r = ?n")
    case True
    then have "?n \<le> i \<Longrightarrow> \<not> int i * ca_chunk a < ca_seeds a" for i
      using chunk_count [OF assms(1,2), of i] by (simp add: length_chunks)
    then have "?old d ab = ca_seeds a" using True seen by (force simp: seen_def)
    moreover obtain es2 where "ablation_sweep scenario a took (chunks (ca_seeds a) (ca_chunk a)) abls (?d, u) = (es2, res)"
      "es = [Say (ab_name ab @ '': already complete, skipping'')] @ es2"
      using Cons.prems(3) True r by (auto simp: Let_def split: prod.splits)
    ultimately show ?thesis using ok r True other cov
      by (intro exI [of _ ?d] exI [of _ u] exI [of _ "[Say (ab_name ab @ '': already complete, skipping'')]"]) auto
  next
    case False
    obtain es1 res1 where run: "ablation_chunks a (took (ab_name ab)) ab (ar_chunks_done r)
        (zip (drop (ar_chunks_done r) (chunks (ca_seeds a) (ca_chunk a)))
          (scanned ?W (drop (ar_chunks_done r) (chunks (ca_seeds a) (ca_chunk a))))) (?d, u) = (es1, res1)" by fastforce
    from ablation_chunks_spec [OF assms(1,2) ok r refl run, of f] obtain d1 u1 r1 where spec:
      "res1 = Inr (d1, u1)" "results_ok scenario (ca_seeds a) (ca_chunk a) d1" "dict_get d1 (ab_name ab) = Some r1"
      "ar_chunks_done r1 = ?n" "\<forall>name. name \<noteq> ab_name ab \<longrightarrow> dict_get d1 name = dict_get ?d name"
      "u1 = [] \<longleftrightarrow> u = [] \<and> as_claimed ?W ab (seen (ca_seeds a) (ca_chunk a) r) (ca_seeds a)"
      "safe_saves (abl_file_ok scenario (ca_seeds a) (ca_chunk a)) es1"
      "covers ?n ?d (f_main f) \<longrightarrow> covers ?n d1 (f_main (perform_all es1 f))" by blast
    obtain es2 where "ablation_sweep scenario a took (chunks (ca_seeds a) (ca_chunk a)) abls (d1, u1) = (es2, res)" "es = es1 @ es2"
      using Cons.prems(3) False r run spec(1) by (auto simp: Let_def split: prod.splits)
    with spec(2-8) seen other cov show ?thesis by (intro exI [of _ d1] exI [of _ u1] exI [of _ es1]) auto
  qed
  then obtain d1 u1 es1 r1 es2 where d1: "results_ok scenario (ca_seeds a) (ca_chunk a) d1" "dict_get d1 (ab_name ab) = Some r1"
      "ar_chunks_done r1 = ?n" "\<forall>name. name \<noteq> ab_name ab \<longrightarrow> dict_get d1 name = dict_get d name"
      "u1 = [] \<longleftrightarrow> u = [] \<and> as_claimed ?W ab (?old d ab) (ca_seeds a)"
      "safe_saves (abl_file_ok scenario (ca_seeds a) (ca_chunk a)) es1"
      "covers ?n d (f_main f) \<longrightarrow> covers ?n d1 (f_main (perform_all es1 f))"
      "ablation_sweep scenario a took (chunks (ca_seeds a) (ca_chunk a)) abls (d1, u1) = (es2, res)" "es = es1 @ es2"
    by (elim exE conjE)
  have old: "?old d1 x = ?old d x" if "x \<in> set abls" for x using that fresh d1(4) by (metis image_eqI)
  have "distinct (map ab_name abls)" using Cons.prems(2) by simp
  from Cons.IH [OF d1(1) this d1(8), of "perform_all es1 f"]
  obtain d' u' where IH: "res = Inr (d', u')" "results_ok scenario (ca_seeds a) (ca_chunk a) d'"
    "\<forall>x\<in>set abls. \<exists>r. dict_get d' (ab_name x) = Some r \<and> ar_chunks_done r = ?n"
    "\<forall>name. name \<notin> ab_name ` set abls \<longrightarrow> dict_get d' name = dict_get d1 name"
    "u' = [] \<longleftrightarrow> u1 = [] \<and> (\<forall>x\<in>set abls. as_claimed (scenario (ab_name x)) x (?old d1 x) (ca_seeds a))"
    "safe_saves (abl_file_ok scenario (ca_seeds a) (ca_chunk a)) es2"
    "covers ?n d1 (f_main (perform_all es1 f)) \<longrightarrow> covers ?n d' (f_main (perform_all es2 (perform_all es1 f)))"
    by (elim exE conjE)
  have "u' = [] \<longleftrightarrow> u = [] \<and> (\<forall>x\<in>set (ab # abls). as_claimed (scenario (ab_name x)) x (?old d x) (ca_seeds a))"
    using IH(5) d1(5) old by simp
  moreover have "safe_saves (abl_file_ok scenario (ca_seeds a) (ca_chunk a)) es"
    unfolding d1(9) using IH(6) by (simp add: safe_saves_append [OF d1(6)])
  moreover have "\<forall>x\<in>set (ab # abls). \<exists>r. dict_get d' (ab_name x) = Some r \<and> ar_chunks_done r = ?n"
    using IH(3,4) d1(2,3) fresh by simp
  moreover have "\<forall>name. name \<notin> ab_name ` set (ab # abls) \<longrightarrow> dict_get d' name = dict_get d name"
    using IH(4) d1(4) by simp
  moreover have "covers ?n d (f_main f) \<longrightarrow> covers ?n d' (f_main (perform_all es f))"
    using IH(7) d1(7) by (simp add: d1(9))
  ultimately show ?case using IH(1,2) by blast
qed auto

definition unscanned :: "campaign_args \<Rightarrow> checkpoint option \<Rightarrow> ablation \<Rightarrow> int" where
  \<comment> \<open>the first seed a run has left to scan\<close>
  "unscanned a ck ab = (if ca_resume a then seen_of (ca_seeds a) (ca_chunk a) (file_record ck (ab_name ab)) else 0)"

definition complete_record :: "'d workload \<Rightarrow> campaign_args \<Rightarrow> abl_record \<Rightarrow> bool" where
  "complete_record W a r \<longleftrightarrow> ar_chunks_done r = length (chunks (ca_seeds a) (ca_chunk a)) \<and>
     ar_failing r = filter (goes_red W) [0..ca_seeds a - 1] \<and>
     (\<forall>label. dict_get (ar_labels r) label = labels_of (faults W 0 (ca_seeds a)) label)"

lemma map_fst_faults: "map fst (faults W low high) = filter (goes_red W) [low..high - 1]"
  by (simp add: faults_def comp_def fault_at_def Let_def)

lemma complete_record_ok:
  assumes "0 < ca_chunk a" and "0 < ca_seeds a" and "record_ok W (ca_seeds a) (ca_chunk a) r"
    and "ar_chunks_done r = length (chunks (ca_seeds a) (ca_chunk a))"
  shows "complete_record W a r"
proof -
  have "\<not> int (ar_chunks_done r) * ca_chunk a < ca_seeds a"
    using chunk_count [OF assms(1,2), of "ar_chunks_done r"] assms(4) by (simp add: length_chunks)
  then have "seen (ca_seeds a) (ca_chunk a) r = ca_seeds a" by (simp add: seen_def)
  with assms(3,4) show ?thesis by (simp add: complete_record_def record_ok_def record_of_def map_fst_faults)
qed

lemma ablations_resume_spec:
  assumes "abl_file_ok scenario (ca_seeds a) (ca_chunk a) (f_main f)"
  obtains said d where "ablations_resume a (length (chunks (ca_seeds a) (ca_chunk a))) (f_main f) = Inr (said, d)"
    "results_ok scenario (ca_seeds a) (ca_chunk a) d" "covers n d (f_main f)"
    "\<And>ab. seen_of (ca_seeds a) (ca_chunk a) (dict_get d (ab_name ab)) = unscanned a (f_main f) ab"
proof (cases "ca_resume a \<and> f_main f \<noteq> None")
  case False
  then have "\<exists>said. ablations_resume a (length (chunks (ca_seeds a) (ca_chunk a))) (f_main f) = Inr (said, [])"
    by (auto simp: ablations_resume_def)
  moreover have "seen_of (ca_seeds a) (ca_chunk a) (dict_get [] (ab_name ab)) = unscanned a (f_main f) ab" for ab
    using False by (auto simp: seen_of_def unscanned_def)
  ultimately show thesis using that by (force simp: results_ok_def covers_def)
next
  case True
  then obtain ck where "f_main f = Some ck" by blast
  with assms obtain s where s: "f_main f = Some (AblationsCk s)" "as_seeds s = ca_seeds a" "as_chunk s = ca_chunk a"
    "results_ok scenario (ca_seeds a) (ca_chunk a) (as_ablations s)"
    by (cases ck) auto
  have "\<exists>said. ablations_resume a (length (chunks (ca_seeds a) (ca_chunk a))) (f_main f) = Inr (said, as_ablations s)"
    using True s by (simp add: ablations_resume_def load_checkpoint_def)
  moreover have "seen_of (ca_seeds a) (ca_chunk a) (dict_get (as_ablations s) (ab_name ab)) = unscanned a (f_main f) ab" for ab
    using True by (simp add: s(1) unscanned_def)
  moreover have "covers n (as_ablations s) (f_main f)" by (simp add: s(1) covers_def)
  ultimately show thesis using that s(4) by blast
qed

lemma ablations_verdict_code:
  "snd (ablations_verdict (d, u)) =
     (if u \<noteq> [] \<or> (\<exists>ab\<in>set ABLATIONS. ar_failing (the (dict_get d (ab_name ab))) = []) then 1 else 0)"
  by (auto simp: ablations_verdict_def Let_def filter_empty_conv)

lemma ablation_names_distinct: "distinct (map ab_name ABLATIONS)"
  by (simp add: ABLATIONS_def)

lemma run_ablations_spec:
  assumes "abl_file_ok scenario (ca_seeds a) (ca_chunk a) (f_main f)"
    and "0 < ca_seeds a" and "0 < ca_chunk a" and "run_ablations scenario a took (f_main f) = (es, res)"
  shows "safe_saves (abl_file_ok scenario (ca_seeds a) (ca_chunk a)) es"
    and "ab \<in> set ABLATIONS \<Longrightarrow> \<exists>r. file_record (f_main (perform_all es f)) (ab_name ab) = Some r \<and> complete_record (scenario (ab_name ab)) a r"
    and "res = Inr (if (\<forall>ab\<in>set ABLATIONS. as_claimed (scenario (ab_name ab)) ab (unscanned a (f_main f) ab) (ca_seeds a) \<and>
      faults (scenario (ab_name ab)) 0 (ca_seeds a) \<noteq> []) then 0 else 1)"
proof -
  let ?cs = "chunks (ca_seeds a) (ca_chunk a)"
  obtain said d where r: "ablations_resume a (length ?cs) (f_main f) = Inr (said, d)"
    "results_ok scenario (ca_seeds a) (ca_chunk a) d" "covers (length ?cs) d (f_main f)"
    "\<And>ab. seen_of (ca_seeds a) (ca_chunk a) (dict_get d (ab_name ab)) = unscanned a (f_main f) ab"
    using ablations_resume_spec [OF assms(1), of "length ?cs"] by blast
  obtain es1 res1 where run: "ablation_sweep scenario a took ?cs ABLATIONS (d, []) = (es1, res1)" by fastforce
  from ablation_sweep_spec [OF assms(3,2) r(2) ablation_names_distinct run, of f] r(3)
  obtain d' u' where sw: "res1 = Inr (d', u')" "results_ok scenario (ca_seeds a) (ca_chunk a) d'"
    "\<And>ab. ab \<in> set ABLATIONS \<Longrightarrow> \<exists>r. dict_get d' (ab_name ab) = Some r \<and> ar_chunks_done r = length ?cs"
    "u' = [] \<longleftrightarrow> (\<forall>ab\<in>set ABLATIONS. as_claimed (scenario (ab_name ab)) ab (unscanned a (f_main f) ab) (ca_seeds a))"
    "safe_saves (abl_file_ok scenario (ca_seeds a) (ca_chunk a)) es1"
    "covers (length ?cs) d' (f_main (perform_all es1 f))"
    unfolding r(4) by (elim exE conjE) simp
  obtain said' code where v: "ablations_verdict (d', u') = (said', code)" by fastforce
  have es: "es = map Say (said @ [ablations_banner a]) @ es1 @ map Say (ablations_summary a d' @ said')"
    and res: "res = Inr (snd (ablations_verdict (d', u')))"
    using assms(4) by (simp_all add: run_ablations_def r(1) run sw(1) v)
  show safe: "safe_saves (abl_file_ok scenario (ca_seeds a) (ca_chunk a)) es"
    using sw(5) by (simp add: es safe_saves_append [OF safe_saves_say] safe_saves_append [OF sw(5)])
  have after: "perform_all es f = perform_all es1 f" by (simp add: es)
  have ok: "abl_file_ok scenario (ca_seeds a) (ca_chunk a) (f_main (perform_all es f))"
    using safe_saves_take [OF safe, of f "length es"] assms(1) by simp
  show "\<exists>r. file_record (f_main (perform_all es f)) (ab_name ab) = Some r \<and> complete_record (scenario (ab_name ab)) a r"
    if "ab \<in> set ABLATIONS" for ab
  proof -
    from sw(3) [OF that] sw(6) obtain r where r: "file_record (f_main (perform_all es f)) (ab_name ab) = Some r"
      "ar_chunks_done r = length ?cs" unfolding after covers_def by blast
    then have "record_ok (scenario (ab_name ab)) (ca_seeds a) (ca_chunk a) r"
      using ok results_ok_get by (cases "(f_main (perform_all es f), ab_name ab)" rule: file_record.cases) auto
    with r show ?thesis using complete_record_ok [OF assms(3,2)] by blast
  qed
  have "ar_failing (the (dict_get d' (ab_name ab))) = [] \<longleftrightarrow> faults (scenario (ab_name ab)) 0 (ca_seeds a) = []"
    if "ab \<in> set ABLATIONS" for ab
  proof -
    from sw(3) [OF that] obtain r where r: "dict_get d' (ab_name ab) = Some r" "ar_chunks_done r = length ?cs" by blast
    then have "complete_record (scenario (ab_name ab)) a r"
      using complete_record_ok [OF assms(3,2)] results_ok_get [OF sw(2)] by blast
    then show ?thesis using map_fst_faults [of "scenario (ab_name ab)" 0 "ca_seeds a"] r(1)
      by (metis complete_record_def map_is_Nil_conv option.sel)
  qed
  then show "res = Inr (if (\<forall>ab\<in>set ABLATIONS. as_claimed (scenario (ab_name ab)) ab (unscanned a (f_main f) ab) (ca_seeds a) \<and>
      faults (scenario (ab_name ab)) 0 (ca_seeds a) \<noteq> []) then 0 else 1)"
    unfolding res ablations_verdict_code sw(4) by auto
qed

inductive abl_files :: "(string \<Rightarrow> 'd workload) \<Rightarrow> int \<Rightarrow> int \<Rightarrow> files \<Rightarrow> bool" for scenario seeds chunk where
  \<comment> \<open>what may lie on the disk after any number of killed runs\<close>
  abl_new: "f_main f = None \<Longrightarrow> abl_files scenario seeds chunk f"
| abl_killed: "abl_files scenario seeds chunk f \<Longrightarrow> ca_seeds a = seeds \<Longrightarrow> ca_chunk a = chunk \<Longrightarrow>
    f_main f' = f_main (perform_all (take k (fst (run_ablations scenario a took (f_main f)))) f) \<Longrightarrow>
    abl_files scenario seeds chunk f'"

lemma abl_files_ok:
  assumes "abl_files scenario seeds chunk f" and "0 < seeds" and "0 < chunk"
  shows "abl_file_ok scenario seeds chunk (f_main f)"
  using assms(1)
proof induction
  case (abl_killed f a f' k took)
  obtain es res where "run_ablations scenario a took (f_main f) = (es, res)" by fastforce
  with abl_killed assms(2,3) run_ablations_spec(1) [of scenario a f took es res] show ?case
    by (auto intro: safe_saves_take)
qed simp

text \<open>
  C39. The ablation sweep misses no failing seed and counts none twice, however often it is killed and
  resumed: after the next run to the end the checkpoint holds, for each ablation, exactly the failing
  seeds of the whole range in order, and per label their number, the first of them and its message.
  The exit code is 0 exactly when every ablation has a failing seed and every failure among the seeds
  this run had left to scan carries a label its tests assert; failures found before a kill no longer
  count.
\<close>
theorem ablations_find_every_seed:
  assumes "abl_files scenario (ca_seeds a) (ca_chunk a) f" and "0 < ca_seeds a" and "0 < ca_chunk a"
    and "run_ablations scenario a took (f_main f) = (es, res)"
  shows "(\<forall>ab\<in>set ABLATIONS. \<exists>r. file_record (f_main (perform_all es f)) (ab_name ab) = Some r \<and>
        complete_record (scenario (ab_name ab)) a r) \<and>
    res = Inr (if (\<forall>ab\<in>set ABLATIONS. as_claimed (scenario (ab_name ab)) ab (unscanned a (f_main f) ab) (ca_seeds a) \<and>
      faults (scenario (ab_name ab)) 0 (ca_seeds a) \<noteq> []) then 0 else 1)"
  using run_ablations_spec [OF abl_files_ok [OF assms(1-3)] assms(2-4)] by blast

theorem ablations_find_every_seed_witness:
  "\<exists>es r. run_ablations (\<lambda>_. demo_workload) (demo_args 1) (\<lambda>_ _. 1) None = (es, Inr 1) \<and>
     file_record (f_main (perform_all es \<lparr>f_main = None, f_scratch = None\<rparr>)) ''unfenced-store'' = Some r \<and> ar_failing r = [2, 3]"
proof -
  let ?a = "demo_args 1" and ?init = "\<lparr>f_main = None, f_scratch = None\<rparr>" and ?ab = "\<lparr>ab_name = ''unfenced-store'', ab_expected = [''no-zombie-writes'']\<rparr>"
  have range: "[0..3] = [0, 1, 2, 3 :: int]" by (simp add: upto.simps)
  have ab: "?ab \<in> set ABLATIONS" by (simp add: ABLATIONS_def)
  have new: "abl_files (\<lambda>_. demo_workload) (ca_seeds ?a) (ca_chunk ?a) ?init" by (rule abl_new) simp
  have pos: "0 < ca_seeds ?a" "0 < ca_chunk ?a" by (simp_all add: demo_args_def)
  obtain es res where run: "run_ablations (\<lambda>_. demo_workload) ?a (\<lambda>_ _. 1) (f_main ?init) = (es, res)" by fastforce
  note all = ablations_find_every_seed [OF new pos run]
  have "unscanned ?a None ?ab = 0" by (simp add: unscanned_def seen_of_def)
  then have "\<not> as_claimed demo_workload ?ab (unscanned ?a (f_main ?init) ?ab) (ca_seeds ?a)"
    by (simp add: as_claimed_def faults_def demo_args_def range goes_red_def fault_at_def demo_workload_def failure_label_def)
  with all ab have "res = Inr 1" by auto
  moreover obtain r where "file_record (f_main (perform_all es ?init)) (ab_name ?ab) = Some r" "complete_record demo_workload ?a r"
    using all ab by blast
  ultimately show ?thesis
    using run by (auto simp: complete_record_def demo_args_def range goes_red_def demo_workload_def)
qed

lemma resumed_sweep_forgets:
  \<comment> \<open>a sweep killed after its last chunk and resumed exits with 0, whatever unexpected labels it had seen\<close>
  assumes "abl_files scenario (ca_seeds a) (ca_chunk a) f" and "0 < ca_seeds a" and "0 < ca_chunk a" and "ca_resume a"
    and "\<And>ab. ab \<in> set ABLATIONS \<Longrightarrow> faults (scenario (ab_name ab)) 0 (ca_seeds a) \<noteq> [] \<and>
      (\<exists>r. file_record (f_main f) (ab_name ab) = Some r \<and> ar_chunks_done r = length (chunks (ca_seeds a) (ca_chunk a)))"
  shows "snd (run_ablations scenario a took (f_main f)) = Inr 0"
proof -
  obtain es res where run: "run_ablations scenario a took (f_main f) = (es, res)" by fastforce
  have "\<not> int (length (chunks (ca_seeds a) (ca_chunk a))) * ca_chunk a < ca_seeds a"
    using chunk_count [OF assms(3,2), of "length (chunks (ca_seeds a) (ca_chunk a))"] by (simp add: length_chunks)
  then have "unscanned a (f_main f) ab = ca_seeds a" if "ab \<in> set ABLATIONS" for ab
    using assms(4,5) that by (force simp: unscanned_def seen_of_def seen_def)
  then show ?thesis
    using run_ablations_spec(3) [OF abl_files_ok [OF assms(1-3)] assms(2,3) run] assms(5) by (simp add: run)
qed

section \<open>Stability\<close>

definition stocked :: "(string, abl_record) dict \<Rightarrow> (string \<times> int list) list" where
  "stocked results =
     concat (map (\<lambda>ab. case dict_get results (ab_name ab) of
         None \<Rightarrow> []
       | Some r \<Rightarrow> if ar_failing r = [] then [] else [(ab_name ab, ar_failing r)]) ABLATIONS)"

definition quota :: "nat \<Rightarrow> nat \<Rightarrow> nat \<Rightarrow> nat \<Rightarrow> nat" where
  "quota wanted parts index len = min (wanted div parts + (if index < wanted mod parts then 1 else 0)) len"

definition pick :: "'a list \<Rightarrow> nat \<Rightarrow> 'a list" where
  "pick seeds q = map (\<lambda>step. seeds ! ((2 * step + 1) * length seeds div (2 * q))) [0..<q]"

definition sample :: "(string, abl_record) dict \<Rightarrow> nat \<Rightarrow> (string \<times> int) list" where
  "sample results wanted =
     (let st = stocked results in
      concat (map (\<lambda>(index, name, seeds). map (Pair name) (pick seeds (quota wanted (length st) index (length seeds))))
        (enumerate 0 st)))"

definition replay_seed :: "string workload \<Rightarrow> int \<Rightarrow> string \<times> string" where
  "replay_seed W seed =
     (let facts = w_run W seed None in
      (rf_hash facts, case rf_failure facts of Some e \<Rightarrow> failure_label e | None \<Rightarrow> ''passed''))"

record stability_args =
  sa_checkpoint :: string
  sa_sample :: nat
  sa_reruns :: nat

definition stability_defaults :: stability_args where
  "stability_defaults = \<lparr>sa_checkpoint = ''campaign-ablations.json'', sa_sample = 20, sa_reruns = 100\<rparr>"

definition outcomes :: "(string \<Rightarrow> nat \<Rightarrow> string workload) \<Rightarrow> nat \<Rightarrow> string \<times> int \<Rightarrow> (string \<times> string) list" where
  \<comment> \<open>the set of what the runs gave, sorted; a scenario may behave differently in each run\<close>
  "outcomes scenario reruns p = sort (remdups (map (\<lambda>k. replay_seed (scenario (fst p) k) (snd p)) [0..<reruns]))"

definition stability_lines :: "(string \<Rightarrow> nat \<Rightarrow> string workload) \<Rightarrow> nat \<Rightarrow> string \<times> int \<Rightarrow> string list" where
  "stability_lines scenario reruns p =
     (let who = fst p @ '' seed '' @ str_int (snd p); runs = '' across '' @ str_nat reruns @ '' runs'' in
      case outcomes scenario reruns p of
        [(h, label)] \<Rightarrow> [who @ '': stable'' @ runs @ '' ('' @ label @ '', trace '' @ take 12 h @ '')'']
      | outs \<Rightarrow> (who @ '': DIVERGED'' @ runs) # map (\<lambda>(h, label). ''  '' @ label @ '', trace '' @ take 12 h) outs)"

definition run_stability ::
    "(string \<Rightarrow> nat \<Rightarrow> string workload) \<Rightarrow> stability_args \<Rightarrow> rat \<Rightarrow> checkpoint \<Rightarrow> string list \<times> (campaign_stop + int)" where
  \<comment> \<open>\<open>elapsed\<close> is the time the runs took\<close>
  "run_stability scenario a elapsed state =
     (case state of
        GreenCk _ \<Rightarrow> ([], Inl (Stop (sa_checkpoint a @ '' is not an ablations checkpoint'')))
      | AblationsCk s \<Rightarrow>
          (let picked = sample (as_ablations s) (sa_sample a);
               unknown = sort (remdups (filter (\<lambda>name. name \<notin> ab_name ` set ABLATIONS) (map fst picked)));
               diverged = map (\<lambda>(name, seed). name @ '' seed '' @ str_int seed)
                 (filter (\<lambda>p. length (outcomes scenario (sa_reruns a) p) \<noteq> 1) picked)
           in
             if picked = [] then ([], Inl (Stop (sa_checkpoint a @ '' records no failing seeds to re-run'')))
             else if unknown \<noteq> [] then
               ([], Inl (Stop (sa_checkpoint a @ '' names ablations this script does not define: ['' @
                 join '', '' (map str_repr unknown) @ '']'')))
             else
               ([''stability: '' @ str_nat (length picked) @ '' failing seeds from '' @ sa_checkpoint a @ '', '' @
                   str_nat (sa_reruns a) @ '' runs each''] @
                concat (map (stability_lines scenario (sa_reruns a)) picked) @
                [[], ''--- summary (for benchmarks/README.md) ---'',
                 ''seeds sampled: '' @ str_nat (length picked) @ '' across '' @
                   str_nat (length (remdups (map fst picked))) @ '' ablations'',
                 ''runs per seed: '' @ str_nat (sa_reruns a),
                 ''total runs:    '' @ str_commas (int (length picked * sa_reruns a)) @ '' in '' @ duration_text elapsed] @
                (if diverged \<noteq> [] then
                   [''result:        '' @ str_nat (length diverged) @ '' DIVERGED: '' @ join '', '' diverged, [],
                    ''A seed that does not replay identically makes every report this '' @
                    ''tool prints suspect. Do not record a number from this run.'']
                 else [''result:        identical trace hash on every run'']),
                Inr (if diverged \<noteq> [] then 1 else 0))))"

section \<open>The command line\<close>

definition check_args :: "(string \<times> int) list \<Rightarrow> campaign_stop option" where
  \<comment> \<open>\<open>main\<close>: the numbers the chosen command takes, in the order seeds, jobs, chunk, sample, reruns\<close>
  "check_args numbers =
     map_option (\<lambda>(name, _). Stop (''--'' @ name @ '' must be at least 1'')) (find (\<lambda>(_, n). n < 1) numbers)"

datatype command =
    GreenCmd campaign_args
  | AblationsCmd campaign_args
  | StabilityCmd string int int

fun command_numbers :: "command \<Rightarrow> (string \<times> int) list" where
  "command_numbers (GreenCmd a) = [(''seeds'', ca_seeds a), (''jobs'', ca_jobs a), (''chunk'', ca_chunk a)]"
| "command_numbers (AblationsCmd a) = [(''seeds'', ca_seeds a), (''jobs'', ca_jobs a), (''chunk'', ca_chunk a)]"
| "command_numbers (StabilityCmd _ picks reruns) = [(''sample'', picks), (''reruns'', reruns)]"

record 'd campaign_world =
  \<comment> \<open>the scenarios, what the worker processes found, and how long things took\<close>
  cw_green :: "'d workload"
  cw_scenario :: "string \<Rightarrow> 'd workload"
  cw_rerun :: "string \<Rightarrow> nat \<Rightarrow> string workload"
  cw_found :: "int list \<Rightarrow> batch_failure option"
  cw_chunk_time :: "nat \<Rightarrow> rat"
  cw_ablation_time :: "string \<Rightarrow> nat \<Rightarrow> rat"
  cw_stability_time :: rat

definition campaign_main :: "'d campaign_world \<Rightarrow> command \<Rightarrow> checkpoint option \<Rightarrow> effect list \<times> (campaign_stop + int)" where
  "campaign_main w cmd ck =
     (case check_args (command_numbers cmd) of
        Some e \<Rightarrow> ([], Inl e)
      | None \<Rightarrow>
          (case cmd of
             GreenCmd a \<Rightarrow> run_green (cw_green w) a (cw_chunk_time w) (cw_found w) ck
           | AblationsCmd a \<Rightarrow> run_ablations (cw_scenario w) a (cw_ablation_time w) ck
           | StabilityCmd path picks reruns \<Rightarrow>
               (case ck of
                  None \<Rightarrow> ([], Inl (Raised OSError))
                | Some state \<Rightarrow> map_prod (map Say) id (run_stability (cw_rerun w)
                    \<lparr>sa_checkpoint = path, sa_sample = nat picks, sa_reruns = nat reruns\<rparr> (cw_stability_time w) state))))"

section \<open>The sample is spread and every pick is replayed\<close>

lemma pick_index_mono:
  assumes "s < t" and "0 < q" and "q \<le> len"
  shows "(2 * s + 1) * len div (2 * q) < (2 * t + 1) * len div (2 * (q :: nat))"
proof -
  have "(2 * s + 1) * len + 2 * q \<le> (2 * t + 1) * len"
  proof -
    have "(2 * s + 1) * len + 2 * q \<le> (2 * s + 1) * len + 2 * len" using assms(3) by simp
    also have "\<dots> = (2 * s + 3) * len" by (simp add: algebra_simps)
    also have "\<dots> \<le> (2 * t + 1) * len" using assms(1) by (intro mult_right_mono) auto
    finally show ?thesis .
  qed
  then have "((2 * s + 1) * len + 2 * q) div (2 * q) \<le> (2 * t + 1) * len div (2 * q)" by (rule div_le_mono)
  then show ?thesis using assms(2) by simp
qed

lemma pick_index_bound:
  assumes "s < q" and "0 < len"
  shows "(2 * s + 1) * len div (2 * q) < (len :: nat)"
proof -
  have "(2 * s + 1) * len < 2 * q * len" using assms by (intro mult_strict_right_mono) auto
  then show ?thesis using assms(1) by (intro div_less_iff_less_mult [THEN iffD2]) (auto simp: mult.commute)
qed

lemma pick_facts:
  assumes "q \<le> length seeds"
  shows "length (pick seeds q) = q" "set (pick seeds q) \<subseteq> set seeds" "distinct seeds \<Longrightarrow> distinct (pick seeds q)"
proof -
  show "length (pick seeds q) = q" by (simp add: pick_def)
  have b: "(2 * s + 1) * length seeds div (2 * q) < length seeds" if "s < q" for s
    using assms that by (intro pick_index_bound) auto
  then show "set (pick seeds q) \<subseteq> set seeds" by (auto simp: pick_def)
  let ?at = "\<lambda>s. (2 * s + 1) * length seeds div (2 * q)"
  have inj: "s = t" if "s < q" "t < q" "?at s = ?at t" for s t
    using that pick_index_mono [of s t q "length seeds"] pick_index_mono [of t s q "length seeds"] assms
    by (cases s t rule: linorder_cases) auto
  show "distinct (pick seeds q)" if "distinct seeds"
    unfolding pick_def
  proof (rule distinct_map [THEN iffD2], intro conjI inj_onI)
    fix s t assume "s \<in> set [0..<q]" "t \<in> set [0..<q]" and eq: "seeds ! ?at s = seeds ! ?at t"
    then have st: "s < q" "t < q" by simp_all
    from eq have "?at s = ?at t"
      unfolding nth_eq_iff_index_eq [OF \<open>distinct seeds\<close> b [OF st(1)] b [OF st(2)]] .
    with st show "s = t" by (rule inj)
  qed simp
qed

lemma stocked_facts:
  "(name, seeds) \<in> set (stocked d) \<Longrightarrow> name \<in> ab_name ` set ABLATIONS \<and> (\<exists>r. dict_get d name = Some r \<and> ar_failing r = seeds \<and> seeds \<noteq> [])"
  "distinct (map fst (stocked d))"
proof -
  let ?row = "\<lambda>ab. case dict_get d (ab_name ab) of None \<Rightarrow> [] | Some r \<Rightarrow> if ar_failing r = [] then [] else [(ab_name ab, ar_failing r)]"
  show "(name, seeds) \<in> set (stocked d) \<Longrightarrow> name \<in> ab_name ` set ABLATIONS \<and> (\<exists>r. dict_get d name = Some r \<and> ar_failing r = seeds \<and> seeds \<noteq> [])"
    by (fastforce simp: stocked_def split: option.splits if_splits dest: sym)
  have sub: "set (map fst (concat (map ?row abls))) \<subseteq> ab_name ` set abls" for abls
    by (auto split: option.splits if_splits)
  have "distinct (map ab_name abls) \<Longrightarrow> distinct (map fst (concat (map ?row abls)))" for abls
  proof (induction abls)
    case (Cons ab abls)
    then show ?case using sub [of abls] by (auto split: option.splits)
  qed simp
  from this [OF ablation_names_distinct] show "distinct (map fst (stocked d))" by (simp add: stocked_def)
qed

lemma quota_total:
  assumes "0 < (n :: nat)"
  shows "(\<Sum>i<n. wanted div n + (if i < wanted mod n then 1 else 0)) = wanted"
proof -
  have "wanted mod n < n" using assms by simp
  then have "{i. i < n \<and> i < wanted mod n} = {..<wanted mod n}" by auto
  then have "(\<Sum>i<n. (if i < wanted mod n then 1 else 0 :: nat)) = wanted mod n"
    by (simp add: sum.If_cases Int_def)
  then show ?thesis by (simp add: sum.distrib mult.commute)
qed

lemma sample_length:
  "length (sample d wanted) = (\<Sum>i<length (stocked d). quota wanted (length (stocked d)) i (length (snd (stocked d ! i))))"
proof -
  let ?st = "stocked d"
  have "enumerate 0 ?st = map (\<lambda>i. (i, ?st ! i)) [0..<length ?st]"
    by (rule nth_equalityI) (simp_all add: nth_enumerate_eq)
  then have "length (sample d wanted) = sum_list (map (\<lambda>i. length (pick (snd (?st ! i)) (quota wanted (length ?st) i (length (snd (?st ! i)))))) [0..<length ?st])"
    by (simp add: sample_def Let_def length_concat comp_def case_prod_unfold)
  also have "\<dots> = (\<Sum>i<length ?st. quota wanted (length ?st) i (length (snd (?st ! i))))"
    by (simp add: pick_facts(1) quota_def interv_sum_list_conv_sum_set_nat atLeast0LessThan)
  finally show ?thesis .
qed

lemma sample_length_le: "length (sample d wanted) \<le> wanted"
proof (cases "stocked d = []")
  case False
  let ?n = "length (stocked d)"
  have "length (sample d wanted) \<le> (\<Sum>i<?n. wanted div ?n + (if i < wanted mod ?n then 1 else 0))"
    unfolding sample_length by (intro sum_mono) (simp add: quota_def)
  with quota_total [of ?n wanted] False show ?thesis by simp
qed (simp add: sample_def)

lemma sample_length_full:
  assumes "stocked d \<noteq> []" and "\<And>name seeds. (name, seeds) \<in> set (stocked d) \<Longrightarrow> wanted < length (stocked d) * length seeds"
  shows "length (sample d wanted) = wanted"
proof -
  let ?n = "length (stocked d)"
  have "quota wanted ?n i (length (snd (stocked d ! i))) = wanted div ?n + (if i < wanted mod ?n then 1 else 0)" if "i < ?n" for i
  proof -
    have "wanted < ?n * length (snd (stocked d ! i))"
      using assms(2) [of "fst (stocked d ! i)" "snd (stocked d ! i)"] that by simp
    then have "wanted div ?n < length (snd (stocked d ! i))" using assms(1) by (simp add: div_less_iff_less_mult mult.commute)
    then show ?thesis by (simp add: quota_def)
  qed
  then have "length (sample d wanted) = (\<Sum>i<?n. wanted div ?n + (if i < wanted mod ?n then 1 else 0))"
    unfolding sample_length by (intro sum.cong) auto
  with quota_total [of ?n wanted] assms(1) show ?thesis by simp
qed

lemma sample_mem:
  "(name, seed) \<in> set (sample d wanted) \<Longrightarrow>
     name \<in> ab_name ` set ABLATIONS \<and> (\<exists>r. dict_get d name = Some r \<and> seed \<in> set (ar_failing r))"
proof -
  assume "(name, seed) \<in> set (sample d wanted)"
  then obtain index seeds where "(index, name, seeds) \<in> set (enumerate 0 (stocked d))"
    "seed \<in> set (pick seeds (quota wanted (length (stocked d)) index (length seeds)))"
    by (auto simp: sample_def Let_def)
  moreover from this(1) have "(name, seeds) \<in> set (stocked d)" by (auto simp: in_set_enumerate_eq) (metis nth_mem)
  moreover have "quota wanted (length (stocked d)) index (length seeds) \<le> length seeds" by (simp add: quota_def)
  ultimately show ?thesis using pick_facts(2) stocked_facts(1) by fastforce
qed

lemma sample_distinct:
  assumes "\<And>name r. dict_get d name = Some r \<Longrightarrow> distinct (ar_failing r)"
  shows "distinct (sample d wanted)"
proof -
  let ?picks = "\<lambda>(index, name, seeds). map (Pair name) (pick seeds (quota wanted (length (stocked d)) index (length seeds)))"
  have "distinct (concat (map ?picks (enumerate i st)))"
    if "set st \<subseteq> set (stocked d)" "distinct (map fst st)" for i st
    using that
  proof (induction st arbitrary: i)
    case (Cons x st)
    obtain name seeds where x: "x = (name, seeds)" by fastforce
    let ?q = "quota wanted (length (stocked d)) i (length seeds)"
    have "distinct seeds" using stocked_facts(1) [of name seeds d] Cons.prems(1) assms by (auto simp: x)
    then have "distinct (map (Pair name) (pick seeds ?q))"
      using pick_facts(3) [of ?q seeds] by (simp add: quota_def distinct_map inj_on_def)
    moreover have "name \<notin> fst ` set (concat (map ?picks (enumerate (Suc i) st)))"
    proof
      assume "name \<in> fst ` set (concat (map ?picks (enumerate (Suc i) st)))"
      then obtain j seeds' where "(j, name, seeds') \<in> set (enumerate (Suc i) st)" by auto
      then have "j - Suc i < length st" "st ! (j - Suc i) = (name, seeds')" by (auto simp: in_set_enumerate_eq)
      then have "(name, seeds') \<in> set st" using nth_mem by metis
      then show False using Cons.prems(2) by (force simp: x)
    qed
    moreover have "distinct (concat (map ?picks (enumerate (Suc i) st)))" using Cons.prems by (intro Cons.IH) auto
    moreover have "concat (map ?picks (enumerate i (x # st))) =
        map (Pair name) (pick seeds ?q) @ concat (map ?picks (enumerate (Suc i) st))" by (simp add: x)
    ultimately show ?case by (simp only: distinct_append) (auto simp: image_iff)
  qed simp
  from this [OF subset_refl stocked_facts(2), of 0] show ?thesis by (simp add: sample_def Let_def)
qed

lemma outcomes_single:
  assumes "0 < reruns"
  shows "length (outcomes scenario reruns p) = 1 \<longleftrightarrow>
    (\<forall>k<reruns. replay_seed (scenario (fst p) k) (snd p) = replay_seed (scenario (fst p) 0) (snd p))"
proof -
  let ?f = "\<lambda>k. replay_seed (scenario (fst p) k) (snd p)"
  have "length (outcomes scenario reruns p) = card (?f ` {0..<reruns})"
    by (simp add: outcomes_def length_remdups_card_conv)
  moreover have "card (?f ` {0..<reruns}) = 1 \<longleftrightarrow> (\<forall>k<reruns. ?f k = ?f 0)"
  proof
    assume "card (?f ` {0..<reruns}) = 1"
    then obtain v where "?f ` {0..<reruns} = {v}" by (auto simp: card_1_singleton_iff)
    then have "\<forall>k<reruns. ?f k = v" by auto
    with assms show "\<forall>k<reruns. ?f k = ?f 0" by simp
  next
    assume all: "\<forall>k<reruns. ?f k = ?f 0"
    have "?f ` {0..<reruns} = (\<lambda>_. ?f 0) ` {0..<reruns}"
    proof (rule image_cong [OF refl])
      fix k assume "k \<in> {0..<reruns}"
      then have "k < reruns" by simp
      from all [rule_format, OF this] show "?f k = ?f 0" .
    qed
    also have "\<dots> = {?f 0}" using assms by (simp add: image_constant_conv)
    finally show "card (?f ` {0..<reruns}) = 1" by (simp only:) simp
  qed
  ultimately show ?thesis by simp
qed

text \<open>
  C40. A stability run replays a fair sample and passes only when nothing diverged: the sample holds
  recorded failing seeds of ablations the script knows, none of them twice and no more than asked for
  (exactly as many when every ablation with failures has enough); with something to replay, the exit
  code is 0 exactly when every rerun of every sampled seed gave the same trace hash and the same ending.
\<close>
theorem stability_replays_a_fair_sample:
  assumes "0 < sa_reruns a" and "sample (as_ablations s) (sa_sample a) \<noteq> []"
    and "\<And>name r. dict_get (as_ablations s) name = Some r \<Longrightarrow> distinct (ar_failing r)"
  shows "distinct (sample (as_ablations s) (sa_sample a)) \<and> length (sample (as_ablations s) (sa_sample a)) \<le> sa_sample a \<and>
    ((\<forall>(name, seeds)\<in>set (stocked (as_ablations s)). sa_sample a < length (stocked (as_ablations s)) * length seeds) \<longrightarrow>
      length (sample (as_ablations s) (sa_sample a)) = sa_sample a) \<and>
    (\<forall>(name, seed)\<in>set (sample (as_ablations s) (sa_sample a)). name \<in> ab_name ` set ABLATIONS \<and>
      (\<exists>r. dict_get (as_ablations s) name = Some r \<and> seed \<in> set (ar_failing r))) \<and>
    snd (run_stability scenario a elapsed (AblationsCk s)) =
      Inr (if \<forall>(name, seed)\<in>set (sample (as_ablations s) (sa_sample a)). \<forall>k<sa_reruns a.
             replay_seed (scenario name k) seed = replay_seed (scenario name 0) seed then 0 else 1)"
proof (intro conjI impI ballI)
  let ?p = "sample (as_ablations s) (sa_sample a)"
  show "distinct ?p" by (rule sample_distinct [OF assms(3)])
  show "length ?p \<le> sa_sample a" by (rule sample_length_le)
  show "length ?p = sa_sample a"
    if "\<forall>(name, seeds)\<in>set (stocked (as_ablations s)). sa_sample a < length (stocked (as_ablations s)) * length seeds"
    using that assms(2) by (intro sample_length_full) (auto simp: sample_def)
  show "case x of (name, seed) \<Rightarrow> name \<in> ab_name ` set ABLATIONS \<and> (\<exists>r. dict_get (as_ablations s) name = Some r \<and> seed \<in> set (ar_failing r))"
    if "x \<in> set ?p" for x using sample_mem [of "fst x" "snd x"] that by (cases x) auto
  have "filter (\<lambda>name. name \<notin> ab_name ` set ABLATIONS) (map fst ?p) = []"
    using sample_mem by (fastforce simp: filter_empty_conv)
  then have code: "snd (run_stability scenario a elapsed (AblationsCk s)) =
      Inr (if filter (\<lambda>p. length (outcomes scenario (sa_reruns a) p) \<noteq> 1) ?p = [] then 0 else 1)"
    using assms(2) unfolding run_stability_def checkpoint.case Let_def by simp
  have "filter (\<lambda>p. length (outcomes scenario (sa_reruns a) p) \<noteq> 1) ?p = [] \<longleftrightarrow>
      (\<forall>(name, seed)\<in>set ?p. \<forall>k<sa_reruns a. replay_seed (scenario name k) seed = replay_seed (scenario name 0) seed)"
    unfolding filter_empty_conv not_not outcomes_single [OF assms(1)] case_prod_unfold ..
  then show "snd (run_stability scenario a elapsed (AblationsCk s)) =
      Inr (if \<forall>(name, seed)\<in>set ?p. \<forall>k<sa_reruns a. replay_seed (scenario name k) seed = replay_seed (scenario name 0) seed
        then 0 else 1)"
    unfolding code by simp
qed

definition demo_flaky :: "nat \<Rightarrow> string workload" where
  \<comment> \<open>its trace hash is the number of the rerun\<close>
  "demo_flaky k =
     \<lparr>w_run = (\<lambda>_ _. \<lparr>rf_failure = Some (''ValueError'', ''boom''), rf_trace = [], rf_hash = str_nat k, rf_choices = [], rf_pending = []\<rparr>),
      w_replay = (\<lambda>_ _. None), w_labels = (\<lambda>_ _ _. []), w_stream = (\<lambda>_. demo_rng), w_picklable = True\<rparr>"

definition demo_state :: abl_state where
  "demo_state = \<lparr>as_seeds = 4, as_chunk = 2, as_jobs = 1, as_ablations = [(''unfenced-store'', fresh_record\<lparr>ar_failing := [2, 3]\<rparr>)]\<rparr>"

theorem stability_replays_a_fair_sample_witness:
  "sample (as_ablations demo_state) 1 = [(''unfenced-store'', 3)] \<and>
   snd (run_stability (\<lambda>_. demo_flaky) (stability_defaults\<lparr>sa_sample := 1\<rparr>) 0 (AblationsCk demo_state)) = Inr 1"
proof -
  let ?a = "stability_defaults\<lparr>sa_sample := 1\<rparr>"
  have st: "stocked (as_ablations demo_state) = [(''unfenced-store'', [2, 3])]"
    by (simp add: stocked_def ABLATIONS_def demo_state_def)
  have sample: "sample (as_ablations demo_state) 1 = [(''unfenced-store'', 3)]"
    by (simp add: sample_def st quota_def pick_def)
  have r: "0 < sa_reruns ?a" "1 < sa_reruns ?a" "sa_sample ?a = 1" by (simp_all add: stability_defaults_def)
  have ne: "sample (as_ablations demo_state) (sa_sample ?a) \<noteq> []" by (simp add: r(3) sample [unfolded One_nat_def])
  have dist: "distinct (ar_failing r)" if "dict_get (as_ablations demo_state) name = Some r" for name r
    using that by (auto simp: demo_state_def split: if_splits)
  have differ: "replay_seed (demo_flaky 1) 3 \<noteq> replay_seed (demo_flaky 0) 3"
    by (simp add: replay_seed_def demo_flaky_def)
  note all = stability_replays_a_fair_sample [where scenario = "\<lambda>_. demo_flaky" and elapsed = 0, OF r(1) ne dist]
  from conjunct2 [OF conjunct2 [OF conjunct2 [OF conjunct2 [OF all]]]]
  have "snd (run_stability (\<lambda>_. demo_flaky) ?a 0 (AblationsCk demo_state)) = Inr 1"
    unfolding r(3) sample using differ r(2) by (auto split: if_splits)
  with sample show ?thesis by blast
qed

end
