(* ===== verification/SimWorker.thy ===== *)
theory SimWorker
  imports SimParallel SimFormat
begin

text \<open>
  How a worker process gets at the workload (\<open>src/simloop/_parallel.py\<close>): a test is sent as the file
  it lives in and its name, the worker imports the file once and unwraps the test, and the imported
  heap is frozen before the first batch. \<open>importlib\<close> is an argument: what executing a file gives, or
  \<open>None\<close> when there is no loader for it.
\<close>

section \<open>Loading\<close>

datatype py_function = CoroutineFn string | Wrapper py_function \<comment> \<open>with a \<open>__wrapped__\<close> link\<close>

record py_module =
  mod_file :: "string option"
  mod_names :: "(string, py_function) dict"

record interpreter =
  in_modules :: "(string, py_module) dict"
  in_functions :: "((string \<times> string), py_function) dict" \<comment> \<open>the \<open>lru_cache\<close>\<close>
  in_executed :: "string list" \<comment> \<open>the files run so far\<close>

type_synonym importer = "string \<Rightarrow> ((string, py_function) dict \<times> exn option) option"
  \<comment> \<open>the names a file defines, and what ends its execution early\<close>

definition path_name :: "string \<Rightarrow> string" where
  "path_name path = rev (takeWhile (\<lambda>c. c \<noteq> CHR ''/'') (rev path))"

definition path_stem :: "string \<Rightarrow> string" where
  \<comment> \<open>\<open>Path(path).stem\<close> for a path that ends in a file name: a dot at either end starts no suffix\<close>
  "path_stem path =
     (let name = path_name path; ext = takeWhile (\<lambda>c. c \<noteq> CHR ''.'') (rev name) in
      if ext = [] \<or> length name \<le> Suc (length ext) then name else take (length name - Suc (length ext)) name)"

fun unwrap :: "py_function \<Rightarrow> py_function" where
  "unwrap (Wrapper f) = unwrap f"
| "unwrap (CoroutineFn f) = CoroutineFn f"

definition exec_file :: "importer \<Rightarrow> string \<Rightarrow> interpreter \<Rightarrow> (exn + py_module) \<times> interpreter" where
  \<comment> \<open>the module is registered before it runs, and stays registered when that fails\<close>
  "exec_file load path w =
     (case load path of
        None \<Rightarrow> (Inl (UserExc ''ImportError'' (''no way to import '' @ path @ '' in a worker process'')), w)
      | Some (names, raised) \<Rightarrow>
          (let m = \<lparr>mod_file = Some path, mod_names = names\<rparr>;
               w = w\<lparr>in_modules := dict_set (path_stem path) m (in_modules w), in_executed := in_executed w @ [path]\<rparr>
           in (case raised of Some e \<Rightarrow> Inl e | None \<Rightarrow> Inr m, w)))"

definition import_file :: "importer \<Rightarrow> string \<Rightarrow> interpreter \<Rightarrow> (exn + py_module) \<times> interpreter" where
  "import_file load path w =
     (case dict_get (in_modules w) (path_stem path) of
        Some m \<Rightarrow> if mod_file m = Some path then (Inr m, w) else exec_file load path w
      | None \<Rightarrow> exec_file load path w)"

definition coroutine_function :: "importer \<Rightarrow> string \<Rightarrow> string \<Rightarrow> interpreter \<Rightarrow> (exn + py_function) \<times> interpreter" where
  \<comment> \<open>a call that raises leaves nothing in the cache\<close>
  "coroutine_function load path name w =
     (case dict_get (in_functions w) (path, name) of
        Some f \<Rightarrow> (Inr f, w)
      | None \<Rightarrow>
          (case import_file load path w of
             (Inl e, w) \<Rightarrow> (Inl e, w)
           | (Inr m, w) \<Rightarrow>
               (case dict_get (mod_names m) name of
                  None \<Rightarrow> (Inl (UserExc ''LookupError'' (path @ '' defines no '' @ str_repr name @ '' for a worker to run'')), w)
                | Some found \<Rightarrow> (Inr (unwrap found), w\<lparr>in_functions := dict_set (path, name) (unwrap found) (in_functions w)\<rparr>))))"

record module_workload =
  mw_path :: string
  mw_name :: string

definition call_workload :: "importer \<Rightarrow> module_workload \<Rightarrow> interpreter \<Rightarrow> (exn + py_function) \<times> interpreter" where
  \<comment> \<open>the function whose coroutine the call returns\<close>
  "call_workload load fn w = coroutine_function load (mw_path fn) (mw_name fn) w"

section \<open>Freezing\<close>

record 'a heap =
  hp_frozen :: bool
  hp_tracked :: "'a list"
  hp_permanent :: "'a list"

definition freeze_imports :: "('a \<Rightarrow> bool) \<Rightarrow> 'a heap \<Rightarrow> 'a heap" where
  \<comment> \<open>\<open>live\<close>: what a collection leaves\<close>
  "freeze_imports live h =
     (if hp_frozen h then h
      else h\<lparr>hp_frozen := True, hp_tracked := [], hp_permanent := hp_permanent h @ filter live (hp_tracked h)\<rparr>)"

section \<open>A worker runs each file once\<close>

lemma exec_file_ok:
  "load path = Some (names, None) \<Longrightarrow> exec_file load path w = (Inr \<lparr>mod_file = Some path, mod_names = names\<rparr>,
     w\<lparr>in_modules := dict_set (path_stem path) \<lparr>mod_file = Some path, mod_names = names\<rparr> (in_modules w),
       in_executed := in_executed w @ [path]\<rparr>)"
  by (simp add: exec_file_def Let_def)

definition loaded_ok :: "importer \<Rightarrow> interpreter \<Rightarrow> bool" where
  \<comment> \<open>what a worker that has only run good files has got\<close>
  "loaded_ok load w \<longleftrightarrow>
     (\<forall>path name f. dict_get (in_functions w) (path, name) = Some f \<longrightarrow>
        (\<exists>names found. load path = Some (names, None) \<and> dict_get names name = Some found \<and> f = unwrap found)) \<and>
     (\<forall>stem m path. dict_get (in_modules w) stem = Some m \<longrightarrow> mod_file m = Some path \<longrightarrow>
        load path = Some (mod_names m, None))"

lemma import_file_ok:
  assumes "load path = Some (names, None)" and "loaded_ok load w"
  shows "\<exists>w'. import_file load path w = (Inr \<lparr>mod_file = Some path, mod_names = names\<rparr>, w') \<and> loaded_ok load w' \<and>
    in_functions w' = in_functions w"
proof (cases "\<exists>m. dict_get (in_modules w) (path_stem path) = Some m \<and> mod_file m = Some path")
  case True
  then obtain m where m: "dict_get (in_modules w) (path_stem path) = Some m" "mod_file m = Some path" by blast
  then have "mod_names m = names" using assms by (auto simp: loaded_ok_def)
  with m have "m = \<lparr>mod_file = Some path, mod_names = names\<rparr>" by simp
  with m assms(2) show ?thesis by (simp add: import_file_def)
next
  case False
  then have "import_file load path w = exec_file load path w" by (auto simp: import_file_def split: option.split)
  with assms show ?thesis by (auto simp: exec_file_ok loaded_ok_def)
qed

lemma call_workload_answers:
  \<comment> \<open>whatever a worker did before, the call finds the test itself, unwrapped\<close>
  assumes "load (mw_path fn) = Some (names, None)" and "dict_get names (mw_name fn) = Some found" and "loaded_ok load w"
  shows "\<exists>w'. call_workload load fn w = (Inr (unwrap found), w') \<and> loaded_ok load w'"
proof (cases "dict_get (in_functions w) (mw_path fn, mw_name fn)")
  case None
  obtain w' where "import_file load (mw_path fn) w = (Inr \<lparr>mod_file = Some (mw_path fn), mod_names = names\<rparr>, w')"
    "loaded_ok load w'" "in_functions w' = in_functions w"
    using import_file_ok [OF assms(1,3)] by blast
  with None assms(1,2) show ?thesis
    by (auto simp: call_workload_def coroutine_function_def loaded_ok_def)
next
  case (Some f)
  with assms(3) obtain names' found' where "load (mw_path fn) = Some (names', None)"
    "dict_get names' (mw_name fn) = Some found'" "f = unwrap found'"
    unfolding loaded_ok_def by blast
  with assms(1,2) have "f = unwrap found" by simp
  with Some assms(3) show ?thesis by (simp add: call_workload_def coroutine_function_def)
qed

lemma second_call_runs_nothing:
  assumes "call_workload load fn w = (Inr f, w')"
  shows "call_workload load fn w' = (Inr f, w')"
  using assms by (auto simp: call_workload_def coroutine_function_def split: option.splits prod.splits sum.splits)

lemma failed_import_is_hidden:
  \<comment> \<open>the second call of a test whose file raised runs the half-executed module\<close>
  assumes "load path = Some (names, Some e)" and "dict_get names name = Some found"
    and "dict_get (in_modules w) (path_stem path) = None" and "dict_get (in_functions w) (path, name) = None"
  shows "\<exists>w'. coroutine_function load path name w = (Inl e, w') \<and>
    fst (coroutine_function load path name w') = Inr (unwrap found)"
  using assms by (simp add: coroutine_function_def import_file_def exec_file_def Let_def)

end
