(* ===== verification/SimArtifacts.thy ===== *)
theory SimArtifacts
  imports SimReport SimPage
begin

text \<open>
  The last pieces of \<open>src/simloop/_explore.py\<close>: what a report says of the tasks a run left pending,
  and the timeline page a failing seed leaves in a directory. A task is what \<open>asyncio.Task\<close> answers
  about it; the working directory and \<open>os.path.abspath\<close> are arguments, and directories are written
  with \<open>/\<close>.
\<close>

section \<open>Pending tasks\<close>

record frame =
  fr_name :: string
  fr_file :: string
  fr_line :: int

record task_view =
  tv_done :: bool
  tv_name :: string
  tv_stack :: "frame list"

definition short_path :: "string \<Rightarrow> string \<Rightarrow> string" where
  "short_path cwd filename =
     (if take (Suc (length cwd)) filename = cwd @ [CHR ''/''] then drop (Suc (length cwd)) filename else filename)"

definition pending_task_of :: "string \<Rightarrow> hostname \<Rightarrow> task_view \<Rightarrow> pending_task" where
  "pending_task_of cwd host t =
     (let (awaiting, place) = (if tv_stack t = [] then (''?'', ''?'')
        else let fr = last (tv_stack t) in (fr_name fr, short_path cwd (fr_file fr) @ '':'' @ str_int (fr_line fr)))
      in \<lparr>pt_host = host, pt_name = tv_name t, pt_awaiting = awaiting, pt_where = place\<rparr>)"

definition pending_tasks :: "string \<Rightarrow> (hostname, task_view list) dict \<Rightarrow> pending_task list" where
  "pending_tasks cwd tasks =
     concat (map (\<lambda>(host, ts). map (pending_task_of cwd host) (filter (\<lambda>t. \<not> tv_done t) ts)) tasks)"

section \<open>The timeline file\<close>

definition DEFAULT_LIMIT :: int where "DEFAULT_LIMIT = 5000"

definition timeline_path :: "string \<Rightarrow> int \<Rightarrow> string" where
  \<comment> \<open>\<open>os.path.join\<close> of a directory and the page's name\<close>
  "timeline_path directory seed =
     (let name = ''simloop-timeline-seed'' @ str_int seed @ ''.html'' in
      if directory = [] \<or> last directory = CHR ''/'' then directory @ name else directory @ ''/'' @ name)"

record page_parts =
  \<comment> \<open>the constants of the page and how a float prints\<close>
  pp_repr :: "time \<Rightarrow> string"
  pp_css :: string
  pp_legend :: string
  pp_js :: string

definition write_timeline ::
    "page_parts \<Rightarrow> (string \<Rightarrow> string) \<Rightarrow> string \<Rightarrow> (string \<Rightarrow> bool) \<Rightarrow> 'd seed_report \<Rightarrow> string \<Rightarrow> (string, string) dict \<Rightarrow>
     (exn + string) \<times> (string, string) dict" where
  \<comment> \<open>\<open>writable\<close>: the directory and the file can be created; the last component is the file system.
      \<open>open(path, "w")\<close> has emptied the file when the page cannot be drawn\<close>
  "write_timeline parts abspath cwd writable report directory fs =
     (let path = timeline_path directory (sr_seed report) in
      if \<not> writable path then (Inl OSError, fs)
      else case timeline_html (pp_repr parts) (pp_css parts) (pp_legend parts) (pp_js parts) (sr_trace report) (Some DEFAULT_LIMIT) of
          Inl e \<Rightarrow> (Inl e, dict_set (abspath path) [] fs)
        | Inr page \<Rightarrow> (Inr (short_path cwd (abspath path)), dict_set (abspath path) page fs))"

section \<open>What they tell\<close>

lemma short_path_leads_back:
  \<comment> \<open>seen from the working directory, the short path names the same file\<close>
  "short_path cwd filename \<noteq> filename \<Longrightarrow> cwd @ [CHR ''/''] @ short_path cwd filename = filename"
proof -
  assume "short_path cwd filename \<noteq> filename"
  then have "take (Suc (length cwd)) filename = cwd @ [CHR ''/'']" by (auto simp: short_path_def split: if_splits)
  moreover from this have "short_path cwd filename = drop (Suc (length cwd)) filename" by (simp add: short_path_def)
  ultimately show ?thesis by (metis append.assoc append_take_drop_id)
qed

lemma pending_tasks_exactly:
  "(\<exists>p\<in>set (pending_tasks cwd tasks). pt_host p = host \<and> pt_name p = name) \<longleftrightarrow>
     (\<exists>ts t. (host, ts) \<in> set tasks \<and> t \<in> set ts \<and> \<not> tv_done t \<and> tv_name t = name)"
proof -
  have "pt_host (pending_task_of cwd h t) = h \<and> pt_name (pending_task_of cwd h t) = tv_name t" for h t
    by (simp add: pending_task_of_def split: prod.split)
  then show ?thesis by (force simp: pending_tasks_def)
qed

lemma timeline_path_inject: "timeline_path d seed = timeline_path d seed' \<longleftrightarrow> seed = seed'"
proof
  assume "timeline_path d seed = timeline_path d seed'"
  then have "str_int seed = str_int seed'" by (simp add: timeline_path_def Let_def split: if_splits)
  then show "seed = seed'" by (metis option.inject read_str_int)
qed simp

lemma pages_of_different_seeds_stay:
  assumes "inj abspath" and "sr_seed r \<noteq> sr_seed r'"
  shows "dict_get (snd (write_timeline parts abspath cwd writable r' d fs)) (abspath (timeline_path d (sr_seed r))) =
    dict_get fs (abspath (timeline_path d (sr_seed r)))"
  using assms by (auto simp: write_timeline_def Let_def timeline_path_inject inj_eq split: sum.split)

lemma pages_of_one_seed_collide:
  \<comment> \<open>two tests that fail at the same seed: the second page takes the first one's place\<close>
  assumes "sr_seed r = sr_seed r'" and "writable (timeline_path d (sr_seed r'))"
    and "timeline_html (pp_repr parts) (pp_css parts) (pp_legend parts) (pp_js parts) (sr_trace r') (Some DEFAULT_LIMIT) = Inr page"
  shows "dict_get (snd (write_timeline parts abspath cwd writable r' d fs)) (abspath (timeline_path d (sr_seed r))) = Some page"
  using assms by (simp add: write_timeline_def Let_def)

end
