(* ===== verification/SimProbes.thy ===== *)
theory SimProbes
  imports SimFormat "HOL-Library.Char_ord" "HOL-Library.List_Lexorder" "HOL-Library.Product_Lexorder"
begin

text \<open>
  \<open>probes/_runner.py\<close> and \<open>probes/report.py\<close>: the verdict on one run of a third-party library under the
  loop, and the table of verdicts. What a probe does is an argument: the text it returns or the
  exception it ends with.
\<close>

section \<open>Exceptions and fences\<close>

datatype err = Err (er_type: string) (er_text: string) (er_fence: bool) (er_nested: "err list")
  (er_cause: "err option") (er_context: "err option")
  \<comment> \<open>\<open>er_nested\<close> is empty unless it is an exception group; chains are finite\<close>

fun first_fence :: "err \<Rightarrow> err option" and first_fence_of :: "err list \<Rightarrow> err option" and first_fence_if :: "err option \<Rightarrow> err option" where
  "first_fence (Err name message fenced nested cause context) =
     (if fenced then Some (Err name message fenced nested cause context)
      else case first_fence_of nested of
          Some f \<Rightarrow> Some f
        | None \<Rightarrow> (case cause of Some e \<Rightarrow> first_fence e | None \<Rightarrow> first_fence_if context))"
| "first_fence_of [] = None"
| "first_fence_of (e # es) = (case first_fence e of Some f \<Rightarrow> Some f | None \<Rightarrow> first_fence_of es)"
| "first_fence_if None = None"
| "first_fence_if (Some e) = first_fence e"

definition describe_error :: "err \<Rightarrow> string" where
  "describe_error e = (if er_text e \<noteq> [] then er_type e @ '': '' @ er_text e else er_type e)"

section \<open>One verdict\<close>

datatype probe_end =
    Returns string
  | Raises err bool \<comment> \<open>whether it is a \<open>TimeoutError\<close> and the budget's own timeout had expired\<close>

datatype verdict_end = Verdict string | Propagates err

definition bounded_end :: "string \<Rightarrow> probe_end \<Rightarrow> string + err" where
  \<comment> \<open>the argument is the budget as printed\<close>
  "bounded_end budget p =
     (case p of
        Returns t \<Rightarrow> Inl t
      | Raises e expired \<Rightarrow>
          if expired
          then Inr (Err ''BudgetExceeded'' (''still running after '' @ budget @ ''s'') False [] (Some e) (Some e))
          else Inr e)"

definition run_probe :: "string \<Rightarrow> probe_end \<Rightarrow> verdict_end" where
  "run_probe budget p =
     (case bounded_end budget p of
        Inl t \<Rightarrow> Verdict (''works: '' @ t)
      | Inr e \<Rightarrow>
          if er_type e \<in> {''KeyboardInterrupt'', ''SystemExit''} then Propagates e
          else (case first_fence e of
              Some f \<Rightarrow> Verdict (''fenced: '' @ er_text f)
            | None \<Rightarrow> Verdict (''fails: '' @ describe_error e)))"

section \<open>The table\<close>

record probe_row =
  pr_tier :: int
  pr_library :: string
  pr_version :: string
  pr_verdict :: string
  pr_notes :: string

definition probe_version :: "(string \<Rightarrow> string option) \<Rightarrow> string option \<Rightarrow> string" where
  \<comment> \<open>the argument is what \<open>importlib.metadata\<close> knows\<close>
  "probe_version installed distribution =
     (case distribution of
        None \<Rightarrow> ''n/a''
      | Some d \<Rightarrow> (case installed d of Some v \<Rightarrow> v | None \<Rightarrow> ''not installed''))"

definition collect_rows :: "probe_row list \<Rightarrow> probe_row list" where
  "collect_rows rows = sort_key (\<lambda>r. (pr_tier r, pr_library r)) rows"

definition table_cell :: "string \<Rightarrow> string" where
  "table_cell t = concat (map (\<lambda>c. if c = CHR ''|'' then [CHR 0x5C, CHR ''|''] else [c]) t)"

definition COLUMNS :: "string list" where "COLUMNS = [''Library'', ''Version'', ''Verdict'', ''Notes'']"

definition table_row :: "probe_row \<Rightarrow> string" where
  "table_row r = ''| '' @ table_cell (pr_library r) @ '' | '' @ table_cell (pr_version r) @ '' | '' @
     table_cell (pr_verdict r) @ '' | '' @ table_cell (pr_notes r) @ '' |''"

definition probe_table :: "probe_row list \<Rightarrow> string" where
  "probe_table rows =
     join [CHR 0x0A] ((''| '' @ join '' | '' COLUMNS @ '' |'') # (''|'' @ concat (replicate (length COLUMNS) ''---|'')) # map table_row rows)"

section \<open>A verdict names a fence whenever there is one to find\<close>

inductive inside :: "err \<Rightarrow> err \<Rightarrow> bool" where
  \<comment> \<open>what an error is, groups, or was raised from; the context counts only without a cause\<close>
  inside_self: "inside e e"
| inside_group: "g \<in> set (er_nested e) \<Longrightarrow> inside g f \<Longrightarrow> inside e f"
| inside_cause: "er_cause e = Some g \<Longrightarrow> inside g f \<Longrightarrow> inside e f"
| inside_context: "er_cause e = None \<Longrightarrow> er_context e = Some g \<Longrightarrow> inside g f \<Longrightarrow> inside e f"

lemma first_fence_sound:
  "first_fence e = Some f \<Longrightarrow> inside e f \<and> er_fence f"
  "first_fence_of es = Some f \<Longrightarrow> \<exists>e\<in>set es. inside e f \<and> er_fence f"
  "first_fence_if oe = Some f \<Longrightarrow> \<exists>e. oe = Some e \<and> inside e f \<and> er_fence f"
proof (induction e and es and oe rule: first_fence_first_fence_of_first_fence_if.induct)
  case (1 nm msg fenced nested reason origin)
  show ?case
  proof (cases fenced)
    case True
    with 1(4) show ?thesis by (auto intro: inside_self)
  next
    case False
    with 1 show ?thesis
      by (auto split: option.splits intro: inside_group inside_cause inside_context)
  qed
qed (auto split: option.splits)

lemma first_fence_of_None: "first_fence_of es = None \<longleftrightarrow> (\<forall>e\<in>set es. first_fence e = None)"
  by (induction es) (auto split: option.splits)

lemma first_fence_complete: "inside e f \<Longrightarrow> er_fence f \<Longrightarrow> first_fence e \<noteq> None"
proof (induction rule: inside.induct)
  case (inside_self e)
  then show ?case by (cases e) simp
next
  case (inside_group g e f)
  then have "first_fence_of (er_nested e) \<noteq> None" by (auto simp: first_fence_of_None)
  then show ?case by (cases e) (auto split: option.splits)
next
  case (inside_cause e g f)
  then show ?case by (cases e) (auto split: option.splits)
next
  case (inside_context e g f)
  then show ?case by (cases e) (auto split: option.splits)
qed

lemma verdict_finds_the_fence:
  assumes "bounded_end budget p = Inr e" and "er_type e \<notin> {''KeyboardInterrupt'', ''SystemExit''}"
  shows "(\<exists>f. inside e f \<and> er_fence f \<and> run_probe budget p = Verdict (''fenced: '' @ er_text f)) \<or>
    (\<forall>f. inside e f \<longrightarrow> \<not> er_fence f) \<and> run_probe budget p = Verdict (''fails: '' @ describe_error e)"
proof (cases "first_fence e")
  case None
  then show ?thesis using assms first_fence_complete [of e] by (auto simp: run_probe_def)
next
  case (Some f)
  then show ?thesis using assms first_fence_sound(1) [OF Some] by (auto simp: run_probe_def)
qed

lemma table_cell_has_bars_escaped:
  \<comment> \<open>no cell ends a column\<close>
  "table_cell t = pre @ CHR ''|'' # post \<Longrightarrow> pre \<noteq> [] \<and> last pre = CHR 0x5C"
proof (induction t arbitrary: pre)
  case (Cons c t)
  show ?case
  proof (cases "c = CHR ''|''")
    case True
    with Cons.prems have "[CHR 0x5C, CHR ''|''] @ table_cell t = pre @ CHR ''|'' # post" by (simp add: table_cell_def)
    then show ?thesis using Cons.IH by (cases pre; cases "tl pre") (auto simp: Cons_eq_append_conv)
  next
    case False
    with Cons.prems have "c # table_cell t = pre @ CHR ''|'' # post" by (simp add: table_cell_def)
    then show ?thesis using False Cons.IH by (cases pre) auto
  qed
qed (simp add: table_cell_def)

lemma line_break_splits_a_row:
  \<comment> \<open>an error message of two lines is put into the table as it is, and ends its row\<close>
  "CHR 0x0A \<in> set (er_text e) \<Longrightarrow> pr_verdict r = ''fails: '' @ describe_error e \<Longrightarrow> CHR 0x0A \<in> set (table_row r)"
proof -
  assume "CHR 0x0A \<in> set (er_text e)" "pr_verdict r = ''fails: '' @ describe_error e"
  then have "CHR 0x0A \<in> set (pr_verdict r)" by (auto simp: describe_error_def)
  then have "CHR 0x0A \<in> set (table_cell (pr_verdict r))" by (force simp: table_cell_def)
  then show ?thesis by (simp add: table_row_def)
qed

end
