(* ===== verification/Spec2Isabelle.thy ===== *)
theory Spec2Isabelle
  imports SimNetInv SimReassembly SimRunOnce SimReport SimSurface SimPage JobLiveness JobQueue JobWire
    RaftStale RaftServe SimAblations SimWorker SimArtifacts SimProbes
begin

text \<open>
  A verification of simloop, a deterministic simulation of the \<open>asyncio\<close> event loop, and of the two
  programs its repository ships to be tested under it: a job queue and a Raft peer.

  \<^bold>\<open>The program.\<close> A simulated loop runs ordinary \<open>asyncio\<close> code on a virtual clock. Whenever several
  callbacks are ready, a scheduling policy seeded by one integer picks which runs next, and the picks
  are recorded, so a run can be replayed from its seed or from its record. Sockets, disks and host
  names are simulated too: packets take a drawn latency, links drop or hold them, hosts crash and
  restart, disks lose what was not synced. Around the loop, \<open>explore\<close> runs a test under many seeds,
  in this process or in several; a failing schedule is shrunk by delta debugging; two runs of one
  schedule are compared, a trace is drawn as a timeline, and a pytest plugin passes options down and
  prints the command that replays a failure.

  \<^bold>\<open>Foundations.\<close>
  \<^item> \<open>SimPrelude\<close>: times, exceptions, calls that may raise, dictionaries in insertion order, and the
    collections of simplification and introduction rules the other theories use.
  \<^item> \<open>SimText\<close>, \<open>SimFormat\<close>: numbers and texts as Python prints them. \<open>SimRandom\<close>: \<open>random.Random\<close> as a
    tape of raw values, one per draw.
  \<^item> \<open>SimTrace\<close> (\<open>_trace.py\<close>): the event record and the text its hash is taken of, which determines
    the events.

  \<^bold>\<open>The loop.\<close>
  \<^item> \<open>SimPolicy\<close> (\<open>_policy.py\<close>): the seeded, scripted and PCT policies. Locale \<open>scheduling_policy\<close> is
    the protocol: a choice is an index of the ready queue and keeps the policy's invariant;
    \<open>length_driven_policy\<close> adds that only the queue's length matters. The three policies and their
    sum, which the loop holds, interpret them.
  \<^item> \<open>SimLoop\<close> (\<open>_loop.py\<close>): the record \<open>loop\<close> holds the attributes of \<open>SimLoop\<close> (clock, timer heap,
    ready queue, policy, choice log, trace recorder, flags), and there is one definition per method.
    \<open>loop_step\<close> is \<open>_step\<close>: \<open>advance_clock\<close> when nothing is ready, one choice, one callback.
    \<open>run_forever\<close> and \<open>run_until_complete\<close> are the two entry points.
  \<^item> \<open>SimLoopInv\<close>: the scheduling invariant, under every call a callback may make (\<open>api_step\<close>).
  \<^item> \<open>SimLoopRun\<close>: steps and runs. Locale \<open>loop_client\<close> is what the loop relies on of the code it runs,
    \<open>policy_blind_client\<close> that this code does not look at the policy. Under the first every run
    keeps the invariant; under the second a run is a function of its choices.

  \<^bold>\<open>The network.\<close>
  \<^item> \<open>SimDisk\<close> (\<open>SimDisk\<close> in \<open>_net.py\<close>): durable contents, a journal of buffered writes and what a
    crash leaves. Locale \<open>crash_storage\<close> is the contract of such a storage.
  \<^item> \<open>SimNetState\<close>, \<open>SimTransport\<close>, \<open>SimNet\<close> (\<open>_net.py\<close>, \<open>_transports.py\<close>): the record \<open>net\<close> extends
    \<open>loop\<close> with what \<open>SimNetwork\<close> keeps. First hosts, addresses, links and configuration; then the
    packet pipeline and the operations of transports; then delivery, dispatch in sequence order,
    connecting, crash and restart.
  \<^item> \<open>SimProgram\<close>: the code under simulation, as a strategy that looks at the public state and picks
    the next call of the API. \<open>SimSystem\<close> puts loop, network and program together.
  \<^item> \<open>SimStable\<close>, \<open>SimBlind\<close>: locales \<open>stable_pred\<close>, \<open>stable_upcalls\<close>, \<open>stable_delivery\<close> lift a
    property every operation keeps, and \<open>private_update\<close>, \<open>blind_upcalls\<close>, \<open>blind_delivery\<close> a part
    of the state no operation looks at, to every handler and every program. \<open>SimSystem\<close> interprets
    them, and with them \<open>policy_blind_client\<close>, on the model.
  \<^item> \<open>SimRuns\<close>: what holds of whole runs (exact replay, conservation of callbacks, time, verdicts,
    skewed clocks). \<open>SimNetInv\<close>: locale \<open>net_invariant\<close>, interpreted for the host registry, the
    transport registry and what only grows. \<open>SimReassembly\<close>: locale \<open>ordered_dispatch\<close> and the
    in-order dispatch of streams.

  \<^bold>\<open>Searching.\<close>
  \<^item> \<open>SimShrink\<close>, \<open>SimShrinkSpec\<close> (\<open>_shrink.py\<close>): the search over schedules and its specification.
    \<open>fails\<close> says whether a schedule still fails in the same way; \<open>probe\<close> counts the runs and keeps the best schedule.
    Locale \<open>search_invariant\<close> lifts what a probe keeps through all passes, \<open>search_oracle\<close> is what
    the passes rely on of a probe, and \<open>funded_search\<close> adds the budget.
  \<^item> \<open>SimRunOnce\<close> (\<open>_run.py\<close>, the end of \<open>_shrink.py\<close>): one run from boot to teardown, the replay of a
    candidate on the loop, which returns the failure, lets an exception through or does not end
    (\<open>replayed\<close>), and the labels of the steps kept.
  \<^item> \<open>SimParallel\<close> (\<open>_parallel.py\<close>): batches, the frontier and the pool, whose turns are the relation
    \<open>pool_turn\<close>: workers finish in any order. \<open>SimExplore\<close> (\<open>_explore.py\<close>): running seeds, the PCT
    horizon, the report, and the first difference of two traces.
  \<^item> \<open>SimSession\<close> (\<open>sim_test\<close> in \<open>_explore.py\<close>, \<open>_pytest_plugin.py\<close>): options from the command line to
    the decorator. \<open>SimReport\<close>: the text of a report, and its replay command read back as a shell and
    pytest read it.
  \<^item> \<open>SimWorker\<close> (\<open>_parallel.py\<close>): how a worker process loads a test. \<open>SimArtifacts\<close> (\<open>_explore.py\<close>): the
    tasks a report lists as pending, and the timeline page written for a failure.
  \<^item> \<open>SimTimeline\<close>, \<open>SimPage\<close> (\<open>_timeline.py\<close>): sorting a trace into lanes, dots, marks and packets and
    where each is drawn; the lines of the page and its markup.
  \<^item> \<open>SimSurface\<close>: what the loop refuses (\<open>_loop.py\<close>), the TLS wrapper around a handshake (\<open>_tls.py\<close>)
    and the facade (\<open>_sim.py\<close>).

  \<^bold>\<open>The examples.\<close>
  \<^item> \<open>JobStore\<close>, \<open>JobBroker\<close>, \<open>JobLiveness\<close>, \<open>JobQueue\<close>, \<open>JobWire\<close> (\<open>examples/jobqueue\<close>): the effect store,
    the job state machine with its timers (\<open>broker_step\<close>) and its progress, the queue of broker, store, workers and clients
    over a network that loses, repeats and delays messages (\<open>queue_step\<close>), and the frames.
  \<^item> \<open>RaftStorage\<close>, \<open>RaftNode\<close>, \<open>RaftElection\<close>, \<open>RaftLog\<close> (\<open>examples/raft\<close>): the record a peer keeps
    (locale \<open>raft_storage\<close>, interpreted on both storages, the second on the simulated disk of
    \<open>SimDisk\<close>), one peer with its coroutines cut at their awaits, a cluster (\<open>cluster_step\<close>), and the
    log.
  \<^item> \<open>RaftRun\<close>, \<open>RaftInvariant\<close>, \<open>RaftSafety\<close>: runs in which every message was sent by the code
    (\<open>raft_step\<close>, each of whose steps is one of \<open>cluster_step\<close>) with history variables, the invariant
    \<open>raft_inv\<close> behind Raft's safety, and that every step keeps it but one in which a peer accepts the
    push of a deposed leader (recorded in \<open>hi_misled\<close>). \<open>RaftPlay\<close>: the runs as an interpreter of moves, for
    concrete runs. \<open>RaftChecks\<close> (\<open>examples/raft/tests/checks.py\<close>): the suite's four checks, what they decide,
    and when runs pass them. \<open>RaftDurable\<close>: committed entries last. \<open>RaftStale\<close>: a run in which such a push
    makes a peer commit an entry and lose it. \<open>RaftServe\<close>: one connection of a node, and the
    tear-down that keeps a dead node from touching the storage.
  \<^item> \<open>SimCampaign\<close>, \<open>SimAblations\<close> (\<open>benchmarks/campaign.py\<close>): long sweeps with a checkpoint. A run is the
    list of its effects (\<open>Say\<close>, \<open>WriteScratch\<close>, \<open>Replace\<close>); a killed run is a prefix of it, and
    \<open>green_files\<close> and \<open>abl_files\<close> are what any number of killed runs may leave on the disk.
  \<^item> \<open>SimProbes\<close> (\<open>probes/_runner.py\<close>, \<open>probes/report.py\<close>): the verdict on a library run under the loop,
    and the table of verdicts.

  \<^bold>\<open>What is shown.\<close>
  \<^item> Determinism: replaying the recorded choices gives the same run, event for event; scripted
    policies and the reported divergence behave as documented; equal hashes mean equal traces.
  \<^item> The loop: every callback is pending, run or cancelled, once; the clock moves only forward and to
    the earliest live deadline; a run that returns normally hides no failure; PCT runs the leader.
  \<^item> The network: each stream direction is dispatched in order; registries stay consistent; names and
    addresses are inverse; a skewed clock does not change durations; a crashed disk reads as it did at
    a moment since the last sync.
  \<^item> The search: a shrunk schedule fails in the same way (the same type, the same first 80 characters of the
    message), also on the loop; delta debugging ends, and
    ends 1-minimal when two steps or more are kept; parallel search and report are the sequential
    ones; the printed command, read back, reproduces the failure; nothing in a trace is left off the
    timeline, and no text in it can change the page's markup.
  \<^item> The examples: every job has at most one effect, is never lost, and does not wait for ever on a silent worker; no term has two leaders; the
    four safety claims of the Raft example (election safety, log matching, leader completeness,
    state-machine safety) hold, and a committed entry is there for good, across power losses, in every
    run in which no peer accepts the push of a deposed leader; a node that was torn down answers nothing; a stored record is never torn; a leader commits the greatest index it may; a reader gets
    exactly the whole frames.
  \<^item> The campaigns: a sweep killed and resumed at will ends with the exit code and the checkpoint of the
    whole range, the ablations record every failing seed once, and the stability run replays a fair
    sample and passes only when nothing diverged.

  \<^bold>\<open>Bounds and fuel.\<close> A run may last for ever, so \<open>run_while\<close> takes fuel, one unit a step, and ends with
  \<open>Finished\<close> or \<open>OutOfFuel\<close>. Statements about runs hold for every amount of fuel, so they hold of every
  state a run passes through. A program has a budget of calls for the same reason, and is quantified
  over likewise. \<open>drain_early\<close> takes as fuel the number of packets waiting in the queue, which no drain exceeds, as
  each round takes one out. Bisection and delta debugging recurse on measures. The budget of
  runs is the code's own; how much of it is enough is a hypothesis of the theorems that need it: two
  probes per binary digit of the length for the two bisections, a cubic number for delta debugging. A pool makes at most one turn per batch.

  \<^bold>\<open>What is assumed.\<close> Parameters stand for what is not in the repository: the raw output of the random
  generator, SHA-256 and \<open>repr\<close> of a float (one-to-one where hashes are compared), \<open>json\<close> (reads back
  what it printed), the answers of the file system and of pytest, and the program under test.

  \<^bold>\<open>Not modelled.\<close>
  \<^item> Rounding: finite floats are rationals. Texts of error messages, except where the shrinker compares
    them. Integers are Python's and unbounded; the one fixed width, the two bytes of a recorded
    choice, is checked as the code checks it.
  \<^item> Futures and tasks are \<open>asyncio\<close>'s: they appear by what they ask of the loop.
  \<^item> The descriptor of a \<open>_SimSocket\<close> is whether its held end is open; its option and teardown calls,
    which do nothing, are left out.
  \<^item> The TLS handshake and its records belong to the \<open>ssl\<close> module.
  \<^item> The style sheet, script and legend of the page, which are constants; what \<open>pickle\<close> accepts, the
    starting of worker processes, and what executing a module does, which is an argument.
  \<^item> The job queue's connections, which read and answer requests in a loop: they are the delivery of an
    arbitrary request to the broker. The loops of worker and node that sleep between their steps.
  \<^item> The scenarios of the campaign script, which are workloads, and its command-line parser beyond its
    defaults and the check of its numbers.
  \<^item> Exceptions that are not test failures (\<open>KeyboardInterrupt\<close>, \<open>SystemExit\<close>) in the explorer: the
    \<open>workload\<close> of \<open>SimExplore\<close> ends or fails. Failures of the worker pool in the campaign script: \<open>scanned\<close>
    is what the workers find.
  \<^item> The other benchmarks, which time the library, the probes' calls of other packages, and
    documentation scripts.

  \<^bold>\<open>What modelling showed.\<close>
  \<^item> The printed replay command leaves out an option equal to its default even when the decorator says
    otherwise (\<open>replay_command_forgets_override\<close> in \<open>SimSession\<close>).
  \<^item> The command puts the test id between quotes as it is, so an id that holds a quote breaks it
    (\<open>quoted_test_id_breaks_command\<close> in \<open>SimReport\<close>).
  \<^item> A Raft leader's push wakes and sends without checking that it still leads, so it sends entries of
    newer terms in its old one (\<open>stale_push_is_not_ok\<close> in \<open>RaftLog\<close>). A peer that accepts them can lose
    what it has committed (\<open>stale_push_loses_a_commit\<close> in \<open>RaftStale\<close>): the statements on Raft runs have
    the condition that no peer has.
  \<^item> A host named like another host's address is shadowed by it (\<open>address_named_host_is_shadowed\<close> in
    \<open>SimNetInv\<close>).
  \<^item> Delta debugging does not try to drop the last step it keeps, so one step need not be minimal
    (\<open>ddmin_single_step_not_minimal\<close> in \<open>SimShrinkSpec\<close>).
  \<^item> A writer does not enforce the frame limit its reader enforces (\<open>oversized_frame_is_refused\<close> in
    \<open>JobWire\<close>).
  \<^item> The campaign script forgets unexpected failures it saw before it was killed, so a resumed sweep may
    exit with 0 (\<open>resumed_sweep_forgets\<close> in \<open>SimAblations\<close>), and its check for unknown ablations can
    never fire (\<open>sample_mem\<close>).
  \<^item> A test file that raised while a worker imported it stays registered half-executed, and the worker's
    next seed runs it (\<open>failed_import_is_hidden\<close> in \<open>SimWorker\<close>).
  \<^item> Two tests that fail at one seed write their timelines to the same path
    (\<open>pages_of_one_seed_collide\<close> in \<open>SimArtifacts\<close>).
  \<^item> The table of compatibility verdicts escapes bars but not line breaks (\<open>line_break_splits_a_row\<close> in
    \<open>SimProbes\<close>).
  \<^item> The broker's module text lets a queued job become dead; the code only buries a leased one.
\<close>

end
